(* ===== verification/Prelude.thy ===== *)
theory Prelude
  imports Main "HOL-Library.Word"
begin

text \<open>
  Shared vocabulary of the development: the machine types of the C code, byte and word
  views of a buffer (the code fills 32- and 64-bit arrays through \<open>unsigned char *\<close>),
  \<open>memcpy\<close> into the middle of a buffer, splitting a message into blocks, and the bit
  lemmas the component proofs rest on.  Facts about views are collected in
  \<open>byte_views\<close>, facts about list surgery in \<open>splice\<close>.
\<close>

unbundle bit_operations_syntax

named_theorems byte_views \<open>lengths and inverses of the byte and word views of a buffer\<close>
named_theorems splice \<open>lengths and parts of spliced lists\<close>

type_synonym u8 = "8 word"
type_synonym u16 = "16 word"
type_synonym u32 = "32 word"
type_synonym u64 = "64 word"

section \<open>Lists: splicing and blocks\<close>

text \<open>\<open>memcpy(dst + i, src, n)\<close> on a buffer, as a list.\<close>

definition poke :: "nat \<Rightarrow> 'a list \<Rightarrow> 'a list \<Rightarrow> 'a list" where
  "poke i src dst = take i dst @ src @ drop (i + length src) dst"

lemma length_poke [simp, splice]:
  "i + length src \<le> length dst \<Longrightarrow> length (poke i src dst) = length dst"
  by (simp add: poke_def)

lemma take_poke [simp, splice]:
  "i + length src \<le> length dst \<Longrightarrow> n = i + length src \<Longrightarrow>
    take n (poke i src dst) = take i dst @ src"
  by (simp add: poke_def)

lemma take_poke_le [splice]:
  "n \<le> i \<Longrightarrow> i \<le> length dst \<Longrightarrow> take n (poke i src dst) = take n dst"
  by (simp add: poke_def min_def)

lemma poke_full:
  "length src = length dst \<Longrightarrow> poke 0 src dst = src"
  by (simp add: poke_def)

lemma poke_poke_take:
  "i + length src = length dst \<Longrightarrow> poke i src dst = take i dst @ src"
  by (simp add: poke_def)

lemma drop_append_add [splice]: "length xs = a \<Longrightarrow> drop (a + k) (xs @ ys) = drop k ys"
  by simp

text \<open>The full blocks of \<open>n\<close> elements at the front of a list; a shorter rest is dropped.\<close>

function chunks :: "nat \<Rightarrow> 'a list \<Rightarrow> 'a list list" where
  "chunks n xs = (if n = 0 \<or> length xs < n then [] else take n xs # chunks n (drop n xs))"
  by pat_completeness auto
termination
  by (relation "measure (\<lambda>(n, xs). length xs)") auto

declare chunks.simps [simp del]

lemma chunks_short [simp]: "length xs < n \<Longrightarrow> chunks n xs = []"
  by (subst chunks.simps) simp

lemma chunks_Nil [simp]: "chunks n [] = []"
  by (subst chunks.simps) auto

lemma chunks_append1 [simp]:
  "0 < n \<Longrightarrow> length xs = n \<Longrightarrow> chunks n (xs @ ys) = xs # chunks n ys"
  by (subst chunks.simps) simp

lemma chunks_exact: "0 < n \<Longrightarrow> length xs = n \<Longrightarrow> chunks n xs = [xs]"
  using chunks_append1 [of n xs "[]"] by simp

lemma chunks_append:
  assumes "0 < n" and "n dvd length xs"
  shows "chunks n (xs @ ys) = chunks n xs @ chunks n ys"
  using assms
proof (induction n xs rule: chunks.induct)
  case (1 n xs)
  show ?case
  proof (cases "length xs < n")
    case True
    with 1 show ?thesis by (cases "xs = []") (auto dest: dvd_imp_le)
  next
    case False
    with 1 have "chunks n (drop n xs @ ys) = chunks n (drop n xs) @ chunks n ys"
      by simp
    moreover have "chunks n (xs @ ys) = take n xs # chunks n (drop n xs @ ys)"
      using False 1 by (subst chunks.simps) simp
    moreover have "chunks n xs = take n xs # chunks n (drop n xs)"
      using False 1 by (subst chunks.simps) simp
    ultimately show ?thesis by simp
  qed
qed

text \<open>Appending to a message whose last block is incomplete only touches that rest.\<close>

lemma chunks_rest:
  assumes n: "0 < n"
  shows "chunks n (m @ x) = chunks n m @ chunks n (drop (n * (length m div n)) m @ x)"
proof -
  let ?full = "take (n * (length m div n)) m" and ?rest = "drop (n * (length m div n)) m"
  have fl: "length ?full = n * (length m div n)" by (simp add: min_absorb2)
  have "chunks n (?full @ ?rest) = chunks n ?full @ chunks n ?rest"
    using fl by (intro chunks_append [OF n]) simp
  moreover have "length ?rest < n" using n by (simp add: minus_mult_div_eq_mod)
  ultimately have "chunks n m = chunks n ?full" by simp
  moreover have "chunks n (?full @ ?rest @ x) = chunks n ?full @ chunks n (?rest @ x)"
    using fl by (intro chunks_append [OF n]) simp
  moreover have "m @ x = ?full @ ?rest @ x" by simp
  ultimately show ?thesis by (simp only:)
qed

lemma length_chunks: "length (chunks n xs) = length xs div n"
proof (induction n xs rule: chunks.induct)
  case (1 n xs)
  then show ?case
    by (subst chunks.simps) (auto simp: le_div_geq)
qed

lemma chunks_nth:
  "i < length xs div n \<Longrightarrow> chunks n xs ! i = take n (drop (n * i) xs)"
proof (induction n xs arbitrary: i rule: chunks.induct)
  case (1 n xs)
  from 1(2) have "\<not> (n = 0 \<or> length xs < n)"
    by (cases "n = 0") (auto simp: div_eq_0_iff)
  then show ?case
    using 1 by (subst chunks.simps) (cases i, auto simp: le_div_geq add.commute)
qed

lemma length_in_chunks: "c \<in> set (chunks n xs) \<Longrightarrow> length c = n"
  by (induction n xs rule: chunks.induct) (subst (asm) (2) chunks.simps, auto split: if_splits)

lemma concat_chunks:
  "n dvd length xs \<Longrightarrow> 0 < n \<Longrightarrow> concat (chunks n xs) = xs"
proof (induction n xs rule: chunks.induct)
  case (1 n xs)
  then show ?case
    by (subst chunks.simps) (auto dest: dvd_imp_le)
qed

lemma chunks_concat:
  "0 < n \<Longrightarrow> \<forall>c \<in> set cs. length c = n \<Longrightarrow> chunks n (concat cs) = cs"
  by (induction cs) auto

section \<open>Bytes and words\<close>

text \<open>The bytes of a word, most significant first, and back.\<close>

definition be_bytes :: "'a::len word \<Rightarrow> u8 list" where
  "be_bytes w = map (\<lambda>k. ucast (drop_bit (8 * k) w)) (rev [0..<LENGTH('a) div 8])"

definition be_word :: "u8 list \<Rightarrow> 'a::len word" where
  "be_word bs = foldl (\<lambda>acc b. push_bit 8 acc OR ucast b) 0 bs"

text \<open>The bytes in the order a little-endian machine stores them.\<close>

definition le_bytes :: "'a::len word \<Rightarrow> u8 list" where
  "le_bytes w = map (\<lambda>k. ucast (drop_bit (8 * k) w)) [0..<LENGTH('a) div 8]"

definition le_word :: "u8 list \<Rightarrow> 'a::len word" where
  "le_word bs = be_word (rev bs)"

lemma le_bytes_rev: "le_bytes w = rev (be_bytes w)"
  by (simp add: le_bytes_def be_bytes_def rev_map)

lemma length_be_bytes [simp, byte_views]:
  "length (be_bytes (w :: 'a::len word)) = LENGTH('a) div 8"
  by (simp add: be_bytes_def)

lemma length_le_bytes [simp, byte_views]:
  "length (le_bytes (w :: 'a::len word)) = LENGTH('a) div 8"
  by (simp add: le_bytes_def)

lemma be_bytes_nth:
  "k < LENGTH('a) div 8 \<Longrightarrow>
    be_bytes (w :: 'a::len word) ! k = ucast (drop_bit (8 * (LENGTH('a) div 8 - 1 - k)) w)"
  by (simp add: be_bytes_def rev_nth)

lemma word_bytes_pos: "8 dvd LENGTH('a::len) \<Longrightarrow> 0 < LENGTH('a) div 8"
  using dvd_imp_le [of 8 "LENGTH('a)"] by simp

lemma bit_be_bytes:
  fixes w :: "'a::len word"
  assumes "j < 8" and "LENGTH('a) = 8 * n" and "k < n"
  shows "bit (be_bytes w ! k) j \<longleftrightarrow> bit w (8 * (n - 1 - k) + j)"
proof -
  have "be_bytes w ! k = ucast (drop_bit (8 * (n - 1 - k)) w)"
    using assms by (simp add: be_bytes_nth)
  then show ?thesis
    using assms by (simp only: bit_ucast_iff bit_drop_bit_eq) simp
qed

lemma bit_be_word:
  "bit (be_word bs :: 'a::len word) i \<longleftrightarrow>
    i < LENGTH('a) \<and> i < 8 * length bs \<and> bit (bs ! (length bs - 1 - i div 8)) (i mod 8)"
proof (induction bs arbitrary: i rule: rev_induct)
  case Nil
  then show ?case by (simp add: be_word_def)
next
  case (snoc b bs)
  have "bit (be_word (bs @ [b]) :: 'a word) i \<longleftrightarrow>
      (8 \<le> i \<and> i < LENGTH('a) \<and> bit (be_word bs :: 'a word) (i - 8)) \<or> (i < LENGTH('a) \<and> bit b i)"
    by (auto simp: be_word_def bit_or_iff bit_push_bit_iff bit_ucast_iff dest: bit_imp_le_length)
  also have "\<dots> \<longleftrightarrow> i < LENGTH('a) \<and> i < 8 * length (bs @ [b]) \<and>
      bit ((bs @ [b]) ! (length (bs @ [b]) - 1 - i div 8)) (i mod 8)"
  proof (cases "i < 8")
    case True
    then show ?thesis by auto
  next
    case False
    then obtain j where j: "i = j + 8" by (metis add.commute le_add_diff_inverse not_less)
    have "\<not> bit b i" using False by (auto dest: bit_imp_le_length)
    moreover have "j < 8 * length bs \<Longrightarrow> length bs - Suc (j div 8) < length bs"
      by (cases bs) auto
    moreover have "(j + 8) div 8 = Suc (j div 8)" by simp
    ultimately show ?thesis
      using j by (auto simp: snoc.IH nth_append simp del: add_2_eq_Suc')
  qed
  finally show ?case .
qed

lemma be_bytes_be_word [simp, byte_views]:
  assumes "length bs = LENGTH('a) div 8"
  shows "be_bytes (be_word bs :: 'a::len word) = bs"
proof (rule nth_equalityI)
  show "length (be_bytes (be_word bs :: 'a word)) = length bs"
    using assms by simp
next
  fix k assume "k < length (be_bytes (be_word bs :: 'a word))"
  then have k: "k < length bs" using assms by simp
  show "be_bytes (be_word bs :: 'a word) ! k = bs ! k"
  proof (rule bit_word_eqI)
    fix j assume "j < LENGTH(8)"
    then have j: "j < 8" by simp
    have lt: "8 * (length bs - 1 - k) + j < LENGTH('a)" and
      lt2: "8 * (length bs - 1 - k) + j < 8 * length bs"
      using j k assms by auto
    have idx: "length bs - 1 - (8 * (length bs - 1 - k) + j) div 8 = k"
      using j k by simp
    show "bit (be_bytes (be_word bs :: 'a word) ! k) j = bit (bs ! k) j"
      using j k lt lt2 idx assms
      by (simp add: be_bytes_nth bit_ucast_iff bit_drop_bit_eq bit_be_word)
  qed
qed

lemma be_word_be_bytes [simp, byte_views]:
  assumes "8 dvd LENGTH('a)"
  shows "be_word (be_bytes (w :: 'a::len word)) = w"
proof (rule bit_word_eqI)
  fix i assume i: "i < LENGTH('a)"
  obtain n where n: "LENGTH('a) = 8 * n" using assms by (auto simp: dvd_def)
  have "i div 8 < n" using i n by auto
  then have "be_bytes w ! (n - 1 - i div 8) = ucast (drop_bit (8 * (i div 8)) w)"
    using n by (simp add: be_bytes_nth)
  then show "bit (be_word (be_bytes w) :: 'a word) i = bit w i"
    using i n by (simp add: bit_be_word bit_ucast_iff bit_drop_bit_eq)
qed

lemma le_bytes_le_word [simp, byte_views]:
  "length bs = LENGTH('a) div 8 \<Longrightarrow> le_bytes (le_word bs :: 'a::len word) = bs"
  by (simp add: le_bytes_rev le_word_def)

lemma le_word_le_bytes [simp, byte_views]:
  "8 dvd LENGTH('a) \<Longrightarrow> le_word (le_bytes (w :: 'a::len word)) = w"
  by (simp add: le_bytes_rev le_word_def)

section \<open>Buffers of words seen as bytes\<close>

text \<open>
  \<open>be_view\<close> reads an array of words most significant byte first (the order the hash
  functions define), \<open>le_view\<close> in the order of a little-endian machine's memory.
\<close>

definition be_view :: "'a::len word list \<Rightarrow> u8 list" where
  "be_view ws = concat (map be_bytes ws)"

definition le_view :: "'a::len word list \<Rightarrow> u8 list" where
  "le_view ws = concat (map le_bytes ws)"

text \<open>The words of a byte string, most significant byte first.\<close>

definition be_words :: "u8 list \<Rightarrow> 'a::len word list" where
  "be_words bs = map be_word (chunks (LENGTH('a) div 8) bs)"

text \<open>\<open>memcpy((unsigned char * )ws + i, src, n)\<close> on a little-endian machine.\<close>

definition memcpy_words :: "nat \<Rightarrow> u8 list \<Rightarrow> 'a::len word list \<Rightarrow> 'a word list" where
  "memcpy_words i src ws = map le_word (chunks (LENGTH('a) div 8) (poke i src (le_view ws)))"

lemma length_be_view [simp, byte_views]:
  "length (be_view (ws :: 'a::len word list)) = (LENGTH('a) div 8) * length ws"
  by (induction ws) (simp_all add: be_view_def)

lemma length_le_view [simp, byte_views]:
  "length (le_view (ws :: 'a::len word list)) = (LENGTH('a) div 8) * length ws"
  by (induction ws) (simp_all add: le_view_def)

lemma be_view_append: "be_view (xs @ ys) = be_view xs @ be_view ys"
  by (simp add: be_view_def)

lemma be_view_Cons: "be_view (x # xs) = be_bytes x @ be_view xs"
  by (simp add: be_view_def)

lemma be_view_Nil [simp]: "be_view [] = []"
  by (simp add: be_view_def)

lemma be_words_be_view [byte_views]:
  assumes "8 dvd LENGTH('a)"
  shows "be_words (be_view (ws :: 'a::len word list)) = ws"
proof -
  have "0 < LENGTH('a) div 8"
    using assms by (rule word_bytes_pos)
  then have "chunks (LENGTH('a) div 8) (be_view ws) = map be_bytes ws"
    unfolding be_view_def by (intro chunks_concat) auto
  then show ?thesis
    using assms by (simp add: be_words_def comp_def)
qed

lemma le_view_memcpy_words [byte_views]:
  fixes ws :: "'a::len word list"
  assumes "8 dvd LENGTH('a)" and "i + length src \<le> (LENGTH('a) div 8) * length ws"
  shows "le_view (memcpy_words i src ws) = poke i src (le_view ws)"
proof -
  have pos: "0 < LENGTH('a) div 8"
    using assms(1) by (rule word_bytes_pos)
  have len: "length (poke i src (le_view ws)) = (LENGTH('a) div 8) * length ws"
    using assms by simp
  have "map le_bytes (memcpy_words i src ws) = chunks (LENGTH('a) div 8) (poke i src (le_view ws))"
    unfolding memcpy_words_def map_map comp_def
    by (rule map_idI) (auto dest: length_in_chunks)
  then have "le_view (memcpy_words i src ws) = concat (chunks (LENGTH('a) div 8) (poke i src (le_view ws)))"
    by (simp add: le_view_def)
  also have "\<dots> = poke i src (le_view ws)"
    using len pos by (intro concat_chunks) simp_all
  finally show ?thesis .
qed

lemma length_memcpy_words [simp, byte_views]:
  fixes ws :: "'a::len word list"
  assumes "8 dvd LENGTH('a)" and "i + length src \<le> (LENGTH('a) div 8) * length ws"
  shows "length (memcpy_words i src ws) = length ws"
proof -
  have pos: "0 < LENGTH('a) div 8"
    using assms(1) by (rule word_bytes_pos)
  then show ?thesis
    using assms by (simp add: memcpy_words_def length_chunks)
qed

lemma be_view_list_update:
  fixes ws :: "'a::len word list"
  assumes "j < length ws"
  shows "be_view (ws[j := w]) = poke ((LENGTH('a) div 8) * j) (be_bytes w) (be_view ws)"
proof -
  have split: "be_view xs = be_view (take j xs) @ be_bytes (xs ! j) @ be_view (drop (Suc j) xs)"
    if "j < length xs" for xs :: "'a word list"
    using that by (metis be_view_append be_view_Cons id_take_nth_drop append_assoc)
  from split [of "ws[j := w]"] split [of ws] assms
  show ?thesis by (simp add: poke_def)
qed

lemma bit_128_iff: "bit (128 :: 'a::len word) i \<longleftrightarrow> i = 7 \<and> 7 < LENGTH('a)"
proof -
  have "(128 :: 'a word) = push_bit 7 1" by simp
  then show ?thesis by (simp only: bit_push_bit_iff bit_1_iff) auto
qed

text \<open>Keeping the first \<open>r\<close> bytes of a word and setting the next bit, as the hash
  functions' padding does with a shifted mask.\<close>

lemma be_bytes_pad:
  fixes w mask :: "'a::len word"
  assumes dvd: "8 dvd LENGTH('a)" and r: "r < LENGTH('a) div 8"
    and mask: "\<And>j. j < LENGTH('a) \<Longrightarrow> j \<noteq> 7 \<Longrightarrow> bit mask j \<longleftrightarrow> 8 \<le> j"
  shows "be_bytes ((w AND push_bit (8 * (LENGTH('a) div 8 - 1 - r)) mask)
      OR push_bit (8 * (LENGTH('a) div 8 - 1 - r)) 128) =
    take r (be_bytes w) @ [128] @ replicate (LENGTH('a) div 8 - 1 - r) 0"
    (is "be_bytes ?v = ?bs")
proof (rule nth_equalityI)
  show "length (be_bytes ?v) = length ?bs" using r by simp
next
  fix k assume "k < length (be_bytes ?v)"
  then have k: "k < LENGTH('a) div 8" by simp
  show "be_bytes ?v ! k = ?bs ! k"
  proof (rule bit_word_eqI)
    fix j assume "j < LENGTH(8)"
    then have j: "j < 8" by simp
    obtain n where n: "LENGTH('a) = 8 * n" using dvd by (auto simp: dvd_def)
    have lhs: "bit (be_bytes ?v ! k) j \<longleftrightarrow> bit ?v (8 * (n - 1 - k) + j)"
      using j k n by (simp only: bit_be_bytes)
    have lt: "8 * (n - 1 - k) + j < LENGTH('a)" using j k n by auto
    have low: "bit (be_bytes w ! k) j \<longleftrightarrow> bit w (8 * (n - 1 - k) + j)"
      using j k n by (simp only: bit_be_bytes)
    define e where "e = 8 * (n - 1 - k) + j"
    define s where "s = 8 * (n - 1 - r)"
    have v: "bit ?v e \<longleftrightarrow> s \<le> e \<and> e < LENGTH('a) \<and>
        (bit w e \<and> bit mask (e - s) \<or> e - s = 7 \<and> 7 < LENGTH('a))"
      using n by (auto simp: s_def bit_or_iff bit_and_iff bit_push_bit_iff bit_128_iff
          simp del: bit_numeral_word_iff dest: bit_imp_le_length)
    consider "k < r" | "k = r" | "r < k" by linarith
    then show "bit (be_bytes ?v ! k) j = bit (?bs ! k) j"
    proof cases
      case 1
      then have "s + 8 \<le> e" using r n by (auto simp: s_def e_def)
      then have "bit ?v e \<longleftrightarrow> bit w e"
        using v lt mask [of "e - s"] by (auto simp: e_def)
      then show ?thesis
        using 1 r n lhs low by (simp add: nth_append e_def)
    next
      case 2
      then have "e = s + j" by (simp add: s_def e_def)
      then have "bit ?v e \<longleftrightarrow> j = 7"
        using v lt mask [of j] j by (auto simp: e_def)
      then show ?thesis
        using 2 r n lhs by (simp add: nth_append e_def bit_128_iff del: bit_numeral_word_iff)
    next
      case 3
      then have "e < s" using j k n by (auto simp: s_def e_def)
      then have "\<not> bit ?v e" using v by simp
      moreover have "?bs ! k = 0" using 3 k r by (simp add: nth_append)
      ultimately show ?thesis using lhs by (simp add: e_def)
    qed
  qed
qed

section \<open>Rotations written with two shifts\<close>

lemma rotr_shifts:
  fixes x :: "'a::len word"
  assumes "n < LENGTH('a)"
  shows "drop_bit n x OR push_bit (LENGTH('a) - n) x = word_rotr n x"
proof (rule bit_word_eqI)
  fix k assume k: "k < LENGTH('a)"
  show "bit (drop_bit n x OR push_bit (LENGTH('a) - n) x) k = bit (word_rotr n x) k"
  proof (cases "k + n < LENGTH('a)")
    case True
    then show ?thesis
      by (auto simp: bit_word_rotr_iff bit_or_iff bit_push_bit_iff bit_drop_bit_eq add.commute)
  next
    case False
    then have "(k + n) mod LENGTH('a) = k + n - LENGTH('a)"
      using k assms by (simp add: mod_if)
    then show ?thesis
      using False k assms
      by (auto simp: bit_word_rotr_iff bit_or_iff bit_push_bit_iff bit_drop_bit_eq add.commute
          dest: bit_imp_le_length)
  qed
qed

lemma rotl_shifts:
  fixes x :: "'a::len word"
  assumes "0 < n" and "n < LENGTH('a)"
  shows "push_bit n x OR drop_bit (LENGTH('a) - n) x = word_rotl n x"
  using rotr_shifts [of "LENGTH('a) - n" x] assms
  by (simp add: word_rotl_eq_word_rotr or.commute)

end
