(* ===== verification/Md_Buffer.thy ===== *)
theory Md_Buffer
  imports Prelude
begin

text \<open>
  What \<open>sha1.c\<close> and \<open>sha2.c\<close> share: the context structure (a double-word byte counter,
  the chaining value, a 16-word buffer), the byte swapping of the buffer, the padding of
  the last block, and the interface \<open>md_hash\<close> between a compression function and the
  streaming code around it.  Inside the locale it is shown once that feeding a message in
  pieces and finishing computes the chaining value of the padded message.
\<close>

section \<open>The context\<close>

record 'w sha_ctx =
  cnt_lo :: 'w
  cnt_hi :: 'w
  hash :: "'w list"
  wbuf :: "'w list"

text \<open>\<open>bsw_32(p, n)\<close> and \<open>bsw_64(p, n)\<close>: the byte swap \<open>f\<close> on the first \<open>n\<close> words.\<close>

definition bsw :: "('w \<Rightarrow> 'w) \<Rightarrow> nat \<Rightarrow> 'w list \<Rightarrow> 'w list" where
  "bsw f n p = map f (take n p) @ drop n p"

text \<open>\<open>while(i < n) wbuf[i++] = 0;\<close>\<close>

function zero_words :: "nat \<Rightarrow> nat \<Rightarrow> 'a::len word list \<Rightarrow> 'a word list" where
  "zero_words i n ws = (if i < n then zero_words (Suc i) n (ws[i := 0]) else ws)"
  by pat_completeness auto
termination
  by (relation "measure (\<lambda>(i, n, ws). n - i)") auto

declare zero_words.simps [simp del]

lemma length_bsw [simp]: "length (bsw f n p) = length p"
  by (simp add: bsw_def min_def)

lemma zero_words_eq:
  "i \<le> n \<Longrightarrow> n \<le> length ws \<Longrightarrow> zero_words i n ws = take i ws @ replicate (n - i) 0 @ drop n ws"
proof (induction i n ws rule: zero_words.induct)
  case (1 i n ws)
  show ?case
  proof (cases "i < n")
    case True
    then have "zero_words i n ws = take (Suc i) (ws[i := 0]) @ replicate (n - Suc i) 0 @ drop n (ws[i := 0])"
      using 1 by (subst zero_words.simps) simp
    also have "\<dots> = take i ws @ replicate (n - i) 0 @ drop n ws"
      using True 1 by (simp add: take_Suc_conv_app_nth flip: replicate_Suc)
    finally show ?thesis .
  next
    case False
    with 1 show ?thesis by (subst zero_words.simps) simp
  qed
qed

lemma length_zero_words [simp]:
  "i \<le> n \<Longrightarrow> n \<le> length ws \<Longrightarrow> length (zero_words i n ws) = length ws"
  by (simp add: zero_words_eq)

section \<open>Numbers as big-endian bytes\<close>

definition be_nat :: "nat \<Rightarrow> nat \<Rightarrow> u8 list" where
  "be_nat k n = map (\<lambda>i. word_of_nat (n div 256 ^ i)) (rev [0..<k])"

lemma length_be_nat [simp]: "length (be_nat k n) = k"
  by (simp add: be_nat_def)

lemma be_nat_append: "be_nat (a + b) n = be_nat a (n div 256 ^ b) @ be_nat b n"
proof -
  have "[0..<a + b] = [0..<b] @ map (\<lambda>i. i + b) [0..<a]"
    unfolding map_add_upt using upt_add_eq_append [of 0 b a] by (simp add: add.commute)
  moreover have "n div 256 ^ (i + b) = n div 256 ^ b div 256 ^ i" for i
    by (simp add: power_add div_mult2_eq [symmetric] mult.commute)
  ultimately show ?thesis
    unfolding be_nat_def by (simp only: rev_append map_append rev_map map_map comp_def)
qed

lemma mod_mult_div: "0 < a \<Longrightarrow> n mod (a * b) div a = n div a mod (b :: nat)"
  by (simp add: mod_mult2_eq)

lemma be_nat_mod: "be_nat k (n mod 256 ^ k) = be_nat k n"
proof -
  have "(word_of_nat (n mod 256 ^ k div 256 ^ i) :: u8) = word_of_nat (n div 256 ^ i)"
    if "i < k" for i
  proof -
    from \<open>i < k\<close> obtain d where k: "k = i + Suc d" by (auto dest: less_imp_Suc_add)
    have "n mod 256 ^ k div 256 ^ i = n div 256 ^ i mod 256 ^ Suc d"
      unfolding k power_add by (rule mod_mult_div) simp
    moreover have "n div 256 ^ i mod 256 ^ Suc d mod 256 = n div 256 ^ i mod 256"
      by (rule mod_mod_cancel) simp
    moreover have "(2::nat) ^ LENGTH(8) = 256" by simp
    ultimately show ?thesis
      by (simp only: word_of_nat_eq_iff take_bit_eq_mod)
  qed
  then show ?thesis by (simp add: be_nat_def)
qed

lemma be_bytes_eq_be_nat: "be_bytes (w :: 'a::len word) = be_nat (LENGTH('a) div 8) (unat w)"
proof -
  have "(ucast (drop_bit (8 * k) w) :: u8) = word_of_nat (unat w div 256 ^ k)" for k
  proof -
    have "(ucast (drop_bit (8 * k) w) :: u8) = word_of_nat (unat (drop_bit (8 * k) w))"
      by (simp only: of_nat_unat)
    also have "unat (drop_bit (8 * k) w) = unat w div 2 ^ (8 * k)"
      by (simp only: unat_drop_bit_eq) (rule drop_bit_eq_div)
    also have "(2::nat) ^ (8 * k) = 256 ^ k"
      by (simp only: power_mult) simp
    finally show ?thesis .
  qed
  then show ?thesis by (simp only: be_bytes_def be_nat_def)
qed

text \<open>The two words \<open>(hi << 3) | (lo >> (w - 3))\<close> and \<open>lo << 3\<close> hold eight times the counter.\<close>

lemma length_field:
  fixes lo hi :: "'a::len word"
  assumes dvd: "8 dvd LENGTH('a)"
    and n: "unat lo + 2 ^ LENGTH('a) * unat hi = n mod 2 ^ (2 * LENGTH('a))"
  shows "be_bytes (push_bit 3 hi OR drop_bit (LENGTH('a) - 3) lo) @ be_bytes (push_bit 3 lo) =
    be_nat (2 * (LENGTH('a) div 8)) (8 * n)"
proof -
  let ?W = "LENGTH('a)"
  let ?N = "unat lo + 2 ^ ?W * unat hi"
  have W: "256 ^ (?W div 8) = (2::nat) ^ ?W"
  proof -
    have "(256::nat) ^ (?W div 8) = (2 ^ 8) ^ (?W div 8)" by simp
    then show ?thesis using dvd by (simp only: power_mult [symmetric] dvd_mult_div_cancel)
  qed
  have "8 \<le> ?W" using dvd by (simp add: dvd_imp_le)
  have split3: "(2::nat) ^ ?W = 2 ^ (?W - 3) * 8"
  proof -
    have "(2::nat) ^ ?W = 2 ^ ((?W - 3) + 3)" using \<open>8 \<le> ?W\<close> by simp
    then show ?thesis by (simp only: power_add) simp
  qed
  have lo3: "unat (push_bit 3 lo) = 8 * ?N mod 2 ^ ?W"
  proof -
    have "8 * ?N = 8 * unat lo + 2 ^ ?W * (8 * unat hi)" by (simp add: algebra_simps)
    moreover have "unat (push_bit 3 lo) = 8 * unat lo mod 2 ^ ?W"
      by (simp only: unsigned_push_bit_eq) (simp add: push_bit_eq_mult take_bit_eq_mod mult.commute)
    ultimately show ?thesis by (simp only: mod_mult_self2)
  qed
  have disj: "push_bit 3 hi OR drop_bit (?W - 3) lo = push_bit 3 hi + drop_bit (?W - 3) lo"
  proof (rule disjunctive_add [symmetric])
    show "\<not> bit (push_bit 3 hi) k \<or> \<not> bit (drop_bit (?W - 3) lo) k" for k
      using \<open>8 \<le> ?W\<close> by (auto simp: bit_push_bit_iff bit_drop_bit_eq dest: bit_imp_le_length)
  qed
  have div3: "8 * ?N div 2 ^ ?W = 8 * unat hi + unat lo div 2 ^ (?W - 3)"
  proof -
    have "8 * ?N = 8 * unat lo + 2 ^ ?W * (8 * unat hi)" by (simp add: algebra_simps)
    then have "8 * ?N div 2 ^ ?W = 8 * unat hi + 8 * unat lo div 2 ^ ?W"
      by (simp only: div_mult_self2) simp
    also have "8 * unat lo div 2 ^ ?W = unat lo div 2 ^ (?W - 3)"
      unfolding split3 by (simp add: mult.commute [of _ 8])
    finally show ?thesis .
  qed
  have hi3: "unat (push_bit 3 hi OR drop_bit (?W - 3) lo) = (8 * ?N div 2 ^ ?W) mod 2 ^ ?W"
    unfolding disj div3
    by (simp only: unat_word_ariths unsigned_push_bit_eq unat_drop_bit_eq)
      (simp add: push_bit_eq_mult take_bit_eq_mod drop_bit_eq_div mod_add_left_eq mult.commute)
  have "be_nat (2 * (?W div 8)) (8 * ?N) =
      be_nat (?W div 8) (8 * ?N div 2 ^ ?W) @ be_nat (?W div 8) (8 * ?N)"
    using be_nat_append [of "?W div 8" "?W div 8" "8 * ?N"] by (simp add: W mult_2)
  also have "\<dots> = be_nat (?W div 8) ((8 * ?N div 2 ^ ?W) mod 2 ^ ?W) @ be_nat (?W div 8) (8 * ?N mod 2 ^ ?W)"
    using be_nat_mod [of "?W div 8"] by (simp add: W)
  finally have "be_bytes (push_bit 3 hi OR drop_bit (?W - 3) lo) @ be_bytes (push_bit 3 lo) =
      be_nat (2 * (?W div 8)) (8 * ?N)"
    by (simp add: be_bytes_eq_be_nat lo3 hi3)
  also have "\<dots> = be_nat (2 * (?W div 8)) (8 * ?N mod 256 ^ (2 * (?W div 8)))"
    by (simp add: be_nat_mod)
  also have "8 * ?N mod 256 ^ (2 * (?W div 8)) = 8 * n mod 256 ^ (2 * (?W div 8))"
  proof -
    have "(256::nat) ^ (2 * (?W div 8)) = 2 ^ (2 * ?W)"
      by (simp add: power_mult W power_even_eq mult.commute [of 2])
    then show ?thesis by (simp add: n mod_mult_right_eq)
  qed
  finally show ?thesis by (simp add: be_nat_mod)
qed

section \<open>Padding the last block\<close>

text \<open>
  The padded message of FIPS 180-4 for words of \<open>wb\<close> bytes: a one bit, zeros up to
  fourteen words of the last block, and the bit length in the last two words.
\<close>

definition md_pad :: "nat \<Rightarrow> u8 list \<Rightarrow> u8 list" where
  "md_pad wb m = m @ [128] @ replicate ((30 * wb - 1 - length m mod (16 * wb)) mod (16 * wb)) 0
     @ be_nat (2 * wb) (8 * length m)"

text \<open>
  The shape of \<open>sha1_end\<close>, \<open>sha_end1\<close> and \<open>sha_end2\<close>, which differ in the word size
  (\<open>wb\<close> bytes), the compression, the byte swap and the mask only.
\<close>

definition md_finish ::
  "('a::len word sha_ctx \<Rightarrow> 'a word sha_ctx) \<Rightarrow> ('a word \<Rightarrow> 'a word) \<Rightarrow> 'a word \<Rightarrow>
    'a word sha_ctx \<Rightarrow> 'a word sha_ctx" where
  "md_finish compile swap msk c =
    (let wb = LENGTH('a) div 8;
         i = unat (cnt_lo c) mod (16 * wb);
         ws = bsw swap ((i + (wb - 1)) div wb) (wbuf c);
         sh = 8 * (wb - 1 - i mod wb);
         ws = ws[i div wb := ws ! (i div wb) AND push_bit sh msk];
         ws = ws[i div wb := ws ! (i div wb) OR push_bit sh 128];
         c = c\<lparr>wbuf := ws\<rparr>;
         (c, k) = (if 14 * wb \<le> i
                   then (compile (c\<lparr>wbuf := if i < 15 * wb then ws[15 := 0] else ws\<rparr>), 0)
                   else (c, i div wb + 1));
         ws = zero_words k 14 (wbuf c);
         ws = ws[14 := push_bit 3 (cnt_hi c) OR drop_bit (LENGTH('a) - 3) (cnt_lo c)];
         ws = ws[15 := push_bit 3 (cnt_lo c)]
     in compile (c\<lparr>wbuf := ws\<rparr>))"

lemma le_mult_ceil: "0 < b \<Longrightarrow> i \<le> b * ((i + (b - 1)) div (b :: nat))"
  using mult_div_mod_eq [of b "i + (b - 1)"] mod_less_divisor [of b "i + (b - 1)"] by linarith

lemma be_view_nth:
  fixes ws :: "'a::len word list"
  assumes "j < length ws"
  shows "be_bytes (ws ! j) = take (LENGTH('a) div 8) (drop ((LENGTH('a) div 8) * j) (be_view ws))"
proof -
  have "be_view ws = be_view (take j ws) @ be_bytes (ws ! j) @ be_view (drop (Suc j) ws)"
    using assms by (metis be_view_append be_view_Cons id_take_nth_drop)
  then have "drop ((LENGTH('a) div 8) * j) (be_view ws) = be_bytes (ws ! j) @ be_view (drop (Suc j) ws)"
    using assms by simp
  then show ?thesis by simp
qed

lemma be_view_bsw:
  fixes ws :: "'a::len word list"
  assumes swap: "\<And>w. be_bytes (swap w) = le_bytes w" and i: "i \<le> (LENGTH('a) div 8) * n" "n \<le> length ws"
  shows "take i (be_view (bsw swap n ws)) = take i (le_view ws)"
proof -
  have "be_view (bsw swap n ws) = le_view (take n ws) @ be_view (drop n ws)"
    using swap by (simp add: bsw_def be_view_def le_view_def comp_def)
  moreover have "le_view ws = le_view (take n ws) @ le_view (drop n ws)"
    unfolding le_view_def concat_append [symmetric] map_append [symmetric] by simp
  ultimately show ?thesis using i by (simp add: min_def)
qed

text \<open>Masking and setting the padding bit keeps the first \<open>i\<close> bytes and clears the rest of
  the word after it.\<close>

lemma be_view_pad_bit:
  fixes ws :: "'a::len word list"
  assumes dvd: "8 dvd LENGTH('a)" and i: "i < (LENGTH('a) div 8) * length ws"
    and mask: "\<And>j. j < LENGTH('a) \<Longrightarrow> j \<noteq> 7 \<Longrightarrow> bit msk j \<longleftrightarrow> 8 \<le> j"
    and wb: "wb = LENGTH('a) div 8" and sh: "sh = 8 * (wb - 1 - i mod wb)"
  shows "take (wb * (i div wb + 1))
      (be_view (ws[i div wb := (ws ! (i div wb) AND push_bit sh msk) OR push_bit sh 128])) =
    take i (be_view ws) @ [128] @ replicate (wb - 1 - i mod wb) 0"
proof -
  let ?j = "i div wb"
  have wb0: "0 < wb" using word_bytes_pos [OF dvd] wb by simp
  have j: "?j < length ws"
    using i wb wb0 by (simp add: less_mult_imp_div_less mult.commute)
  let ?v = "(ws ! ?j AND push_bit sh msk) OR push_bit sh 128"
  have bv: "be_bytes ?v = take (i mod wb) (be_bytes (ws ! ?j)) @ [128] @ replicate (wb - 1 - i mod wb) 0"
    unfolding sh wb using dvd mask wb0 wb by (intro be_bytes_pad) auto
  have "be_view (ws[?j := ?v]) = poke (wb * ?j) (be_bytes ?v) (be_view ws)"
    using j wb by (simp add: be_view_list_update)
  moreover have "wb * ?j + wb \<le> wb * length ws"
    using j by (metis Suc_leI add.commute mult_Suc_right mult_le_mono2)
  ultimately have "take (wb * (?j + 1)) (be_view (ws[?j := ?v])) = take (wb * ?j) (be_view ws) @ be_bytes ?v"
    using wb by (simp add: take_poke)
  also have "\<dots> = take (wb * ?j + i mod wb) (be_view ws) @ [128] @ replicate (wb - 1 - i mod wb) 0"
    using wb0 unfolding bv be_view_nth [OF j] take_add wb [symmetric]
    by (simp add: min_def less_imp_le_nat)
  finally show ?thesis by simp
qed

lemma be_view_take:
  "be_view (take n ws) = take ((LENGTH('a) div 8) * n) (be_view (ws :: 'a::len word list))"
proof (cases "n \<le> length ws")
  case True
  have "be_view ws = be_view (take n ws) @ be_view (drop n ws)"
    by (metis append_take_drop_id be_view_append)
  with True show ?thesis by (simp add: min_absorb2)
qed simp

lemma be_view_zeros:
  "be_view (replicate n (0 :: 'a::len word)) = replicate ((LENGTH('a) div 8) * n) 0"
proof -
  have "be_bytes (0 :: 'a word) = replicate (LENGTH('a) div 8) 0"
    by (simp add: be_bytes_def map_replicate_const)
  then show ?thesis
    by (induction n) (simp_all add: be_view_Cons replicate_add add.commute)
qed

lemma set_last_two: "length zs = 14 \<Longrightarrow> (zs @ [u, v])[14 := x, 15 := y] = zs @ [x, y]"
  by (simp add: list_update_append)

lemma set_word_15: "length ws = 16 \<Longrightarrow> ws[15 := z] = take 15 ws @ [z]"
  by (simp add: upd_conv_take_nth_drop)

text \<open>How many zero bytes the padding writes: to the end of the word, then whole words.\<close>

lemma pad_zeros:
  assumes "0 < wb" and "i < wb * n"
  shows "(wb - 1 - i mod wb) + wb * (n - (i div wb + 1)) = wb * n - (1 :: nat) - i"
proof -
  have "i < n * wb" using assms(2) by (simp add: mult.commute)
  then have "i div wb < n" by (rule less_mult_imp_div_less)
  then obtain t where t: "n = i div wb + 1 + t"
    by (metis Suc_eq_plus1 add_Suc less_imp_Suc_add)
  have i: "wb * (i div wb) + i mod wb = i" by simp
  have r: "i mod wb < wb" using assms by simp
  have n: "wb * n = wb * (i div wb) + wb + wb * t" by (simp add: t algebra_simps)
  have "n - (i div wb + 1) = t" using t by simp
  moreover have "wb - 1 - i mod wb + wb * t = wb * n - 1 - i" using i r n by linarith
  ultimately show ?thesis by simp
qed

text \<open>Filling words \<open>k\<close> to 13 with zeros and setting the last two leaves the first \<open>k\<close> words.\<close>

lemma be_view_final_words:
  fixes ws :: "'a::len word list"
  assumes "length ws = 16" and "k \<le> 14"
  shows "be_view ((zero_words k 14 ws)[14 := x, 15 := y]) =
    take ((LENGTH('a) div 8) * k) (be_view ws) @ replicate ((LENGTH('a) div 8) * (14 - k)) 0 @
    be_bytes x @ be_bytes y"
proof -
  have "length (drop 14 ws) = Suc (Suc 0)" using assms by simp
  then obtain u v where uv: "drop 14 ws = [u, v]"
    by (auto simp only: length_Suc_conv length_0_conv)
  have "(zero_words k 14 ws)[14 := x, 15 := y] = take k ws @ replicate (14 - k) 0 @ [x, y]"
  proof -
    have "length (take k ws @ replicate (14 - k) 0) = 14" using assms by simp
    then have "((take k ws @ replicate (14 - k) 0) @ [u, v])[14 := x, 15 := y] =
        (take k ws @ replicate (14 - k) 0) @ [x, y]"
      by (rule set_last_two)
    then show ?thesis using assms by (simp add: zero_words_eq uv)
  qed
  then show ?thesis
    by (simp add: be_view_append be_view_Cons be_view_take be_view_zeros)
qed

section \<open>The digest\<close>

text \<open>\<open>hval[i] = (unsigned char)(hash[i / wb] >> (8 * (wb - 1 - i % wb)))\<close> for \<open>i < hlen\<close>.\<close>

definition digest_bytes :: "nat \<Rightarrow> 'a::len word list \<Rightarrow> u8 list" where
  "digest_bytes hlen h =
    (let wb = LENGTH('a) div 8
     in map (\<lambda>i. ucast (drop_bit (8 * (wb - 1 - i mod wb)) (h ! (i div wb)))) [0..<hlen])"

lemma digest_bytes_view:
  fixes h :: "'a::len word list"
  assumes "8 dvd LENGTH('a)" and "hlen \<le> (LENGTH('a) div 8) * length h"
  shows "digest_bytes hlen h = take hlen (be_view h)"
proof (rule nth_equalityI)
  let ?wb = "LENGTH('a) div 8"
  have wb: "0 < ?wb" using assms(1) by (rule word_bytes_pos)
  show "length (digest_bytes hlen h) = length (take hlen (be_view h))"
    using assms(2) by (simp add: digest_bytes_def Let_def min_absorb2)
  fix i assume "i < length (digest_bytes hlen h)"
  then have i: "i < hlen" by (simp add: digest_bytes_def Let_def)
  then have "i < length h * ?wb" using assms(2) by (simp add: mult.commute)
  then have j: "i div ?wb < length h" by (rule less_mult_imp_div_less)
  have r: "i mod ?wb < ?wb" using wb by simp
  have "take hlen (be_view h) ! i = be_view h ! (?wb * (i div ?wb) + i mod ?wb)"
    using i by simp
  also have "\<dots> = take ?wb (drop (?wb * (i div ?wb)) (be_view h)) ! (i mod ?wb)"
    using r j by (simp del: mult_div_mod_eq)
  also have "\<dots> = be_bytes (h ! (i div ?wb)) ! (i mod ?wb)"
    by (simp only: be_view_nth [OF j])
  finally show "digest_bytes hlen h ! i = take hlen (be_view h) ! i"
    using i r by (simp add: digest_bytes_def Let_def be_bytes_nth)
qed

section \<open>The message schedule in a ring of sixteen words\<close>

text \<open>
  The compression functions keep the last sixteen words of the schedule \<open>W\<close> in the buffer,
  word \<open>k\<close> at index \<open>k mod 16\<close>; before round \<open>t\<close> it holds the words up to \<open>max t 16\<close>.
\<close>

definition ring_holds :: "(nat \<Rightarrow> 'w) \<Rightarrow> nat \<Rightarrow> 'w list \<Rightarrow> bool" where
  "ring_holds W t w \<longleftrightarrow> length w = 16 \<and>
     (\<forall>k. k < max t 16 \<and> max t 16 \<le> k + 16 \<longrightarrow> w ! (k mod 16) = W k)"

lemma ring_holds_start:
  "length w = 16 \<Longrightarrow> (\<And>k. k < 16 \<Longrightarrow> W k = w ! k) \<Longrightarrow> ring_holds W 0 w"
  by (simp add: ring_holds_def)

lemma ring_holds_length: "ring_holds W t w \<Longrightarrow> length w = 16"
  by (simp add: ring_holds_def)

lemma ring_holds_first:
  "ring_holds W t w \<Longrightarrow> t < 16 \<Longrightarrow> w ! t = W t \<and> ring_holds W (Suc t) w"
  by (auto simp: ring_holds_def max_def split: if_splits)

lemma ring_holds_nth:
  assumes "ring_holds W t w" and "16 \<le> t" and "e < 16"
  shows "w ! ((t + e) mod 16) = W (t + e - 16)"
proof -
  have "(t + e) mod 16 = (t + e - 16) mod 16"
    using assms(2) by (simp add: le_mod_geq)
  then show ?thesis
    using assms by (simp add: ring_holds_def max_def)
qed

lemma ring_holds_step:
  assumes "ring_holds W t w" and "16 \<le> t"
  shows "ring_holds W (Suc t) (w[t mod 16 := W t])"
  unfolding ring_holds_def
proof (intro conjI allI impI)
  show "length (w[t mod 16 := W t]) = 16" using assms by (simp add: ring_holds_def)
next
  fix k assume k: "k < max (Suc t) 16 \<and> max (Suc t) 16 \<le> k + 16"
  show "w[t mod 16 := W t] ! (k mod 16) = W k"
  proof (cases "k = t")
    case True
    then show ?thesis using assms by (simp add: ring_holds_def)
  next
    case False
    then have "k < t" "t < k + 16" using k assms by auto
    then have "k mod 16 \<noteq> t mod 16"
      by (metis add_diff_cancel_left' dvd_imp_le le_add_diff_inverse less_imp_le_nat
          mod_eq_dvd_iff_nat nat_add_left_cancel_less not_le zero_less_diff)
    then show ?thesis
      using assms \<open>k < t\<close> \<open>t < k + 16\<close> by (simp add: ring_holds_def max_def)
  qed
qed

section \<open>The streaming interface\<close>

text \<open>
  A context represents the message \<open>m\<close> hashed so far: the chaining value is that of the full
  blocks, the buffer's memory begins with the rest of the message, and the two counter words
  hold its length.
\<close>

definition md_absorbed ::
  "nat \<Rightarrow> ('a::len word list \<Rightarrow> u8 list \<Rightarrow> 'a word list) \<Rightarrow> 'a word list \<Rightarrow> u8 list \<Rightarrow>
    'a word sha_ctx \<Rightarrow> bool" where
  "md_absorbed B compress h0 m c \<longleftrightarrow>
     length (wbuf c) = 16 \<and>
     hash c = foldl compress h0 (chunks B m) \<and>
     take (length m mod B) (le_view (wbuf c)) = drop (B * (length m div B)) m \<and>
     unat (cnt_lo c) + 2 ^ LENGTH('a) * unat (cnt_hi c) = length m mod 2 ^ (2 * LENGTH('a))"

text \<open>The carry from the low to the high counter word, as the code computes it.\<close>

lemma counter_add:
  fixes lo hi :: "'a::len word"
  assumes n: "unat lo + 2 ^ LENGTH('a) * unat hi = n mod 2 ^ (2 * LENGTH('a))"
    and d: "d < 2 ^ LENGTH('a)"
  shows "unat (lo + word_of_nat d) + 2 ^ LENGTH('a) *
      unat (if unat (lo + word_of_nat d) < d then hi + 1 else hi) = (n + d) mod 2 ^ (2 * LENGTH('a))"
proof -
  let ?M = "(2::nat) ^ LENGTH('a)"
  have lo: "unat lo < ?M" and hi: "unat hi < ?M" by simp_all
  have MM: "(2::nat) ^ (2 * LENGTH('a)) = ?M * ?M" by (simp add: mult_2 power_add)
  have unat_sum: "unat (lo + word_of_nat d) = (unat lo + d) mod ?M"
    using d by (simp add: unat_word_ariths unat_of_nat)
  have total: "(n + d) mod (?M * ?M) = (unat lo + ?M * unat hi + d) mod (?M * ?M)"
    using n unfolding MM by (simp add: mod_add_left_eq)
  show ?thesis
  proof (cases "unat lo + d < ?M")
    case True
    then have "unat lo + d + ?M * unat hi < ?M * ?M"
      using hi by (metis Suc_leI add.commute add_less_mono1 less_le_trans mult_Suc_right mult_le_mono2)
    with True show ?thesis
      unfolding MM total unat_sum by (simp add: algebra_simps)
  next
    case False
    then obtain e where e: "unat lo + d = ?M + e" "e < ?M"
      using lo d by (metis add_less_mono le_add_diff_inverse nat_add_left_cancel_less not_less)
    then have mod: "(unat lo + d) mod ?M = e" by simp
    have "e < d" using e lo by linarith
    moreover have "unat (hi + 1) = (unat hi + 1) mod ?M"
      by (simp add: unat_word_ariths)
    moreover have "unat lo + ?M * unat hi + d = e + ?M * (unat hi + 1)"
      using e(1) by (simp add: algebra_simps)
    moreover have "(e + ?M * (unat hi + 1)) mod (?M * ?M) = e + ?M * ((unat hi + 1) mod ?M)"
      using e(2) unfolding mod_mult2_eq by (simp only: div_mult_self2 mod_mult_self2) simp
    ultimately show ?thesis
      unfolding MM total unat_sum mod by (simp only: if_True)
  qed
qed

text \<open>
  The contract between a compression function \<open>compile\<close> on the context, its specification
  \<open>compress\<close> on a chaining value and a block, and the code's copy loop and update.
\<close>

locale md_hash =
  fixes wb B nh :: nat
    and compile :: "'a::len word sha_ctx \<Rightarrow> 'a word sha_ctx"
    and swap :: "'a word \<Rightarrow> 'a word"
    and msk :: "'a word"
    and compress :: "'a word list \<Rightarrow> u8 list \<Rightarrow> 'a word list"
    and loop :: "nat \<Rightarrow> u8 list \<Rightarrow> 'a word sha_ctx \<Rightarrow> 'a word sha_ctx"
    and update :: "u8 list \<Rightarrow> 'a word sha_ctx \<Rightarrow> 'a word sha_ctx"
  assumes word_len: "LENGTH('a) = 8 * wb"
    and block_len: "B = 16 * wb"
    and block_dvd: "\<exists>k. 2 ^ LENGTH('a) = B * k"
    and swap: "be_bytes (swap w) = le_bytes w"
    and msk: "j < LENGTH('a) \<Longrightarrow> j \<noteq> 7 \<Longrightarrow> bit msk j \<longleftrightarrow> 8 \<le> j"
    and compile: "length (wbuf c) = 16 \<Longrightarrow> length (hash c) = nh \<Longrightarrow>
      hash (compile c) = compress (hash c) (be_view (wbuf c)) \<and> length (wbuf (compile c)) = 16 \<and>
      cnt_lo (compile c) = cnt_lo c \<and> cnt_hi (compile c) = cnt_hi c"
    and compress_length: "length h = nh \<Longrightarrow> length b = B \<Longrightarrow> length (compress h b) = nh"
    and loop: "pos < B \<Longrightarrow> loop pos sp c =
      (if B - pos \<le> length sp
       then loop 0 (drop (B - pos) sp)
              (compile (c\<lparr>wbuf := bsw swap 16 (memcpy_words pos (take (B - pos) sp) (wbuf c))\<rparr>))
       else c\<lparr>wbuf := memcpy_words pos sp (wbuf c)\<rparr>)"
    and update: "update d c = loop (unat (cnt_lo c) mod B) d
      (c\<lparr>cnt_lo := cnt_lo c + word_of_nat (length d),
         cnt_hi := if unat (cnt_lo c + word_of_nat (length d)) < length d
                   then cnt_hi c + 1 else cnt_hi c\<rparr>)"
begin

lemma wb_pos: "0 < wb"
  using word_len len_gt_0 [where 'a = 'a] by (cases wb) simp_all

lemma B_pos: "0 < B"
  using wb_pos block_len by simp

lemma bytes_per_word: "LENGTH('a) div 8 = wb"
  by (simp add: word_len)

lemma word_dvd: "8 dvd LENGTH('a)"
  by (simp add: word_len)

lemma length_foldl_compress:
  "length h = nh \<Longrightarrow> \<forall>b \<in> set bs. length b = B \<Longrightarrow> length (foldl compress h bs) = nh"
  by (induction bs arbitrary: h) (simp_all add: compress_length)

lemma length_chain [simp]: "length h = nh \<Longrightarrow> length (foldl compress h (chunks B m)) = nh"
  by (rule length_foldl_compress) (auto dest: length_in_chunks)

text \<open>Filling the buffer and compiling it absorbs exactly the buffer's bytes.\<close>

lemma compile_block:
  assumes "length (wbuf c) = 16" and "length (hash c) = nh" and "pos + length bs = B"
  defines "c' \<equiv> compile (c\<lparr>wbuf := bsw swap 16 (memcpy_words pos bs (wbuf c))\<rparr>)"
  shows "hash c' = compress (hash c) (take pos (le_view (wbuf c)) @ bs)"
    and "length (wbuf c') = 16" and "cnt_lo c' = cnt_lo c" and "cnt_hi c' = cnt_hi c"
proof -
  let ?ws = "memcpy_words pos bs (wbuf c)"
  have len: "length ?ws = 16"
    using assms(1,3) by (simp add: bytes_per_word word_dvd block_len)
  have "take B (be_view (bsw swap 16 ?ws)) = take B (le_view ?ws)"
    by (rule be_view_bsw) (simp_all add: swap bytes_per_word block_len len)
  then have "be_view (bsw swap 16 ?ws) = le_view ?ws"
    by (simp add: bytes_per_word block_len len)
  also have "\<dots> = poke pos bs (le_view (wbuf c))"
    using assms(1,3) by (simp add: le_view_memcpy_words bytes_per_word word_dvd block_len)
  also have "\<dots> = take pos (le_view (wbuf c)) @ bs"
    using assms(1,3) by (simp add: poke_poke_take bytes_per_word block_len)
  finally have view: "be_view (bsw swap 16 ?ws) = take pos (le_view (wbuf c)) @ bs" .
  show "hash c' = compress (hash c) (take pos (le_view (wbuf c)) @ bs)"
    "length (wbuf c') = 16" "cnt_lo c' = cnt_lo c" "cnt_hi c' = cnt_hi c"
    unfolding c'_def using assms(2) len view
    by (simp_all add: compile)
qed

lemma loop_absorbs:
  assumes "length (wbuf c) = 16" and "length (hash c) = nh" and "pos < B"
  shows "length (wbuf (loop pos sp c)) = 16 \<and>
    (let m = take pos (le_view (wbuf c)) @ sp in
      hash (loop pos sp c) = foldl compress (hash c) (chunks B m) \<and>
      take (length m mod B) (le_view (wbuf (loop pos sp c))) = drop (B * (length m div B)) m) \<and>
    cnt_lo (loop pos sp c) = cnt_lo c \<and> cnt_hi (loop pos sp c) = cnt_hi c"
  using assms
proof (induction "length sp" arbitrary: sp pos c rule: less_induct)
  case less
  let ?m = "take pos (le_view (wbuf c)) @ sp"
  have le: "length (le_view (wbuf c)) = B"
    using less.prems by (simp add: bytes_per_word block_len)
  show ?case
  proof (cases "B - pos \<le> length sp")
    case True
    let ?bs = "take (B - pos) sp" and ?rest = "drop (B - pos) sp"
    let ?c = "compile (c\<lparr>wbuf := bsw swap 16 (memcpy_words pos ?bs (wbuf c))\<rparr>)"
    have full: "pos + length ?bs = B" using True less.prems by simp
    note blk = compile_block [OF less.prems(1,2) full]
    have h: "length (hash ?c) = nh"
      using blk(1) less.prems le full by (simp add: compress_length)
    have eq: "loop pos sp c = loop 0 ?rest ?c"
      using loop [OF less.prems(3), of sp c] True by simp
    have m: "?m = (take pos (le_view (wbuf c)) @ ?bs) @ ?rest" by simp
    have "length ?rest < length sp" using True less.prems by simp
    note IH = less.hyps [OF this blk(2) h B_pos]
    have lenm: "length ?m = B + length ?rest" using le full True by simp
    have "chunks B ?m = (take pos (le_view (wbuf c)) @ ?bs) # chunks B ?rest"
      unfolding m using B_pos le full by (intro chunks_append1) simp_all
    moreover have "drop (B * (length ?m div B)) ?m = drop (B * (length ?rest div B)) ?rest"
    proof -
      have "B * (length ?m div B) = B + B * (length ?rest div B)"
        unfolding lenm using B_pos div_add_self1 [of B "length ?rest"]
        by (simp only: distrib_left mult_1_right add.commute)
      moreover have "length (take pos (le_view (wbuf c)) @ ?bs) = B" using le full by simp
      then have "drop (B + k) ?m = drop k ?rest" for k
        unfolding m by (rule drop_append_add)
      ultimately show ?thesis by (simp only:)
    qed
    moreover have "length ?m mod B = length ?rest mod B" unfolding lenm by (rule mod_add_self1)
    ultimately show ?thesis
      using IH blk eq by (simp add: Let_def)
  next
    case False
    then have eq: "loop pos sp c = c\<lparr>wbuf := memcpy_words pos sp (wbuf c)\<rparr>"
      using loop [OF less.prems(3), of sp c] by simp
    have fits: "pos + length sp \<le> wb * length (wbuf c)"
      using False less.prems by (simp add: block_len)
    have view: "le_view (memcpy_words pos sp (wbuf c)) = poke pos sp (le_view (wbuf c))"
      using fits by (simp add: le_view_memcpy_words bytes_per_word word_dvd)
    have "length ?m = pos + length sp" using le less.prems by simp
    moreover have "pos + length sp < B" using False by simp
    ultimately have "take (length ?m mod B) (le_view (wbuf (loop pos sp c))) = ?m"
      and "chunks B ?m = []" and "length ?m div B = 0"
      using fits le by (simp_all add: eq view take_poke)
    then show ?thesis
      using fits less.prems by (simp add: eq Let_def bytes_per_word word_dvd)
  qed
qed

lemma absorbed_pos:
  assumes "md_absorbed B compress h0 m c"
  shows "unat (cnt_lo c) mod B = length m mod B"
proof -
  obtain k where k: "2 ^ LENGTH('a) = B * k" using block_dvd by blast
  have n: "unat (cnt_lo c) + 2 ^ LENGTH('a) * unat (cnt_hi c) = length m mod 2 ^ (2 * LENGTH('a))"
    using assms by (simp add: md_absorbed_def)
  have "length m mod B = length m mod 2 ^ (2 * LENGTH('a)) mod B"
    by (rule mod_mod_cancel [symmetric]) (simp add: mult_2 power_add k)
  also have "\<dots> = unat (cnt_lo c) mod B"
    unfolding n [symmetric] k by (simp add: mult.assoc)
  finally show ?thesis by simp
qed

lemma absorbed_begin:
  "length (wbuf c) = 16 \<Longrightarrow> hash c = h0 \<Longrightarrow> cnt_lo c = 0 \<Longrightarrow> cnt_hi c = 0 \<Longrightarrow>
    md_absorbed B compress h0 [] c"
  by (simp add: md_absorbed_def)

lemma update_absorbs:
  assumes abs: "md_absorbed B compress h0 m c" and h0: "length h0 = nh"
    and d: "length d < 2 ^ LENGTH('a)"
  shows "md_absorbed B compress h0 (m @ d) (update d c)"
proof -
  let ?c = "c\<lparr>cnt_lo := cnt_lo c + word_of_nat (length d),
         cnt_hi := if unat (cnt_lo c + word_of_nat (length d)) < length d
                   then cnt_hi c + 1 else cnt_hi c\<rparr>"
  let ?p = "length m mod B"
  have w: "length (wbuf ?c) = 16" and h: "hash ?c = foldl compress h0 (chunks B m)"
    and buf: "take ?p (le_view (wbuf ?c)) = drop (B * (length m div B)) m"
    using abs by (simp_all add: md_absorbed_def)
  have hl: "length (hash ?c) = nh" using h h0 by simp
  have "?p < B" using B_pos by simp
  note la = loop_absorbs [OF w hl this, of d, unfolded buf]
  have eq: "update d c = loop ?p d ?c"
    using update [of d c] absorbed_pos [OF abs] by simp
  let ?full = "take (B * (length m div B)) m" and ?rest = "drop (B * (length m div B)) m"
  have fl: "length ?full = B * (length m div B)" by (simp add: min_absorb2)
  have m: "m @ d = ?full @ (?rest @ d)" by simp
  have ch: "chunks B (m @ d) = chunks B m @ chunks B (?rest @ d)"
    by (rule chunks_rest [OF B_pos])
  have lm: "length (m @ d) = B * (length m div B) + length (?rest @ d)"
    unfolding m length_append [of ?full] fl by simp
  have "length (m @ d) mod B = length (?rest @ d) mod B"
    unfolding lm by (rule mod_mult_self4)
  moreover have "drop (B * (length (m @ d) div B)) (m @ d) =
      drop (B * (length (?rest @ d) div B)) (?rest @ d)"
  proof -
    have "length (m @ d) div B = length m div B + length (?rest @ d) div B"
      unfolding lm using B_pos by simp
    then have "B * (length (m @ d) div B) = B * (length m div B) + B * (length (?rest @ d) div B)"
      by (simp add: distrib_left)
    then show ?thesis
      unfolding m using fl by simp
  qed
  ultimately show ?thesis
    using la ch h counter_add [of "cnt_lo c" "cnt_hi c" "length m" "length d"] abs d
    unfolding md_absorbed_def eq by (simp add: Let_def)
qed

text \<open>Finishing absorbs the padding: one block, or two when the length does not fit.\<close>

lemma finish_digest:
  assumes abs: "md_absorbed B compress h0 m c" and h0: "length h0 = nh"
  shows "hash (md_finish compile swap msk c) = foldl compress h0 (chunks B (md_pad wb m))"
proof -
  define i where "i = length m mod B"
  define rest where "rest = drop (B * (length m div B)) m"
  define sh where "sh = 8 * (wb - 1 - i mod wb)"
  define ws where "ws = bsw swap ((i + (wb - 1)) div wb) (wbuf c)"
  define ws2 where "ws2 = ws[i div wb := (ws ! (i div wb) AND push_bit sh msk) OR push_bit sh 128]"
  define hi where "hi = push_bit 3 (cnt_hi c) OR drop_bit (LENGTH('a) - 3) (cnt_lo c)"
  define lo where "lo = push_bit 3 (cnt_lo c)"
  define zs where "zs = wb - 1 - i mod wb"
  have w16: "length (wbuf c) = 16" and hc: "hash c = foldl compress h0 (chunks B m)"
    and buf: "take i (le_view (wbuf c)) = rest"
    using abs by (simp_all add: md_absorbed_def i_def rest_def)
  have i: "unat (cnt_lo c) mod (16 * wb) = i"
    using absorbed_pos [OF abs] by (simp add: i_def block_len)
  have iB: "i < 16 * wb" using B_pos by (simp add: i_def block_len)
  have lr: "length rest = i" by (simp add: rest_def i_def minus_mult_div_eq_mod)
  have j: "i div wb < 16" using iB wb_pos by (simp add: less_mult_imp_div_less)
  have len2: "length ws2 = 16" and lenw: "length ws = 16" by (simp_all add: ws2_def ws_def w16)
  have upd: "ws[i div wb := ws ! (i div wb) AND push_bit sh msk,
      i div wb := ws[i div wb := ws ! (i div wb) AND push_bit sh msk] ! (i div wb) OR push_bit sh 128] = ws2"
    using j by (simp add: ws2_def lenw)
  have view: "take (wb * (i div wb + 1)) (be_view ws2) = rest @ [128] @ replicate zs 0"
  proof -
    have "i \<le> wb * ((i + (wb - 1)) div wb)"
      using wb_pos by (rule le_mult_ceil)
    moreover have "(i + (wb - 1)) div wb < 17"
      using iB wb_pos by (intro less_mult_imp_div_less) simp
    ultimately have "take i (be_view ws) = rest"
      unfolding ws_def using swap w16 buf by (subst be_view_bsw) (simp_all add: bytes_per_word)
    moreover have "take (wb * (i div wb + 1)) (be_view ws2) = take i (be_view ws) @ [128] @ replicate zs 0"
      unfolding ws2_def zs_def
      by (rule be_view_pad_bit) (use iB in \<open>simp_all add: word_dvd bytes_per_word lenw msk sh_def mult.commute\<close>)
    ultimately show ?thesis by simp
  qed
  let ?fin = "\<lambda>c' k. compile (c'\<lparr>wbuf := (zero_words k 14 (wbuf c'))[14 := hi, 15 := lo]\<rparr>)"
  have fields: "be_bytes hi @ be_bytes lo = be_nat (2 * wb) (8 * length m)"
    using length_field [OF word_dvd, of "cnt_lo c" "cnt_hi c" "length m"] abs
    by (simp add: hi_def lo_def md_absorbed_def bytes_per_word)
  have blocks: "foldl compress h0 (chunks B (m @ x)) = foldl compress (hash c) (chunks B (rest @ x))" for x
  proof -
    have "chunks B (m @ x) = chunks B m @ chunks B (rest @ x)"
      unfolding rest_def by (rule chunks_rest [OF B_pos])
    then show ?thesis by (simp add: hc)
  qed
  have hl: "length (hash c) = nh" using hc h0 by simp
  have one_block: "length x = B \<Longrightarrow> foldl compress h (chunks B x) = compress h x" for h x
    by (simp add: chunks_exact B_pos)
  show ?thesis
  proof (cases "14 * wb \<le> i")
    case False
    then have "i div wb < 14" by (intro less_mult_imp_div_less) simp
    then have k: "i div wb + 1 \<le> 14" by simp
    have zeros: "zs + wb * (14 - (i div wb + 1)) = 14 * wb - 1 - i"
      using pad_zeros [OF wb_pos, of i 14] False by (simp add: zs_def mult.commute)
    have pad: "md_pad wb m = m @ [128] @ replicate (14 * wb - 1 - i) 0 @ be_nat (2 * wb) (8 * length m)"
    proof -
      have "(30 * wb - 1 - i) mod (16 * wb) = 14 * wb - 1 - i"
      proof -
        have "30 * wb - 1 - i = 14 * wb - 1 - i + 16 * wb" using False by linarith
        then have "(30 * wb - 1 - i) mod (16 * wb) = (14 * wb - 1 - i) mod (16 * wb)"
          by (simp only: mod_add_self2)
        also have "\<dots> = 14 * wb - 1 - i"
          by (rule mod_less) (use wb_pos in linarith)
        finally show ?thesis .
      qed
      then show ?thesis by (simp add: md_pad_def i_def block_len)
    qed
    have "md_finish compile swap msk c = ?fin (c\<lparr>wbuf := ws2\<rparr>) (i div wb + 1)"
      using False upd unfolding md_finish_def Let_def bytes_per_word i sh_def ws_def [symmetric] hi_def lo_def
      by simp
    then have "hash (md_finish compile swap msk c) = compress (hash c)
        (rest @ [128] @ replicate (zs + wb * (14 - (i div wb + 1))) 0 @ be_nat (2 * wb) (8 * length m))"
      using k view len2 hl by (simp add: compile be_view_final_words bytes_per_word fields replicate_add)
    also have "\<dots> = foldl compress (hash c)
        (chunks B (rest @ [128] @ replicate (14 * wb - 1 - i) 0 @ be_nat (2 * wb) (8 * length m)))"
      unfolding zeros using False lr by (subst one_block) (simp_all add: block_len)
    finally show ?thesis by (simp only: pad blocks)
  next
    case True
    have i2: "i = wb * (i div wb) + i mod wb" by simp
    define w3 where "w3 = (if i < 15 * wb then ws2[15 := 0] else ws2)"
    define c3 where "c3 = compile (c\<lparr>wbuf := w3\<rparr>)"
    have pad: "md_pad wb m = m @ ([128] @ replicate (16 * wb - 1 - i) 0) @
        replicate (14 * wb) 0 @ be_nat (2 * wb) (8 * length m)"
    proof -
      have "(30 * wb - 1 - i) mod (16 * wb) = 30 * wb - 1 - i"
        by (rule mod_less) (use True wb_pos in linarith)
      also have "\<dots> = (16 * wb - 1 - i) + 14 * wb" using iB by linarith
      finally show ?thesis by (simp add: md_pad_def i_def block_len replicate_add)
    qed
    have v3: "be_view w3 = rest @ [128] @ replicate (16 * wb - 1 - i) 0"
    proof (cases "i < 15 * wb")
      case lt: True
      have "14 \<le> i div wb" using True wb_pos by (simp add: less_eq_div_iff_mult_less_eq)
      moreover have "i div wb < 15" using lt by (simp add: less_mult_imp_div_less)
      ultimately have q: "i div wb = 14" by simp
      have "w3 = take 15 ws2 @ [0]" using lt len2 by (simp add: w3_def set_word_15)
      then have "be_view w3 = rest @ [128] @ replicate zs 0 @ replicate wb 0"
        using view be_view_zeros [of 1, where 'a = 'a]
        by (simp add: be_view_append be_view_take bytes_per_word q be_view_Cons)
      moreover have "zs + wb = 16 * wb - 1 - i"
        using pad_zeros [OF wb_pos, of i 16] iB by (simp add: q zs_def mult.commute)
      ultimately show ?thesis by (simp add: replicate_add [symmetric])
    next
      case False
      then have "15 \<le> i div wb" using wb_pos by (simp add: less_eq_div_iff_mult_less_eq)
      with j have q: "i div wb = 15" by simp
      have "be_view ws2 = rest @ [128] @ replicate zs 0"
        using view len2 by (simp add: q bytes_per_word)
      moreover have "zs = 16 * wb - 1 - i"
        using pad_zeros [OF wb_pos, of i 16] iB by (simp add: q zs_def mult.commute)
      ultimately show ?thesis using False by (simp add: w3_def)
    qed
    have c3: "hash c3 = compress (hash c) (rest @ [128] @ replicate (16 * wb - 1 - i) 0)"
        "length (wbuf c3) = 16" "cnt_lo c3 = cnt_lo c" "cnt_hi c3 = cnt_hi c"
      using compile [of "c\<lparr>wbuf := w3\<rparr>"] hl v3 len2 by (simp_all add: c3_def w3_def)
    have "md_finish compile swap msk c = ?fin c3 0"
      using True upd c3(3,4)
      unfolding md_finish_def Let_def bytes_per_word i sh_def ws_def [symmetric] hi_def lo_def
      by (simp add: w3_def [symmetric] c3_def [symmetric] cong: if_cong split del: if_split)
    then have "hash (md_finish compile swap msk c) = compress (hash c3)
        (replicate (14 * wb) 0 @ be_nat (2 * wb) (8 * length m))"
      using c3 hl v3 lr iB by (simp add: compile be_view_final_words bytes_per_word fields
          compress_length block_len mult.commute)
    moreover have "chunks B (rest @ ([128] @ replicate (16 * wb - 1 - i) 0) @
          replicate (14 * wb) 0 @ be_nat (2 * wb) (8 * length m)) =
        [rest @ [128] @ replicate (16 * wb - 1 - i) 0, replicate (14 * wb) 0 @ be_nat (2 * wb) (8 * length m)]"
      using lr iB B_pos chunks_append1 [OF B_pos, of "rest @ [128] @ replicate (16 * wb - 1 - i) 0"]
      by (simp add: chunks_exact block_len)
    ultimately show ?thesis
      using c3(1) by (simp only: pad blocks) simp
  qed
qed

lemma stream_absorbs:
  assumes "md_absorbed B compress h0 m c" and "length h0 = nh"
    and "\<forall>d \<in> set ds. length d < 2 ^ LENGTH('a)"
  shows "md_absorbed B compress h0 (m @ concat ds) (foldl (\<lambda>c d. update d c) c ds)"
  using assms
proof (induction ds arbitrary: m c)
  case (Cons d ds)
  then show ?case
    using update_absorbs [of h0 m c d] by fastforce
qed simp

text \<open>The chaining value after feeding the pieces \<open>ds\<close> to a fresh context and finishing.\<close>

lemma stream_digest:
  assumes "length (wbuf c) = 16" and "hash c = h0" and "cnt_lo c = 0" and "cnt_hi c = 0"
    and "length h0 = nh" and "\<forall>d \<in> set ds. length d < 2 ^ LENGTH('a)"
  shows "hash (md_finish compile swap msk (foldl (\<lambda>c d. update d c) c ds)) =
    foldl compress h0 (chunks B (md_pad wb (concat ds)))"
  using stream_absorbs [OF absorbed_begin [OF assms(1-4)] assms(5,6)] assms(5)
  by (simp add: finish_digest)

text \<open>The counter after one call on a fresh context, for a piece of any length.\<close>

lemma update_counter:
  assumes "length (wbuf c) = 16" and "length (hash c) = nh" and "cnt_lo c = 0" and "cnt_hi c = 0"
  shows "unat (cnt_lo (update d c)) = length d mod 2 ^ LENGTH('a)"
    and "unat (cnt_hi (update d c)) = (if 2 ^ LENGTH('a) \<le> length d then 1 else 0)"
proof -
  have lt: "unat (word_of_nat (length d) :: 'a word) < length d \<longleftrightarrow> 2 ^ LENGTH('a) \<le> length d"
    by (simp add: unat_of_nat mod_less_eq_dividend order_less_le)
      (metis less_exp mod_less mod_less_divisor not_le zero_less_numeral zero_less_power)
  show "unat (cnt_lo (update d c)) = length d mod 2 ^ LENGTH('a)"
    and "unat (cnt_hi (update d c)) = (if 2 ^ LENGTH('a) \<le> length d then 1 else 0)"
    using assms lt by (simp_all add: update loop_absorbs B_pos unat_of_nat)
qed

end

end
