(* ===== verification/Sha1.thy ===== *)
theory Sha1
  imports Md_Buffer
begin

text \<open>
  \<open>libs/zrtp/srtp/crypto/sha1.c\<close>: the SHA-1 code SRTP's HMAC is built on, translated macro
  by macro and function by function, the SHA-1 of FIPS 180-4 as its specification, and the
  proofs that the unrolled, in-place code computes it.
\<close>

section \<open>The code\<close>

type_synonym sha1_ctx = "u32 sha_ctx"

definition rotl32 :: "u32 \<Rightarrow> nat \<Rightarrow> u32" where
  "rotl32 x n = push_bit n x OR drop_bit (32 - n) x"

definition rotr32 :: "u32 \<Rightarrow> nat \<Rightarrow> u32" where
  "rotr32 x n = drop_bit n x OR push_bit (32 - n) x"

definition bswap_32 :: "u32 \<Rightarrow> u32" where
  "bswap_32 x = (rotr32 x 24 AND 0x00ff00ff) OR (rotr32 x 8 AND 0xff00ff00)"

definition ch :: "'a::len word \<Rightarrow> 'a word \<Rightarrow> 'a word \<Rightarrow> 'a word" where
  "ch x y z = z XOR (x AND (y XOR z))"

definition parity :: "u32 \<Rightarrow> u32 \<Rightarrow> u32 \<Rightarrow> u32" where
  "parity x y z = x XOR y XOR z"

definition maj :: "'a::len word \<Rightarrow> 'a word \<Rightarrow> 'a word \<Rightarrow> 'a word" where
  "maj x y z = (x AND y) OR (z AND (x XOR y))"

text \<open>
  \<open>hf(i)\<close> before and after its redefinition: the word \<open>w[i]\<close>, then the mixing expression,
  which also stores its result in \<open>w\<close>.
\<close>

definition hf_word :: "nat \<Rightarrow> u32 list \<Rightarrow> u32 \<times> u32 list" where
  "hf_word i w = (w ! i, w)"

definition hf_mix :: "nat \<Rightarrow> u32 list \<Rightarrow> u32 \<times> u32 list" where
  "hf_mix i w =
    (let x = rotl32 (w ! ((i + 13) mod 16) XOR w ! ((i + 8) mod 16) XOR
                     w ! ((i + 2) mod 16) XOR w ! (i mod 16)) 1
     in (x, w[i mod 16 := x]))"

definition one_cycle ::
  "nat \<Rightarrow> nat \<Rightarrow> nat \<Rightarrow> nat \<Rightarrow> nat \<Rightarrow> (u32 \<Rightarrow> u32 \<Rightarrow> u32 \<Rightarrow> u32) \<Rightarrow> u32 \<Rightarrow>
    (u32 list \<Rightarrow> u32 \<times> u32 list) \<Rightarrow> u32 list \<times> u32 list \<Rightarrow> u32 list \<times> u32 list" where
  "one_cycle a b c d e f k h s =
    (let (v, w) = s;
         (x, w) = h w;
         v = v[e := v ! e + (rotr32 (v ! a) 27 + f (v ! b) (v ! c) (v ! d) + k + x)];
         v = v[b := rotr32 (v ! b) 2]
     in (v, w))"

definition five_cycle ::
  "(u32 \<Rightarrow> u32 \<Rightarrow> u32 \<Rightarrow> u32) \<Rightarrow> u32 \<Rightarrow> (nat \<Rightarrow> u32 list \<Rightarrow> u32 \<times> u32 list) \<Rightarrow> nat \<Rightarrow>
    u32 list \<times> u32 list \<Rightarrow> u32 list \<times> u32 list" where
  "five_cycle f k hf i s =
    (let s = one_cycle 0 1 2 3 4 f k (hf i) s;
         s = one_cycle 4 0 1 2 3 f k (hf (i + 1)) s;
         s = one_cycle 3 4 0 1 2 f k (hf (i + 2)) s;
         s = one_cycle 2 3 4 0 1 f k (hf (i + 3)) s
     in one_cycle 1 2 3 4 0 f k (hf (i + 4)) s)"

definition sha1_compile :: "sha1_ctx \<Rightarrow> sha1_ctx" where
  "sha1_compile ctx =
    (let s = (hash ctx, wbuf ctx);
         s = five_cycle ch 0x5a827999 hf_word 0 s;
         s = five_cycle ch 0x5a827999 hf_word 5 s;
         s = five_cycle ch 0x5a827999 hf_word 10 s;
         s = one_cycle 0 1 2 3 4 ch 0x5a827999 (hf_word 15) s;
         s = one_cycle 4 0 1 2 3 ch 0x5a827999 (hf_mix 16) s;
         s = one_cycle 3 4 0 1 2 ch 0x5a827999 (hf_mix 17) s;
         s = one_cycle 2 3 4 0 1 ch 0x5a827999 (hf_mix 18) s;
         s = one_cycle 1 2 3 4 0 ch 0x5a827999 (hf_mix 19) s;
         s = five_cycle parity 0x6ed9eba1 hf_mix 20 s;
         s = five_cycle parity 0x6ed9eba1 hf_mix 25 s;
         s = five_cycle parity 0x6ed9eba1 hf_mix 30 s;
         s = five_cycle parity 0x6ed9eba1 hf_mix 35 s;
         s = five_cycle maj 0x8f1bbcdc hf_mix 40 s;
         s = five_cycle maj 0x8f1bbcdc hf_mix 45 s;
         s = five_cycle maj 0x8f1bbcdc hf_mix 50 s;
         s = five_cycle maj 0x8f1bbcdc hf_mix 55 s;
         s = five_cycle parity 0xca62c1d6 hf_mix 60 s;
         s = five_cycle parity 0xca62c1d6 hf_mix 65 s;
         s = five_cycle parity 0xca62c1d6 hf_mix 70 s;
         (v, w) = five_cycle parity 0xca62c1d6 hf_mix 75 s
     in ctx\<lparr>hash := [hash ctx ! 0 + v ! 0, hash ctx ! 1 + v ! 1, hash ctx ! 2 + v ! 2,
                     hash ctx ! 3 + v ! 3, hash ctx ! 4 + v ! 4],
            wbuf := w\<rparr>)"

text \<open>The context on entry holds whatever the memory held; \<open>sha1_begin\<close> sets count and hash.\<close>

definition sha1_begin :: "sha1_ctx \<Rightarrow> sha1_ctx" where
  "sha1_begin ctx = ctx\<lparr>cnt_lo := 0, cnt_hi := 0,
     hash := [0x67452301, 0xefcdab89, 0x98badcfe, 0x10325476, 0xc3d2e1f0]\<rparr>"

text \<open>The copy loop of \<open>sha1_hash\<close>; \<open>space\<close> is \<open>64 - pos\<close> throughout.\<close>

function sha1_hash_loop :: "nat \<Rightarrow> u8 list \<Rightarrow> sha1_ctx \<Rightarrow> sha1_ctx" where
  "sha1_hash_loop pos sp ctx =
    (let space = 64 - pos in
     if space \<le> length sp then
       let ctx = ctx\<lparr>wbuf := memcpy_words pos (take space sp) (wbuf ctx)\<rparr>;
           ctx = ctx\<lparr>wbuf := bsw bswap_32 16 (wbuf ctx)\<rparr>
       in sha1_hash_loop 0 (drop space sp) (sha1_compile ctx)
     else ctx\<lparr>wbuf := memcpy_words pos sp (wbuf ctx)\<rparr>)"
  by pat_completeness auto
termination
  by (relation "measures [\<lambda>(pos, sp, ctx). length sp, \<lambda>(pos, sp, ctx). pos]") auto

declare sha1_hash_loop.simps [simp del]

text \<open>
  The length is an \<open>unsigned long\<close>, the counter words are 32 bits: the sum is truncated to
  32 bits and compared with the whole length.
\<close>

definition sha1_hash :: "u8 list \<Rightarrow> sha1_ctx \<Rightarrow> sha1_ctx" where
  "sha1_hash data ctx =
    (let pos = unat (cnt_lo ctx AND 63);
         ctx = ctx\<lparr>cnt_lo := cnt_lo ctx + word_of_nat (length data)\<rparr>;
         ctx = (if unat (cnt_lo ctx) < length data then ctx\<lparr>cnt_hi := cnt_hi ctx + 1\<rparr> else ctx)
     in sha1_hash_loop pos data ctx)"

definition sha1_end :: "sha1_ctx \<Rightarrow> u8 list \<times> sha1_ctx" where
  "sha1_end ctx =
    (let i = unat (cnt_lo ctx AND 63);
         ws = bsw bswap_32 ((i + 3) div 4) (wbuf ctx);
         ws = ws[i div 4 := ws ! (i div 4) AND push_bit (8 * (3 - i mod 4)) 0xffffff80];
         ws = ws[i div 4 := ws ! (i div 4) OR push_bit (8 * (3 - i mod 4)) 0x80];
         ctx = ctx\<lparr>wbuf := ws\<rparr>;
         (ctx, i) = (if 64 - 9 < i
                     then (sha1_compile (ctx\<lparr>wbuf := if i < 60 then ws[15 := 0] else ws\<rparr>), 0)
                     else (ctx, i div 4 + 1));
         ws = zero_words i 14 (wbuf ctx);
         ws = ws[14 := push_bit 3 (cnt_hi ctx) OR drop_bit 29 (cnt_lo ctx)];
         ws = ws[15 := push_bit 3 (cnt_lo ctx)];
         ctx = sha1_compile (ctx\<lparr>wbuf := ws\<rparr>)
     in (digest_bytes 20 (hash ctx), ctx))"

text \<open>\<open>bg_sha1\<close>, with the uninitialised automatic context as an argument.\<close>

definition bg_sha1 :: "sha1_ctx \<Rightarrow> u8 list \<Rightarrow> u8 list" where
  "bg_sha1 cx data = fst (sha1_end (sha1_hash data (sha1_begin cx)))"

section \<open>FIPS 180-4\<close>

fun sha1_W :: "u32 list \<Rightarrow> nat \<Rightarrow> u32" where
  "sha1_W M t =
    (if t < 16 then M ! t
     else word_rotl 1 (sha1_W M (t - 3) XOR sha1_W M (t - 8) XOR sha1_W M (t - 14) XOR sha1_W M (t - 16)))"

declare sha1_W.simps [simp del]

definition sha1_f :: "nat \<Rightarrow> u32 \<Rightarrow> u32 \<Rightarrow> u32 \<Rightarrow> u32" where
  "sha1_f t x y z =
    (if t < 20 then (x AND y) XOR (NOT x AND z)
     else if t < 40 then x XOR y XOR z
     else if t < 60 then (x AND y) XOR (x AND z) XOR (y AND z)
     else x XOR y XOR z)"

definition sha1_K :: "nat \<Rightarrow> u32" where
  "sha1_K t =
    (if t < 20 then 0x5a827999 else if t < 40 then 0x6ed9eba1
     else if t < 60 then 0x8f1bbcdc else 0xca62c1d6)"

text \<open>One round on the registers \<open>a\<close> to \<open>e\<close>, kept as a list.\<close>

definition sha1_round :: "(nat \<Rightarrow> u32) \<Rightarrow> u32 list \<Rightarrow> nat \<Rightarrow> u32 list" where
  "sha1_round W r t =
    [word_rotl 5 (r ! 0) + sha1_f t (r ! 1) (r ! 2) (r ! 3) + r ! 4 + sha1_K t + W t,
     r ! 0, word_rotl 30 (r ! 1), r ! 2, r ! 3]"

definition sha1_compress :: "u32 list \<Rightarrow> u8 list \<Rightarrow> u32 list" where
  "sha1_compress H b =
    (let r = foldl (sha1_round (sha1_W (be_words b))) H [0..<80]
     in map2 (+) H r)"

definition sha1_IV :: "u32 list" where
  "sha1_IV = [0x67452301, 0xefcdab89, 0x98badcfe, 0x10325476, 0xc3d2e1f0]"

definition sha1_spec :: "u8 list \<Rightarrow> u8 list" where
  "sha1_spec m = be_view (foldl sha1_compress sha1_IV (chunks 64 (md_pad 4 m)))"

section \<open>The macros compute the standard's functions\<close>

lemma rotl32_eq: "0 < n \<Longrightarrow> n < 32 \<Longrightarrow> rotl32 x n = word_rotl n x"
  using rotl_shifts [of n x] by (simp add: rotl32_def)

lemma rotr32_eq: "n < 32 \<Longrightarrow> rotr32 x n = word_rotr n x"
  using rotr_shifts [of n x] by (simp add: rotr32_def)

lemma rotr32_27: "rotr32 x 27 = word_rotl 5 x" and rotr32_2: "rotr32 x 2 = word_rotl 30 x"
  by (simp_all add: rotr32_eq word_rotl_eq_word_rotr)

lemma ch_eq: "ch x y z = (x AND y) XOR (NOT x AND z)"
  by (rule bit_word_eqI) (auto simp: ch_def bit_and_iff bit_xor_iff bit_not_iff)

lemma maj_eq: "maj x y z = (x AND y) XOR (x AND z) XOR (y AND z)"
  by (rule bit_word_eqI) (auto simp: maj_def bit_and_iff bit_xor_iff bit_or_iff)

lemma le_bytes_bswap_32: "be_bytes (bswap_32 x) = le_bytes x"
proof -
  have "bit (bswap_32 x) (8 * (3 - k) + j) \<longleftrightarrow> bit x (8 * k + j)" if "k < 4" "j < 8" for k j
  proof -
    have "k \<in> {0, 1, 2, 3}" and "j \<in> {0, 1, 2, 3, 4, 5, 6, 7}" using that by auto
    then show ?thesis
      by (auto simp: bswap_32_def rotr32_eq bit_or_iff bit_and_iff bit_word_rotr_iff
          simp flip: numeral_2_eq_2)
  qed
  then show ?thesis
    by (intro nth_equalityI bit_word_eqI)
      (simp_all add: bit_be_bytes [where n = 4] le_bytes_def bit_ucast_iff bit_drop_bit_eq)
qed

section \<open>The unrolled rounds\<close>

text \<open>
  \<open>hf\<close> delivers the schedule: applied at round \<open>t\<close> to a ring that holds the words so far it
  gives \<open>W t\<close> and the ring for the next round.
\<close>

definition delivers :: "(nat \<Rightarrow> u32) \<Rightarrow> nat \<Rightarrow> (u32 list \<Rightarrow> u32 \<times> u32 list) \<Rightarrow> bool" where
  "delivers W t h \<longleftrightarrow> (\<forall>w. ring_holds W t w \<longrightarrow> fst (h w) = W t \<and> ring_holds W (Suc t) (snd (h w)))"

lemma delivers_word: "t < 16 \<Longrightarrow> delivers (sha1_W M) t (hf_word t)"
  by (auto simp: delivers_def hf_word_def dest: ring_holds_first)

lemma delivers_mix:
  assumes "16 \<le> t"
  shows "delivers (sha1_W M) t (hf_mix t)"
  unfolding delivers_def
proof (intro allI impI)
  fix w assume w: "ring_holds (sha1_W M) t w"
  have n: "w ! ((t + 13) mod 16) = sha1_W M (t - 3)" "w ! ((t + 8) mod 16) = sha1_W M (t - 8)"
    "w ! ((t + 2) mod 16) = sha1_W M (t - 14)" "w ! (t mod 16) = sha1_W M (t - 16)"
    using ring_holds_nth [OF w assms, of 13] ring_holds_nth [OF w assms, of 8]
      ring_holds_nth [OF w assms, of 2] ring_holds_nth [OF w assms, of 0] by simp_all
  have "fst (hf_mix t w) = sha1_W M t"
    using assms by (subst sha1_W.simps) (simp add: hf_mix_def Let_def n rotl32_eq del: add_2_eq_Suc')
  then show "fst (hf_mix t w) = sha1_W M t \<and> ring_holds (sha1_W M) (Suc t) (snd (hf_mix t w))"
    using ring_holds_step [OF w assms] by (simp add: hf_mix_def Let_def)
qed

text \<open>
  Five cycles bring the variables back to their places; each is one round of the standard.
\<close>

lemma five_rounds:
  assumes f: "\<And>j. j < 5 \<Longrightarrow> sha1_f (i + j) = f \<and> sha1_K (i + j) = k"
    and h: "delivers W i h0" "delivers W (i + 1) h1" "delivers W (i + 2) h2"
      "delivers W (i + 3) h3" "delivers W (i + 4) h4"
    and v: "length v = 5" and w: "ring_holds W i w"
  defines "s \<equiv> one_cycle 1 2 3 4 0 f k h4 (one_cycle 2 3 4 0 1 f k h3
    (one_cycle 3 4 0 1 2 f k h2 (one_cycle 4 0 1 2 3 f k h1 (one_cycle 0 1 2 3 4 f k h0 (v, w)))))"
  shows "fst s = foldl (sha1_round W) v [i..<i + 5] \<and> ring_holds W (i + 5) (snd s)"
proof -
  obtain a b c d e where v5: "v = [a, b, c, d, e]"
    using v by (auto simp: length_Suc_conv numeral_eq_Suc)
  obtain w1 where w1: "h0 w = (W i, w1)" "ring_holds W (i + 1) w1"
    using h(1) w by (cases "h0 w") (auto simp: delivers_def)
  obtain w2 where w2: "h1 w1 = (W (i + 1), w2)" "ring_holds W (i + 2) w2"
    using h(2) w1 by (cases "h1 w1") (fastforce simp: delivers_def)
  obtain w3 where w3: "h2 w2 = (W (i + 2), w3)" "ring_holds W (i + 3) w3"
    using h(3) w2 by (cases "h2 w2") (fastforce simp: delivers_def eval_nat_numeral)
  obtain w4 where w4: "h3 w3 = (W (i + 3), w4)" "ring_holds W (i + 4) w4"
    using h(4) w3 by (cases "h3 w3") (fastforce simp: delivers_def eval_nat_numeral)
  obtain w5 where w5: "h4 w4 = (W (i + 4), w5)" "ring_holds W (i + 5) w5"
    using h(5) w4 by (cases "h4 w4") (fastforce simp: delivers_def eval_nat_numeral)
  have upt: "[i..<i + 5] = [i, i + 1, i + 2, i + 3, i + 4]"
    by (simp add: upt_rec)
  have f0: "sha1_f i = f" "sha1_K i = k" using f [of 0] by simp_all
  note f1 = f [of 1, simplified] f [of 2, simplified] f [of 3, simplified] f [of 4, simplified]
  show ?thesis
    unfolding s_def v5 upt
    by (simp add: one_cycle_def sha1_round_def w1 w2 w3 w4 w5 f0 f1 rotr32_27 rotr32_2
        add.assoc add.commute add.left_commute)
qed

definition sha1_at :: "(nat \<Rightarrow> u32) \<Rightarrow> u32 list \<Rightarrow> nat \<Rightarrow> u32 list \<times> u32 list \<Rightarrow> bool" where
  "sha1_at W v0 t s \<longleftrightarrow> length v0 = 5 \<and> fst s = foldl (sha1_round W) v0 [0..<t] \<and> ring_holds W t (snd s)"

lemma length_rounds: "length v = 5 \<Longrightarrow> length (foldl (sha1_round W) v ts) = 5"
  by (induction ts arbitrary: v) (simp_all add: sha1_round_def)

lemma sha1_at_five:
  assumes "sha1_at W v0 i s"
    and "\<And>j. j < 5 \<Longrightarrow> sha1_f (i + j) = f \<and> sha1_K (i + j) = k"
    and "delivers W i h0" "delivers W (i + 1) h1" "delivers W (i + 2) h2"
      "delivers W (i + 3) h3" "delivers W (i + 4) h4"
  shows "sha1_at W v0 (i + 5) (one_cycle 1 2 3 4 0 f k h4 (one_cycle 2 3 4 0 1 f k h3
    (one_cycle 3 4 0 1 2 f k h2 (one_cycle 4 0 1 2 3 f k h1 (one_cycle 0 1 2 3 4 f k h0 s)))))"
proof -
  obtain v w where s: "s = (v, w)" by (cases s)
  have "length v = 5" and "ring_holds W i w" and "v = foldl (sha1_round W) v0 [0..<i]"
    and "length v0 = 5"
    using assms(1) by (simp_all add: sha1_at_def s length_rounds)
  moreover have "[0..<i + 5] = [0..<i] @ [i..<i + 5]"
    by (rule upt_add_eq_append) simp
  ultimately show ?thesis
    using five_rounds [OF assms(2-7), of v w] by (simp add: sha1_at_def s)
qed

lemma sha1_at_five_cycle:
  assumes "sha1_at W v0 i s" and "n = i + 5"
    and "\<And>j. j < 5 \<Longrightarrow> sha1_f (i + j) = f \<and> sha1_K (i + j) = k"
    and "\<And>t. i \<le> t \<Longrightarrow> t < n \<Longrightarrow> delivers W t (hf t)"
  shows "sha1_at W v0 n (five_cycle f k hf i s)"
  unfolding five_cycle_def Let_def assms(2)
  using assms by (intro sha1_at_five) auto

lemma sha1_f_ranges:
  "t < 20 \<Longrightarrow> sha1_f t = ch \<and> sha1_K t = 0x5a827999"
  "20 \<le> t \<Longrightarrow> t < 40 \<Longrightarrow> sha1_f t = parity \<and> sha1_K t = 0x6ed9eba1"
  "40 \<le> t \<Longrightarrow> t < 60 \<Longrightarrow> sha1_f t = maj \<and> sha1_K t = 0x8f1bbcdc"
  "60 \<le> t \<Longrightarrow> sha1_f t = parity \<and> sha1_K t = 0xca62c1d6"
  by (auto simp: sha1_f_def sha1_K_def ch_eq maj_eq parity_def fun_eq_iff)

lemma sha1_compile_correct:
  assumes w: "length (wbuf c) = 16" and h: "length (hash c) = 5"
  shows "hash (sha1_compile c) = sha1_compress (hash c) (be_view (wbuf c)) \<and>
    length (wbuf (sha1_compile c)) = 16 \<and>
    cnt_lo (sha1_compile c) = cnt_lo c \<and> cnt_hi (sha1_compile c) = cnt_hi c"
proof -
  define W where "W = sha1_W (wbuf c)"
  have dw: "delivers W t (hf_word t)" if "t < 16" for t
    unfolding W_def using that by (rule delivers_word)
  have dm: "delivers W t (hf_mix t)" if "16 \<le> t" for t
    unfolding W_def using that by (rule delivers_mix)
  have r0: "sha1_at W (hash c) 0 (hash c, wbuf c)"
    using w h by (auto simp: sha1_at_def W_def sha1_W.simps intro!: ring_holds_start)
  let ?s15 = "five_cycle ch 0x5a827999 hf_word 10 (five_cycle ch 0x5a827999 hf_word 5
    (five_cycle ch 0x5a827999 hf_word 0 (hash c, wbuf c)))"
  have r15: "sha1_at W (hash c) 15 ?s15"
    by (intro sha1_at_five_cycle r0) (simp_all add: sha1_f_ranges dw)
  have r20: "sha1_at W (hash c) 20 (one_cycle 1 2 3 4 0 ch 0x5a827999 (hf_mix 19)
      (one_cycle 2 3 4 0 1 ch 0x5a827999 (hf_mix 18) (one_cycle 3 4 0 1 2 ch 0x5a827999 (hf_mix 17)
      (one_cycle 4 0 1 2 3 ch 0x5a827999 (hf_mix 16)
      (one_cycle 0 1 2 3 4 ch 0x5a827999 (hf_word 15) ?s15)))))" (is "sha1_at _ _ _ ?s20")
    using sha1_at_five [OF r15, of ch "0x5a827999" "hf_word 15" "hf_mix 16" "hf_mix 17" "hf_mix 18" "hf_mix 19"]
    by (simp add: sha1_f_ranges dw dm)
  let ?s60 = "five_cycle maj 0x8f1bbcdc hf_mix 55 (five_cycle maj 0x8f1bbcdc hf_mix 50
    (five_cycle maj 0x8f1bbcdc hf_mix 45 (five_cycle maj 0x8f1bbcdc hf_mix 40
    (five_cycle parity 0x6ed9eba1 hf_mix 35 (five_cycle parity 0x6ed9eba1 hf_mix 30
    (five_cycle parity 0x6ed9eba1 hf_mix 25 (five_cycle parity 0x6ed9eba1 hf_mix 20 ?s20)))))))"
  have r60: "sha1_at W (hash c) 60 ?s60"
    by (intro sha1_at_five_cycle r20) (simp_all add: sha1_f_ranges dm)
  let ?s80 = "five_cycle parity 0xca62c1d6 hf_mix 75 (five_cycle parity 0xca62c1d6 hf_mix 70
    (five_cycle parity 0xca62c1d6 hf_mix 65 (five_cycle parity 0xca62c1d6 hf_mix 60 ?s60)))"
  have r80: "sha1_at W (hash c) 80 ?s80"
    by (intro sha1_at_five_cycle r60) (simp_all add: sha1_f_ranges dm)
  obtain v w' where vw: "?s80 = (v, w')" by (cases ?s80)
  have v: "v = foldl (sha1_round W) (hash c) [0..<80]" and w': "length w' = 16"
    using r80 unfolding vw by (simp_all add: sha1_at_def ring_holds_def)
  have eq: "sha1_compile c = c\<lparr>hash := [hash c ! 0 + v ! 0, hash c ! 1 + v ! 1, hash c ! 2 + v ! 2,
                     hash c ! 3 + v ! 3, hash c ! 4 + v ! 4], wbuf := w'\<rparr>"
    using vw by (simp add: sha1_compile_def Let_def)
  obtain a0 a1 a2 a3 a4 where a: "hash c = [a0, a1, a2, a3, a4]"
    using h by (auto simp: length_Suc_conv numeral_eq_Suc)
  have "length v = 5" using v h by (simp add: length_rounds)
  then obtain v0 v1 v2 v3 v4 where vl: "v = [v0, v1, v2, v3, v4]"
    by (auto simp: length_Suc_conv numeral_eq_Suc)
  have "sha1_compress (hash c) (be_view (wbuf c)) = map2 (+) (hash c) v"
    by (simp add: sha1_compress_def be_words_be_view v W_def)
  then have "hash (sha1_compile c) = sha1_compress (hash c) (be_view (wbuf c))"
    by (simp add: eq a vl)
  with w' show ?thesis by (simp add: eq)
qed

lemma length_sha1_compress: "length h = 5 \<Longrightarrow> length (sha1_compress h b) = 5"
  by (simp add: sha1_compress_def Let_def length_rounds)

section \<open>The streaming code\<close>

lemma and_63: "unat (w AND 63 :: u32) = unat w mod 64"
proof -
  have "w AND 63 = take_bit 6 w"
    unfolding take_bit_eq_mask by (simp add: mask_eq_exp_minus_1)
  then have "unat (w AND 63) = take_bit 6 (unat w)"
    by (simp only: unsigned_take_bit_eq)
  then show ?thesis by (simp add: take_bit_eq_mod)
qed

lemma bit_pad_mask_32: "j < 32 \<Longrightarrow> j \<noteq> 7 \<Longrightarrow> bit (0xffffff80 :: u32) j \<longleftrightarrow> 8 \<le> j"
proof -
  assume j: "j < 32" "j \<noteq> 7"
  have "(0xffffff80 :: u32) = NOT (mask 7)" by (simp add: mask_eq_exp_minus_1)
  moreover have "bit (NOT (mask 7) :: u32) j \<longleftrightarrow> 8 \<le> j"
    using j by (auto simp: bit_not_iff bit_mask_iff)
  ultimately show ?thesis by (simp only:)
qed

interpretation sha1: md_hash 4 64 5 sha1_compile bswap_32 "0xffffff80" sha1_compress
  sha1_hash_loop sha1_hash
proof (unfold_locales, goal_cases)
  case 1 show ?case by simp
next
  case 2 show ?case by simp
next
  case 3 show ?case by (intro exI [of _ "2 ^ 26"]) simp
next
  case (4 w) show ?case by (rule le_bytes_bswap_32)
next
  case (5 j) then show ?case by (simp add: bit_pad_mask_32 del: bit_numeral_word_iff)
next
  case (6 c) then show ?case by (rule sha1_compile_correct)
next
  case (7 h b) then show ?case by (simp add: length_sha1_compress)
next
  case (8 pos sp c) then show ?case by (subst sha1_hash_loop.simps) (simp add: Let_def)
next
  case (9 d c) then show ?case by (simp add: sha1_hash_def Let_def and_63)
qed

lemma sha1_end_eq: "snd (sha1_end c) = md_finish sha1_compile bswap_32 0xffffff80 c"
  and sha1_end_digest: "fst (sha1_end c) = digest_bytes 20 (hash (snd (sha1_end c)))"
  by (simp_all add: sha1_end_def md_finish_def Let_def and_63 split: prod.splits)

lemma length_sha1_IV: "length sha1_IV = 5"
  by (simp add: sha1_IV_def)

lemma sha1_digest_view:
  "length h = 5 \<Longrightarrow> digest_bytes 20 (h :: u32 list) = be_view h"
  by (simp add: digest_bytes_view)

section \<open>Properties\<close>

text \<open>
  C32. Feeding a message to SHA-1 in any pieces shorter than 4 GiB each and finishing gives the
  SHA-1 digest of FIPS 180-4 of the whole message: the unrolled in-place compression, the
  buffering across calls, the two-word counter and the padding are together right, whatever
  the uninitialised context held.
\<close>

theorem sha1_stream_correct:
  assumes "length (wbuf cx) = 16" and "\<forall>d \<in> set ds. length d < 2 ^ 32"
  shows "fst (sha1_end (foldl (\<lambda>c d. sha1_hash d c) (sha1_begin cx) ds)) = sha1_spec (concat ds)"
proof -
  have "hash (md_finish sha1_compile bswap_32 0xffffff80
      (foldl (\<lambda>c d. sha1_hash d c) (sha1_begin cx) ds)) =
    foldl sha1_compress sha1_IV (chunks 64 (md_pad 4 (concat ds)))"
    using assms by (intro sha1.stream_digest) (simp_all add: sha1_begin_def sha1_IV_def)
  then show ?thesis
    by (simp add: sha1_end_digest sha1_end_eq sha1_spec_def sha1_digest_view length_sha1_IV)
qed

theorem sha1_stream_correct_witness:
  "fst (sha1_end (foldl (\<lambda>c d. sha1_hash d c)
      (sha1_begin \<lparr>cnt_lo = 7, cnt_hi = 9, hash = [], wbuf = replicate 16 0xdeadbeef\<rparr>) [[0x61], [0x62, 0x63]])) =
    sha1_spec [0x61, 0x62, 0x63]"
  using sha1_stream_correct [of "\<lparr>cnt_lo = 7, cnt_hi = 9, hash = [], wbuf = replicate 16 0xdeadbeef\<rparr>"
      "[[0x61], [0x62, 0x63]]"] by simp

text \<open>
  C33. The compression function of the code (unrolled five at a time, variables rotated by name,
  schedule kept in a ring of sixteen words, \<open>ch\<close> and \<open>maj\<close> in their reduced forms) is the
  eighty rounds of the standard, and leaves the counter alone.
\<close>

theorem sha1_compile_refines:
  assumes "length (wbuf c) = 16" and "length (hash c) = 5"
  shows "hash (sha1_compile c) = sha1_compress (hash c) (be_view (wbuf c)) \<and>
    cnt_lo (sha1_compile c) = cnt_lo c \<and> cnt_hi (sha1_compile c) = cnt_hi c"
  using sha1_compile_correct [OF assms] by simp

theorem sha1_compile_refines_witness:
  "hash (sha1_compile \<lparr>cnt_lo = 0, cnt_hi = 0, hash = sha1_IV, wbuf = replicate 16 1\<rparr>) =
    sha1_compress sha1_IV (be_view (replicate 16 (1 :: u32)))"
  using sha1_compile_refines [of "\<lparr>cnt_lo = 0, cnt_hi = 0, hash = sha1_IV, wbuf = replicate 16 1\<rparr>"]
  by (simp add: length_sha1_IV)

text \<open>
  The 32-bit counter carries at most one per call: after hashing one piece of any length on
  a fresh context the counter holds the length only up to 2^33 - 1 bytes; a piece of 2^33 bytes
  is counted as 2^32, so its digest is not that of the standard.
\<close>

theorem sha1_counter_one_call:
  assumes "length (wbuf cx) = 16"
  shows "unat (cnt_lo (sha1_hash d (sha1_begin cx))) + 2 ^ 32 * unat (cnt_hi (sha1_hash d (sha1_begin cx))) =
    length d mod 2 ^ 32 + (if 2 ^ 32 \<le> length d then 2 ^ 32 else 0)"
  using sha1.update_counter [of "sha1_begin cx" d] assms by (simp add: sha1_begin_def)

theorem sha1_counter_one_call_witness:
  "unat (cnt_lo (sha1_hash (replicate (2 ^ 33) 0)
      (sha1_begin \<lparr>cnt_lo = 0, cnt_hi = 0, hash = [], wbuf = replicate 16 0\<rparr>))) +
    2 ^ 32 * unat (cnt_hi (sha1_hash (replicate (2 ^ 33) 0)
      (sha1_begin \<lparr>cnt_lo = 0, cnt_hi = 0, hash = [], wbuf = replicate 16 0\<rparr>))) = 2 ^ 32"
  using sha1_counter_one_call [of "\<lparr>cnt_lo = 0, cnt_hi = 0, hash = [], wbuf = replicate 16 0\<rparr>" "replicate (2 ^ 33) 0"]
  by simp

end
