(* ===== verification/Base64.thy ===== *)
theory Base64
  imports Prelude
begin

text \<open>
  \<open>libs/zrtp/zrtp/zrtpB64Encode.c\<close> and \<open>zrtpB64Decode.c\<close>: the base64 coder whose state
  survives between calls, so that a message can be coded in pieces.  A \<open>char\<close> is a byte read
  as a signed number.  The two functions jump back into their loop through a \<open>switch\<close> on the
  saved step; here the step is an argument of the loop.  A read outside the coding tables is
  given by the parameter \<open>oob\<close>, a function of the index; the decoder writes into a buffer that is
  a list, with the position as in C.
\<close>

section \<open>The encoder\<close>

datatype base64_encodestep = step_A | step_B | step_C

record base64_encodestate =
  estep :: base64_encodestep
  result :: u8
  stepcount :: int
  lineLength :: int

definition CHARS_PER_LINE :: int where
  "CHARS_PER_LINE = 72"

text \<open>C divides towards zero; both dividends are non-negative.\<close>

definition base64_init_encodestate :: "int \<Rightarrow> base64_encodestate" where
  "base64_init_encodestate ll =
    \<lparr>estep = step_A, result = 0, stepcount = 0,
     lineLength = (if ll < 0 then CHARS_PER_LINE div 4 else (ll + 3) div 4)\<rparr>"

definition ascii :: "string \<Rightarrow> u8 list" where
  "ascii s = map (\<lambda>c. of_char c) s"

definition encoding :: "u8 list" where
  "encoding = ascii ''ABCDEFGHIJKLMNOPQRSTUVWXYZabcdefghijklmnopqrstuvwxyz0123456789+/''"

definition base64_encode_value :: "(int \<Rightarrow> u8) \<Rightarrow> u8 \<Rightarrow> u8" where
  "base64_encode_value oob v =
    (if sint v > 63 then 0x3d
     else if 0 \<le> sint v then encoding ! nat (sint v) else oob (sint v))"

text \<open>The loop of \<open>base64_encode_block\<close>; \<open>out\<close> is what has been written at \<open>code_out\<close>.\<close>

primrec base64_encode_loop :: "(int \<Rightarrow> u8) \<Rightarrow> u8 list \<Rightarrow> base64_encodestate \<Rightarrow> u8 list \<Rightarrow>
    u8 list \<times> base64_encodestate" where
  "base64_encode_loop oob [] st out = (out, st)"
| "base64_encode_loop oob (fragment # ps) st out =
    (case estep st of
       step_A \<Rightarrow>
         (let r = drop_bit 2 (fragment AND 0xfc);
              out = out @ [base64_encode_value oob r];
              r = push_bit 4 (fragment AND 0x03)
          in base64_encode_loop oob ps (st\<lparr>estep := step_B, result := r\<rparr>) out)
     | step_B \<Rightarrow>
         (let r = result st OR drop_bit 4 (fragment AND 0xf0);
              out = out @ [base64_encode_value oob r];
              r = push_bit 2 (fragment AND 0x0f)
          in base64_encode_loop oob ps (st\<lparr>estep := step_C, result := r\<rparr>) out)
     | step_C \<Rightarrow>
         (let r = result st OR drop_bit 6 (fragment AND 0xc0);
              out = out @ [base64_encode_value oob r];
              r = drop_bit 0 (fragment AND 0x3f);
              out = out @ [base64_encode_value oob r];
              st = st\<lparr>estep := step_A, result := r\<rparr>;
              (st, out) =
                (if 0 < lineLength st then
                   (let st = st\<lparr>stepcount := stepcount st + 1\<rparr> in
                    if stepcount st = lineLength st then (st\<lparr>stepcount := 0\<rparr>, out @ [0x0a]) else (st, out))
                 else (st, out))
          in base64_encode_loop oob ps st out))"

text \<open>The value returned is the length of the text written.\<close>

definition base64_encode_block :: "(int \<Rightarrow> u8) \<Rightarrow> u8 list \<Rightarrow> base64_encodestate \<Rightarrow>
    u8 list \<times> base64_encodestate" where
  "base64_encode_block oob plaintext_in st = base64_encode_loop oob plaintext_in st []"

definition base64_encode_blockend :: "(int \<Rightarrow> u8) \<Rightarrow> base64_encodestate \<Rightarrow> u8 list" where
  "base64_encode_blockend oob st =
    (case estep st of
       step_B \<Rightarrow> [base64_encode_value oob (result st), 0x3d, 0x3d]
     | step_C \<Rightarrow> [base64_encode_value oob (result st), 0x3d]
     | step_A \<Rightarrow> []) @
    (if 0 < lineLength st then [0x0a] else [])"

section \<open>The decoder\<close>

datatype base64_decodestep = step_a | step_b | step_c | step_d

record base64_decodestate =
  dstep :: base64_decodestep
  plainchar :: u8

definition decoding :: "int list" where
  "decoding = [62,-1,-1,-1,63,52,53,54,55,56,57,58,59,60,61,-1,-1,-1,-2,-1,-1,-1,0,1,2,3,4,5,6,7,8,9,
    10,11,12,13,14,15,16,17,18,19,20,21,22,23,24,25,-1,-1,-1,-1,-1,-1,26,27,28,29,30,31,32,33,34,35,36,
    37,38,39,40,41,42,43,44,45,46,47,48,49,50,51]"

definition base64_decode_value :: "(int \<Rightarrow> u8) \<Rightarrow> u8 \<Rightarrow> int" where
  "base64_decode_value oob value_in =
    (let v = sint (value_in - 43) in
     if v < 0 \<or> v > int (length decoding) then -1
     else if v < int (length decoding) then decoding ! nat v else sint (oob v))"

definition base64_init_decodestate :: base64_decodestate where
  "base64_init_decodestate = \<lparr>dstep = step_a, plainchar = 0\<rparr>"

text \<open>
  The loop of \<open>base64_decode_block\<close>: \<open>buf\<close> is the memory at \<open>plaintext_out\<close>, \<open>pos\<close> the offset of
  \<open>plainchar\<close>.  Characters whose value is negative are skipped.  The end of the input saves the
  byte under \<open>plainchar\<close> and returns the offset.
\<close>

primrec base64_decode_loop :: "(int \<Rightarrow> u8) \<Rightarrow> u8 list \<Rightarrow> base64_decodestep \<Rightarrow> u8 list \<Rightarrow> nat \<Rightarrow>
    nat \<times> u8 list \<times> base64_decodestate" where
  "base64_decode_loop oob [] step buf pos = (pos, buf, \<lparr>dstep = step, plainchar = buf ! pos\<rparr>)"
| "base64_decode_loop oob (c # cs) step buf pos =
    (let fragment = word_of_int (base64_decode_value oob c) :: u8 in
     if sint fragment < 0 then base64_decode_loop oob cs step buf pos
     else case step of
       step_a \<Rightarrow>
         (let buf = buf[pos := push_bit 2 (fragment AND 0x3f)]
          in base64_decode_loop oob cs step_b buf pos)
     | step_b \<Rightarrow>
         (let buf = buf[pos := buf ! pos OR drop_bit 4 (fragment AND 0x30)];
              pos = pos + 1;
              buf = buf[pos := push_bit 4 (fragment AND 0x0f)]
          in base64_decode_loop oob cs step_c buf pos)
     | step_c \<Rightarrow>
         (let buf = buf[pos := buf ! pos OR drop_bit 2 (fragment AND 0x3c)];
              pos = pos + 1;
              buf = buf[pos := push_bit 6 (fragment AND 0x03)]
          in base64_decode_loop oob cs step_d buf pos)
     | step_d \<Rightarrow>
         (let buf = buf[pos := buf ! pos OR (fragment AND 0x3f)];
              pos = pos + 1
          in base64_decode_loop oob cs step_a buf pos))"

definition base64_decode_block :: "(int \<Rightarrow> u8) \<Rightarrow> u8 list \<Rightarrow> u8 list \<Rightarrow> base64_decodestate \<Rightarrow>
    nat \<times> u8 list \<times> base64_decodestate" where
  "base64_decode_block oob code_in buf st =
    base64_decode_loop oob code_in (dstep st) (buf[0 := plainchar st]) 0"

section \<open>The coding tables\<close>

lemma u8_eqI: "(\<And>n. n \<in> {0, 1, 2, 3, 4, 5, 6, 7} \<Longrightarrow> bit a n = bit (b :: u8) n) \<Longrightarrow> a = b"
proof (rule bit_word_eqI)
  fix n assume "n < LENGTH(8)"
  then have "n \<in> {0, 1, 2, 3, 4, 5, 6, 7}" by (simp only: insert_iff) (simp; linarith)
  moreover assume "\<And>n. n \<in> {0, 1, 2, 3, 4, 5, 6, 7} \<Longrightarrow> bit a n = bit b n"
  ultimately show "bit a n = bit b n" by blast
qed

lemma sint_code:
  assumes "v < 64"
  shows "sint v = uint (v :: u8)"
proof -
  have lt: "uint v < 64" using assms by (simp add: word_less_def)
  have "- (2 ^ (LENGTH(8) - Suc 0)) \<le> uint v" by (rule order_trans [of _ 0]) simp_all
  moreover have "uint v < 2 ^ (LENGTH(8) - Suc 0)" by (rule less_le_trans [OF lt]) simp
  ultimately show ?thesis
    unfolding sint_uint by (intro signed_take_bit_int_eq_self)
qed

lemma table_codes:
  "list_all (\<lambda>k. decoding ! nat (sint (encoding ! k - 43)) = int k \<and>
     0 \<le> sint (encoding ! k - 43) \<and> sint (encoding ! k - 43) < int (length decoding)) [0..<64]"
  by (simp add: encoding_def ascii_def decoding_def upt_rec)

lemma encode_value:
  assumes "v < 64"
  shows "base64_encode_value oob v = encoding ! unat v"
proof -
  have "unat v < 64" using assms by (simp add: word_less_nat_alt)
  then have "\<not> int (unat v) > 63" and "0 \<le> int (unat v)" by linarith+
  moreover have "sint v = int (unat v)" using sint_code [OF assms] by simp
  ultimately show ?thesis
    by (simp only: base64_encode_value_def if_False if_True nat_int)
qed

lemma decode_encode_value:
  assumes "v < 64"
  shows "base64_decode_value oob (base64_encode_value oob v) = uint v"
proof -
  have "unat v < 64" using assms by (simp add: word_less_nat_alt)
  then have "decoding ! nat (sint (encoding ! unat v - 43)) = int (unat v) \<and>
     0 \<le> sint (encoding ! unat v - 43) \<and> sint (encoding ! unat v - 43) < int (length decoding)"
    using table_codes by (simp only: list_all_iff) simp
  then show ?thesis
    by (simp add: base64_decode_value_def Let_def encode_value [OF assms])
qed

text \<open>The values of the characters the decoder does not skip.\<close>

definition frags :: "(int \<Rightarrow> u8) \<Rightarrow> u8 list \<Rightarrow> u8 list" where
  "frags oob cs = filter (\<lambda>f. 0 \<le> sint f) (map (\<lambda>c. word_of_int (base64_decode_value oob c)) cs)"

lemma frags_append [simp]: "frags oob (xs @ ys) = frags oob xs @ frags oob ys"
  by (simp add: frags_def)

lemma frags_Nil [simp]: "frags oob [] = []"
  by (simp add: frags_def)

lemma frags_code [simp]:
  assumes "v < 64"
  shows "frags oob [base64_encode_value oob v] = [v]"
  by (simp add: frags_def decode_encode_value [OF assms] sint_code [OF assms])

lemma frags_pad [simp]: "frags oob [0x3d] = []" "frags oob [0x3d, 0x3d] = []" "frags oob [0x0a] = []"
  "frags oob [0x3d, 0x3d, 0x0a] = []" "frags oob [0x3d, 0x0a] = []"
  by (simp_all add: frags_def base64_decode_value_def decoding_def)

section \<open>Decoding without the buffer\<close>

primrec dec :: "u8 list \<Rightarrow> base64_decodestep \<Rightarrow> u8 \<Rightarrow> u8 list \<times> base64_decodestep \<times> u8" where
  "dec [] s cur = ([], s, cur)"
| "dec (f # fs) s cur =
    (case s of
       step_a \<Rightarrow> dec fs step_b (push_bit 2 (f AND 0x3f))
     | step_b \<Rightarrow> map_prod ((#) (cur OR drop_bit 4 (f AND 0x30))) id (dec fs step_c (push_bit 4 (f AND 0x0f)))
     | step_c \<Rightarrow> map_prod ((#) (cur OR drop_bit 2 (f AND 0x3c))) id (dec fs step_d (push_bit 6 (f AND 0x03)))
     | step_d \<Rightarrow> map_prod ((#) (cur OR (f AND 0x3f))) id (dec fs step_a 0))"

lemma dec_append:
  "dec (xs @ ys) s c = (let (out, s, c) = dec xs s c in map_prod ((@) out) id (dec ys s c))"
  by (induction xs arbitrary: s c)
    (auto simp: Let_def map_prod_def split: base64_decodestep.split prod.split)

lemma dec_step_a:
  "dec fs step_a c = (out, s, d) \<Longrightarrow> \<exists>d'. dec fs step_a c' = (out, s, d') \<and> (s \<noteq> step_a \<longrightarrow> d' = d)"
  by (cases fs) auto

text \<open>What a run of the loop leaves: the bytes \<open>out\<close> from \<open>pos\<close> on, and one byte more touched.\<close>

definition decoded :: "nat \<times> u8 list \<times> base64_decodestate \<Rightarrow> u8 list \<Rightarrow> nat \<Rightarrow> u8 list \<Rightarrow>
    base64_decodestep \<Rightarrow> u8 \<Rightarrow> bool" where
  "decoded r buf pos out s c \<longleftrightarrow>
    (case r of (n, buf', st) \<Rightarrow> n = pos + length out \<and> length buf' = length buf \<and>
       take n buf' = take pos buf @ out \<and> drop (Suc n) buf' = drop (Suc n) buf \<and>
       dstep st = s \<and> (s \<noteq> step_a \<longrightarrow> plainchar st = c))"

lemma decoded_emit:
  "decoded r (buf[pos := x, Suc pos := y]) (Suc pos) out s c \<Longrightarrow> pos < length buf \<Longrightarrow>
    decoded r buf pos (x # out) s c"
  "decoded r (buf[pos := x]) (Suc pos) out s c \<Longrightarrow> pos < length buf \<Longrightarrow> decoded r buf pos (x # out) s c"
  by (auto simp: decoded_def take_Suc_conv_app_nth)

lemma decoded_update: "decoded r (buf[pos := x]) pos out s c \<Longrightarrow> decoded r buf pos out s c"
  by (auto simp: decoded_def)

lemma decode_loop_dec:
  assumes "dec (frags oob cs) step (buf ! pos) = (out, s, c)" and "pos + length out < length buf"
  shows "decoded (base64_decode_loop oob cs step buf pos) buf pos out s c"
  using assms
proof (induction cs arbitrary: step buf pos out c)
  case Nil
  then show ?case by (auto simp: decoded_def)
next
  case (Cons x cs)
  let ?f = "word_of_int (base64_decode_value oob x) :: u8"
  show ?case
  proof (cases "sint ?f < 0")
    case True
    then show ?thesis using Cons by (simp add: frags_def Let_def)
  next
    case False
    then have fr: "frags oob (x # cs) = ?f # frags oob cs" by (simp add: frags_def)
    note loop = base64_decode_loop.simps(2) Let_def if_not_P [OF False] base64_decodestep.case Suc_eq_plus1 [symmetric]
    show ?thesis
    proof (cases step)
      case step_a
      show ?thesis
        unfolding step_a loop by (rule decoded_update [OF Cons.IH]) (use Cons.prems step_a in \<open>simp_all add: fr\<close>)
    next
      case step_b
      with Cons.prems obtain o' where "out = (buf ! pos OR drop_bit 4 (?f AND 0x30)) # o'"
          "dec (frags oob cs) step_c (push_bit 4 (?f AND 0x0f)) = (o', s, c)"
        by (cases "dec (frags oob cs) step_c (push_bit 4 (?f AND 0x0f))") (auto simp: fr)
      then show ?thesis
        using Cons.prems(2) unfolding step_b loop by (auto intro!: decoded_emit(1) Cons.IH)
    next
      case step_c
      with Cons.prems obtain o' where "out = (buf ! pos OR drop_bit 2 (?f AND 0x3c)) # o'"
          "dec (frags oob cs) step_d (push_bit 6 (?f AND 0x03)) = (o', s, c)"
        by (cases "dec (frags oob cs) step_d (push_bit 6 (?f AND 0x03))") (auto simp: fr)
      then show ?thesis
        using Cons.prems(2) unfolding step_c loop by (auto intro!: decoded_emit(1) Cons.IH)
    next
      case step_d
      with Cons.prems obtain o' where o': "out = (buf ! pos OR (?f AND 0x3f)) # o'"
          "dec (frags oob cs) step_a 0 = (o', s, c)"
        by (cases "dec (frags oob cs) step_a 0") (auto simp: fr)
      then obtain c' where "dec (frags oob cs) step_a (buf ! Suc pos) = (o', s, c')" "s \<noteq> step_a \<longrightarrow> c' = c"
        using dec_step_a by blast
      then have "decoded (base64_decode_loop oob cs step_a (buf[pos := buf ! pos OR (?f AND 0x3f)]) (Suc pos))
          (buf[pos := buf ! pos OR (?f AND 0x3f)]) (Suc pos) o' s c'"
        using Cons.prems(2) o'(1) by (intro Cons.IH) simp_all
      then have "decoded (base64_decode_loop oob cs step_a (buf[pos := buf ! pos OR (?f AND 0x3f)]) (Suc pos))
          (buf[pos := buf ! pos OR (?f AND 0x3f)]) (Suc pos) o' s c"
        using \<open>s \<noteq> step_a \<longrightarrow> c' = c\<close> by (auto simp: decoded_def)
      then show ?thesis
        using Cons.prems(2) o'(1) unfolding step_d loop by (auto intro!: decoded_emit(2))
    qed
  qed
qed

section \<open>The encoder seen by the decoder\<close>

lemma less_64: "v AND 63 = v \<Longrightarrow> (v :: u8) < 64"
proof -
  assume v: "v AND 63 = v"
  have "v AND 63 = take_bit 6 v"
    unfolding take_bit_eq_mask by (simp add: mask_eq_exp_minus_1)
  then have "take_bit 6 v = v" using v by simp
  then have "unat v mod 2 ^ 6 = unat v"
    by (metis take_bit_eq_mod unsigned_take_bit_eq)
  moreover have "unat v mod 2 ^ 6 < 2 ^ 6" by (rule mod_less_divisor) simp
  ultimately have "unat v < 64" by simp
  then show ?thesis by (simp add: word_less_nat_alt)
qed

text \<open>What the decoder rebuilds from the pieces of a byte \<open>f\<close> or \<open>g\<close>.\<close>

lemma code_bits:
  fixes f g :: u8
  shows "drop_bit 2 (f AND 0xfc) AND 63 = drop_bit 2 (f AND 0xfc)"
    and "push_bit 2 (drop_bit 2 (f AND 0xfc) AND 0x3f) = f AND 0xfc"
    and "(push_bit 4 (g AND 0x03) OR drop_bit 4 (f AND 0xf0)) AND 63 = push_bit 4 (g AND 0x03) OR drop_bit 4 (f AND 0xf0)"
    and "(g AND 0xfc) OR drop_bit 4 ((push_bit 4 (g AND 0x03) OR drop_bit 4 (f AND 0xf0)) AND 0x30) = g"
    and "push_bit 4 ((push_bit 4 (g AND 0x03) OR drop_bit 4 (f AND 0xf0)) AND 0x0f) = f AND 0xf0"
    and "(push_bit 2 (g AND 0x0f) OR drop_bit 6 (f AND 0xc0)) AND 63 = push_bit 2 (g AND 0x0f) OR drop_bit 6 (f AND 0xc0)"
    and "(g AND 0xf0) OR drop_bit 2 ((push_bit 2 (g AND 0x0f) OR drop_bit 6 (f AND 0xc0)) AND 0x3c) = g"
    and "push_bit 6 ((push_bit 2 (g AND 0x0f) OR drop_bit 6 (f AND 0xc0)) AND 0x03) = f AND 0xc0"
    and "drop_bit 0 (f AND 0x3f) AND 63 = drop_bit 0 (f AND 0x3f)"
    and "(f AND 0xc0) OR (drop_bit 0 (f AND 0x3f) AND 0x3f) = f"
  by (rule u8_eqI, elim insertE emptyE; simp add: bit_simps)+

lemma code_tail_bits:
  fixes g :: u8
  shows "push_bit 4 (g AND 0x03) AND 63 = push_bit 4 (g AND 0x03)"
    and "(g AND 0xfc) OR drop_bit 4 (push_bit 4 (g AND 0x03) AND 0x30) = g"
    and "push_bit 2 (g AND 0x0f) AND 63 = push_bit 2 (g AND 0x0f)"
    and "(g AND 0xf0) OR drop_bit 2 (push_bit 2 (g AND 0x0f) AND 0x3c) = g"
  by (rule u8_eqI, elim insertE emptyE; simp add: bit_simps)+

text \<open>
  The state of the encoder after the bytes \<open>m\<close>, against that of a decoder that has read the text
  \<open>out\<close> written so far: at step B and C one byte is pending, its upper bits in the decoder and
  its lower bits in \<open>result\<close>.
\<close>

definition coded :: "(int \<Rightarrow> u8) \<Rightarrow> base64_encodestate \<Rightarrow> u8 list \<Rightarrow> u8 list \<Rightarrow> bool" where
  "coded oob st out m \<longleftrightarrow>
    (case estep st of
       step_A \<Rightarrow> dec (frags oob out) step_a 0 = (m, step_a, 0)
     | step_B \<Rightarrow> \<exists>m' g. m = m' @ [g] \<and> result st = push_bit 4 (g AND 0x03) \<and>
         dec (frags oob out) step_a 0 = (m', step_b, g AND 0xfc)
     | step_C \<Rightarrow> \<exists>m' g. m = m' @ [g] \<and> result st = push_bit 2 (g AND 0x0f) \<and>
         dec (frags oob out) step_a 0 = (m', step_c, g AND 0xf0))"

lemmas code_frags = frags_code [OF less_64, OF code_bits(1)] frags_code [OF less_64, OF code_bits(3)]
  frags_code [OF less_64, OF code_bits(6)] frags_code [OF less_64, OF code_bits(9)]
  frags_code [OF less_64, OF code_tail_bits(1)] frags_code [OF less_64, OF code_tail_bits(3)]

text \<open>The text grows by one code: how the decoder's result changes.\<close>

lemma coded_A:
  assumes "estep st = step_A" and "coded oob st out m"
  shows "coded oob (st\<lparr>estep := step_B, result := push_bit 4 (f AND 0x03)\<rparr>)
    (out @ [base64_encode_value oob (drop_bit 2 (f AND 0xfc))]) (m @ [f])"
proof -
  have "dec (frags oob out) step_a 0 = (m, step_a, 0)"
    using assms by (simp add: coded_def)
  moreover have "dec [drop_bit 2 (f AND 0xfc)] step_a 0 = ([], step_b, f AND 0xfc)"
    by (simp only: dec.simps base64_decodestep.case code_bits(2))
  ultimately have "dec (frags oob (out @ [base64_encode_value oob (drop_bit 2 (f AND 0xfc))])) step_a 0 =
      (m, step_b, f AND 0xfc)"
    by (simp only: frags_append code_frags dec_append Let_def prod.case map_prod_simp append_Nil2 id_apply)
  then show ?thesis
    by (simp only: coded_def) simp
qed

lemma coded_B:
  assumes "estep st = step_B" and "coded oob st out m"
  shows "coded oob (st\<lparr>estep := step_C, result := push_bit 2 (f AND 0x0f)\<rparr>)
    (out @ [base64_encode_value oob (result st OR drop_bit 4 (f AND 0xf0))]) (m @ [f])"
proof -
  obtain m' g where m: "m = m' @ [g]" and r: "result st = push_bit 4 (g AND 0x03)"
    and d: "dec (frags oob out) step_a 0 = (m', step_b, g AND 0xfc)"
    using assms by (auto simp: coded_def)
  have "dec [result st OR drop_bit 4 (f AND 0xf0)] step_b (g AND 0xfc) = ([g], step_c, f AND 0xf0)"
    by (simp only: dec.simps base64_decodestep.case r code_bits(4,5) map_prod_simp id_apply)
  then have "dec (frags oob (out @ [base64_encode_value oob (result st OR drop_bit 4 (f AND 0xf0))])) step_a 0 =
      (m, step_c, f AND 0xf0)"
    by (simp only: frags_append code_frags r dec_append d Let_def prod.case map_prod_simp id_apply m)
  then show ?thesis
    by (simp only: coded_def) simp
qed

lemma coded_C:
  assumes "estep st = step_C" and "coded oob st out m"
  shows "dec (frags oob ((out @ [base64_encode_value oob (result st OR drop_bit 6 (f AND 0xc0))]) @
      [base64_encode_value oob (drop_bit 0 (f AND 0x3f))])) step_a 0 = (m @ [f], step_a, 0)"
proof -
  obtain m' g where m: "m = m' @ [g]" and r: "result st = push_bit 2 (g AND 0x0f)"
    and d: "dec (frags oob out) step_a 0 = (m', step_c, g AND 0xf0)"
    using assms by (auto simp: coded_def)
  have "dec [result st OR drop_bit 6 (f AND 0xc0)] step_c (g AND 0xf0) = ([g], step_d, f AND 0xc0)"
    by (simp only: dec.simps base64_decodestep.case r code_bits(7,8) map_prod_simp id_apply)
  moreover have "dec [drop_bit 0 (f AND 0x3f)] step_d (f AND 0xc0) = ([f], step_a, 0)"
    by (simp only: dec.simps base64_decodestep.case code_bits(10) map_prod_simp id_apply)
  ultimately show ?thesis
    by (simp only: frags_append code_frags r dec_append d Let_def prod.case map_prod_simp id_apply m)
qed

lemma encode_loop_coded:
  "coded oob st out m \<Longrightarrow>
    (case base64_encode_loop oob ps st out of (out', st') \<Rightarrow> coded oob st' out' (m @ ps))"
proof (induction ps arbitrary: st out m)
  case Nil
  then show ?case by simp
next
  case (Cons f ps)
  have IH: "coded oob st' out' (m @ [f]) \<Longrightarrow>
      (case base64_encode_loop oob ps st' out' of (out'', st'') \<Rightarrow> coded oob st'' out'' (m @ f # ps))" for st' out'
    using Cons.IH [of st' out' "m @ [f]"] by simp
  note loop = base64_encode_loop.simps(2) Let_def base64_encodestep.case
  show ?case
  proof (cases "estep st")
    case step_A
    show ?thesis
      unfolding loop step_A by (intro IH coded_A Cons.prems step_A)
  next
    case step_B
    show ?thesis
      unfolding loop step_B by (intro IH coded_B Cons.prems step_B)
  next
    case step_C
    define out2 where "out2 = (out @ [base64_encode_value oob (result st OR drop_bit 6 (f AND 0xc0))]) @
      [base64_encode_value oob (drop_bit 0 (f AND 0x3f))]"
    have "dec (frags oob out2) step_a 0 = (m @ [f], step_a, 0)"
      unfolding out2_def by (rule coded_C [OF step_C Cons.prems])
    then have A: "coded oob st' out2 (m @ [f])" "coded oob st' (out2 @ [0x0a]) (m @ [f])"
      if "estep st' = step_A" for st'
      using that by (simp_all add: coded_def)
    show ?thesis
      unfolding loop step_C out2_def [symmetric] by (simp add: IH A)
  qed
qed

section \<open>Coding in pieces\<close>

text \<open>How a caller uses the two coders: piece after piece, the outputs appended; every call of the
  decoder has an output buffer of its own.\<close>

definition b64_push :: "(int \<Rightarrow> u8) \<Rightarrow> base64_encodestate \<times> u8 list \<Rightarrow> u8 list \<Rightarrow> base64_encodestate \<times> u8 list" where
  "b64_push oob s d = (let (txt, st) = base64_encode_block oob d (fst s) in (st, snd s @ txt))"

definition b64_encode :: "(int \<Rightarrow> u8) \<Rightarrow> int \<Rightarrow> u8 list list \<Rightarrow> u8 list" where
  "b64_encode oob ll ds =
    (let (st, out) = foldl (b64_push oob) (base64_init_encodestate ll, []) ds
     in out @ base64_encode_blockend oob st)"

definition b64_pull :: "(int \<Rightarrow> u8) \<Rightarrow> base64_decodestate \<times> u8 list \<Rightarrow> u8 list \<times> u8 list \<Rightarrow>
    base64_decodestate \<times> u8 list" where
  "b64_pull oob s p =
    (let (n, buf, st) = base64_decode_block oob (fst p) (snd p) (fst s) in (st, snd s @ take n buf))"

definition b64_decode :: "(int \<Rightarrow> u8) \<Rightarrow> (u8 list \<times> u8 list) list \<Rightarrow> u8 list" where
  "b64_decode oob cbs = snd (foldl (b64_pull oob) (base64_init_decodestate, []) cbs)"

lemma encode_loop_out:
  "base64_encode_loop oob ps st out = (out @ fst (base64_encode_loop oob ps st []), snd (base64_encode_loop oob ps st []))"
proof (induction ps arbitrary: st out)
  case (Cons f ps)
  have IH: "base64_encode_loop oob ps st' (x # xs) =
      ((x # xs) @ fst (base64_encode_loop oob ps st' []), snd (base64_encode_loop oob ps st' []))" for st' x xs
    by (rule Cons.IH)
  have IH': "base64_encode_loop oob ps st' (out @ xs) =
      (out @ xs @ fst (base64_encode_loop oob ps st' []), snd (base64_encode_loop oob ps st' []))" for st' xs
    using Cons.IH [of st' "out @ xs"] by simp
  show ?case
    by (simp add: IH IH' Let_def split: base64_encodestep.split)
qed simp

lemma encode_loop_append:
  "base64_encode_loop oob (xs @ ys) st out =
    (case base64_encode_loop oob xs st out of (out, st) \<Rightarrow> base64_encode_loop oob ys st out)"
  by (induction xs arbitrary: st out) (auto simp: Let_def split: base64_encodestep.split)

lemma encode_pieces:
  "foldl (b64_push oob) (st, out) ds = prod.swap (base64_encode_loop oob (concat ds) st out)"
proof (induction ds arbitrary: st out)
  case (Cons d ds)
  have "b64_push oob (st, out) d = prod.swap (base64_encode_loop oob d st out)"
    using encode_loop_out [of oob d st out]
    by (simp add: b64_push_def base64_encode_block_def case_prod_unfold Let_def)
  then show ?case
    by (cases "base64_encode_loop oob d st out") (simp add: Cons.IH encode_loop_append)
qed simp

lemma blockend_coded:
  assumes "coded oob st out m"
  shows "fst (dec (frags oob (out @ base64_encode_blockend oob st)) step_a 0) = m"
proof -
  have nl: "frags oob (if b then [0x0a] else []) = []" for b by simp
  show ?thesis
  proof (cases "estep st")
    case step_A
    then show ?thesis
      using assms nl by (simp add: coded_def base64_encode_blockend_def)
  next
    case step_B
    then obtain m' g where m: "m = m' @ [g]" and r: "result st = push_bit 4 (g AND 0x03)"
      and d: "dec (frags oob out) step_a 0 = (m', step_b, g AND 0xfc)"
      using assms by (auto simp: coded_def)
    have "frags oob (base64_encode_blockend oob st) = frags oob [base64_encode_value oob (result st)] @ frags oob [0x3d, 0x3d]"
      using step_B frags_append [of oob "[base64_encode_value oob (result st)]" "[0x3d, 0x3d]"]
        frags_append [of oob "[base64_encode_value oob (result st)]" "[0x3d, 0x3d, 0x0a]"]
      by (simp add: base64_encode_blockend_def)
    also have "\<dots> = [result st]"
      by (simp only: r code_frags frags_pad append_Nil2)
    finally show ?thesis
      by (simp only: frags_append dec_append d Let_def prod.case dec.simps base64_decodestep.case r
          code_tail_bits(2) map_prod_simp fst_conv m)
  next
    case step_C
    then obtain m' g where m: "m = m' @ [g]" and r: "result st = push_bit 2 (g AND 0x0f)"
      and d: "dec (frags oob out) step_a 0 = (m', step_c, g AND 0xf0)"
      using assms by (auto simp: coded_def)
    have "frags oob (base64_encode_blockend oob st) = frags oob [base64_encode_value oob (result st)] @ frags oob [0x3d]"
      using step_C frags_append [of oob "[base64_encode_value oob (result st)]" "[0x3d]"]
        frags_append [of oob "[base64_encode_value oob (result st)]" "[0x3d, 0x0a]"]
      by (simp add: base64_encode_blockend_def)
    also have "\<dots> = [result st]"
      by (simp only: r code_frags frags_pad append_Nil2)
    finally show ?thesis
      by (simp only: frags_append dec_append d Let_def prod.case dec.simps base64_decodestep.case r
          code_tail_bits(4) map_prod_simp fst_conv m)
  qed
qed

lemma encode_decodes:
  "fst (dec (frags oob (b64_encode oob ll ds)) step_a 0) = concat ds"
proof -
  let ?st = "base64_init_encodestate ll"
  obtain out st where r: "base64_encode_loop oob (concat ds) ?st [] = (out, st)" by fastforce
  have "coded oob ?st [] []" by (simp add: coded_def base64_init_encodestate_def)
  from encode_loop_coded [OF this, of "concat ds"] have "coded oob st out (concat ds)" by (simp add: r)
  then show ?thesis
    by (simp add: b64_encode_def encode_pieces r blockend_coded del: frags_append)
qed

lemma decode_block_dec:
  assumes "dec (frags oob cs) s c = (out, s', c')" and "dstep st = s" and "s \<noteq> step_a \<longrightarrow> plainchar st = c"
    and "length out < length buf"
  shows "decoded (base64_decode_block oob cs buf st) (buf[0 := plainchar st]) 0 out s' c'"
proof -
  have hd: "buf[0 := plainchar st] ! 0 = plainchar st"
    using assms(4) by (cases buf) simp_all
  obtain d where d: "dec (frags oob cs) s (plainchar st) = (out, s', d)" "s' \<noteq> step_a \<longrightarrow> d = c'"
    using assms(1,3) dec_step_a [of "frags oob cs" c out s' c'] by (cases "s = step_a") auto
  have "decoded (base64_decode_block oob cs buf st) (buf[0 := plainchar st]) 0 out s' d"
    using d(1) assms(2,4) hd by (simp add: base64_decode_block_def decode_loop_dec)
  then show ?thesis using d(2) by (auto simp: decoded_def)
qed

lemma length_dec:
  "length (fst (dec fs s c)) + (case s of step_a \<Rightarrow> 0 | step_b \<Rightarrow> 0 | step_c \<Rightarrow> 1 | step_d \<Rightarrow> 2) =
    3 * ((case s of step_a \<Rightarrow> 0 | step_b \<Rightarrow> 1 | step_c \<Rightarrow> 2 | step_d \<Rightarrow> 3) + length fs) div 4"
proof (induction fs arbitrary: s c)
  case Nil
  then show ?case by (cases s) simp_all
next
  case (Cons f fs)
  show ?case
    using Cons.IH [of step_b "push_bit 2 (f AND 0x3f)"] Cons.IH [of step_c "push_bit 4 (f AND 0x0f)"]
      Cons.IH [of step_d "push_bit 6 (f AND 0x03)"] Cons.IH [of step_a 0]
    by (cases s) (simp_all add: case_prod_unfold)
qed

lemma decode_pieces:
  assumes "\<forall>(cs, buf) \<in> set cbs. length cs < length buf" and "dstep st = s" and "s \<noteq> step_a \<longrightarrow> plainchar st = c"
  shows "snd (foldl (b64_pull oob) (st, out) cbs) = out @ fst (dec (frags oob (concat (map fst cbs))) s c)"
  using assms
proof (induction cbs arbitrary: st s c out)
  case (Cons cb cbs)
  obtain cs buf where cb: "cb = (cs, buf)" by (cases cb)
  obtain o1 s1 c1 where d: "dec (frags oob cs) s c = (o1, s1, c1)" by (metis prod_cases3)
  have "length o1 \<le> length (frags oob cs)"
    using length_dec [of "frags oob cs" s c] d by (cases s) auto
  also have "\<dots> \<le> length cs" by (simp add: frags_def length_filter_le [THEN order_trans])
  finally have "length o1 < length buf" using Cons.prems(1) by (auto simp: cb)
  from decode_block_dec [OF d Cons.prems(2,3) this]
  obtain n buf' st' where r: "base64_decode_block oob cs buf st = (n, buf', st')"
    and o1: "take n buf' = o1" and st': "dstep st' = s1" "s1 \<noteq> step_a \<longrightarrow> plainchar st' = c1"
    by (auto simp: decoded_def)
  show ?case
    using Cons.IH [OF _ st', of "out @ o1"] Cons.prems(1)
    by (simp add: b64_pull_def cb r o1 d dec_append Let_def case_prod_unfold)
qed simp

section \<open>RFC 4648\<close>

text \<open>Three bytes are a 24-bit number whose four 6-bit digits are coded; a last group of one or
  two bytes is filled up with zero bits and padded.\<close>

definition group24 :: "u8 \<Rightarrow> u8 \<Rightarrow> u8 \<Rightarrow> u32" where
  "group24 a b c = push_bit 16 (ucast a) OR push_bit 8 (ucast b) OR ucast c"

definition digit64 :: "u32 \<Rightarrow> nat \<Rightarrow> u8" where
  "digit64 n i = encoding ! unat (take_bit 6 (drop_bit (6 * i) n))"

fun b64_spec :: "u8 list \<Rightarrow> u8 list" where
  "b64_spec [] = []"
| "b64_spec [a] = (let n = group24 a 0 0 in [digit64 n 3, digit64 n 2, 0x3d, 0x3d])"
| "b64_spec [a, b] = (let n = group24 a b 0 in [digit64 n 3, digit64 n 2, digit64 n 1, 0x3d])"
| "b64_spec (a # b # c # ms) =
    (let n = group24 a b c in [digit64 n 3, digit64 n 2, digit64 n 1, digit64 n 0] @ b64_spec ms)"

lemma u32_eqI: "(\<And>n. n < 6 \<Longrightarrow> bit a n = bit b n) \<Longrightarrow> (\<And>n. 6 \<le> n \<Longrightarrow> \<not> bit a n \<and> \<not> bit b n) \<Longrightarrow> a = (b :: u32)"
  by (rule bit_word_eqI) (metis not_le)

lemma less_6: "(n :: nat) < 6 \<Longrightarrow> n \<in> {0, 1, 2, 3, 4, 5}"
  by (simp only: insert_iff) (simp; linarith)

lemma small_mask: "take_bit 6 w = w \<Longrightarrow> bit w n \<Longrightarrow> n < 6"
  by (metis bit_take_bit_iff)

lemmas small_masks = small_mask [of "48 :: int", simplified] small_mask [of "60 :: int", simplified]
  small_mask [of "63 :: int", simplified]

lemma digit64_bits:
  fixes a b c :: u8
  shows "take_bit 6 (drop_bit (6 * 3) (group24 a b c)) = ucast (drop_bit 2 (a AND 0xfc))"
    and "take_bit 6 (drop_bit (6 * 2) (group24 a b c)) = ucast (push_bit 4 (a AND 0x03) OR drop_bit 4 (b AND 0xf0))"
    and "take_bit 6 (drop_bit (6 * 1) (group24 a b c)) = ucast (push_bit 2 (b AND 0x0f) OR drop_bit 6 (c AND 0xc0))"
    and "take_bit 6 (drop_bit (6 * 0) (group24 a b c)) = ucast (drop_bit 0 (c AND 0x3f))"
proof -
  note b = group24_def bit_simps
  show "take_bit 6 (drop_bit (6 * 3) (group24 a b c)) = ucast (drop_bit 2 (a AND 0xfc))"
    by (rule u32_eqI; (drule less_6, elim insertE emptyE)?; simp add: b; auto dest: bit_imp_le_length small_masks)
  show "take_bit 6 (drop_bit (6 * 2) (group24 a b c)) = ucast (push_bit 4 (a AND 0x03) OR drop_bit 4 (b AND 0xf0))"
    by (rule u32_eqI; (drule less_6, elim insertE emptyE)?; simp add: b; auto dest: bit_imp_le_length small_masks)
  show "take_bit 6 (drop_bit (6 * 1) (group24 a b c)) = ucast (push_bit 2 (b AND 0x0f) OR drop_bit 6 (c AND 0xc0))"
    by (rule u32_eqI; (drule less_6, elim insertE emptyE)?; simp add: b; auto dest: bit_imp_le_length small_masks)
  show "take_bit 6 (drop_bit (6 * 0) (group24 a b c)) = ucast (drop_bit 0 (c AND 0x3f))"
    by (rule u32_eqI; (drule less_6, elim insertE emptyE)?; simp add: b; auto dest: bit_imp_le_length small_masks)
qed

lemma unat_ucast_32: "unat (ucast (x :: u8) :: u32) = unat x"
  using unsigned_less [of x, where 'a = nat]
  by (simp add: unsigned_ucast_eq take_bit_nat_eq_self_iff)

lemmas code_values = encode_value [OF less_64, OF code_bits(1), simplified]
  encode_value [OF less_64, OF code_bits(3), simplified] encode_value [OF less_64, OF code_bits(6), simplified]
  encode_value [OF less_64, OF code_bits(9), simplified] encode_value [OF less_64, OF code_tail_bits(1), simplified]
  encode_value [OF less_64, OF code_tail_bits(3), simplified]

lemma digit64_code:
  "digit64 (group24 a b c) 3 = encoding ! unat (drop_bit 2 (a AND 0xfc))"
  "digit64 (group24 a b c) 2 = encoding ! unat (push_bit 4 (a AND 0x03) OR drop_bit 4 (b AND 0xf0))"
  "digit64 (group24 a b c) (Suc 0) = encoding ! unat (push_bit 2 (b AND 0x0f) OR drop_bit 6 (c AND 0xc0))"
  "digit64 (group24 a b c) 0 = encoding ! unat (drop_bit 0 (c AND 0x3f))"
  by (simp_all only: digit64_def digit64_bits [unfolded One_nat_def] unat_ucast_32)

lemma encode_group:
  assumes "estep st = step_A" and "lineLength st \<le> 0"
  shows "base64_encode_loop oob (a # b # c # ms) st out =
    (let n = group24 a b c in base64_encode_loop oob ms
      (st\<lparr>estep := step_A, result := c AND 0x3f\<rparr>) (out @ [digit64 n 3, digit64 n 2, digit64 n 1, digit64 n 0]))"
  using assms by (simp add: Let_def digit64_code code_values)

lemma digit64_tail:
  "digit64 (group24 a 0 0) 2 = encoding ! unat (push_bit 4 (a AND 0x03))"
  "digit64 (group24 a b 0) (Suc 0) = encoding ! unat (push_bit 2 (b AND 0x0f))"
  by (simp_all add: digit64_code(2,3))

lemma encode_spec:
  assumes "estep st = step_A" and "lineLength st \<le> 0"
  shows "(case base64_encode_loop oob m st out of (out', st') \<Rightarrow> out' @ base64_encode_blockend oob st') =
    out @ b64_spec m"
  using assms
proof (induction m arbitrary: st out rule: b64_spec.induct)
  case 1
  then show ?case by (simp add: base64_encode_blockend_def)
next
  case (2 a)
  then show ?case
    by (simp add: base64_encode_blockend_def Let_def digit64_code(1) digit64_tail(1) code_values)
next
  case (3 a b)
  then show ?case
    by (simp add: base64_encode_blockend_def Let_def digit64_code(1,2) digit64_tail(2) code_values)
next
  case (4 a b c ms)
  then show ?case
    by (simp add: encode_group Let_def del: base64_encode_loop.simps)
qed

section \<open>Properties\<close>

text \<open>
  C37. Round trip: whatever the line length, and however the plaintext and then the text are cut
  into pieces, decoding the encoded text gives the plaintext back; newlines and padding are
  skipped and a byte split between two calls is completed by the next.  The buffer of a call
  must have one byte more than its text.
\<close>

theorem base64_roundtrip:
  assumes "concat (map fst cbs) = b64_encode oob ll ds" and "\<forall>(cs, buf) \<in> set cbs. length cs < length buf"
  shows "b64_decode oob cbs = concat ds"
  using decode_pieces [OF assms(2), of base64_init_decodestate step_a 0 oob "[]"]
    encode_decodes [of oob ll ds] assms(1)
  by (simp add: b64_decode_def base64_init_decodestate_def)

theorem base64_roundtrip_witness:
  "b64_decode (\<lambda>_. 9) [(take 3 (b64_encode (\<lambda>_. 9) 4 [[1, 2], [3, 4, 5]]), replicate 4 0),
      (drop 3 (b64_encode (\<lambda>_. 9) 4 [[1, 2], [3, 4, 5]]), replicate 40 7)] = [1, 2, 3, 4, 5]"
proof -
  have "length (b64_encode (\<lambda>_. 9) 4 [[1, 2], [3, 4, 5]]) = 10"
    by (simp add: b64_encode_def b64_push_def base64_encode_block_def base64_init_encodestate_def
        base64_encode_blockend_def)
  then show ?thesis
    using base64_roundtrip [of "[(take 3 (b64_encode (\<lambda>_. 9) 4 [[1, 2], [3, 4, 5]]), replicate 4 0),
      (drop 3 (b64_encode (\<lambda>_. 9) 4 [[1, 2], [3, 4, 5]]), replicate 40 7)]"
      "\<lambda>_. 9" 4 "[[1, 2], [3, 4, 5]]"] by simp
qed

text \<open>
  C38. Without line breaks the encoder writes the base64 text of RFC 4648, padding included,
  however the input is cut into pieces.
\<close>

theorem base64_encode_rfc4648: "b64_encode oob 0 ds = b64_spec (concat ds)"
  using encode_spec [of "base64_init_encodestate 0" oob "concat ds" "[]"]
  by (simp add: b64_encode_def encode_pieces base64_init_encodestate_def case_prod_unfold)

lemma length_frags: "length (frags oob cs) \<le> length cs"
  by (simp add: frags_def length_filter_le [THEN order_trans])

text \<open>The byte after the returned ones is written: of a buffer of three bytes, \<open>TWE=\<close>
  overwrites the third while two bytes are returned.\<close>

lemma base64_decode_overrun:
  "base64_decode_block oob (ascii ''TWE='') [x, y, z] base64_init_decodestate =
    (2, [0x4d, 0x61, 0], \<lparr>dstep = step_d, plainchar = 0\<rparr>)"
  by (simp add: base64_decode_block_def base64_init_decodestate_def ascii_def base64_decode_value_def decoding_def)

text \<open>
  One call of the decoder on \<open>k\<close> characters returns at most \<open>(3 * k + 3) div 4\<close>
  bytes, and leaves the buffer unchanged beyond the one byte after them.
\<close>

theorem base64_decode_bounds:
  assumes "(3 * length cs + 3) div 4 < length buf" and "base64_decode_block oob cs buf st = (n, buf', st')"
  shows "n \<le> (3 * length cs + 3) div 4 \<and> length buf' = length buf \<and>
    drop (Suc n) buf' = drop (Suc n) buf"
proof (intro conjI)
  obtain out s c where d: "dec (frags oob cs) (dstep st) (plainchar st) = (out, s, c)"
    by (metis prod_cases3)
  have "length out \<le> (3 * length (frags oob cs) + 3) div 4"
    using length_dec [of "frags oob cs" "dstep st" "plainchar st"] d
    by (cases "dstep st") simp_all
  also have "\<dots> \<le> (3 * length cs + 3) div 4"
    using length_frags [of oob cs] by (intro div_le_mono) simp
  finally have n: "length out \<le> (3 * length cs + 3) div 4" .
  then have "decoded (n, buf', st') (buf[0 := plainchar st]) 0 out s c"
    using decode_block_dec [OF d refl _ , of buf] assms by simp
  then show "n \<le> (3 * length cs + 3) div 4" "length buf' = length buf" "drop (Suc n) buf' = drop (Suc n) buf"
    using n by (auto simp: decoded_def)
qed

theorem base64_decode_bounds_witness:
  "drop 4 (fst (snd (base64_decode_block (\<lambda>_. 0) [0x54, 0x57, 0x46, 0x75] [1, 2, 3, 4, 5, 6] base64_init_decodestate))) =
    [5, 6]"
proof -
  have r: "base64_decode_block (\<lambda>_. 0) [0x54, 0x57, 0x46, 0x75] [1, 2, 3, 4, 5, 6] base64_init_decodestate =
      (3, [0x4d, 0x61, 0x6e, 4, 5, 6], \<lparr>dstep = step_a, plainchar = 4\<rparr>)"
    by (simp add: base64_decode_block_def base64_init_decodestate_def base64_decode_value_def decoding_def)
  show ?thesis
    using base64_decode_bounds [OF _ r] by (simp only: r) simp
qed

lemma decoding_image:
  "list_all (\<lambda>i. 0 \<le> decoding ! i \<longrightarrow> word_of_nat (i + 43) \<in> set encoding) [0..<80]"
  by (simp add: encoding_def ascii_def decoding_def upt_rec)

lemma length_tables: "length decoding = 80" "length encoding = 64"
  by (simp_all add: decoding_def encoding_def ascii_def)

lemma decode_value_alphabet:
  assumes "c \<in> set encoding"
  shows "0 \<le> base64_decode_value oob c \<and> encoding ! nat (base64_decode_value oob c) = c"
proof -
  obtain k where k: "k < 64" "c = encoding ! k"
    using assms by (auto simp: in_set_conv_nth length_tables)
  have u: "unat (word_of_nat k :: u8) = k" using k(1) by (simp add: unat_of_nat)
  then have "(word_of_nat k :: u8) < 64" using k(1) by (simp add: word_less_nat_alt)
  from decode_encode_value [OF this, of oob] encode_value [OF this, of oob]
  have "base64_decode_value oob c = int k" using k(2) u by (metis uint_nat)
  with k(2) show ?thesis by simp
qed

lemma decode_value_other:
  assumes "c \<notin> set encoding" and "c \<noteq> 0x7b"
  shows "base64_decode_value oob c < 0"
proof (rule ccontr)
  let ?v = "sint (c - 43)"
  assume nn: "\<not> base64_decode_value oob c < 0"
  have cv: "c = word_of_int (?v + 43)" by simp
  have "?v \<noteq> 80"
  proof
    assume "?v = 80"
    then have "c = word_of_int 123" by (subst cv) simp
    then show False using assms(2) by simp
  qed
  then have v: "0 \<le> ?v" "?v < 80" "0 \<le> decoding ! nat ?v"
    using nn by (auto simp: base64_decode_value_def Let_def length_tables split: if_splits)
  have "nat ?v \<in> set [0..<80]" using v by simp
  then have "word_of_nat (nat ?v + 43) \<in> set encoding"
    using decoding_image v(3) unfolding list_all_iff by blast
  moreover have "word_of_nat (nat ?v + 43) = c"
  proof -
    have "(word_of_nat (nat ?v + 43) :: u8) = word_of_int (int (nat ?v + 43))" by simp
    also have "int (nat ?v + 43) = ?v + 43" using v(1) by simp
    also have "word_of_int (?v + 43) = c" by (rule cv [symmetric])
    finally show ?thesis .
  qed
  ultimately show False using assms(1) by simp
qed

text \<open>
  The range check of the decoding table is off by one: the table has 80 entries and the
  character 0x7b, of index 80, is not rejected; its value is the byte that follows the table.
  Every other character outside the alphabet is skipped, and every character of the alphabet
  is decoded to its place in the alphabet.
\<close>

theorem base64_decode_value_overread:
  "length decoding = 80 \<and> base64_decode_value oob 0x7b = sint (oob 80) \<and>
   (\<forall>c. c \<noteq> 0x7b \<longrightarrow>
      (if c \<in> set encoding
       then 0 \<le> base64_decode_value oob c \<and> encoding ! nat (base64_decode_value oob c) = c
       else base64_decode_value oob c < 0))"
proof (intro conjI allI impI)
  show "base64_decode_value oob 0x7b = sint (oob 80)"
    by (simp add: base64_decode_value_def length_tables)
qed (simp_all add: decode_value_alphabet decode_value_other length_tables split: if_split)

theorem base64_decode_value_overread_witness:
  "base64_decode_value (\<lambda>_. 7) 0x7b = 7 \<and> base64_decode_value (\<lambda>_. 7) 0x20 < 0"
proof -
  have "0x20 \<notin> set encoding" by (simp add: encoding_def ascii_def)
  then show ?thesis
    using base64_decode_value_overread [of "\<lambda>_. 7"] by simp
qed

end
