(* ===== verification/Lbn_Word.thy ===== *)
theory Lbn_Word
  imports Prelude
begin

text \<open>
  The ground of \<open>libs/zrtp/bnlib/lbn32.c\<close>, the multi-word arithmetic under ZRTP's
  Diffie-Hellman: a number is an array of 32-bit words, least significant first
  (\<open>BIGLITTLE\<close> is the little-endian choice), here the list of exactly the words that a call
  is given; \<open>nval\<close> is its value.  Sums and products are formed in the double-width type
  (\<open>BNWORD64\<close>), and this theory says how such a value splits into two words.
\<close>

section \<open>Words and double words\<close>

type_synonym bnword32 = u32
type_synonym bnword64 = u64

abbreviation w64 :: "u32 \<Rightarrow> u64" where "w64 x \<equiv> ucast x"
abbreviation w32 :: "u64 \<Rightarrow> u32" where "w32 t \<equiv> ucast t"

abbreviation BB :: nat where "BB \<equiv> 4294967296"

lemma unat_w64 [simp]: "unat (w64 x) = unat x"
proof -
  have "unat x < 2 ^ 32" using unsigned_less [of x, where 'a = nat] by simp
  also have "\<dots> \<le> 2 ^ 64" by (rule power_increasing) simp_all
  finally show ?thesis
    by (simp add: unsigned_ucast_eq take_bit_nat_eq_self)
qed

lemma unat_lt [simp]: "unat (x :: u32) < BB"
  using unsigned_less [of x, where 'a = nat] by simp

lemma unat_le_max: "unat (x :: u32) \<le> 4294967295"
  using unat_lt [of x] by linarith

lemma unat_w32: "unat (w32 t) = unat t mod BB"
  by (simp add: unsigned_ucast_eq take_bit_eq_mod)

lemma unat_hi: "unat (drop_bit 32 (t :: u64)) = unat t div BB"
  by (simp only: unat_drop_bit_eq) (simp add: drop_bit_eq_div)

lemma unat_lt_64: "unat (t :: u64) < BB * BB"
  using unsigned_less [of t, where 'a = nat] by simp

lemma hi_lt: "unat (drop_bit 32 (t :: u64)) < BB"
  unfolding unat_hi using unat_lt_64 [of t] by (simp add: less_mult_imp_div_less)

lemma unat_w32_hi [simp]: "unat (w32 (drop_bit 32 t)) = unat t div BB"
  using hi_lt [of t] by (simp add: unat_w32 unat_hi)

lemma split_64: "unat (w32 t) + BB * unat (w32 (drop_bit 32 t)) = unat t"
  by (simp only: unat_w32_hi) (simp only: unat_w32 mod_mult_div_eq)

lemma unat_eq_64: "unat (word_of_nat n :: u64) = n mod (BB * BB)"
  by (simp add: unat_of_nat)

lemma unat_add_64: "unat a + unat b < BB * BB \<Longrightarrow> unat (a + b :: u64) = unat a + unat b"
  by (simp add: unat_word_ariths)

lemma unat_mult_64: "unat a * unat b < BB * BB \<Longrightarrow> unat (a * b :: u64) = unat a * unat b"
  by (simp add: unat_word_ariths)

lemma mult_max: "x \<le> 4294967295 \<Longrightarrow> y \<le> 4294967295 \<Longrightarrow> x * y \<le> 18446744065119617025" for x y :: nat
  using mult_le_mono [of x 4294967295 y 4294967295] by simp

text \<open>A product of two words plus two more words fits the double word.\<close>

lemma unat_mac:
  "unat (w64 x * w64 y + w64 a + w64 b) = unat x * unat y + unat a + unat b"
  "unat (w64 x * w64 y + w64 a) = unat x * unat y + unat a"
  "unat (w64 x * w64 y) = unat x * unat y"
proof -
  have m: "unat x * unat y \<le> 18446744065119617025"
    by (intro mult_max unat_le_max)
  note le = unat_le_max [of a] unat_le_max [of b]
  have lt: "unat x * unat y < BB * BB" "unat x * unat y + unat a < BB * BB"
    "unat x * unat y + unat a + unat b < BB * BB"
    using m le by simp_all
  show p: "unat (w64 x * w64 y) = unat x * unat y"
    using lt by (subst unat_mult_64) simp_all
  show pa: "unat (w64 x * w64 y + w64 a) = unat x * unat y + unat a"
    using lt p by (subst unat_add_64) simp_all
  show "unat (w64 x * w64 y + w64 a + w64 b) = unat x * unat y + unat a + unat b"
    using lt pa by (subst unat_add_64) simp_all
qed

lemma unat_sum:
  "unat (w64 x + w64 y) = unat x + unat y"
  "unat (w64 x + w64 y + drop_bit 32 t) = unat x + unat y + unat t div BB"
proof -
  note le = unat_le_max [of x] unat_le_max [of y] hi_lt [of t]
  have lt: "unat x + unat y < BB * BB" "unat x + unat y + unat (drop_bit 32 t) < BB * BB"
    using le by simp_all
  show s: "unat (w64 x + w64 y) = unat x + unat y"
    using lt by (subst unat_add_64) simp_all
  show "unat (w64 x + w64 y + drop_bit 32 t) = unat x + unat y + unat t div BB"
    using lt s by (subst unat_add_64) (simp_all add: unat_hi)
qed

section \<open>The value of a number\<close>

primrec nval :: "u32 list \<Rightarrow> nat" where
  "nval [] = 0"
| "nval (w # ws) = unat w + BB * nval ws"

lemma nval_append: "nval (xs @ ys) = nval xs + BB ^ length xs * nval ys"
  by (induction xs) (simp_all add: algebra_simps)

lemma nval_less [simp]: "nval ws < BB ^ length ws"
proof (induction ws)
  case (Cons w ws)
  have "unat w + BB * nval ws < BB + BB * nval ws" by simp
  also have "\<dots> = BB * Suc (nval ws)" by simp
  also have "\<dots> \<le> BB * BB ^ length ws" using Cons by (intro mult_le_mono2) simp
  finally show ?case by simp
qed simp

lemma nval_zeros [simp]: "nval (replicate n 0) = 0"
  by (induction n) simp_all

lemma nval_inj:
  "length xs = length ys \<Longrightarrow> nval xs = nval ys \<longleftrightarrow> xs = ys"
proof (induction xs ys rule: list_induct2)
  case (Cons x xs y ys)
  have "nval (x # xs) = nval (y # ys) \<Longrightarrow> unat x = unat y \<and> nval xs = nval ys"
  proof -
    assume e: "nval (x # xs) = nval (y # ys)"
    have "unat x = nval (x # xs) mod BB" "unat y = nval (y # ys) mod BB" by simp_all
    moreover have "nval xs = nval (x # xs) div BB" "nval ys = nval (y # ys) div BB" by simp_all
    ultimately show ?thesis using e by presburger
  qed
  then show ?case using Cons.IH by (auto simp: word_unat_eq_iff)
qed simp

lemma nval_take_drop: "nval ws = nval (take n ws) + BB ^ min n (length ws) * nval (drop n ws)"
  by (metis append_take_drop_id length_take min.commute nval_append)

lemma nval_split:
  assumes "n \<le> length ws"
  shows "nval ws = nval (take n ws) + BB ^ n * nval (drop n ws)" "nval (take n ws) < BB ^ n"
  using nval_take_drop [of ws n] nval_less [of "take n ws"] assms by (simp_all add: min_absorb1 min_absorb2)

lemma nval_mod: "n \<le> length ws \<Longrightarrow> nval ws mod BB ^ n = nval (take n ws)"
  by (simp add: nval_split del: power_Suc)

lemma nval_div: "n \<le> length ws \<Longrightarrow> nval ws div BB ^ n = nval (drop n ws)"
  by (simp add: nval_split del: power_Suc)

lemma nval_0: "nval ws = 0 \<longleftrightarrow> set ws \<subseteq> {0}"
  by (induction ws) (auto simp: unat_eq_0)

lemma nval_snoc: "nval (ws @ [w]) = nval ws + BB ^ length ws * unat w"
  by (simp add: nval_append)

lemma unat_NOT: "unat (NOT w :: u32) + unat w = 4294967295"
proof -
  have "NOT w = - 1 - w" by (simp add: not_eq_complement)
  then have "unat (NOT w) = unat (- 1 :: u32) - unat w"
    by (simp only: unat_sub [OF word_order.extremum])
  then show ?thesis
    using unat_le_max [of w] by (simp add: unsigned_minus_1_eq_mask mask_eq_exp_minus_1)
qed

lemma nval_NOT: "nval (map NOT ws) + nval ws = BB ^ length ws - 1"
proof (induction ws)
  case (Cons w ws)
  have "nval (map NOT (w # ws)) + nval (w # ws) =
      (unat (NOT w) + unat w) + BB * (nval (map NOT ws) + nval ws)"
    by (simp add: algebra_simps)
  also have "\<dots> = BB ^ length (w # ws) - 1"
    unfolding unat_NOT Cons.IH by (simp add: right_diff_distrib')
  finally show ?case .
qed simp

end
