(* ===== verification/Lbn_Add.thy ===== *)
theory Lbn_Add
  imports Lbn_Word
begin

text \<open>
  The linear routines of \<open>lbn32.c\<close>: copy, zero, negate, add and subtract with carry, compare,
  multiply by a word, shift, and the normalised length.  A pointer and a length are the list of
  that many words; \<open>*p++\<close> takes its head.  A routine that returns a carry and changes its
  argument gives the pair of both.
\<close>

section \<open>The code\<close>

definition lbnCopy_32 :: "u32 list \<Rightarrow> u32 list \<Rightarrow> u32 list" where
  "lbnCopy_32 dest src = poke 0 src dest"

primrec lbnZero_32 :: "u32 list \<Rightarrow> u32 list" where
  "lbnZero_32 [] = []"
| "lbnZero_32 (x # num) = 0 # lbnZero_32 num"

text \<open>Skip the low zero words, negate the first other one, complement the rest.\<close>

primrec lbnNeg_32 :: "u32 list \<Rightarrow> u32 list" where
  "lbnNeg_32 [] = []"
| "lbnNeg_32 (x # num) = (if x = 0 then 0 # lbnNeg_32 num else (- x) # map NOT num)"

text \<open>\<open>while (--len) if (++*num++ != 0) return 0; return 1;\<close>\<close>

primrec add1_ripple :: "u32 list \<Rightarrow> u32 \<times> u32 list" where
  "add1_ripple [] = (1, [])"
| "add1_ripple (x # num) =
    (let x = x + 1 in
     if x \<noteq> 0 then (0, x # num) else (let (c, num) = add1_ripple num in (c, x # num)))"

text \<open>The routines assert a length of at least one; without words the carry is the result, the
  alternative named beside the assertion.\<close>

primrec lbnAdd1_32 :: "u32 list \<Rightarrow> u32 \<Rightarrow> u32 \<times> u32 list" where
  "lbnAdd1_32 [] carry = (carry, [])"
| "lbnAdd1_32 (x # num) carry =
    (let t = w64 x + w64 carry in
     if drop_bit 32 t = 0 then (0, w32 t # num)
     else (let (c, num) = add1_ripple num in (c, w32 t # num)))"

primrec sub1_ripple :: "u32 list \<Rightarrow> u32 \<times> u32 list" where
  "sub1_ripple [] = (1, [])"
| "sub1_ripple (x # num) =
    (if x \<noteq> 0 then (0, (x - 1) # num) else (let (c, num) = sub1_ripple num in (c, (x - 1) # num)))"

primrec lbnSub1_32 :: "u32 list \<Rightarrow> u32 \<Rightarrow> u32 \<times> u32 list" where
  "lbnSub1_32 [] borrow = (borrow, [])"
| "lbnSub1_32 (x # num) borrow =
    (let t = w64 x - w64 borrow in
     if drop_bit 32 t = 0 then (0, w32 t # num)
     else (let (c, num) = sub1_ripple num in (c, w32 t # num)))"

fun addN_loop :: "u64 \<Rightarrow> u32 list \<Rightarrow> u32 list \<Rightarrow> u64 \<times> u32 list" where
  "addN_loop t (x # num1) (y # num2) =
    (let t = w64 x + w64 y + drop_bit 32 t;
         (t', num1) = addN_loop t num1 num2
     in (t', w32 t # num1))"
| "addN_loop t num1 num2 = (t, num1)"

fun lbnAddN_32 :: "u32 list \<Rightarrow> u32 list \<Rightarrow> u32 \<times> u32 list" where
  "lbnAddN_32 (x # num1) (y # num2) =
    (let t = w64 x + w64 y;
         (t', num1) = addN_loop t num1 num2
     in (w32 (drop_bit 32 t'), w32 t # num1))"
| "lbnAddN_32 num1 num2 = (0, num1)"

text \<open>\<open>(BNWORD32)-(t >> 32)\<close> is the borrow.\<close>

fun subN_loop :: "u64 \<Rightarrow> u32 list \<Rightarrow> u32 list \<Rightarrow> u64 \<times> u32 list" where
  "subN_loop t (x # num1) (y # num2) =
    (let t = w64 x - w64 y - w64 (w32 (- drop_bit 32 t));
         (t', num1) = subN_loop t num1 num2
     in (t', w32 t # num1))"
| "subN_loop t num1 num2 = (t, num1)"

fun lbnSubN_32 :: "u32 list \<Rightarrow> u32 list \<Rightarrow> u32 \<times> u32 list" where
  "lbnSubN_32 (x # num1) (y # num2) =
    (let t = w64 x - w64 y;
         (t', num1) = subN_loop t num1 num2
     in (- w32 (drop_bit 32 t'), w32 t # num1))"
| "lbnSubN_32 num1 num2 = (0, num1)"

text \<open>The comparison runs from the most significant words down.\<close>

fun cmp_down :: "u32 list \<Rightarrow> u32 list \<Rightarrow> int" where
  "cmp_down (x # num1) (y # num2) =
    (if x \<noteq> y then if x < y then -1 else 1 else cmp_down num1 num2)"
| "cmp_down num1 num2 = 0"

definition lbnCmp_32 :: "u32 list \<Rightarrow> u32 list \<Rightarrow> int" where
  "lbnCmp_32 num1 num2 = cmp_down (rev num1) (rev num2)"

text \<open>The product has one word more than the input.\<close>

primrec mulN1_loop :: "u64 \<Rightarrow> u32 list \<Rightarrow> u32 \<Rightarrow> u32 list" where
  "mulN1_loop p [] k = [w32 (drop_bit 32 p)]"
| "mulN1_loop p (x # inp) k =
    (let p = w64 x * w64 k + w64 (w32 (drop_bit 32 p)) in w32 p # mulN1_loop p inp k)"

primrec lbnMulN1_32 :: "u32 list \<Rightarrow> u32 \<Rightarrow> u32 list" where
  "lbnMulN1_32 [] k = [0]"
| "lbnMulN1_32 (x # inp) k = (let p = w64 x * w64 k in w32 p # mulN1_loop p inp k)"

fun mulAdd1_loop :: "u64 \<Rightarrow> u32 list \<Rightarrow> u32 list \<Rightarrow> u32 \<Rightarrow> u64 \<times> u32 list" where
  "mulAdd1_loop p (y # out) (x # inp) k =
    (let p = w64 x * w64 k + w64 (w32 (drop_bit 32 p)) + w64 y;
         (p', out) = mulAdd1_loop p out inp k
     in (p', w32 p # out))"
| "mulAdd1_loop p out inp k = (p, out)"

fun lbnMulAdd1_32 :: "u32 list \<Rightarrow> u32 list \<Rightarrow> u32 \<Rightarrow> u32 \<times> u32 list" where
  "lbnMulAdd1_32 (y # out) (x # inp) k =
    (let p = w64 x * w64 k + w64 y;
         (p', out) = mulAdd1_loop p out inp k
     in (w32 (drop_bit 32 p'), w32 p # out))"
| "lbnMulAdd1_32 out inp k = (0, out)"

text \<open>A comparison counts as 0 or 1.\<close>

fun mulSub1_loop :: "u32 \<Rightarrow> u32 list \<Rightarrow> u32 list \<Rightarrow> u32 \<Rightarrow> u32 \<times> u32 list" where
  "mulSub1_loop carry (t # out) (x # inp) k =
    (let p = w64 x * w64 k + w64 carry;
         carry = w32 (drop_bit 32 p) + of_bool (t - w32 p > t);
         (c, out) = mulSub1_loop carry out inp k
     in (c, (t - w32 p) # out))"
| "mulSub1_loop carry out inp k = (carry, out)"

fun lbnMulSub1_32 :: "u32 list \<Rightarrow> u32 list \<Rightarrow> u32 \<Rightarrow> u32 \<times> u32 list" where
  "lbnMulSub1_32 (t # out) (x # inp) k =
    (let p = w64 x * w64 k;
         carry = w32 (drop_bit 32 p) + of_bool (t - w32 p > t);
         (c, out) = mulSub1_loop carry out inp k
     in (c, (t - w32 p) # out))"
| "lbnMulSub1_32 out inp k = (0, out)"

primrec lshift_loop :: "u32 list \<Rightarrow> nat \<Rightarrow> u32 \<Rightarrow> u32 \<times> u32 list" where
  "lshift_loop [] shift carry = (carry, [])"
| "lshift_loop (x # num) shift carry =
    (let (c, num') = lshift_loop num shift (drop_bit (32 - shift) x)
     in (c, (push_bit shift x OR carry) # num'))"

definition lbnLshift_32 :: "u32 list \<Rightarrow> nat \<Rightarrow> u32 \<times> u32 list" where
  "lbnLshift_32 num shift = lshift_loop num shift 0"

primrec double_loop :: "u32 list \<Rightarrow> u32 \<Rightarrow> u32 \<times> u32 list" where
  "double_loop [] carry = (carry, [])"
| "double_loop (x # num) carry =
    (let (c, num') = double_loop num (drop_bit (32 - 1) x)
     in (c, (push_bit 1 x OR carry) # num'))"

definition lbnDouble_32 :: "u32 list \<Rightarrow> u32 \<times> u32 list" where
  "lbnDouble_32 num = double_loop num 0"

text \<open>The right shift runs down from the most significant word: the words come reversed.\<close>

primrec rshift_loop :: "u32 list \<Rightarrow> nat \<Rightarrow> u32 \<Rightarrow> u32 \<times> u32 list" where
  "rshift_loop [] shift carry = (drop_bit (32 - shift) carry, [])"
| "rshift_loop (x # num) shift carry =
    (let (c, num') = rshift_loop num shift (push_bit (32 - shift) x)
     in (c, (drop_bit shift x OR carry) # num'))"

definition lbnRshift_32 :: "u32 list \<Rightarrow> nat \<Rightarrow> u32 \<times> u32 list" where
  "lbnRshift_32 num shift = map_prod id rev (rshift_loop (rev num) shift 0)"

text \<open>The length without high zero words.\<close>

primrec norm_down :: "u32 list \<Rightarrow> nat" where
  "norm_down [] = 0"
| "norm_down (x # num) = (if x = 0 then norm_down num else Suc (length num))"

definition lbnNorm_32 :: "u32 list \<Rightarrow> nat" where
  "lbnNorm_32 num = norm_down (rev num)"

section \<open>Addition and subtraction\<close>

lemma nval_lbnZero [simp]: "nval (lbnZero_32 num) = 0" "length (lbnZero_32 num) = length num"
  by (induction num) simp_all

text \<open>
  One step of a loop with a carry or borrow: \<open>lo\<close> is the word stored, \<open>k\<close> what goes into
  the rest, whose result is \<open>r\<close> with final carry \<open>c\<close>.
\<close>

lemma carry_step:
  fixes lo r P c m k u :: nat
  assumes "r + P * c = m + k" and "lo + BB * k = u"
  shows "(lo + BB * r) + (BB * P) * c = u + BB * m"
proof -
  have "(lo + BB * r) + (BB * P) * c = lo + BB * (r + P * c)" by (simp add: algebra_simps)
  also have "\<dots> = (lo + BB * k) + BB * m" unfolding assms(1) by (simp add: algebra_simps)
  finally show ?thesis unfolding assms(2) .
qed

lemma borrow_step:
  fixes lo r P c m k u v :: nat
  assumes "r + k = m + P * c" and "lo + v = u + BB * k"
  shows "(lo + BB * r) + v = (u + BB * m) + (BB * P) * c"
proof -
  have "(lo + BB * r) + v = u + BB * (r + k)" using assms(2) by (simp add: algebra_simps)
  also have "\<dots> = (u + BB * m) + (BB * P) * c" unfolding assms(1) by (simp add: algebra_simps)
  finally show ?thesis .
qed

lemma unat_neg_word: "x \<noteq> 0 \<Longrightarrow> unat (- x :: u32) + unat x = BB"
  using unat_NOT [of "x - 1"] unat_gt_0 [of x]
  by (simp add: not_eq_complement unat_minus_one)

lemma lbnNeg_value:
  "length (lbnNeg_32 num) = length num \<and>
   nval (lbnNeg_32 num) + nval num = (if nval num = 0 then 0 else BB ^ length num)"
proof (induction num)
  case (Cons x num)
  show ?case
  proof (cases "x = 0")
    case False
    then have ux: "unat x \<noteq> 0" by (simp add: unat_eq_0)
    have "nval (lbnNeg_32 (x # num)) + nval (x # num) =
        (unat (- x) + unat x) + BB * (nval (map NOT num) + nval num)"
      using False by (simp add: algebra_simps)
    also have "\<dots> = BB + BB * (BB ^ length num - 1)"
      by (simp only: unat_neg_word [OF False] nval_NOT)
    also have "\<dots> = BB ^ length (x # num)" by (simp add: right_diff_distrib')
    finally show ?thesis using ux False by simp
  next
    case True
    then have "nval (lbnNeg_32 (x # num)) + nval (x # num) = BB * (nval (lbnNeg_32 num) + nval num)"
      by (simp add: algebra_simps)
    then show ?thesis using Cons.IH True by (auto simp flip: distrib_left)
  qed
qed simp

lemma unat_Suc_word: "x + 1 \<noteq> 0 \<Longrightarrow> unat (x + 1 :: u32) = unat x + 1"
  by (simp add: unatSuc add.commute)

lemma unat_max: "unat (- 1 :: u32) = 4294967295"
  by (simp add: unsigned_minus_1_eq_mask mask_eq_exp_minus_1)

lemma add1_ripple_value:
  "add1_ripple num = (c, r) \<Longrightarrow>
    length r = length num \<and> nval r + BB ^ length num * unat c = nval num + 1 \<and> unat c \<le> 1"
proof (induction num arbitrary: c r)
  case (Cons x num)
  show ?case
  proof (cases "x + 1 = 0")
    case True
    then have x: "unat x = 4294967295" using unat_max by (metis eq_neg_iff_add_eq_0)
    obtain c' r' where cr: "add1_ripple num = (c', r')" by fastforce
    then have r: "c = c'" "r = 0 # r'" using Cons.prems True by (simp_all add: Let_def)
    have "(0 + BB * nval r') + (BB * BB ^ length num) * unat c' = (unat x + 1) + BB * nval num"
      by (rule carry_step [where k = 1]) (use Cons.IH [OF cr] x in simp_all)
    then show ?thesis using Cons.IH [OF cr] by (simp add: r)
  next
    case False
    then show ?thesis
      using Cons.prems unat_Suc_word [OF False] by (auto simp: Let_def)
  qed
qed auto

lemma hi_0: "drop_bit 32 (t :: u64) = 0 \<longleftrightarrow> unat t div BB = 0"
  by (metis unat_0 unat_eq_0 unat_hi)

lemma lbnAdd1_value:
  assumes "lbnAdd1_32 num k = (c, r)" and "num \<noteq> []"
  shows "length r = length num \<and> nval r + BB ^ length num * unat c = nval num + unat k \<and> unat c \<le> 1"
proof -
  obtain x xs where num: "num = x # xs" using assms(2) by (cases num) auto
  define t where "t = w64 x + w64 k"
  have t: "unat t = unat x + unat k" by (simp only: t_def unat_sum)
  note lo = split_64 [of t, unfolded unat_w32_hi]
  show ?thesis
  proof (cases "drop_bit 32 t = 0")
    case True
    then have "unat t div BB = 0" by (simp only: hi_0)
    then have "unat (w32 t) = unat x + unat k" using lo t by simp
    then show ?thesis
      using assms(1) True by (auto simp: num Let_def t_def [symmetric])
  next
    case False
    then have "unat t div BB \<noteq> 0" by (simp only: hi_0) simp
    moreover have "unat t < 2 * BB" using unat_lt [of x] unat_lt [of k] t by linarith
    ultimately have 1: "unat t div BB = 1" using less_mult_imp_div_less [of "unat t" 2 BB] by linarith
    obtain c' r' where cr: "add1_ripple xs = (c', r')" by fastforce
    then have r: "c = c'" "r = w32 t # r'"
      using assms(1) False by (simp_all add: num Let_def t_def [symmetric])
    have "(unat (w32 t) + BB * nval r') + (BB * BB ^ length xs) * unat c' = (unat x + unat k) + BB * nval xs"
      by (rule carry_step [where k = 1]) (use add1_ripple_value [OF cr] lo t 1 in simp_all)
    then show ?thesis
      using add1_ripple_value [OF cr] by (simp add: r num)
  qed
qed

lemma sub1_ripple_value:
  "sub1_ripple num = (c, r) \<Longrightarrow>
    length r = length num \<and> nval r + 1 = nval num + BB ^ length num * unat c \<and> unat c \<le> 1"
proof (induction num arbitrary: c r)
  case (Cons x num)
  show ?case
  proof (cases "x = 0")
    case True
    obtain c' r' where cr: "sub1_ripple num = (c', r')" by fastforce
    then have r: "c = c'" "r = - 1 # r'" using Cons.prems True by simp_all
    have "(unat (- 1 :: u32) + BB * nval r') + 1 = (0 + BB * nval num) + (BB * BB ^ length num) * unat c'"
      by (rule borrow_step [where k = 1]) (use Cons.IH [OF cr] unat_max in simp_all)
    then show ?thesis using Cons.IH [OF cr] True by (simp add: r)
  next
    case False
    then have "unat (x - 1) + 1 = unat x"
      using unat_gt_0 [of x] by (simp add: unat_minus_one)
    then show ?thesis
      using Cons.prems False by auto
  qed
qed auto

text \<open>A difference formed in the double word: its low word and the borrow.\<close>

lemma sub_64:
  fixes t :: u64
  assumes "t = w64 x - w64 y - w64 b" and "unat b \<le> 1"
  shows "unat (w32 t) + (unat y + unat b) = unat x + BB * unat (w32 (- drop_bit 32 t))"
    and "unat (w32 (- drop_bit 32 t)) \<le> 1"
    and "drop_bit 32 t = 0 \<longleftrightarrow> unat y + unat b \<le> unat x"
    and "- w32 (drop_bit 32 t) = w32 (- drop_bit 32 t)"
proof -
  define s where "s = w64 y + w64 b"
  have s: "unat s = unat y + unat b" by (simp only: s_def unat_sum)
  have t: "t = w64 x - s" by (simp add: assms(1) s_def)
  have x: "unat x < BB" and y: "unat y < BB" by simp_all
  define h where "h = drop_bit 32 t"
  note lo = split_64 [of t, unfolded unat_w32_hi]
  have uh: "unat h = unat t div BB" by (simp only: h_def unat_hi)
  have "(unat y + unat b \<le> unat x \<longrightarrow> h = 0 \<and> unat (w32 t) + (unat y + unat b) = unat x) \<and>
    (\<not> unat y + unat b \<le> unat x \<longrightarrow> h = 4294967295 \<and> unat (w32 t) + (unat y + unat b) = unat x + BB)"
  proof (intro conjI impI)
    assume "unat y + unat b \<le> unat x"
    then have ut: "unat t = unat x - (unat y + unat b)"
      by (simp add: t s unat_sub word_le_nat_alt)
    then have "unat t < BB" using x by linarith
    then have "unat t div BB = 0" by simp
    then show "h = 0" using uh by (simp add: unat_eq_0)
    from \<open>unat t div BB = 0\<close> show "unat (w32 t) + (unat y + unat b) = unat x"
      using lo ut \<open>unat y + unat b \<le> unat x\<close> by simp
  next
    assume n: "\<not> unat y + unat b \<le> unat x"
    then have ut: "unat t + (unat y + unat b) = unat x + BB * BB"
    proof -
      have "unat t = unat x + BB * BB - (unat y + unat b)"
        using n s by (simp add: t unat_sub_if_size word_size)
      moreover have "unat y + unat b \<le> unat x + BB * BB"
      proof -
        have "BB + 1 \<le> BB * BB" by simp
        then show ?thesis using y assms(2) by linarith
      qed
      ultimately show ?thesis by (simp only: le_add_diff_inverse2)
    qed
    have "4294967295 * BB \<le> unat t" and "unat t < BB * BB"
      using ut n y assms(2) by linarith+
    then have q: "unat t div BB = 4294967295"
      by (intro div_nat_eqI) simp_all
    then have "unat h = unat (4294967295 :: u64)" using uh by simp
    then show "h = 4294967295" by (simp only: word_unat_eq_iff)
    show "unat (w32 t) + (unat y + unat b) = unat x + BB"
      using lo q ut by simp
  qed
  then show "unat (w32 t) + (unat y + unat b) = unat x + BB * unat (w32 (- drop_bit 32 t))"
    and "unat (w32 (- drop_bit 32 t)) \<le> 1"
    and "drop_bit 32 t = 0 \<longleftrightarrow> unat y + unat b \<le> unat x"
    and "- w32 (drop_bit 32 t) = w32 (- drop_bit 32 t)"
    unfolding h_def [symmetric] by (cases "unat y + unat b \<le> unat x"; simp)+
qed

lemma lbnSub1_value:
  assumes "lbnSub1_32 num k = (c, r)" and "num \<noteq> []"
  shows "length r = length num \<and> nval r + unat k = nval num + BB ^ length num * unat c \<and> unat c \<le> 1"
proof -
  obtain x xs where num: "num = x # xs" using assms(2) by (cases num) auto
  define t where "t = w64 x - w64 k"
  have "t = w64 x - w64 k - w64 0" by (simp add: t_def)
  note t = sub_64 [OF this, simplified]
  show ?thesis
  proof (cases "drop_bit 32 t = 0")
    case True
    then show ?thesis
      using assms(1) t(1,3) by (auto simp: num Let_def t_def [symmetric])
  next
    case False
    have "unat (w32 (- drop_bit 32 t)) \<noteq> 0"
    proof
      assume "unat (w32 (- drop_bit 32 t)) = 0"
      then have "unat (w32 t) + unat k = unat x" using t(1) by simp
      then show False using False t(3) by simp
    qed
    then have 1: "unat (w32 t) + unat k = unat x + BB * 1" using t(1,2) by simp
    obtain c' r' where cr: "sub1_ripple xs = (c', r')" by fastforce
    then have r: "c = c'" "r = w32 t # r'"
      using assms(1) False by (simp_all add: num Let_def t_def [symmetric])
    have "(unat (w32 t) + BB * nval r') + unat k = (unat x + BB * nval xs) + (BB * BB ^ length xs) * unat c'"
      by (rule borrow_step [OF _ 1]) (use sub1_ripple_value [OF cr] in simp)
    then show ?thesis
      using sub1_ripple_value [OF cr] by (simp add: r num)
  qed
qed

lemma addN_loop_value:
  "addN_loop t xs ys = (t', r) \<Longrightarrow> length xs = length ys \<Longrightarrow> unat t div BB \<le> 1 \<Longrightarrow>
    length r = length xs \<and> unat t' div BB \<le> 1 \<and>
    nval r + BB ^ length xs * (unat t' div BB) = nval xs + (nval ys + unat t div BB)"
proof (induction t xs ys arbitrary: t' r rule: addN_loop.induct)
  case (1 t x xs y ys)
  define u where "u = w64 x + w64 y + drop_bit 32 t"
  have u: "unat u = unat x + unat y + unat t div BB" by (simp only: u_def unat_sum)
  have "unat u < 2 * BB" using unat_lt [of x] unat_lt [of y] u "1.prems"(3) by linarith
  then have u1: "unat u div BB \<le> 1" using less_mult_imp_div_less [of "unat u" 2 BB] by linarith
  obtain r' where r': "addN_loop u xs ys = (t', r')" "r = w32 u # r'"
    using "1.prems"(1) by (auto simp: Let_def u_def split: prod.splits)
  have ih: "length r' = length xs \<and> unat t' div BB \<le> 1 \<and>
      nval r' + BB ^ length xs * (unat t' div BB) = nval xs + (nval ys + unat u div BB)"
    using "1.IH" [OF refl, of t' r'] r'(1) "1.prems"(2) u1 by (simp add: u_def)
  have "(unat (w32 u) + BB * nval r') + (BB * BB ^ length xs) * (unat t' div BB) =
      (unat x + unat y + unat t div BB) + BB * (nval xs + nval ys)"
    by (rule carry_step [where k = "unat u div BB"])
      (use ih u split_64 [of u, unfolded unat_w32_hi] in simp_all)
  then show ?case
    using ih by (simp add: r' algebra_simps)
qed simp_all

lemma lbnAddN_value:
  assumes "lbnAddN_32 xs ys = (c, r)" and "length xs = length ys" and "xs \<noteq> []"
  shows "length r = length xs \<and> nval r + BB ^ length xs * unat c = nval xs + nval ys \<and> unat c \<le> 1"
proof -
  obtain x xs' y ys' where xy: "xs = x # xs'" "ys = y # ys'"
    using assms by (cases xs; cases ys) auto
  define u where "u = w64 x + w64 y"
  have u: "unat u = unat x + unat y" by (simp only: u_def unat_sum)
  have "unat u < 2 * BB" using unat_lt [of x] unat_lt [of y] u by linarith
  then have u1: "unat u div BB \<le> 1" using less_mult_imp_div_less [of "unat u" 2 BB] by linarith
  obtain t' r' where r': "addN_loop u xs' ys' = (t', r')" by fastforce
  then have c: "c = w32 (drop_bit 32 t')" "r = w32 u # r'"
    using assms(1) by (simp_all add: xy Let_def u_def)
  have ih: "length r' = length xs' \<and> unat t' div BB \<le> 1 \<and>
      nval r' + BB ^ length xs' * (unat t' div BB) = nval xs' + (nval ys' + unat u div BB)"
    using addN_loop_value [OF r' _ u1] assms(2) xy by simp
  have "(unat (w32 u) + BB * nval r') + (BB * BB ^ length xs') * (unat t' div BB) =
      (unat x + unat y) + BB * (nval xs' + nval ys')"
    by (rule carry_step [where k = "unat u div BB"])
      (use ih u split_64 [of u, unfolded unat_w32_hi] in simp_all)
  then show ?thesis
    using ih by (simp add: c xy algebra_simps)
qed

lemma subN_loop_value:
  "subN_loop t xs ys = (t', r) \<Longrightarrow> length xs = length ys \<Longrightarrow> unat (w32 (- drop_bit 32 t)) \<le> 1 \<Longrightarrow>
    length r = length xs \<and> unat (w32 (- drop_bit 32 t')) \<le> 1 \<and>
    (xs \<noteq> [] \<longrightarrow> - w32 (drop_bit 32 t') = w32 (- drop_bit 32 t')) \<and>
    nval r + (nval ys + unat (w32 (- drop_bit 32 t))) = nval xs + BB ^ length xs * unat (w32 (- drop_bit 32 t'))"
proof (induction t xs ys arbitrary: t' r rule: subN_loop.induct)
  case (1 t x xs y ys)
  define u where "u = w64 x - w64 y - w64 (w32 (- drop_bit 32 t))"
  note u = sub_64 [OF u_def "1.prems"(3)]
  obtain r' where r': "subN_loop u xs ys = (t', r')" "r = w32 u # r'"
    using "1.prems"(1) by (auto simp: Let_def u_def split: prod.splits)
  have ih: "length r' = length xs \<and> unat (w32 (- drop_bit 32 t')) \<le> 1 \<and>
    (xs \<noteq> [] \<longrightarrow> - w32 (drop_bit 32 t') = w32 (- drop_bit 32 t')) \<and>
    nval r' + (nval ys + unat (w32 (- drop_bit 32 u))) = nval xs + BB ^ length xs * unat (w32 (- drop_bit 32 t'))"
    using "1.IH" [OF refl, of t' r'] r'(1) "1.prems"(2) u(2) by (simp add: u_def)
  have neg: "- w32 (drop_bit 32 t') = w32 (- drop_bit 32 t')"
    using ih u(4) r'(1) "1.prems"(2) by (cases "xs = []") auto
  have "(unat (w32 u) + BB * (nval r' + nval ys)) + (unat y + unat (w32 (- drop_bit 32 t))) =
      (unat x + BB * nval xs) + (BB * BB ^ length xs) * unat (w32 (- drop_bit 32 t'))"
    by (rule borrow_step [OF _ u(1)]) (use ih in simp)
  then show ?case
    using ih neg by (simp add: r' algebra_simps)
qed simp_all

lemma lbnSubN_value:
  assumes "lbnSubN_32 xs ys = (c, r)" and "length xs = length ys" and "xs \<noteq> []"
  shows "length r = length xs \<and> nval r + nval ys = nval xs + BB ^ length xs * unat c \<and> unat c \<le> 1"
proof -
  obtain x xs' y ys' where xy: "xs = x # xs'" "ys = y # ys'"
    using assms by (cases xs; cases ys) auto
  define u where "u = w64 x - w64 y"
  have "u = w64 x - w64 y - w64 0" by (simp add: u_def)
  note u = sub_64 [OF this, simplified]
  obtain t' r' where r': "subN_loop u xs' ys' = (t', r')" by fastforce
  then have c: "c = - w32 (drop_bit 32 t')" "r = w32 u # r'"
    using assms(1) by (simp_all add: xy Let_def u_def)
  have ih: "length r' = length xs' \<and> unat (w32 (- drop_bit 32 t')) \<le> 1 \<and>
    (xs' \<noteq> [] \<longrightarrow> - w32 (drop_bit 32 t') = w32 (- drop_bit 32 t')) \<and>
    nval r' + (nval ys' + unat (w32 (- drop_bit 32 u))) = nval xs' + BB ^ length xs' * unat (w32 (- drop_bit 32 t'))"
    using subN_loop_value [OF r'] u(2) assms(2) xy by simp
  have neg: "- w32 (drop_bit 32 t') = w32 (- drop_bit 32 t')"
    using ih u(4) r' assms(2) xy by (cases "xs' = []") auto
  have "(unat (w32 u) + BB * (nval r' + nval ys')) + unat y =
      (unat x + BB * nval xs') + (BB * BB ^ length xs') * unat (w32 (- drop_bit 32 t'))"
    by (rule borrow_step [OF _ u(1)]) (use ih in simp)
  then show ?thesis
    using ih neg by (simp add: c xy algebra_simps)
qed

section \<open>Comparison and length\<close>

lemma cmp_down_value:
  "length xs = length ys \<Longrightarrow>
    cmp_down xs ys = (if nval (rev xs) < nval (rev ys) then -1 else if nval (rev xs) = nval (rev ys) then 0 else 1)"
proof (induction xs ys rule: list_induct2)
  case (Cons x xs y ys)
  have lx: "nval (rev xs) < BB ^ length xs" and ly: "nval (rev ys) < BB ^ length ys"
    using nval_less [of "rev xs"] nval_less [of "rev ys"] by simp_all
  have lt: "nval (rev (a # as)) < nval (rev (b # bs))" if "a < b" "length as = length bs" for a b :: u32 and as bs
  proof -
    have "nval (rev as) < BB ^ length as" using nval_less [of "rev as"] by simp
    then have "nval (rev (a # as)) < BB ^ length as * (unat a + 1)" by (simp add: nval_snoc)
    also have "\<dots> \<le> BB ^ length as * unat b"
      using \<open>a < b\<close> by (intro mult_le_mono2) (simp add: word_less_nat_alt)
    also have "\<dots> \<le> nval (rev (b # bs))" using that(2) by (simp add: nval_snoc)
    finally show ?thesis .
  qed
  show ?case
  proof (cases "x = y")
    case True
    then show ?thesis using Cons by (simp add: nval_snoc)
  next
    case False
    then consider "x < y" | "y < x" by (meson linorder_neqE)
    then show ?thesis
      using lt [of x y xs ys] lt [of y x ys xs] Cons.hyps False by cases auto
  qed
qed simp

lemma lbnCmp_value:
  "length xs = length ys \<Longrightarrow>
    lbnCmp_32 xs ys = (if nval xs < nval ys then -1 else if nval xs = nval ys then 0 else 1)"
  by (simp add: lbnCmp_32_def cmp_down_value)

lemma norm_down_value:
  "norm_down xs \<le> length xs \<and> (\<forall>x \<in> set (take (length xs - norm_down xs) xs). x = 0) \<and>
    (norm_down xs \<noteq> 0 \<longrightarrow> xs ! (length xs - norm_down xs) \<noteq> 0)"
  by (induction xs) (auto simp: Suc_diff_le)

lemma lbnNorm_value:
  "lbnNorm_32 ws \<le> length ws \<and> nval (take (lbnNorm_32 ws) ws) = nval ws \<and>
   (lbnNorm_32 ws = 0 \<longleftrightarrow> nval ws = 0) \<and> (lbnNorm_32 ws \<noteq> 0 \<longrightarrow> ws ! (lbnNorm_32 ws - 1) \<noteq> 0)"
proof (induction ws rule: rev_induct)
  case (snoc w ws)
  have "nval (ws @ [w]) = 0 \<longleftrightarrow> nval ws = 0 \<and> w = 0"
    by (simp add: nval_snoc unat_eq_0)
  with snoc show ?case
    by (auto simp: lbnNorm_32_def nval_snoc nth_append)
qed (simp add: lbnNorm_32_def)

section \<open>Multiplication by a word\<close>

lemma mulN1_loop_value:
  "length (mulN1_loop p xs k) = Suc (length xs) \<and> nval (mulN1_loop p xs k) = nval xs * unat k + unat p div BB"
proof (induction xs arbitrary: p)
  case (Cons x xs)
  define q where "q = w64 x * w64 k + w64 (w32 (drop_bit 32 p))"
  have q: "unat q = unat x * unat k + unat p div BB" by (simp only: q_def unat_mac unat_w32_hi)
  have e: "mulN1_loop p (x # xs) k = w32 q # mulN1_loop q xs k" by (simp add: Let_def q_def)
  have "(unat (w32 q) + BB * nval (mulN1_loop q xs k)) + (BB * 0) * 0 =
      (unat x * unat k + unat p div BB) + BB * (nval xs * unat k)"
    by (rule carry_step) (use Cons.IH [of q] q split_64 [of q, unfolded unat_w32_hi] in simp_all)
  then show ?case
    using Cons.IH [of q] unfolding e by (simp add: algebra_simps)
qed simp

lemma lbnMulN1_value:
  "length (lbnMulN1_32 xs k) = Suc (length xs) \<and> nval (lbnMulN1_32 xs k) = nval xs * unat k"
proof (cases xs)
  case (Cons x xs')
  define q where "q = w64 x * w64 k"
  have q: "unat q = unat x * unat k" by (simp only: q_def unat_mac)
  have e: "lbnMulN1_32 xs k = w32 q # mulN1_loop q xs' k" by (simp add: Cons Let_def q_def)
  have "(unat (w32 q) + BB * nval (mulN1_loop q xs' k)) + (BB * 0) * 0 =
      unat x * unat k + BB * (nval xs' * unat k)"
    by (rule carry_step) (use mulN1_loop_value [of q xs' k] q split_64 [of q, unfolded unat_w32_hi] in simp_all)
  then show ?thesis
    using mulN1_loop_value [of q xs' k] unfolding e by (simp add: Cons algebra_simps)
qed simp

lemma mulAdd1_loop_value:
  "mulAdd1_loop p out inp k = (p', r) \<Longrightarrow> length out = length inp \<Longrightarrow>
    length r = length out \<and>
    nval r + BB ^ length out * (unat p' div BB) = nval out + nval inp * unat k + unat p div BB"
proof (induction p out inp k arbitrary: p' r rule: mulAdd1_loop.induct)
  case (1 p y out x inp k)
  define q where "q = w64 x * w64 k + w64 (w32 (drop_bit 32 p)) + w64 y"
  have q: "unat q = unat x * unat k + unat p div BB + unat y" by (simp only: q_def unat_mac unat_w32_hi)
  obtain r' where r': "mulAdd1_loop q out inp k = (p', r')" "r = w32 q # r'"
    using "1.prems"(1) by (auto simp: Let_def q_def split: prod.splits)
  have ih: "length r' = length out \<and>
      nval r' + BB ^ length out * (unat p' div BB) = nval out + nval inp * unat k + unat q div BB"
    using "1.IH" [OF refl, of p' r'] r'(1) "1.prems"(2) by (simp add: q_def)
  have "(unat (w32 q) + BB * nval r') + (BB * BB ^ length out) * (unat p' div BB) =
      (unat x * unat k + unat p div BB + unat y) + BB * (nval out + nval inp * unat k)"
    by (rule carry_step [where k = "unat q div BB"])
      (use ih q split_64 [of q, unfolded unat_w32_hi] in simp_all)
  then show ?case
    using ih by (simp add: r' algebra_simps)
qed simp_all

lemma lbnMulAdd1_value:
  assumes "lbnMulAdd1_32 out inp k = (c, r)" and "length out = length inp"
  shows "length r = length out \<and> nval r + BB ^ length out * unat c = nval out + nval inp * unat k"
proof (cases out)
  case Nil
  then show ?thesis using assms by simp
next
  case (Cons y out')
  obtain x inp' where inp: "inp = x # inp'" using assms(2) Cons by (cases inp) auto
  define q where "q = w64 x * w64 k + w64 y"
  have q: "unat q = unat x * unat k + unat y" by (simp only: q_def unat_mac)
  obtain p' r' where r': "mulAdd1_loop q out' inp' k = (p', r')" by fastforce
  then have c: "c = w32 (drop_bit 32 p')" "r = w32 q # r'"
    using assms(1) by (simp_all add: Cons inp Let_def q_def)
  have ih: "length r' = length out' \<and>
      nval r' + BB ^ length out' * (unat p' div BB) = nval out' + nval inp' * unat k + unat q div BB"
    using mulAdd1_loop_value [OF r'] assms(2) by (simp add: Cons inp)
  have "(unat (w32 q) + BB * nval r') + (BB * BB ^ length out') * (unat p' div BB) =
      (unat x * unat k + unat y) + BB * (nval out' + nval inp' * unat k)"
    by (rule carry_step [where k = "unat q div BB"])
      (use ih q split_64 [of q, unfolded unat_w32_hi] in simp_all)
  then show ?thesis
    using ih by (simp add: c Cons inp algebra_simps)
qed

text \<open>The subtracting step: the stored word and the new carry.\<close>

lemma mulSub_step:
  fixes x k c t :: u32
  assumes "p = w64 x * w64 k + w64 c" and "c' = w32 (drop_bit 32 p) + of_bool (t - w32 p > t)"
  shows "unat (t - w32 p) + (unat x * unat k + unat c) = unat t + BB * unat c'"
proof -
  have p: "unat p = unat x * unat k + unat c" by (simp only: assms(1) unat_mac)
  note lo = split_64 [of p, unfolded unat_w32_hi]
  have wrap: "unat (t - w32 p) + unat (w32 p) = unat t + BB * of_bool (t - w32 p > t)"
  proof (cases "w32 p \<le> t")
    case True
    then have "unat (t - w32 p) = unat t - unat (w32 p)" by (rule unat_sub)
    moreover have "unat (w32 p) \<le> unat t" using True by (simp only: word_le_nat_alt)
    ultimately have "unat (t - w32 p) + unat (w32 p) = unat t" by simp
    moreover from this have "\<not> t - w32 p > t" unfolding word_less_nat_alt by linarith
    ultimately show ?thesis by simp
  next
    case False
    then have n: "unat t < unat (w32 p)" by (simp only: word_le_nat_alt not_le)
    then have "unat (t - w32 p) = unat t + BB - unat (w32 p)"
      by (simp add: unat_sub_if_size word_size)
    with unat_lt [of "w32 p"] have e: "unat (t - w32 p) + unat (w32 p) = unat t + BB" by linarith
    moreover have "t - w32 p > t" unfolding word_less_nat_alt using e unat_lt [of "w32 p"] by linarith
    ultimately show ?thesis by simp
  qed
  have "unat (w32 (drop_bit 32 p)) + of_bool (t - w32 p > t) < BB"
  proof (cases "t - w32 p > t")
    case True
    then have "unat (t - w32 p) + unat (w32 p) = unat t + BB" using wrap by simp
    then have "unat t < unat (w32 p)" using unat_lt [of "t - w32 p"] by linarith
    then have "0 < unat (w32 p)" by linarith
    have "unat x * unat k + unat c \<le> 4294967295 * BB"
      using mult_max [OF unat_le_max unat_le_max, of x k] unat_le_max [of c] by simp
    then have "unat p div BB < 4294967295"
      using lo p \<open>0 < unat (w32 p)\<close> by linarith
    then show ?thesis using True by simp
  next
    case False
    then show ?thesis using unat_lt [of "w32 (drop_bit 32 p)"] by simp
  qed
  then have "unat c' = unat p div BB + of_bool (t - w32 p > t)"
    unfolding assms(2) by (subst unat_add_lem [THEN iffD1]) auto
  then show ?thesis using wrap lo p by (simp add: algebra_simps)
qed

lemma mulSub1_loop_value:
  "mulSub1_loop b out inp k = (c, r) \<Longrightarrow> length out = length inp \<Longrightarrow>
    length r = length out \<and> nval r + (nval inp * unat k + unat b) = nval out + BB ^ length out * unat c"
proof (induction b out inp k arbitrary: c r rule: mulSub1_loop.induct)
  case (1 b t out x inp k)
  define p where "p = w64 x * w64 k + w64 b"
  define b' where "b' = w32 (drop_bit 32 p) + of_bool (t - w32 p > t)"
  obtain r' where r': "mulSub1_loop b' out inp k = (c, r')" "r = (t - w32 p) # r'"
    using "1.prems"(1) by (auto simp: Let_def p_def b'_def split: prod.splits)
  have ih: "length r' = length out \<and> nval r' + (nval inp * unat k + unat b') = nval out + BB ^ length out * unat c"
    using "1.IH" [OF p_def b'_def r'(1)] "1.prems"(2) by simp
  have "(unat (t - w32 p) + BB * (nval r' + nval inp * unat k)) + (unat x * unat k + unat b) =
      (unat t + BB * nval out) + (BB * BB ^ length out) * unat c"
    by (rule borrow_step [OF _ mulSub_step [OF p_def b'_def]]) (use ih in simp)
  then show ?case
    using ih by (simp add: r' algebra_simps)
qed simp_all

lemma lbnMulSub1_value:
  assumes "lbnMulSub1_32 out inp k = (c, r)" and "length out = length inp"
  shows "length r = length out \<and> nval r + nval inp * unat k = nval out + BB ^ length out * unat c"
proof (cases out)
  case Nil
  then show ?thesis using assms by simp
next
  case (Cons t out')
  obtain x inp' where inp: "inp = x # inp'" using assms(2) Cons by (cases inp) auto
  have "mulSub1_loop 0 (t # out') (x # inp') k = lbnMulSub1_32 (t # out') (x # inp') k"
    by (simp add: Let_def)
  then show ?thesis
    using mulSub1_loop_value [of 0 out inp k c r] assms by (simp add: Cons inp)
qed

section \<open>Shifts\<close>

lemma mult_mod_power: "a * p mod (p * q) = p * (a mod q)" for a p q :: nat
  by (simp only: mult.commute [of a p] mult_mod_right)

lemma BB_split: "s \<le> 32 \<Longrightarrow> BB = 2 ^ s * 2 ^ (32 - s)"
proof -
  assume "s \<le> 32"
  then have "(2::nat) ^ s * 2 ^ (32 - s) = 2 ^ 32" by (simp flip: power_add)
  then show ?thesis by simp
qed

lemma unat_push_or:
  assumes "s < 32" and "unat c < 2 ^ s"
  shows "unat (push_bit s x OR c :: u32) = unat x * 2 ^ s mod BB + unat c"
proof -
  have "\<not> bit (push_bit s x) i \<or> \<not> bit c i" for i
  proof (cases "i < s")
    case False
    have "take_bit s c = c"
      using assms(2) by (metis take_bit_nat_eq_self unsigned_take_bit_eq word_unat_eq_iff)
    with False have "\<not> bit c i" by (metis bit_take_bit_iff)
    then show ?thesis by simp
  qed (simp add: bit_push_bit_iff)
  then have "push_bit s x OR c = push_bit s x + c" by (rule disjunctive_add [symmetric])
  moreover have u: "unat (push_bit s x) = unat x * 2 ^ s mod BB"
    by (simp only: unsigned_push_bit_eq) (simp add: push_bit_eq_mult take_bit_eq_mod)
  moreover have "unat x * 2 ^ s mod BB + unat c < BB"
  proof -
    have e: "BB = 2 ^ s * 2 ^ (32 - s)" using assms(1) by (intro BB_split) simp
    have "unat x * 2 ^ s mod BB = 2 ^ s * (unat x mod 2 ^ (32 - s))"
      unfolding e by (rule mult_mod_power)
    moreover have "unat x mod 2 ^ (32 - s) + 1 \<le> 2 ^ (32 - s)" by (simp add: Suc_le_eq)
    then have "2 ^ s * (unat x mod 2 ^ (32 - s) + 1) \<le> 2 ^ s * 2 ^ (32 - s)" by (rule mult_le_mono2)
    ultimately have "unat x * 2 ^ s mod BB + 2 ^ s \<le> 2 ^ s * 2 ^ (32 - s)" by simp
    then show ?thesis using assms(2) unfolding e [symmetric] by linarith
  qed
  ultimately show ?thesis by (simp add: unat_word_ariths)
qed

lemma unat_push_32: "unat (push_bit n (x :: u32)) = unat x * 2 ^ n mod BB"
  by (simp only: unsigned_push_bit_eq) (simp add: push_bit_eq_mult take_bit_eq_mod)

lemma unat_drop_32: "unat (drop_bit n (x :: u32)) = unat x div 2 ^ n"
  by (simp only: unat_drop_bit_eq) (simp add: drop_bit_eq_div)

lemma lshift_split:
  assumes "s < 32"
  shows "x * 2 ^ s mod BB + BB * (x div 2 ^ (32 - s)) = x * (2 ^ s :: nat)"
proof -
  have e: "BB = 2 ^ s * 2 ^ (32 - s)" using assms by (intro BB_split) simp
  have "x * 2 ^ s div (2 ^ s * 2 ^ (32 - s)) = x div 2 ^ (32 - s)"
    by (simp only: mult.commute [of x] div_mult_mult1_if) simp
  then show ?thesis using mod_mult_div_eq [of "x * 2 ^ s" BB] by (simp only: e)
qed

lemma lshift_loop_value:
  "lshift_loop xs s b = (c, r) \<Longrightarrow> 0 < s \<Longrightarrow> s < 32 \<Longrightarrow> unat b < 2 ^ s \<Longrightarrow>
    length r = length xs \<and> unat c < 2 ^ s \<and> nval r + BB ^ length xs * unat c = nval xs * 2 ^ s + unat b"
proof (induction xs arbitrary: b c r)
  case (Cons x xs)
  obtain r' where r': "lshift_loop xs s (drop_bit (32 - s) x) = (c, r')" "r = (push_bit s x OR b) # r'"
    using Cons.prems(1) by (auto split: prod.splits)
  have "unat x < 2 ^ s * 2 ^ (32 - s)"
    using Cons.prems(3) unat_lt [of x] by (simp flip: power_add)
  then have d: "unat (drop_bit (32 - s) x) < 2 ^ s"
    by (simp add: unat_drop_32 less_mult_imp_div_less)
  note ih = Cons.IH [OF r'(1) Cons.prems(2,3) d]
  have "(unat (push_bit s x OR b) + BB * nval r') + (BB * BB ^ length xs) * unat c =
      (unat x * 2 ^ s + unat b) + BB * (nval xs * 2 ^ s)"
    by (rule carry_step [where k = "unat (drop_bit (32 - s) x)"])
      (use ih Cons.prems lshift_split [of s "unat x"] in \<open>simp_all add: unat_push_or unat_drop_32\<close>)
  then show ?case
    using ih by (simp add: r' algebra_simps)
qed simp

lemma lbnLshift_value:
  assumes "lbnLshift_32 xs s = (c, r)" and "0 < s" and "s < 32"
  shows "length r = length xs \<and> unat c < 2 ^ s \<and> nval r + BB ^ length xs * unat c = nval xs * 2 ^ s"
  using lshift_loop_value [of xs s 0 c r] assms by (simp add: lbnLshift_32_def)

lemma double_loop_lshift: "double_loop xs b = lshift_loop xs 1 b"
  by (induction xs arbitrary: b) simp_all

lemma lbnDouble_value:
  assumes "lbnDouble_32 xs = (c, r)"
  shows "length r = length xs \<and> unat c \<le> 1 \<and> nval r + BB ^ length xs * unat c = 2 * nval xs"
  using lbnLshift_value [of xs 1 c r] assms
  by (simp add: lbnDouble_32_def lbnLshift_32_def double_loop_lshift)

lemma rshift_loop_value:
  "rshift_loop xs s (push_bit (32 - s) y) = (c, r) \<Longrightarrow> 0 < s \<Longrightarrow> s < 32 \<Longrightarrow>
    length r = length xs \<and> unat c < 2 ^ s \<and>
    2 ^ s * nval (rev r) + unat c = (unat y mod 2 ^ s) * BB ^ length xs + nval (rev xs)"
proof (induction xs arbitrary: y c r)
  case Nil
  have BB: "BB = 2 ^ (32 - s) * 2 ^ s"
    using Nil.prems(3) BB_split [of "32 - s"] by simp
  have "unat (drop_bit (32 - s) (push_bit (32 - s) y)) = unat y mod 2 ^ s"
    unfolding unat_drop_32 unat_push_32 BB mult_mod_power by simp
  then show ?case using Nil.prems by auto
next
  case (Cons x xs)
  have BB: "BB = 2 ^ (32 - s) * 2 ^ s"
    using Cons.prems(3) BB_split [of "32 - s"] by simp
  obtain r' where r': "rshift_loop xs s (push_bit (32 - s) x) = (c, r')"
      "r = (drop_bit s x OR push_bit (32 - s) y) # r'"
    using Cons.prems(1) by (auto split: prod.splits)
  have ih: "length r' = length xs \<and> unat c < 2 ^ s \<and>
      2 ^ s * nval (rev r') + unat c = (unat x mod 2 ^ s) * BB ^ length xs + nval (rev xs)"
    by (rule Cons.IH [OF r'(1) Cons.prems(2,3)])
  have "unat x < 2 ^ (32 - s) * 2 ^ s" using unat_lt [of x] by (simp only: BB [symmetric])
  then have d: "unat (drop_bit s x) < 2 ^ (32 - s)"
    by (simp add: unat_drop_32 less_mult_imp_div_less)
  have "unat (drop_bit s x OR push_bit (32 - s) y) = unat y * 2 ^ (32 - s) mod BB + unat x div 2 ^ s"
    using unat_push_or [OF _ d, of y] Cons.prems(2,3) by (simp add: or.commute unat_drop_32)
  also have "unat y * 2 ^ (32 - s) mod BB = 2 ^ (32 - s) * (unat y mod 2 ^ s)"
    unfolding BB by (rule mult_mod_power)
  finally have w: "2 ^ s * unat (drop_bit s x OR push_bit (32 - s) y) + unat x mod 2 ^ s = BB * (unat y mod 2 ^ s) + unat x"
    using mult_div_mod_eq [of "2 ^ s" "unat x"] unfolding BB by (simp add: algebra_simps)
  have "2 ^ s * nval (rev r) + unat c =
      2 ^ s * nval (rev r') + unat c + BB ^ length xs * (2 ^ s * unat (drop_bit s x OR push_bit (32 - s) y))"
    using ih by (simp add: r'(2) nval_snoc algebra_simps)
  also have "\<dots> = nval (rev xs) + BB ^ length xs *
      (2 ^ s * unat (drop_bit s x OR push_bit (32 - s) y) + unat x mod 2 ^ s)"
    using ih by (simp add: distrib_left distrib_right mult.commute)
  also have "\<dots> = (unat y mod 2 ^ s) * BB ^ length (x # xs) + nval (rev (x # xs))"
    unfolding w by (simp add: nval_snoc distrib_left mult.commute)
  finally show ?case using ih by (simp add: r'(2))
qed

lemma lbnRshift_value:
  assumes "lbnRshift_32 xs s = (c, r)" and "0 < s" and "s < 32"
  shows "length r = length xs \<and> unat c < 2 ^ s \<and> 2 ^ s * nval r + unat c = nval xs"
  using rshift_loop_value [of "rev xs" s 0 c "rev r"] assms
  by (auto simp: lbnRshift_32_def map_prod_def split: prod.splits)

end
