(* ===== verification/Lbn_Bytes.thy ===== *)
theory Lbn_Bytes
  imports Lbn_Add
begin

text \<open>
  The byte-string conversions of \<open>lbn32.c\<close>: \<open>lbnExtractBigBytes_32\<close>, \<open>lbnInsertBigBytes_32\<close>
  and their little-endian twins, which read or write the bytes \<open>lsbyte .. lsbyte + buflen\<close> of
  a number.  A word pointer is an index into the list of words.
\<close>

section \<open>The code\<close>

text \<open>The loop of \<open>lbnExtractBigBytes_32\<close>: the pointer, the current word, the bits of it still
  unread, the bytes to go.\<close>

primrec extract_big :: "u32 list \<Rightarrow> nat \<Rightarrow> u32 \<Rightarrow> nat \<Rightarrow> nat \<Rightarrow> u8 list" where
  "extract_big n i t shift 0 = []"
| "extract_big n i t shift (Suc buflen) =
    (let (i, t, shift) = (if shift = 0 then (i - 1, n ! (i - 1), 32) else (i, t, shift));
         shift = shift - 8
     in ucast (drop_bit shift t) # extract_big n i t shift buflen)"

definition lbnExtractBigBytes_32 :: "u32 list \<Rightarrow> nat \<Rightarrow> nat \<Rightarrow> u8 list" where
  "lbnExtractBigBytes_32 n lsbyte buflen =
    (let lsbyte = lsbyte + buflen;
         shift = 8 * lsbyte mod 32;
         i = lsbyte div 4;
         t = (if shift \<noteq> 0 then n ! i else 0)
     in extract_big n i t shift buflen)"

text \<open>The merging loop, shared by both insertions (one reads the buffer forwards, the other
  backwards): the words, the pointer, the accumulator, the byte position.\<close>

primrec insert_loop :: "u8 list \<Rightarrow> u32 list \<Rightarrow> nat \<Rightarrow> u32 \<Rightarrow> nat \<Rightarrow> u32 list \<times> nat \<times> u32 \<times> nat" where
  "insert_loop [] n i t lsbyte = (n, i, t, lsbyte)"
| "insert_loop (b # buf) n i t lsbyte =
    (let t = push_bit 8 t OR ucast b;
         lsbyte = lsbyte - 1
     in if lsbyte mod 4 = 0 then insert_loop buf (n[i - 1 := t]) (i - 1) t lsbyte
        else insert_loop buf n i t lsbyte)"

text \<open>Loading the leading odd bytes, the loop, and merging the odd bytes left into the last word:
  the body that the two insertions have in common.\<close>

definition insert_bytes :: "u32 list \<Rightarrow> u8 list \<Rightarrow> nat \<Rightarrow> u32 list" where
  "insert_bytes n buf lsbyte =
    (let i = lsbyte div 4;
         (i, t) = (if lsbyte mod 4 \<noteq> 0 then (i + 1, drop_bit (lsbyte * 8 mod 32) (n ! i)) else (i, 0));
         (n, i, t, lsbyte) = insert_loop buf n i t lsbyte;
         lsbyte = lsbyte * 8 mod 32
     in if lsbyte \<noteq> 0 then
          (let t = push_bit lsbyte t;
               t = t OR ((push_bit lsbyte 1 - 1) AND n ! (i - 1))
           in n[i - 1 := t])
        else n)"

definition lbnInsertBigBytes_32 :: "u32 list \<Rightarrow> u8 list \<Rightarrow> nat \<Rightarrow> u32 list" where
  "lbnInsertBigBytes_32 n buf lsbyte = insert_bytes n buf (lsbyte + length buf)"

primrec extract_little :: "u32 list \<Rightarrow> nat \<Rightarrow> u32 \<Rightarrow> nat \<Rightarrow> nat \<Rightarrow> u8 list" where
  "extract_little n i t lsbyte 0 = []"
| "extract_little n i t lsbyte (Suc buflen) =
    (let (i, t) = (if lsbyte mod 4 = 0 then (i + 1, n ! i) else (i, t))
     in ucast t # extract_little n i (drop_bit 8 t) (lsbyte + 1) buflen)"

definition lbnExtractLittleBytes_32 :: "u32 list \<Rightarrow> nat \<Rightarrow> nat \<Rightarrow> u8 list" where
  "lbnExtractLittleBytes_32 n lsbyte buflen =
    (let i = lsbyte div 4;
         (i, t) = (if lsbyte mod 4 \<noteq> 0 then (i + 1, drop_bit (lsbyte mod 4 * 8) (n ! i)) else (i, 0))
     in extract_little n i t lsbyte buflen)"

definition lbnInsertLittleBytes_32 :: "u32 list \<Rightarrow> u8 list \<Rightarrow> nat \<Rightarrow> u32 list" where
  "lbnInsertLittleBytes_32 n buf lsbyte = insert_bytes n (rev buf) (lsbyte + length buf)"

section \<open>The bytes of a word\<close>

definition wbyte :: "u32 \<Rightarrow> nat \<Rightarrow> u8" where
  "wbyte w j = ucast (drop_bit (8 * j) w)"

lemma bit_wbyte: "bit (wbyte w j) k \<longleftrightarrow> k < 8 \<and> bit w (8 * j + k)"
  by (simp add: wbyte_def bit_ucast_iff bit_drop_bit_eq)

lemma wbyte_0 [simp]: "wbyte w 0 = ucast w"
  by (simp add: wbyte_def)

lemma wbyte_shift_in:
  "j < 4 \<Longrightarrow> wbyte (push_bit 8 t OR ucast b) j = (if j = 0 then b else wbyte t (j - 1))"
  by (rule bit_word_eqI)
    (auto simp: bit_wbyte bit_or_iff bit_push_bit_iff bit_ucast_iff algebra_simps right_diff_distrib'
          dest: bit_imp_le_length)

lemma wbyte_drop: "wbyte (drop_bit (8 * m) t) j = wbyte t (m + j)"
  by (simp add: wbyte_def add.commute algebra_simps)

lemma wbyte_drop_8: "wbyte (drop_bit 8 t) j = wbyte t (Suc j)"
  using wbyte_drop [of 1] by simp

lemma wbyte_merge:
  "m < 4 \<Longrightarrow> j < 4 \<Longrightarrow>
    wbyte (push_bit (8 * m) t OR ((push_bit (8 * m) 1 - 1) AND x)) j =
      (if j < m then wbyte x j else wbyte t (j - m))"
proof (rule bit_word_eqI)
  fix k assume m: "m < 4" "j < 4" and "k < LENGTH(8)"
  then have k: "k < 8" by simp
  have mask: "push_bit (8 * m) 1 - 1 = (mask (8 * m) :: u32)"
    by (simp add: mask_eq_exp_minus_1 push_bit_eq_mult)
  have "8 * j + k < 8 * m \<longleftrightarrow> j < m" using k by presburger
  moreover have "j \<ge> m \<Longrightarrow> 8 * j + k - 8 * m = 8 * (j - m) + k" by simp
  moreover have "8 * j + k < 32" using m k by simp
  ultimately show "bit (wbyte (push_bit (8 * m) t OR ((push_bit (8 * m) 1 - 1) AND x)) j) k
      = bit (if j < m then wbyte x j else wbyte t (j - m)) k"
    unfolding mask using k by (auto simp: bit_wbyte bit_or_iff bit_and_iff bit_push_bit_iff bit_mask_iff not_less)
qed

lemma wbyte_eqI:
  assumes "\<And>j. j < 4 \<Longrightarrow> wbyte v j = wbyte w j"
  shows "v = w"
proof (rule bit_word_eqI)
  fix n assume "n < LENGTH(32)"
  then have "n div 8 < 4" by simp
  from arg_cong [OF assms [OF this], of "\<lambda>b. bit b (n mod 8)"]
  show "bit v n = bit w n" by (simp add: bit_wbyte)
qed

lemma length_le_view_32 [simp]: "length (le_view (n :: u32 list)) = 4 * length n"
  by simp

lemma le_bytes_32: "le_bytes (w :: u32) = map (wbyte w) [0..<4]"
  by (simp add: le_bytes_def wbyte_def)

lemma le_view_nth: "k < 4 * length n \<Longrightarrow> le_view n ! k = wbyte (n ! (k div 4)) (k mod 4)"
proof (induction n arbitrary: k)
  case (Cons x n)
  show ?case
  proof (cases "k < 4")
    case True
    then show ?thesis by (simp add: le_view_def le_bytes_32 nth_append)
  next
    case False
    then obtain j where k: "k = j + 4" by (metis add.commute le_add_diff_inverse not_less)
    then have "k div 4 = Suc (j div 4)" "k mod 4 = j mod 4" by presburger+
    then show ?thesis using Cons k by (simp add: le_view_def nth_append)
  qed
qed simp

lemma le_view_eqI:
  "length v = length n \<Longrightarrow> le_view v = le_view n \<Longrightarrow> v = (n :: u32 list)"
proof (rule nth_equalityI)
  fix i assume l: "length v = length n" and e: "le_view v = le_view n" and i: "i < length v"
  show "v ! i = n ! i"
  proof (rule wbyte_eqI)
    fix j :: nat assume "j < 4"
    then show "wbyte (v ! i) j = wbyte (n ! i) j"
      using i l arg_cong [OF e, of "\<lambda>bs. bs ! (4 * i + j)"] by (simp add: le_view_nth)
  qed
qed

text \<open>The value of a byte string, least significant byte first, and of a number's bytes.\<close>

primrec bval :: "u8 list \<Rightarrow> nat" where
  "bval [] = 0"
| "bval (b # bs) = unat b + 256 * bval bs"

lemma bval_append: "bval (xs @ ys) = bval xs + 256 ^ length xs * bval ys"
  by (induction xs) (simp_all add: algebra_simps)

lemma bval_less: "bval bs < 256 ^ length bs"
proof (induction bs)
  case (Cons b bs)
  have "unat b < 256" using unsigned_less [of b, where 'a = nat] by simp
  then have "unat b + 256 * bval bs < 256 * Suc (bval bs)" by simp
  also have "\<dots> \<le> 256 * 256 ^ length bs" using Cons by (intro mult_le_mono2) simp
  finally show ?case by simp
qed simp

lemma unat_wbyte: "unat (wbyte w j) = unat w div 256 ^ j mod 256"
proof -
  have "unat (ucast v :: u8) = unat v mod 256" for v :: u32
    by (simp add: unsigned_ucast_eq take_bit_eq_mod)
  moreover have "unat (drop_bit (8 * j) w) = unat w div 2 ^ (8 * j)"
    by (rule unat_drop_32)
  ultimately show ?thesis by (simp add: wbyte_def power_mult)
qed

lemma bval_le_bytes: "bval (le_bytes (w :: u32)) = unat w"
proof -
  define v1 v2 v3 where "v1 = unat w div 256" and "v2 = v1 div 256" and "v3 = v2 div 256"
  have "unat w div 65536 = v2" "unat w div 16777216 = v3"
    unfolding v1_def v2_def v3_def by (simp_all flip: div_mult2_eq)
  moreover have "v3 < 256"
    using unat_lt [of w] unfolding v1_def v2_def v3_def
    by (simp add: less_mult_imp_div_less flip: div_mult2_eq)
  moreover have "unat w = unat w mod 256 + 256 * v1" "v1 = v1 mod 256 + 256 * v2" "v2 = v2 mod 256 + 256 * v3"
    by (simp_all add: v1_def v2_def v3_def)
  moreover have "[0..<4] = [0, 1, 2, 3 :: nat]" by (simp add: upt_rec)
  then have "bval (le_bytes w) = unat w mod 256 + 256 * (unat w div 256 mod 256 +
      256 * (unat w div 65536 mod 256 + 256 * (unat w div 16777216 mod 256)))"
    by (simp add: le_bytes_32 unat_wbyte del: wbyte_0)
  ultimately show ?thesis unfolding v1_def [symmetric] by simp
qed

lemma bval_le_view: "bval (le_view n) = nval n"
  by (induction n) (simp_all add: le_view_def bval_append bval_le_bytes)

lemma bval_take: "bval (take k bs) = bval bs mod 256 ^ k"
proof (cases "k \<le> length bs")
  case True
  then have "bval bs = bval (take k bs) + 256 ^ k * bval (drop k bs)"
    using bval_append [of "take k bs" "drop k bs"] by simp
  then show ?thesis using bval_less [of "take k bs"] True by simp
next
  case False
  then have "bval bs < 256 ^ k"
    using bval_less [of bs] power_increasing [of "length bs" k "256 :: nat"] by linarith
  then show ?thesis using False by simp
qed

lemma bval_drop: "k \<le> length bs \<Longrightarrow> bval (drop k bs) = bval bs div 256 ^ k"
  using bval_append [of "take k bs" "drop k bs"] bval_less [of "take k bs"] by simp

section \<open>Extraction\<close>

text \<open>Positions within one word, as linear facts.\<close>

lemma quad_step:
  assumes "pos mod 4 + j < 4"
  shows "(pos + j) div 4 = pos div 4" "(pos + j) mod 4 = pos mod 4 + (j :: nat)"
proof -
  have e: "pos + j = (pos mod 4 + j) + 4 * (pos div 4)" by simp
  show "(pos + j) div 4 = pos div 4" by (subst e, subst div_mult_self2) (use assms in simp_all)
  show "(pos + j) mod 4 = pos mod 4 + j" by (subst e, subst mod_mult_self2) (use assms in simp_all)
qed

lemma quad_below:
  assumes "pos mod 4 + j < 4" and "pos < 4 * len"
  shows "pos + j < 4 * (len :: nat)"
proof -
  have "pos div 4 < len" using assms(2) by (simp add: less_mult_imp_div_less mult.commute)
  moreover have "pos = 4 * (pos div 4) + pos mod 4" by simp
  ultimately show ?thesis using assms(1) by linarith
qed

lemma quad_ceil: "(k + 3) div 4 = (if k mod 4 = 0 then k div 4 else k div 4 + 1)" for k :: nat
  by presburger

lemma quad_ceil_Suc: "(Suc k + 3) div 4 = k div 4 + 1" for k :: nat
  by presburger

lemma quad_iff: "k div 4 = q \<longleftrightarrow> 4 * q \<le> k \<and> k < 4 * q + 4" for k q :: nat
  by presburger

lemma quad_split: "4 * (k div 4) + k mod 4 = k" "k mod 4 \<le> 3" for k :: nat
  using mod_less_divisor [of 4 k] by simp_all

lemma extract_big_value:
  "m = pos mod 4 \<Longrightarrow> i = pos div 4 \<Longrightarrow> (m \<noteq> 0 \<Longrightarrow> t = n ! i) \<Longrightarrow> len \<le> pos \<Longrightarrow> pos \<le> 4 * length n \<Longrightarrow>
    extract_big n i t (8 * m) len = rev (take len (drop (pos - len) (le_view n)))"
proof (induction len arbitrary: pos i t m)
  case (Suc len)
  define q where "q = pos - 1"
  have pos: "pos = Suc q" using Suc.prems by (simp add: q_def)
  obtain i' t' where st: "(if 8 * m = 0 then (i - 1, n ! (i - 1), 32) else (i, t, 8 * m)) = (i', t', 8 * (q mod 4) + 8)"
    and i': "i' = q div 4" "t' = n ! i'"
  proof (cases "m = 0")
    case True
    then have "pos mod 4 = 0" using Suc.prems by simp
    then have "i - 1 = q div 4" "8 * (q mod 4) + 8 = 32"
      unfolding Suc.prems(2) pos by presburger+
    then show ?thesis using that [of "i - 1" "n ! (i - 1)"] True by simp
  next
    case False
    then have "m = q mod 4 + 1" "i = q div 4" using Suc.prems unfolding pos by presburger+
    then show ?thesis using that [of i t] False Suc.prems by simp
  qed
  have "extract_big n i t (8 * m) (Suc len) =
      ucast (drop_bit (8 * (q mod 4)) t') # extract_big n i' t' (8 * (q mod 4)) len"
    by (simp only: extract_big.simps st) (simp add: Let_def)
  also have "extract_big n i' t' (8 * (q mod 4)) len = rev (take len (drop (q - len) (le_view n)))"
    using Suc.prems pos i' by (intro Suc.IH) simp_all
  also have "ucast (drop_bit (8 * (q mod 4)) t') = le_view n ! q"
    using Suc.prems i' pos by (simp add: le_view_nth wbyte_def)
  also have "le_view n ! q # rev (take len (drop (q - len) (le_view n)))
      = rev (take (Suc len) (drop (q - len) (le_view n)))"
    using Suc.prems pos by (subst take_Suc_conv_app_nth) simp_all
  finally show ?case by (simp add: pos)
qed simp

text \<open>The bytes of \<open>n\<close> at \<open>lsbyte ..\<close>, most significant first.\<close>

lemma lbnExtractBigBytes_value:
  assumes "lsbyte + buflen \<le> 4 * length n"
  shows "lbnExtractBigBytes_32 n lsbyte buflen = rev (take buflen (drop lsbyte (le_view n)))"
proof -
  have m: "8 * (lsbyte + buflen) mod 32 = 8 * ((lsbyte + buflen) mod 4)"
    using mult_mod_right [of 8 "lsbyte + buflen" 4] by simp
  show ?thesis
    unfolding lbnExtractBigBytes_32_def Let_def m
    by (subst extract_big_value [OF refl refl]) (use assms in simp_all)
qed

lemma extract_little_value:
  "i = (pos + 3) div 4 \<Longrightarrow> (\<And>j. pos mod 4 \<noteq> 0 \<Longrightarrow> pos mod 4 + j < 4 \<Longrightarrow> wbyte t j = le_view n ! (pos + j)) \<Longrightarrow>
    pos + len \<le> 4 * length n \<Longrightarrow>
    extract_little n i t pos len = take len (drop pos (le_view n))"
proof (induction len arbitrary: pos i t)
  case (Suc len)
  define i' t' where "i' = (if pos mod 4 = 0 then i + 1 else i)"
    and "t' = (if pos mod 4 = 0 then n ! i else t)"
  have step: "extract_little n i t pos (Suc len) = ucast t' # extract_little n i' (drop_bit 8 t') (pos + 1) len"
    by (simp add: i'_def t'_def)
  have t': "wbyte t' j = le_view n ! (pos + j)" if "pos mod 4 + j < 4" for j
  proof (cases "pos mod 4 = 0")
    case True
    then have "pos div 4 = i" using Suc.prems(1) by (simp add: quad_ceil)
    then have "(pos + j) div 4 = i" "(pos + j) mod 4 = j" using quad_step [OF that] True by simp_all
    moreover have "pos + j < 4 * length n"
      using quad_below [OF that] Suc.prems(3) by simp
    ultimately show ?thesis using True by (simp add: t'_def le_view_nth)
  qed (use Suc.prems(2) that in \<open>simp add: t'_def\<close>)
  have "extract_little n i' (drop_bit 8 t') (pos + 1) len = take len (drop (pos + 1) (le_view n))"
  proof (rule Suc.IH)
    show "i' = (pos + 1 + 3) div 4"
      using Suc.prems(1) quad_ceil_Suc [of pos] unfolding i'_def quad_ceil [of pos] by simp
    fix j assume "(pos + 1) mod 4 \<noteq> 0" and "(pos + 1) mod 4 + j < 4"
    then have "pos mod 4 + Suc j < 4" by presburger
    then show "wbyte (drop_bit 8 t') j = le_view n ! (pos + 1 + j)"
      using t' [of "Suc j"] by (simp add: wbyte_drop_8)
  qed (use Suc.prems in simp)
  moreover have "ucast t' = le_view n ! pos" using t' [of 0] by simp
  ultimately show ?case
    using Suc.prems(3) unfolding step
    by (simp add: take_Suc_conv_app_nth Cons_nth_drop_Suc [symmetric])
qed simp

lemma lbnExtractLittleBytes_value:
  assumes "lsbyte + buflen \<le> 4 * length n"
  shows "lbnExtractLittleBytes_32 n lsbyte buflen = take buflen (drop lsbyte (le_view n))"
proof (cases "buflen = 0")
  case False
  show ?thesis
  proof (cases "lsbyte mod 4 = 0")
    case True
    then have "lsbyte div 4 = (lsbyte + 3) div 4" by (simp add: quad_ceil)
    then show ?thesis
      using True assms by (simp add: lbnExtractLittleBytes_32_def extract_little_value)
  next
    case False': False
    then have i: "lsbyte div 4 + 1 = (lsbyte + 3) div 4" by (simp add: quad_ceil)
    have "wbyte (drop_bit (lsbyte mod 4 * 8) (n ! (lsbyte div 4))) j = le_view n ! (lsbyte + j)"
      if "lsbyte mod 4 + j < 4" for j
    proof -
      note quad_step [OF that]
      moreover have "lsbyte + j < 4 * length n"
        using quad_below [OF that] assms False by simp
      ultimately show ?thesis by (simp add: le_view_nth mult.commute wbyte_drop)
    qed
    then show ?thesis
      using False' assms by (simp add: lbnExtractLittleBytes_32_def i extract_little_value del: One_nat_def)
  qed
qed (simp add: lbnExtractLittleBytes_32_def Let_def split_def)

section \<open>Insertion\<close>

text \<open>Between two rounds: with the target bytes \<open>T\<close> and the original bytes \<open>Or\<close>, the words above the
  pointer are final, the accumulator holds the target bytes from the position up to the next
  word boundary, and the words below are untouched.\<close>

definition insert_inv ::
  "(nat \<Rightarrow> u8) \<Rightarrow> (nat \<Rightarrow> u8) \<Rightarrow> u32 list \<Rightarrow> nat \<Rightarrow> u32 \<Rightarrow> nat \<Rightarrow> bool" where
  "insert_inv T Or n i t pos \<longleftrightarrow>
    i = (pos + 3) div 4 \<and> pos \<le> 4 * length n \<and>
    (\<forall>k. pos \<le> k \<and> k < 4 * i \<longrightarrow> wbyte t (k - pos) = T k) \<and>
    (\<forall>k. 4 * i \<le> k \<and> k < 4 * length n \<longrightarrow> le_view n ! k = T k) \<and>
    (\<forall>k < 4 * i. le_view n ! k = Or k)"

lemma le_view_update:
  "k < 4 * length n \<Longrightarrow>
    le_view (n[i := w]) ! k = (if k div 4 = i then wbyte w (k mod 4) else le_view n ! k)"
  by (simp add: le_view_nth nth_list_update)

lemma insert_inv_step:
  assumes inv: "insert_inv T Or n i t (Suc p)" and b: "T p = b" and t': "t' = push_bit 8 t OR ucast b"
  shows "p mod 4 = 0 \<Longrightarrow> insert_inv T Or (n[i - 1 := t']) (i - 1) t' p"
    and "p mod 4 \<noteq> 0 \<Longrightarrow> insert_inv T Or n i t' p"
proof -
  note I = inv [unfolded insert_inv_def]
  have Ii: "i = p div 4 + 1" "Suc p \<le> 4 * length n" using I by (simp_all only: quad_ceil_Suc)
  have acc: "wbyte t' (k - p) = T k" if "p \<le> k" "k < 4 * i" for k
  proof -
    have "k - p < 4" using Ii that quad_split(1) [of p] by simp
    then have "wbyte t' (k - p) = (if k = p then b else wbyte t (k - Suc p))"
      using that by (simp add: t' wbyte_shift_in)
    then show ?thesis using I b that by auto
  qed
  show "insert_inv T Or n i t' p" if "p mod 4 \<noteq> 0"
  proof -
    have "i = (p + 3) div 4" using that Ii by (simp add: quad_ceil)
    then show ?thesis using I acc by (simp add: insert_inv_def)
  qed
  show "insert_inv T Or (n[i - 1 := t']) (i - 1) t' p" if "p mod 4 = 0"
  proof -
    have i: "i - 1 = (p + 3) div 4" "i - 1 = p div 4" "4 * (i - 1) = p" "i = Suc (i - 1)"
      using that Ii quad_split(1) [of p] by (simp_all add: quad_ceil)
    have hi: "le_view (n[i - 1 := t']) ! k = T k" if "p \<le> k" "k < 4 * length n" for k
    proof (cases "k div 4 = i - 1")
      case True
      then have k: "k = p + k mod 4" using quad_split(1) [of k] i(3) by simp
      moreover have "k mod 4 < 4" by simp
      ultimately have "k mod 4 = k - p" "k < 4 * i" using i(3,4) by linarith+
      then show ?thesis using True that acc [of k] by (simp add: le_view_update)
    next
      case False
      then have "4 * i \<le> k" using that(1) i(3,4) unfolding quad_iff by linarith
      then show ?thesis using False that I by (simp add: le_view_update)
    qed
    have lo: "le_view (n[i - 1 := t']) ! k = Or k" if "k < p" for k
    proof -
      have "k div 4 \<noteq> i - 1" "k < 4 * i" "k < 4 * length n"
        using that i(3,4) Ii(2) unfolding quad_iff by linarith+
      then show ?thesis using I by (simp add: le_view_update)
    qed
    show ?thesis unfolding insert_inv_def i(3) using i(1) hi lo I by auto
  qed
qed

lemma insert_loop_inv:
  "insert_loop buf n i t pos = (n', i', t', pos') \<Longrightarrow> insert_inv T Or n i t pos \<Longrightarrow> length buf \<le> pos \<Longrightarrow>
    (\<And>j. j < length buf \<Longrightarrow> T (pos - 1 - j) = buf ! j) \<Longrightarrow>
    insert_inv T Or n' i' t' pos' \<and> pos' = pos - length buf \<and> length n' = length n"
proof (induction buf arbitrary: n i t pos)
  case (Cons b buf)
  obtain p where pos: "pos = Suc p" using Cons.prems(3) by (cases pos) auto
  define t1 where "t1 = push_bit 8 t OR ucast b"
  have b: "T p = b" using Cons.prems(4) [of 0] by (simp add: pos)
  have rest: "T (p - 1 - j) = buf ! j" if "j < length buf" for j
    using Cons.prems(4) [of "Suc j"] that by (simp add: pos)
  note st = insert_inv_step [OF Cons.prems(2) [unfolded pos] b t1_def]
  show ?case
  proof (cases "p mod 4 = 0")
    case True
    have "insert_loop buf (n[i - 1 := t1]) (i - 1) t1 p = (n', i', t', pos')"
      using Cons.prems(1) True by (simp add: pos t1_def Let_def)
    from Cons.IH [OF this st(1) [OF True]] show ?thesis using Cons.prems(3) rest pos by auto
  next
    case False
    have "insert_loop buf n i t1 p = (n', i', t', pos')"
      using Cons.prems(1) False by (simp add: pos t1_def Let_def)
    from Cons.IH [OF this st(2) [OF False]] show ?thesis using Cons.prems(3) rest pos by auto
  qed
qed simp

lemma insert_bytes_value:
  assumes "length buf \<le> pos" and "pos \<le> 4 * length n"
  shows "length (insert_bytes n buf pos) = length n \<and>
    le_view (insert_bytes n buf pos) = poke (pos - length buf) (rev buf) (le_view n)"
proof -
  define T where "T k = poke (pos - length buf) (rev buf) (le_view n) ! k" for k
  define Or where "Or k = le_view n ! k" for k
  have T: "T k = (if k < pos - length buf \<or> pos \<le> k then Or k else buf ! (pos - 1 - k))" if "k < 4 * length n" for k
    using that assms by (auto simp: T_def Or_def poke_def nth_append rev_nth intro!: arg_cong2 [where f = nth])
  define i0 t0 where "i0 = (if pos mod 4 \<noteq> 0 then pos div 4 + 1 else pos div 4)"
    and "t0 = (if pos mod 4 \<noteq> 0 then drop_bit (pos * 8 mod 32) (n ! (pos div 4)) else 0)"
  have m8: "q * 8 mod 32 = 8 * (q mod 4)" for q :: nat
    using mult_mod_right [of 8 q 4] by (simp add: mult.commute)
  have i0: "i0 = (pos + 3) div 4" unfolding i0_def quad_ceil by simp
  have inv: "insert_inv T Or n i0 t0 pos"
  proof -
    have acc: "wbyte t0 (k - pos) = T k" if "pos \<le> k" "k < 4 * i0" for k
    proof -
      have ne: "pos mod 4 \<noteq> 0"
      proof
        assume "pos mod 4 = 0"
        then have "i0 = pos div 4" by (simp add: i0_def)
        then show False using that quad_split(1) [of pos] by simp
      qed
      then have "i0 = pos div 4 + 1" by (simp add: i0_def)
      then have d: "k div 4 = pos div 4" using that quad_split(1) [of pos] by (intro div_nat_eqI) simp_all
      then have m: "k = 4 * (pos div 4) + k mod 4" using quad_split(1) [of k] by simp
      have "pos \<noteq> 4 * length n" using ne by auto
      then have "pos mod 4 + (k - pos) < 4 \<longrightarrow> pos + (k - pos) < 4 * length n"
        using quad_below [of pos "k - pos" "length n"] assms(2) by simp
      moreover have "pos mod 4 + (k - pos) = k mod 4" using m quad_split(1) [of pos] that(1) by linarith
      ultimately have *: "pos mod 4 \<noteq> 0" "k div 4 = pos div 4" "pos mod 4 + (k - pos) = k mod 4" "k < 4 * length n"
        using ne d that(1) by simp_all
      then have "wbyte t0 (k - pos) = wbyte (n ! (k div 4)) (k mod 4)"
        by (simp add: t0_def m8 wbyte_drop)
      then show ?thesis using * that by (simp add: T Or_def le_view_nth)
    qed
    moreover have "le_view n ! k = T k" if "4 * i0 \<le> k" "k < 4 * length n" for k
    proof -
      have "pos \<le> 4 * i0"
      proof (cases "pos mod 4 = 0")
        case True
        then have "pos = 4 * i0" using quad_split(1) [of pos] unfolding i0 quad_ceil by simp
        then show ?thesis by linarith
      next
        case False
        then have "i0 = pos div 4 + 1" unfolding i0 quad_ceil by simp
        then show ?thesis using quad_split [of pos] by linarith
      qed
      then have "pos \<le> k" using that(1) by linarith
      then show ?thesis using that by (simp add: T Or_def)
    qed
    ultimately show ?thesis using i0 assms(2) by (simp add: insert_inv_def Or_def)
  qed
  obtain n1 i1 t1 p1 where loop: "insert_loop buf n i0 t0 pos = (n1, i1, t1, p1)" by (metis prod_cases4)
  have buf: "T (pos - 1 - j) = buf ! j" if "j < length buf" for j
    using that assms by (subst T) auto
  from insert_loop_inv [OF loop inv assms(1) buf]
  have inv1: "insert_inv T Or n1 i1 t1 p1" and p1: "p1 = pos - length buf" and len: "length n1 = length n" by auto
  note I = inv1 [unfolded insert_inv_def]
  have Ii: "i1 = (p1 + 3) div 4" "p1 \<le> 4 * length n1" using I by simp_all
  define m where "m = p1 mod 4"
  define r where "r = (if m \<noteq> 0 then n1[i1 - 1 := push_bit (8 * m) t1 OR ((push_bit (8 * m) 1 - 1) AND n1 ! (i1 - 1))] else n1)"
  have code: "insert_bytes n buf pos = r"
    unfolding insert_bytes_def Let_def r_def m_def
    using loop by (cases "pos mod 4 = 0") (simp_all add: m8 i0_def t0_def)
  have "le_view r ! k = T k" if k: "k < 4 * length n" for k
  proof (cases "k div 4 = i1 - 1 \<and> m \<noteq> 0")
    case True
    then have i1: "i1 = p1 div 4 + 1" "p1 mod 4 \<noteq> 0" "k div 4 = p1 div 4"
      using Ii unfolding m_def quad_ceil by simp_all
    have "m < 4" "k mod 4 < 4" by (simp_all add: m_def)
    note merge = wbyte_merge [OF this, of t1 "n1 ! (i1 - 1)"]
    have "le_view r ! k = wbyte (push_bit (8 * m) t1 OR ((push_bit (8 * m) 1 - 1) AND n1 ! (i1 - 1))) (k mod 4)"
      using True k len by (simp add: r_def le_view_update)
    also have "\<dots> = (if k mod 4 < m then wbyte (n1 ! (k div 4)) (k mod 4) else wbyte t1 (k mod 4 - m))"
      unfolding merge using True by simp
    also have "\<dots> = T k"
    proof (cases "k mod 4 < m")
      case True
      then have "k < p1" "k < 4 * i1"
        using i1(1,3) quad_split [of k] quad_split(1) [of p1] unfolding m_def by linarith+
      then show ?thesis using True k I T [OF k] p1 len by (simp add: le_view_nth [symmetric])
    next
      case False
      moreover have "k = 4 * (p1 div 4) + k mod 4" "p1 = 4 * (p1 div 4) + m"
        using mult_div_mod_eq [of 4 k] i1(3) by (simp_all add: m_def)
      ultimately have "p1 \<le> k" "k mod 4 - m = k - p1" by linarith+
      moreover have "k < 4 * i1" using i1(1,3) quad_split [of k] by linarith
      moreover note False
      ultimately show ?thesis using I by simp
    qed
    finally show ?thesis .
  next
    case False
    then have "le_view r ! k = le_view n1 ! k" using k len by (auto simp: r_def le_view_update)
    moreover have "k < p1 \<and> k < 4 * i1 \<or> 4 * i1 \<le> k"
    proof (cases "m = 0")
      case True
      then have "p1 = 4 * i1" using Ii(1) quad_split(1) [of p1] unfolding m_def quad_ceil by simp
      then show ?thesis by linarith
    next
      case m: False
      then have i1: "i1 = p1 div 4 + 1" using Ii(1) unfolding m_def quad_ceil by simp
      then have "k div 4 \<noteq> p1 div 4" using False m by simp
      then show ?thesis using i1 quad_split(1) [of p1] unfolding quad_iff [of k] by linarith
    qed
    ultimately show ?thesis using I k T [OF k] p1 len by auto
  qed
  moreover have lr: "length r = length n" by (simp add: r_def len)
  ultimately have "le_view r = poke (pos - length buf) (rev buf) (le_view n)"
    using assms by (intro nth_equalityI) (simp_all add: T_def)
  with lr show ?thesis by (simp add: code)
qed

lemma lbnInsertBigBytes_value:
  assumes "lsbyte + length buf \<le> 4 * length n"
  shows "length (lbnInsertBigBytes_32 n buf lsbyte) = length n \<and>
    le_view (lbnInsertBigBytes_32 n buf lsbyte) = poke lsbyte (rev buf) (le_view n)"
  using insert_bytes_value [of buf "lsbyte + length buf" n] assms
  by (simp add: lbnInsertBigBytes_32_def)

lemma lbnInsertLittleBytes_value:
  assumes "lsbyte + length buf \<le> 4 * length n"
  shows "length (lbnInsertLittleBytes_32 n buf lsbyte) = length n \<and>
    le_view (lbnInsertLittleBytes_32 n buf lsbyte) = poke lsbyte buf (le_view n)"
  using insert_bytes_value [of "rev buf" "lsbyte + length buf" n] assms
  by (simp add: lbnInsertLittleBytes_32_def)

end
