(* ===== verification/Lbn_Mul.thy ===== *)
theory Lbn_Mul
  imports Lbn_Add
begin

text \<open>
  The quadratic routines of \<open>lbn32.c\<close> and the bit length: \<open>lbnMul_32\<close>, \<open>lbnSquare_32\<close>,
  \<open>lbnBits_32\<close>, and the count of leading zeros with which the divisions normalise.
\<close>

section \<open>The code\<close>

text \<open>
  \<open>prodx\<close> is the window of \<open>len1 + 1\<close> words under the moving pointer; \<open>prod++\<close> leaves its
  head behind, and the carry of \<open>lbnMulAdd1_32\<close> becomes the new top word.
\<close>

primrec mul_loop :: "u32 list \<Rightarrow> u32 list \<Rightarrow> u32 list \<Rightarrow> u32 list" where
  "mul_loop num1 prodx [] = prodx"
| "mul_loop num1 prodx (y # num2) =
    (let (top, out) = lbnMulAdd1_32 (tl prodx) num1 y
     in hd prodx # mul_loop num1 (out @ [top]) num2)"

definition lbnMul_32 :: "u32 list \<Rightarrow> u32 list \<Rightarrow> u32 list" where
  "lbnMul_32 num1 num2 =
    (if num1 = [] \<or> num2 = [] then lbnZero_32 (replicate (length num1 + length num2) 0)
     else mul_loop num1 (lbnMulN1_32 num1 (hd num2)) (tl num2))"

text \<open>\<open>lbnMulX_32(prodx, num1, num2, len)\<close> is \<open>lbnMul_32\<close> for two numbers of one length.\<close>

definition lbnMulX_32 :: "u32 list \<Rightarrow> u32 list \<Rightarrow> u32 list" where
  "lbnMulX_32 num1 num2 = lbnMul_32 num1 num2"

primrec square_diagonal :: "u32 list \<Rightarrow> u32 list" where
  "square_diagonal [] = []"
| "square_diagonal (t # num) =
    (let p = w64 t * w64 t in w32 p # w32 (drop_bit 32 p) # square_diagonal num)"

text \<open>
  The loop that adds the off-diagonal products: \<open>prodx\<close> has the \<open>2 * lenx\<close> words from \<open>prodx\<close>
  on; each round leaves two of them behind.
\<close>

fun square_off :: "u32 list \<Rightarrow> u32 list \<Rightarrow> u32 list" where
  "square_off (t # t' # num) (p # prodx) =
    (let num = t' # num;
         lenx = length num;
         (c, lo) = lbnMulAdd1_32 (take lenx prodx) num t;
         (c', hi) = lbnAdd1_32 (drop lenx prodx) c
     in p # hd (lo @ hi) # square_off num (tl (lo @ hi)))"
| "square_off num prodx = prodx"

definition lbnSquare_32 :: "u32 list \<Rightarrow> u32 list" where
  "lbnSquare_32 num =
    (if num = [] then []
     else
       (let prodx = square_diagonal num;
            (_, prodx) = lbnRshift_32 prodx 1;
            prodx = square_off num prodx;
            (_, prodx) = lbnDouble_32 prodx
        in prodx[0 := prodx ! 0 OR (num ! 0 AND 1)]))"

text \<open>The halving loops over a word: how far it must be shifted to set its top bit, and how many
  bits a length of whole words has too many.\<close>

function clz_loop :: "u32 \<Rightarrow> nat \<Rightarrow> nat \<Rightarrow> nat" where
  "clz_loop r shift i =
    (let (r, shift) = (if drop_bit i r \<noteq> 0 then (drop_bit i r, shift) else (r, shift + i))
     in if i div 2 \<noteq> 0 then clz_loop r shift (i div 2) else shift)"
  by pat_completeness auto
termination by (relation "measure (\<lambda>(r, shift, i). i)") auto

function bits_loop :: "u32 \<Rightarrow> nat \<Rightarrow> nat \<Rightarrow> nat" where
  "bits_loop t len i =
    (let (t, len) = (if drop_bit i t \<noteq> 0 then (drop_bit i t, len) else (t, len - i))
     in if i div 2 \<noteq> 0 then bits_loop t len (i div 2) else len)"
  by pat_completeness auto
termination by (relation "measure (\<lambda>(t, len, i). i)") auto

declare clz_loop.simps [simp del] bits_loop.simps [simp del]

definition lbnBits_32 :: "u32 list \<Rightarrow> nat" where
  "lbnBits_32 num =
    (let len = lbnNorm_32 num in
     if len \<noteq> 0 then bits_loop (num ! (len - 1)) (len * 32) 16 else len)"

section \<open>Multiplication\<close>

lemma mul_loop_value:
  "length prodx = Suc (length num1) \<Longrightarrow>
    length (mul_loop num1 prodx num2) = Suc (length num1) + length num2 \<and>
    nval (mul_loop num1 prodx num2) = nval prodx + BB * (nval num1 * nval num2)"
proof (induction num2 arbitrary: prodx)
  case (Cons y num2)
  obtain p prodx' where p: "prodx = p # prodx'" "length prodx' = length num1"
    using Cons.prems by (auto simp: length_Suc_conv)
  obtain c out where c: "lbnMulAdd1_32 prodx' num1 y = (c, out)" by fastforce
  note v = lbnMulAdd1_value [OF c p(2)]
  have e: "mul_loop num1 prodx (y # num2) = p # mul_loop num1 (out @ [c]) num2"
    by (simp add: p c)
  have ih: "length (mul_loop num1 (out @ [c]) num2) = Suc (length num1) + length num2 \<and>
      nval (mul_loop num1 (out @ [c]) num2) = nval (out @ [c]) + BB * (nval num1 * nval num2)"
    using v p(2) by (intro Cons.IH) simp
  have "nval (out @ [c]) = nval prodx' + nval num1 * unat y"
    using v p(2) by (simp add: nval_snoc)
  then show ?case
    using ih unfolding e by (simp add: p(1) algebra_simps)
qed simp

theorem lbnMul_value:
  "length (lbnMul_32 num1 num2) = length num1 + length num2 \<and>
   nval (lbnMul_32 num1 num2) = nval num1 * nval num2"
proof (cases "num1 = [] \<or> num2 = []")
  case False
  then obtain y num2' where y: "num2 = y # num2'" by (cases num2) auto
  then show ?thesis
    using mul_loop_value [of "lbnMulN1_32 num1 y" num1 num2'] lbnMulN1_value [of num1 y] False
    by (simp add: lbnMul_32_def algebra_simps)
qed (auto simp: lbnMul_32_def)

section \<open>Squaring\<close>

text \<open>The diagonal and the off-diagonal part of a square.\<close>

primrec diag :: "u32 list \<Rightarrow> nat" where
  "diag [] = 0"
| "diag (t # num) = unat t * unat t + BB * (BB * diag num)"

primrec off :: "u32 list \<Rightarrow> nat" where
  "off [] = 0"
| "off (t # num) = BB * (unat t * nval num) + BB * (BB * off num)"

lemma square_split: "nval num * nval num = diag num + 2 * off num"
proof (induction num)
  case (Cons t num)
  have "nval (t # num) * nval (t # num) =
      unat t * unat t + 2 * (BB * (unat t * nval num)) + BB * (BB * (nval num * nval num))"
    by (simp add: algebra_simps)
  then show ?case unfolding Cons.IH by (simp add: algebra_simps)
qed simp

lemma square_diagonal_value:
  "length (square_diagonal num) = 2 * length num \<and> nval (square_diagonal num) = diag num"
proof (induction num)
  case (Cons t num)
  define p where "p = w64 t * w64 t"
  have p: "unat p = unat t * unat t" by (simp only: p_def unat_mac)
  have e: "square_diagonal (t # num) = w32 p # w32 (drop_bit 32 p) # square_diagonal num"
    by (simp add: Let_def p_def)
  have "nval (square_diagonal (t # num)) =
      (unat (w32 p) + BB * unat (w32 (drop_bit 32 p))) + BB * (BB * nval (square_diagonal num))"
    unfolding e by (simp add: algebra_simps)
  also have "\<dots> = diag (t # num)"
    unfolding split_64 p using Cons.IH by simp
  finally show ?case using Cons.IH unfolding e by simp
qed simp

lemma square_off_value:
  "length prodx = 2 * length num \<Longrightarrow> nval prodx + off num < BB ^ length prodx \<Longrightarrow>
    length (square_off num prodx) = length prodx \<and> nval (square_off num prodx) = nval prodx + off num"
proof (induction num prodx rule: square_off.induct)
  case (1 t t' num p prodx)
  let ?num = "t' # num"
  let ?n = "length ?num"
  have len: "length prodx = ?n + (?n + 1)" using "1.prems"(1) by simp
  obtain c lo where lo: "lbnMulAdd1_32 (take ?n prodx) ?num t = (c, lo)" by fastforce
  obtain c' hi where hi: "lbnAdd1_32 (drop ?n prodx) c = (c', hi)" by fastforce
  have l: "length lo = ?n \<and> nval lo + BB ^ ?n * unat c = nval (take ?n prodx) + nval ?num * unat t"
    using lbnMulAdd1_value [OF lo] len by simp
  have h: "length hi = ?n + 1 \<and> nval hi + BB ^ (?n + 1) * unat c' = nval (drop ?n prodx) + unat c"
    using lbnAdd1_value [OF hi] len by fastforce
  have pr: "nval prodx = nval (take ?n prodx) + BB ^ ?n * nval (drop ?n prodx)"
    using len by (intro nval_split) simp
  have "nval (lo @ hi) + BB ^ length prodx * unat c' = nval lo + BB ^ ?n * (nval hi + BB ^ (?n + 1) * unat c')"
    using l by (simp add: nval_append len power_add distrib_left mult.assoc)
  also have "\<dots> = (nval lo + BB ^ ?n * unat c) + BB ^ ?n * nval (drop ?n prodx)"
    using h by (simp add: distrib_left)
  also have "\<dots> = nval prodx + nval ?num * unat t"
    using l pr by simp
  finally have s: "nval (lo @ hi) + BB ^ length prodx * unat c' = nval prodx + nval ?num * unat t" .
  have "BB * (nval prodx + nval ?num * unat t + BB * off ?num) < BB * BB ^ length prodx"
    using "1.prems"(2) by (simp add: algebra_simps)
  then have small: "nval prodx + nval ?num * unat t + BB * off ?num < BB ^ length prodx"
    by (simp only: mult_less_cancel1)
  have c0: "unat c' = 0"
  proof (rule ccontr)
    assume "unat c' \<noteq> 0"
    then have "BB ^ length prodx * 1 \<le> BB ^ length prodx * unat c'" by (intro mult_le_mono2) simp
    then show False using s small by linarith
  qed
  have s: "nval (lo @ hi) = nval prodx + nval ?num * unat t" using s c0 by simp
  have "length (lo @ hi) = Suc (2 * ?n)" using l h by simp
  then obtain q rest where q: "lo @ hi = q # rest" "length rest = 2 * ?n"
    by (cases "lo @ hi") (simp_all del: append_eq_Cons_conv)
  have "nval rest + off ?num < BB ^ length rest"
  proof -
    have "BB * (nval rest + off ?num) \<le> nval (lo @ hi) + BB * off ?num" by (simp add: q)
    also have "\<dots> < BB ^ length prodx" unfolding s by (rule small)
    also have "length prodx = Suc (length rest)" using q len by simp
    finally have "BB * (nval rest + off ?num) < BB * BB ^ length rest" by simp
    then show ?thesis by (simp only: mult_less_cancel1)
  qed
  then have ih: "length (square_off ?num rest) = length rest \<and>
      nval (square_off ?num rest) = nval rest + off ?num"
    using "1.IH" [OF refl refl lo [symmetric] refl hi [symmetric] refl] q by simp
  have e: "square_off (t # ?num) (p # prodx) = p # q # square_off ?num rest"
    using lo hi q by (simp add: Let_def del: append_eq_Cons_conv)
  have "nval (square_off (t # ?num) (p # prodx)) = unat p + BB * (nval (lo @ hi) + BB * off ?num)"
    unfolding e using ih by (simp add: q algebra_simps)
  then show ?case
    unfolding s using ih q len e by (simp add: algebra_simps)
qed auto


text \<open>The low bit lost by the shift is that of the number.\<close>

lemma diag_odd: "diag num mod 2 = (if num = [] then 0 else unat (hd num) mod 2)"
proof (cases num)
  case (Cons t num')
  have "diag num mod 2 = unat t * unat t mod 2"
    unfolding Cons by (simp add: mod_add_eq [symmetric])
  then show ?thesis by (simp add: Cons parity_cases mod2_eq_if)
qed simp

lemma or_low_bit:
  assumes "even (unat x)"
  shows "unat (x OR (t AND 1) :: u32) = unat x + unat t mod 2"
proof -
  have "t AND 1 = take_bit 1 t" by (simp add: take_bit_eq_mask)
  then have u: "unat (t AND 1) = unat t mod 2"
    by (simp only: unsigned_take_bit_eq) (simp add: take_bit_eq_mod)
  have "\<not> bit x 0"
    using assms bit_unsigned_iff [of x 0, where 'a = nat] by (simp add: bit_0)
  then have "\<not> bit x i \<or> \<not> bit (t AND 1) i" for i
    by (cases i) (simp_all add: bit_and_iff bit_1_iff)
  then have "x OR (t AND 1) = x + (t AND 1)" by (rule disjunctive_add [symmetric])
  moreover have "unat x + unat (t AND 1) < BB"
  proof -
    have "unat x \<noteq> 4294967295" using assms by auto
    then show ?thesis using unat_le_max [of x] u by (simp; linarith)
  qed
  ultimately show ?thesis by (simp add: unat_word_ariths u)
qed

theorem lbnSquare_value:
  "length (lbnSquare_32 num) = 2 * length num \<and> nval (lbnSquare_32 num) = nval num * nval num"
proof (cases "num = []")
  case False
  define n where "n = length num"
  have n: "0 < n" using False by (simp add: n_def)
  define p0 where "p0 = square_diagonal num"
  obtain c1 p1 where p1: "lbnRshift_32 p0 1 = (c1, p1)" by fastforce
  define p2 where "p2 = square_off num p1"
  obtain c3 p3 where p3: "lbnDouble_32 p2 = (c3, p3)" by fastforce
  have e: "lbnSquare_32 num = p3[0 := p3 ! 0 OR (num ! 0 AND 1)]"
    using False by (simp add: lbnSquare_32_def Let_def p0_def [symmetric] p1 [unfolded One_nat_def] p2_def [symmetric] p3)
  have v0: "length p0 = 2 * n" "nval p0 = diag num"
    using square_diagonal_value [of num] by (simp_all add: p0_def n_def)
  have v1: "length p1 = 2 * n" "2 * nval p1 + diag num mod 2 = diag num"
  proof -
    have r: "length p1 = length p0 \<and> unat c1 < 2 \<and> 2 * nval p1 + unat c1 = nval p0"
      using lbnRshift_value [OF p1] by simp
    then show "length p1 = 2 * n" using v0 by simp
    have "unat c1 = nval p0 mod 2" using r by presburger
    then show "2 * nval p1 + diag num mod 2 = diag num" using r v0 by simp
  qed
  have sq: "nval num * nval num < BB ^ (2 * n)"
  proof -
    have "nval num < BB ^ n" using nval_less [of num] by (simp add: n_def)
    then have "nval num * nval num < BB ^ n * BB ^ n" by (intro mult_strict_mono) simp_all
    then show ?thesis by (simp add: mult_2 power_add)
  qed
  have small: "nval p1 + off num < BB ^ length p1"
    using sq v1 unfolding square_split by simp
  have v2: "length p2 = 2 * n" "nval p2 = nval p1 + off num"
    using square_off_value [OF _ small] v1 by (simp_all add: p2_def n_def)
  have v3: "length p3 = 2 * n \<and> nval p3 + BB ^ (2 * n) * unat c3 = 2 * nval p2"
    using lbnDouble_value [OF p3] v2 by simp
  have tot: "2 * nval p2 + unat (hd num) mod 2 = nval num * nval num"
    using v1 v2 diag_odd [of num] False unfolding square_split by simp
  have "unat c3 = 0"
  proof (rule ccontr)
    assume "unat c3 \<noteq> 0"
    then have "BB ^ (2 * n) * 1 \<le> BB ^ (2 * n) * unat c3" by (intro mult_le_mono2) simp
    then show False using v3 sq tot by linarith
  qed
  then have v3: "length p3 = 2 * n" "nval p3 = 2 * nval p2" using v3 by simp_all
  then obtain x p3' where x: "p3 = x # p3'" using n by (cases p3) auto
  have "even (unat x)"
  proof -
    have "even (unat x + BB * nval p3')" using v3(2) by (simp add: x)
    then show ?thesis by simp
  qed
  then have "nval (lbnSquare_32 num) = nval p3 + unat (num ! 0) mod 2"
    unfolding e by (simp add: x or_low_bit)
  then show ?thesis
    using tot v3 False e by (simp add: hd_conv_nth n_def)
qed (simp add: lbnSquare_32_def)

section \<open>Bit length\<close>

lemma clz_loop_value:
  "0 < unat r \<Longrightarrow> unat r < 2 ^ (2 * 2 ^ m) \<Longrightarrow>
    \<exists>k. clz_loop r s (2 ^ m) + k + 1 = s + 2 * 2 ^ m \<and> unat r div 2 ^ k = 1"
proof (induction m arbitrary: r s)
  case 0
  then have "unat r \<in> {1, 2, 3}" by auto
  then show ?case
    by (elim insertE emptyE; subst clz_loop.simps)
      (simp_all add: unat_eq_0 [symmetric] unat_drop_32 div_eq_0_iff del: unat_eq_0)
next
  case (Suc m)
  let ?i = "2 ^ Suc m :: nat"
  have half: "?i div 2 = 2 ^ m" "?i div 2 \<noteq> 0" by simp_all
  show ?case
  proof (cases "drop_bit ?i r = 0")
    case True
    then have "unat r div 2 ^ ?i = 0" by (metis unat_0 unat_drop_32)
    then have "unat r < 2 ^ (2 * 2 ^ m)" by (simp add: div_eq_0_iff)
    from Suc.IH [OF Suc.prems(1) this, of "s + ?i"] obtain k where
      k: "clz_loop r (s + ?i) (2 ^ m) + k + 1 = s + ?i + 2 * 2 ^ m" "unat r div 2 ^ k = 1" by blast
    have "clz_loop r s ?i = clz_loop r (s + ?i) (2 ^ m)"
      using half True by (subst clz_loop.simps) (simp add: Let_def del: power_Suc)
    then show ?thesis using k by (intro exI [of _ k]) simp
  next
    case False
    have u: "unat (drop_bit ?i r) = unat r div 2 ^ ?i" by (rule unat_drop_32)
    have "0 < unat (drop_bit ?i r)" using False by (simp add: unat_gt_0)
    moreover have "unat r < 2 ^ (2 * 2 ^ m) * 2 ^ ?i"
      using Suc.prems(2) by (simp flip: power_add)
    then have "unat (drop_bit ?i r) < 2 ^ (2 * 2 ^ m)"
      unfolding u by (rule less_mult_imp_div_less)
    ultimately obtain k where
      k: "clz_loop (drop_bit ?i r) s (2 ^ m) + k + 1 = s + 2 * 2 ^ m" "unat (drop_bit ?i r) div 2 ^ k = 1"
      using Suc.IH by blast
    have "clz_loop r s ?i = clz_loop (drop_bit ?i r) s (2 ^ m)"
      using half False by (subst clz_loop.simps) (simp add: Let_def del: power_Suc)
    moreover have "unat r div 2 ^ (?i + k) = 1"
      using k(2) unfolding u by (simp add: power_add div_mult2_eq)
    ultimately show ?thesis using k(1) by (intro exI [of _ "?i + k"]) simp
  qed
qed

text \<open>Shifting a non-zero word left by its count of leading zeros sets the top bit.\<close>

lemma clz_normalises:
  assumes "d \<noteq> 0" and "s = clz_loop d 0 16"
  shows "s < 32 \<and> unat d * 2 ^ s < BB \<and> 2147483648 \<le> unat d * 2 ^ s"
proof -
  have "0 < unat d" using assms(1) by (simp add: unat_gt_0)
  moreover have "unat d < 2 ^ (2 * 2 ^ 4)" using unat_lt [of d] by simp
  ultimately obtain k where k: "clz_loop d 0 (2 ^ 4) + k + 1 = 0 + 2 * 2 ^ 4" "unat d div 2 ^ k = 1"
    using clz_loop_value by blast
  then have s: "s + k = 31" by (simp add: assms(2))
  have lo: "2 ^ k \<le> unat d" using k(2) by (metis div_less leI zero_neq_one)
  have "unat d mod 2 ^ k < 2 ^ k" by simp
  moreover have "2 ^ k + unat d mod 2 ^ k = unat d"
    using k(2) mult_div_mod_eq [of "2 ^ k" "unat d"] by simp
  ultimately have hi: "unat d < 2 * 2 ^ k" by linarith
  have p: "(2::nat) ^ k * 2 ^ s = 2147483648"
    using s by (simp only: power_add [symmetric] add.commute [of k]) simp
  have "2 ^ k * 2 ^ s \<le> unat d * 2 ^ s" using lo by simp
  moreover have "unat d * 2 ^ s < 2 * 2 ^ k * 2 ^ s" using hi by simp
  moreover have "2 * 2 ^ k * 2 ^ s = BB" using p by simp
  ultimately show ?thesis using p s by simp
qed

lemma bits_loop_clz:
  "0 < unat t \<Longrightarrow> unat t < 2 ^ (2 * 2 ^ m) \<Longrightarrow> 2 * 2 ^ m \<le> len \<Longrightarrow>
    bits_loop t len (2 ^ m) + clz_loop t s (2 ^ m) = len + s"
proof (induction m arbitrary: t len s)
  case 0
  then show ?case
    by (subst bits_loop.simps, subst clz_loop.simps) simp
next
  case (Suc m)
  let ?i = "2 ^ Suc m :: nat"
  have half: "?i div 2 = 2 ^ m" "?i div 2 \<noteq> 0" by simp_all
  show ?case
  proof (cases "drop_bit ?i t = 0")
    case True
    then have "unat t div 2 ^ ?i = 0" by (metis unat_0 unat_drop_32)
    then have "unat t < 2 ^ (2 * 2 ^ m)" by (simp add: div_eq_0_iff)
    from Suc.IH [OF Suc.prems(1) this, of "len - ?i" "s + ?i"] Suc.prems(3) show ?thesis
      using half True by (subst bits_loop.simps, subst clz_loop.simps) (simp add: Let_def)
  next
    case False
    have u: "unat (drop_bit ?i t) = unat t div 2 ^ ?i" by (rule unat_drop_32)
    have "0 < unat (drop_bit ?i t)" using False by (simp add: unat_gt_0)
    moreover have "unat t < 2 ^ (2 * 2 ^ m) * 2 ^ ?i"
      using Suc.prems(2) by (simp flip: power_add)
    then have "unat (drop_bit ?i t) < 2 ^ (2 * 2 ^ m)"
      unfolding u by (rule less_mult_imp_div_less)
    ultimately show ?thesis
      using Suc.IH [of "drop_bit ?i t" len s] Suc.prems(3) half False
      by (subst bits_loop.simps, subst clz_loop.simps) (simp add: Let_def)
  qed
qed

theorem lbnBits_value:
  "nval num < 2 ^ lbnBits_32 num \<and> (nval num \<noteq> 0 \<longrightarrow> 2 ^ lbnBits_32 num \<le> 2 * nval num) \<and>
   lbnBits_32 num \<le> 32 * length num"
proof (cases "lbnNorm_32 num = 0")
  case True
  then show ?thesis using lbnNorm_value [of num] by (simp add: lbnBits_32_def)
next
  case False
  define n where "n = lbnNorm_32 num"
  define t where "t = num ! (n - 1)"
  have n: "0 < n" "n \<le> length num" "nval (take n num) = nval num" "t \<noteq> 0"
    using lbnNorm_value [of num] False by (auto simp: n_def t_def)
  define s where "s = clz_loop t 0 16"
  have s: "s < 32 \<and> unat t * 2 ^ s < BB \<and> 2147483648 \<le> unat t * 2 ^ s"
    by (rule clz_normalises [OF n(4) s_def])
  have ut: "0 < unat t" "unat t < BB" using n(4) by (simp_all add: unat_gt_0)
  have "bits_loop t (n * 32) (2 ^ 4) + clz_loop t 0 (2 ^ 4) = n * 32 + 0"
    using n(1) ut by (intro bits_loop_clz) simp_all
  then have b: "lbnBits_32 num + s = 32 * n"
    using False by (simp add: lbnBits_32_def Let_def n_def [symmetric] t_def [unfolded One_nat_def, symmetric] s_def)
  obtain m where m: "n = Suc m" using n(1) by (cases n) auto
  have "take n num = take m num @ [t]"
    using n(2) by (simp add: m t_def take_Suc_conv_app_nth)
  then have v: "nval num = nval (take m num) + BB ^ m * unat t"
    using n by (simp add: m nval_snoc flip: n(3))
  have lm: "nval (take m num) < BB ^ m"
    using nval_less [of "take m num"] n(2) m by simp
  have pb: "(2::nat) ^ lbnBits_32 num * 2 ^ s = BB ^ m * BB"
  proof -
    have "(2::nat) ^ lbnBits_32 num * 2 ^ s = 2 ^ (32 * n)" using b by (simp flip: power_add)
    then show ?thesis by (simp add: m power_mult power_add)
  qed
  have "nval num * 2 ^ s < (BB ^ m * (unat t + 1)) * 2 ^ s"
    using v lm by simp
  also have "\<dots> \<le> BB ^ m * BB"
  proof -
    have "BB = 2 ^ s * 2 ^ (32 - s)" using s by (intro BB_split) simp
    then have "unat t < 2 ^ (32 - s)" using s by (metis mult.commute mult_less_cancel1)
    then have "(unat t + 1) * 2 ^ s \<le> 2 ^ (32 - s) * 2 ^ s" by (intro mult_le_mono1) simp
    also have "\<dots> = BB" using s BB_split [of s] by (simp add: mult.commute)
    finally have "BB ^ m * ((unat t + 1) * 2 ^ s) \<le> BB ^ m * BB" by (rule mult_le_mono2)
    then show ?thesis by (simp only: mult.assoc)
  qed
  finally have "nval num * 2 ^ s < 2 ^ lbnBits_32 num * 2 ^ s" unfolding pb .
  then have 1: "nval num < 2 ^ lbnBits_32 num" by simp
  have "BB ^ m * BB \<le> BB ^ m * (2 * (unat t * 2 ^ s))" using s by (intro mult_le_mono2) simp
  also have "\<dots> \<le> (2 * nval num) * 2 ^ s" using v by (simp add: algebra_simps)
  finally have "2 ^ lbnBits_32 num * 2 ^ s \<le> (2 * nval num) * 2 ^ s" unfolding pb .
  then have "2 ^ lbnBits_32 num \<le> 2 * nval num" by simp
  with 1 show ?thesis using b n(2) by simp
qed

end
