(* ===== verification/Lbn_Div.thy ===== *)
theory Lbn_Div
  imports Lbn_Mul
begin

text \<open>
  Division in \<open>lbn32.c\<close>: two words by one in half-word steps (\<open>lbnDiv21_32\<close>, the form
  compiled when \<open>BN_SLOW_DIVIDE_64\<close> holds, as it does for 64-bit products), a number by one word
  (\<open>lbnDiv1_32\<close>, \<open>lbnModQ_32\<close>) and Knuth's algorithm D (\<open>lbnDiv_32\<close>).
\<close>

section \<open>The code\<close>

definition highhalf :: "u32 \<Rightarrow> u32" where
  "highhalf x = drop_bit 16 x"

definition lowhalf :: "u32 \<Rightarrow> u32" where
  "lowhalf x = x AND (push_bit 16 1 - 1)"

text \<open>One half-word of the division: the text that \<open>lbnDiv21_32\<close> has twice, for the high half
  \<open>x\<close> of the low word and for its low half.\<close>

definition div21_half :: "u32 \<Rightarrow> u32 \<Rightarrow> u32 \<Rightarrow> u32 \<times> u32" where
  "div21_half n x d =
    (let dh = highhalf d; dl = lowhalf d;
         q = n div dh;
         r = n mod dh;
         p = q * dl;
         r = push_bit 16 r OR x;
         (q, r) =
           (if r < p then
              (let q = q - 1; r = r + d in
               if r \<ge> d \<and> r < p then (q - 1, r + d) else (q, r))
            else (q, r));
         r = r - p
     in (q, r))"

text \<open>The pair of the quotient word \<open>*q\<close> and the remainder.\<close>

definition lbnDiv21_32 :: "u32 \<Rightarrow> u32 \<Rightarrow> u32 \<Rightarrow> u32 \<times> u32" where
  "lbnDiv21_32 nh nl d =
    (let (qh, r) = div21_half nh (highhalf nl) d;
         (ql, r) = div21_half r (lowhalf nl) d
     in (push_bit 16 qh OR ql, r))"

text \<open>From the most significant word down; quotient words most significant first.\<close>

primrec div1_loop :: "u32 list \<Rightarrow> u32 \<Rightarrow> u32 \<Rightarrow> u32 list \<times> u32" where
  "div1_loop [] r d = ([], r)"
| "div1_loop (x # n) r d =
    (let (q, r) = lbnDiv21_32 r x d; (qs, r) = div1_loop n r d in (q # qs, r))"

text \<open>The high quotient word, the other \<open>len - 1\<close> words, the remainder.\<close>

definition lbnDiv1_32 :: "u32 list \<Rightarrow> u32 \<Rightarrow> u32 \<times> u32 list \<times> u32" where
  "lbnDiv1_32 n d =
    (if length n = 1 then (n ! 0 div d, [], n ! 0 mod d)
     else
       (let shift = clz_loop d 0 16;
            d' = push_bit shift d;
            r = last n;
            (qhigh, r) = (if r < d' then (0, r) else (r div d', r mod d'));
            (qs, r) = div1_loop (rev (butlast n)) r d';
            q = rev qs
        in if shift \<noteq> 0 then
             (let d = drop_bit shift d';
                  (c, q) = lbnLshift_32 q shift;
                  qhigh = push_bit shift qhigh OR c;
                  q = q[0 := q ! 0 OR (r div d)]
              in (qhigh, q, r mod d))
           else (qhigh, q, r)))"

text \<open>The modulus by a divisor below \<open>2^16\<close>, in half-word steps from the top.\<close>

primrec modQ_loop :: "u32 list \<Rightarrow> u32 \<Rightarrow> u32 \<Rightarrow> u32" where
  "modQ_loop [] r d = r"
| "modQ_loop (x # n) r d =
    (let r = push_bit 16 (r mod d) OR highhalf x;
         r = push_bit 16 (r mod d) OR lowhalf x
     in modQ_loop n r d)"

definition lbnModQ_32 :: "u32 list \<Rightarrow> u32 \<Rightarrow> u32" where
  "lbnModQ_32 n d = modQ_loop (rev (butlast n)) (last n) d mod d"

text \<open>
  The corrections of the estimated quotient digit against the third word of the dividend.  The
  two copies in \<open>lbnDiv_32\<close> differ in the test after \<open>r += dh\<close>: \<open>>\<close> for the first
  digit, \<open>\<ge>\<close> in the loop.
\<close>

definition qhat_first :: "u32 \<Rightarrow> u32 \<Rightarrow> u32 \<Rightarrow> u32 \<Rightarrow> u32 \<Rightarrow> u32" where
  "qhat_first dh dl nl qhat r =
    (let t64 = w64 qhat * w64 dl in
     if t64 > push_bit 32 (w64 r) + w64 nl then
       (let qhat = qhat - 1; r = r + dh in
        if r > dh then
          (let t64 = t64 - w64 dl in if t64 > push_bit 32 (w64 r) + w64 nl then qhat - 1 else qhat)
        else qhat)
     else qhat)"

definition qhat_next :: "u32 \<Rightarrow> u32 \<Rightarrow> u32 \<Rightarrow> u32 \<Rightarrow> u32 \<Rightarrow> u32" where
  "qhat_next dh dl nl qhat r =
    (let t64 = w64 qhat * w64 dl in
     if t64 > push_bit 32 (w64 r) + w64 nl then
       (let qhat = qhat - 1; r = r + dh in
        if r \<ge> dh then
          (let t64 = t64 - w64 dl in if t64 > push_bit 32 (w64 r) + w64 nl then qhat - 1 else qhat)
        else qhat)
     else qhat)"

text \<open>Multiply and subtract; on a borrow, add back once.\<close>

definition div_subtract :: "u32 list \<Rightarrow> u32 list \<Rightarrow> u32 \<Rightarrow> u32 \<Rightarrow> u32 \<times> u32 list" where
  "div_subtract n d nh qhat =
    (let (r, n) = lbnMulSub1_32 n d qhat in
     if r > nh then (qhat - 1, snd (lbnAddN_32 n d)) else (qhat, n))"

text \<open>
  The main loop.  \<open>n\<close> is the window of \<open>dlen\<close> words under the pointer, \<open>xs\<close> the words below it,
  the next one first; advancing takes in one word below and leaves the top word in \<open>nh\<close>.
\<close>

primrec div_loop :: "u32 list \<Rightarrow> u32 \<Rightarrow> u32 \<Rightarrow> u32 list \<Rightarrow> u32 list \<Rightarrow> u32 list \<times> u32 list" where
  "div_loop d dh dl [] n = ([], n)"
| "div_loop d dh dl (x # xs) n =
    (let nh = last n;
         n = x # butlast n;
         nm = last n;
         nl = n ! (length d - 2);
         qhat =
           (if nh = dh then
              (let qhat = NOT 0; r = nh + nm in
               if r < nh then qhat else qhat_next dh dl nl qhat r)
            else
              (let (qhat, r) = lbnDiv21_32 nh nm dh in qhat_next dh dl nl qhat r));
         (qhat, n) = div_subtract n d nh qhat;
         (q, n) = div_loop d dh dl xs n
     in (q @ [qhat], n))"

text \<open>
  The high quotient word, the \<open>qlen = nlen - dlen\<close> stored quotient words, the remainder left in
  the low words of \<open>n\<close>, and the divisor shifted back.
\<close>

definition lbnDiv_32 :: "u32 list \<Rightarrow> u32 list \<Rightarrow> u32 \<times> u32 list \<times> u32 list \<times> u32 list" where
  "lbnDiv_32 n d =
    (let qlen = length n - length d; dlen = length d in
     if dlen = 1 then
       (let (qhigh, q, r) = lbnDiv1_32 n (d ! 0) in (qhigh, q, [r], d))
     else
       (let dh = last d;
            shift = clz_loop dh 0 16;
            (nh, d, n) =
              (if shift \<noteq> 0 then
                 (let (_, d) = lbnLshift_32 d shift; (c, n) = lbnLshift_32 n shift in (c, d, n))
               else (0, d, n));
            dh = last d;
            dl = d ! (dlen - 2);
            xs = rev (take qlen n);
            n = drop qlen n;
            nm = last n;
            (qhigh, n) =
              (if nh \<noteq> 0 \<or> nm \<ge> dh then
                 (let (qhat, r) = (if nh \<noteq> 0 then lbnDiv21_32 nh nm dh else (nm div dh, nm mod dh));
                      nl = n ! (dlen - 2);
                      qhat = qhat_first dh dl nl qhat r
                  in div_subtract n d nh qhat)
               else (0, n));
            (q, n) = div_loop d dh dl xs n
        in if shift \<noteq> 0
           then (qhigh, q, snd (lbnRshift_32 n shift), snd (lbnRshift_32 d shift))
           else (qhigh, q, n, d)))"

section \<open>Two words by one\<close>

abbreviation HH :: nat where "HH \<equiv> 65536"

lemma unat_highhalf: "unat (highhalf x) = unat x div HH"
  by (simp add: highhalf_def unat_drop_32)

lemma unat_lowhalf: "unat (lowhalf x) = unat x mod HH"
proof -
  have "lowhalf x = take_bit 16 x"
    unfolding lowhalf_def take_bit_eq_mask mask_eq_exp_minus_1 by (simp add: push_bit_eq_mult)
  then show ?thesis
    by (simp only: unsigned_take_bit_eq) (simp add: take_bit_eq_mod)
qed

lemma half_split: "unat x = HH * unat (highhalf x) + unat (lowhalf x)"
  by (simp add: unat_highhalf unat_lowhalf)

lemma unat_half_lt [simp]: "unat (highhalf x) < HH" "unat (lowhalf x) < HH"
  using unat_lt [of x] by (simp_all add: unat_highhalf unat_lowhalf less_mult_imp_div_less)

text \<open>
  The estimate of a quotient digit from the leading parts: \<open>V\<close> of the dividend \<open>N\<close>, \<open>h\<close> of the
  divisor \<open>D\<close>, both counted in \<open>P\<close>.  It is never too small, and with a normalised divisor
  at most two too large.
\<close>

lemma estimate_ge:
  fixes N D V h P :: nat
  assumes "N < (V + 1) * P" and "h * P \<le> D" and "0 < h"
  shows "N div D \<le> V div h"
proof -
  have "N div D * h * P \<le> N div D * D" using assms(2) by (simp add: mult.assoc)
  also have "\<dots> \<le> N" by (metis div_times_less_eq_dividend)
  finally have "N div D * h * P < (V + 1) * P" using assms(1) by linarith
  then have "N div D * h < V + 1" by (simp only: mult_less_cancel2)
  then show ?thesis using assms(3) by (simp add: less_eq_div_iff_mult_less_eq)
qed

lemma estimate_le:
  fixes N D V h P e B :: nat
  assumes e: "e * h \<le> V" "e \<le> B + 1" and B: "B \<le> 2 * h" and V: "V * P \<le> N"
    and D: "D < (h + 1) * P" and "0 < D"
  shows "e \<le> N div D + 2"
proof (cases "e \<le> 2")
  case False
  then obtain f where f: "e = f + 2" by (metis add.commute le_add_diff_inverse nat_le_linear)
  have "f * D \<le> f * ((h + 1) * P)" using D by (intro mult_le_mono2) simp
  also have "\<dots> = (f * h + f) * P" by (simp add: algebra_simps)
  also have "\<dots> \<le> (e * h) * P"
  proof (rule mult_le_mono1)
    have "f \<le> 2 * h" using e(2) B f by linarith
    then show "f * h + f \<le> e * h" unfolding f add_mult_distrib by linarith
  qed
  also have "\<dots> \<le> N" using e(1) V by (meson le_trans mult_le_mono1)
  finally have "f \<le> N div D" using \<open>0 < D\<close> by (simp add: less_eq_div_iff_mult_less_eq)
  then show ?thesis by (simp add: f)
qed simp

lemma quotient_unique:
  fixes N q D r :: nat
  shows "N = q * D + r \<Longrightarrow> r < D \<Longrightarrow> N div D = q \<and> N mod D = r"
  by simp

text \<open>A word that is congruent to a small number is that number.\<close>

lemma unat_of_congruent: "x = word_of_nat n \<Longrightarrow> n < BB \<Longrightarrow> unat (x :: u32) = n"
  by (simp add: unat_of_nat)

lemma div21_half_value:
  assumes n: "unat n < unat d" and d: "2147483648 \<le> unat d" and x: "unat x < HH"
    and qr: "div21_half n x d = (q, r)"
  shows "unat n * HH + unat x = unat q * unat d + unat r \<and> unat r < unat d \<and> unat q < HH"
proof -
  define dh dl where "dh = highhalf d" and "dl = lowhalf d"
  have ds: "unat d = HH * unat dh + unat dl" unfolding dh_def dl_def by (rule half_split)
  have dl: "unat dl < HH" and dhH: "unat dh < HH" by (simp_all add: dl_def dh_def)
  have dh: "HH \<le> 2 * unat dh" using d ds dl by simp
  define N where "N = unat n * HH + unat x"
  define Q where "Q = N div unat d"
  define R where "R = N mod unat d"
  have QR: "N = Q * unat d + R" "R < unat d" using d by (simp_all add: Q_def R_def)
  have RB: "R < BB" using QR(2) unat_lt [of d] by linarith
  have QH: "Q < HH"
  proof -
    have "N < unat d * HH" using n x by (simp add: N_def; linarith)
    then show ?thesis by (simp add: Q_def less_mult_imp_div_less mult.commute)
  qed
  define e where "e = n div dh"
  define p where "p = e * dl"
  define r0 where "r0 = push_bit 16 (n mod dh) OR x"
  have e: "unat e = unat n div unat dh" and m: "unat (n mod dh) = unat n mod unat dh"
    by (simp_all add: e_def unat_div unat_mod)
  have e_le: "unat e \<le> HH + 1"
  proof -
    have "unat n < (HH + 2) * unat dh" using n ds dl dh by (simp add: algebra_simps)
    then have "unat n div unat dh < HH + 2" by (rule less_mult_imp_div_less)
    then show ?thesis using e by linarith
  qed
  have p: "unat p = unat e * unat dl"
  proof -
    have "unat e * unat dl \<le> (HH + 1) * 65535" using e_le dl by (intro mult_le_mono) simp_all
    then show ?thesis by (simp add: p_def unat_word_ariths)
  qed
  have r0: "unat r0 = (unat n mod unat dh) * HH + unat x"
  proof -
    have "0 < unat dh" using dh by simp
    then have "unat n mod unat dh < unat dh" by (rule mod_less_divisor)
    then have "unat n mod unat dh < HH" using dhH by linarith
    then show ?thesis using unat_push_or [of 16 x "n mod dh"] x m by (simp add: r0_def)
  qed
  have N: "N = unat e * unat dh * HH + unat r0"
  proof -
    have "N = (unat n div unat dh * unat dh + unat n mod unat dh) * HH + unat x"
      unfolding N_def div_mult_mod_eq ..
    then show ?thesis unfolding r0 e by (simp only: add_mult_distrib add.assoc)
  qed
  have Ne: "N + unat p = unat e * unat d + unat r0"
    unfolding p ds N by (simp add: algebra_simps)
  have Q1: "Q \<le> unat e"
    unfolding Q_def e using ds dh x
    by (intro estimate_ge [where P = HH]) (simp_all add: N_def)
  have Q2: "unat e \<le> Q + 2"
    unfolding Q_def
  proof (rule estimate_le [where h = "unat dh" and V = "unat n" and P = HH and B = HH])
    show "unat e * unat dh \<le> unat n" by (simp add: e)
    show "unat d < (unat dh + 1) * HH" using ds dl by simp
  qed (use e_le dh d in \<open>simp_all add: N_def\<close>)
  text \<open>Each correction adds the divisor and takes one from the digit.\<close>
  have step: "unat e = Q + k \<Longrightarrow> unat r0 + k * unat d = unat p + R" for k
    using Ne QR(1) by (simp add: algebra_simps)
  have fin: "unat e = Q + k \<Longrightarrow> unat (r0 + word_of_nat k * d - p) = R" for k
  proof -
    assume k: "unat e = Q + k"
    have "r0 + word_of_nat k * d - p = word_of_nat (unat r0 + k * unat d) - word_of_nat (unat p)" by simp
    also have "\<dots> = word_of_nat R" unfolding step [OF k] by simp
    finally show ?thesis using RB by (intro unat_of_congruent)
  qed
  have lt: "r0 < p \<longleftrightarrow> unat e \<noteq> Q"
  proof
    assume "r0 < p"
    then show "unat e \<noteq> Q" using step [of 0] by (auto simp: word_less_nat_alt)
  next
    assume "unat e \<noteq> Q"
    then obtain k where k: "unat e = Q + Suc k" using Q1 by (metis add_Suc_right le_neq_implies_less less_imp_Suc_add)
    have "unat d \<le> Suc k * unat d" by simp
    then show "r0 < p" using step [OF k] QR(2) unfolding word_less_nat_alt by linarith
  qed
  have "unat q = Q \<and> unat r = R"
  proof (cases "unat e = Q")
    case True
    then show ?thesis
      using qr lt fin [of 0]
      by (auto simp: div21_half_def Let_def dh_def [symmetric] dl_def [symmetric] e_def [symmetric]
          p_def [symmetric] r0_def [symmetric])
  next
    case False
    then have "unat e = Q + 1 \<or> unat e = Q + 2" using Q1 Q2 by linarith
    have again: "r0 + d \<ge> d \<and> r0 + d < p \<longleftrightarrow> unat e = Q + 2"
    proof (cases "unat r0 + unat d < BB")
      case True
      then have u: "unat (r0 + d) = unat r0 + unat d" by (simp add: unat_word_ariths)
      have "r0 + d \<ge> d" by (simp add: word_le_nat_alt u)
      moreover have "r0 + d < p \<longleftrightarrow> unat e = Q + 2"
        using step [of 1] step [of 2] QR(2) \<open>unat e = Q + 1 \<or> unat e = Q + 2\<close>
        by (auto simp: word_less_nat_alt u)
      ultimately show ?thesis by simp
    next
      case False
      have lt: "unat r0 + unat d - BB < BB" using unat_lt [of r0] unat_lt [of d] by linarith
      have "unat (r0 + d) = unat r0 + unat d - BB"
        using False lt by (simp add: unat_word_ariths le_mod_geq)
      then have "\<not> r0 + d \<ge> d"
        using False unat_lt [of r0] unat_lt [of d] unfolding word_le_nat_alt by linarith
      moreover have "unat e \<noteq> Q + 2"
      proof
        assume "unat e = Q + 2"
        from step [OF this] have "unat r0 + unat d < unat p" using QR(2) by simp
        then show False using False unat_lt [of p] by linarith
      qed
      ultimately show ?thesis by simp
    qed
    have e_pos: "unat (e - 1) = unat e - 1"
      using False Q1 by (intro unat_minus_one) auto
    show ?thesis
    proof (cases "unat e = Q + 2")
      case True
      have "unat (e - 1 - 1) = Q"
        using True e_pos by (subst unat_minus_one) auto
      moreover have "r = r0 + word_of_nat 2 * d - p" and "q = e - 1 - 1"
        using qr lt again True False
        by (auto simp: div21_half_def Let_def dh_def [symmetric] dl_def [symmetric] e_def [symmetric]
            p_def [symmetric] r0_def [symmetric])
      ultimately show ?thesis using fin [OF True] by simp
    next
      case False
      then have 1: "unat e = Q + 1" using \<open>unat e = Q + 1 \<or> unat e = Q + 2\<close> by simp
      have "r = r0 + word_of_nat 1 * d - p" and "q = e - 1"
        using qr lt again False 1
        by (auto simp: div21_half_def Let_def dh_def [symmetric] dl_def [symmetric] e_def [symmetric]
            p_def [symmetric] r0_def [symmetric])
      then show ?thesis using fin [OF 1] e_pos 1 by simp
    qed
  qed
  then show ?thesis using QR QH by (simp add: N_def)
qed

theorem lbnDiv21_value:
  assumes "unat nh < unat d" and "2147483648 \<le> unat d" and "lbnDiv21_32 nh nl d = (q, r)"
  shows "unat nh * BB + unat nl = unat q * unat d + unat r \<and> unat r < unat d"
proof -
  obtain qh r1 where h: "div21_half nh (highhalf nl) d = (qh, r1)" by fastforce
  obtain ql r2 where l: "div21_half r1 (lowhalf nl) d = (ql, r2)" by fastforce
  have q: "q = push_bit 16 qh OR ql" and r: "r = r2"
    using assms(3) by (auto simp: lbnDiv21_32_def h l)
  note 1 = div21_half_value [OF assms(1,2) unat_half_lt(1) h]
  note 2 = div21_half_value [OF _ assms(2) unat_half_lt(2) l]
  have r1: "unat r1 < unat d" using 1 by simp
  note 2 = 2 [OF r1]
  have "unat q = unat qh * HH + unat ql"
    using unat_push_or [of 16 ql qh] 1 2 by (simp add: q)
  moreover have "unat nh * BB + unat nl = (unat nh * HH + unat (highhalf nl)) * HH + unat (lowhalf nl)"
    using half_split [of nl] by (simp add: algebra_simps)
  moreover have "\<dots> = unat qh * unat d * HH + (unat r1 * HH + unat (lowhalf nl))"
    using 1 by (simp add: algebra_simps)
  ultimately show ?thesis
    using 2 by (simp add: r algebra_simps)
qed

section \<open>A number by one word\<close>

text \<open>The words come most significant first: \<open>nval (rev n)\<close> is their value.\<close>

lemma div1_loop_value:
  "div1_loop n r d = (q, r') \<Longrightarrow> unat r < unat d \<Longrightarrow> 2147483648 \<le> unat d \<Longrightarrow>
    length q = length n \<and> unat r' < unat d \<and>
    unat r * BB ^ length n + nval (rev n) = nval (rev q) * unat d + unat r'"
proof (induction n arbitrary: r q r')
  case (Cons x n)
  obtain q1 r1 where 1: "lbnDiv21_32 r x d = (q1, r1)" by fastforce
  obtain qs where 2: "div1_loop n r1 d = (qs, r')" "q = q1 # qs"
    using Cons.prems(1) 1 by (auto split: prod.splits)
  note v1 = lbnDiv21_value [OF Cons.prems(2,3) 1]
  then have ih: "length qs = length n \<and> unat r' < unat d \<and>
      unat r1 * BB ^ length n + nval (rev n) = nval (rev qs) * unat d + unat r'"
    using Cons.IH [OF 2(1) _ Cons.prems(3)] by simp
  have "unat r * BB ^ length (x # n) + nval (rev (x # n)) =
      BB ^ length n * (unat r * BB + unat x) + nval (rev n)"
    by (simp add: nval_snoc algebra_simps)
  also have "\<dots> = BB ^ length n * (unat q1 * unat d) + (unat r1 * BB ^ length n + nval (rev n))"
    using v1 by (simp add: algebra_simps)
  also have "\<dots> = nval (rev q) * unat d + unat r'"
    using ih by (simp add: 2(2) nval_snoc algebra_simps)
  finally show ?case using ih by (simp add: 2(2))
qed simp

lemma unat_div_32: "unat (x div y :: u32) = unat x div unat y"
  by (simp add: unat_div)

theorem lbnDiv1_value:
  assumes "n \<noteq> []" and "d \<noteq> 0" and "lbnDiv1_32 n d = (qhigh, q, r)"
  shows "length q = length n - 1 \<and> unat r < unat d \<and>
    nval n = nval (q @ [qhigh]) * unat d + unat r"
proof (cases "length n = 1")
  case True
  then obtain w where "n = [w]" by (auto simp: length_Suc_conv)
  moreover have "0 < unat d" using assms(2) by (simp add: unat_gt_0)
  ultimately show ?thesis
    using assms(3) by (auto simp: lbnDiv1_32_def unat_div unat_mod)
next
  case False
  define s where "s = clz_loop d 0 16"
  define d' where "d' = push_bit s d"
  have s: "s < 32 \<and> unat d * 2 ^ s < BB \<and> 2147483648 \<le> unat d * 2 ^ s"
    by (rule clz_normalises [OF assms(2) s_def])
  have d': "unat d' = unat d * 2 ^ s"
    using s by (simp add: d'_def unat_push_32)
  have d0: "0 < unat d" using assms(2) by (simp add: unat_gt_0)
  define t where "t = last n"
  obtain qh r0 where qr: "(if t < d' then (0, t) else (t div d', t mod d')) = (qh, r0)" by fastforce
  have "0 < unat d'" using s unfolding d' by linarith
  then have t: "unat t = unat qh * unat d' + unat r0 \<and> unat r0 < unat d'"
    using qr by (auto simp: word_less_nat_alt unat_div unat_mod split: if_splits)
  obtain qs r1 where loop: "div1_loop (rev (butlast n)) r0 d' = (qs, r1)" by fastforce
  have nb: "n = butlast n @ [t]" using assms(1) by (simp add: t_def)
  have nv: "nval n = nval (butlast n) + BB ^ length qs * unat t" and lq: "length qs = length n - 1"
    and r1: "unat r1 < unat d'"
    and lv: "unat r0 * BB ^ length qs + nval (butlast n) = nval (rev qs) * unat d' + unat r1"
    using div1_loop_value [OF loop] t s d' nval_snoc [of "butlast n" t] nb by simp_all
  have full: "nval n = (nval (rev qs) + BB ^ length qs * unat qh) * unat d' + unat r1"
    using nv lv t by (simp add: algebra_simps)
  have un: "lbnDiv1_32 n d = (if s \<noteq> 0 then
      (let d = drop_bit s d'; (c, q) = lbnLshift_32 (rev qs) s;
         qhigh = push_bit s qh OR c; q = q[0 := q ! 0 OR (r1 div d)] in (qhigh, q, r1 mod d))
      else (qh, rev qs, r1))"
    by (simp only: lbnDiv1_32_def Let_def s_def [symmetric] d'_def [symmetric] t_def [symmetric]
        if_not_P [OF False] qr loop prod.case)
  show ?thesis
  proof (cases "s = 0")
    case True
    then have "q = rev qs" "qhigh = qh" "r = r1" using assms(3) un by simp_all
    then show ?thesis using full lq r1 True d' by (simp add: nval_snoc)
  next
    case sn: False
    have dd: "drop_bit s d' = d"
      using s d' d0 by (simp add: word_unat_eq_iff unat_drop_32)
    obtain c q1 where sh: "lbnLshift_32 (rev qs) s = (c, q1)" by fastforce
    have sv: "length q1 = length qs \<and> unat c < 2 ^ s \<and> nval q1 + BB ^ length qs * unat c = nval (rev qs) * 2 ^ s"
      using lbnLshift_value [OF sh] sn s by simp
    have res: "qhigh = push_bit s qh OR c" "q = q1[0 := q1 ! 0 OR (r1 div d)]" "r = r1 mod d"
      using assms(3) un sn sh by (simp_all add: Let_def dd)
    have "unat qh * 2 ^ s * 1 \<le> unat qh * 2 ^ s * unat d" using d0 by (intro mult_le_mono2) simp
    also have "\<dots> \<le> unat t" using t d' by (simp add: mult.assoc mult.commute [of "2 ^ s"])
    finally have "unat qh * 2 ^ s < BB" using unat_lt [of t] by linarith
    then have uq: "unat qhigh = unat qh * 2 ^ s + unat c"
      using unat_push_or [of s c qh] s sv res by simp
    have "length q1 \<noteq> 0" using sv lq False assms(1) by (cases n) auto
    then obtain x q2 where x: "q1 = x # q2" by (cases q1) auto
    have dvdB: "2 ^ s dvd BB" using s BB_split [of s] by (metis dvd_triv_left less_imp_le_nat)
    have "2 ^ s dvd nval q1"
    proof -
      have "2 ^ s dvd BB ^ length qs * unat c"
        using dvdB sv x by (metis dvd_mult2 dvd_power dvd_trans length_greater_0_conv list.discI)
      moreover have "2 ^ s dvd nval q1 + BB ^ length qs * unat c" using sv by simp
      ultimately show ?thesis using dvd_add_left_iff by blast
    qed
    then have xd: "2 ^ s dvd unat x"
      using dvdB by (simp add: x dvd_add_left_iff)
    define e where "e = r1 div d"
    have e: "unat e = unat r1 div unat d" by (simp add: e_def unat_div)
    have e_lt: "unat e < 2 ^ s"
      unfolding e using r1 d' by (simp add: less_mult_imp_div_less mult.commute)
    have xs: "push_bit s (drop_bit s x) = x"
      using xd s by (simp add: word_unat_eq_iff unat_push_32 unat_drop_32)
    have ux: "unat (x OR e) = unat x + unat e"
      using unat_push_or [of s e "drop_bit s x"] s e_lt xd unfolding xs by (simp add: unat_drop_32)
    have "nval (q @ [qhigh]) = nval q1 + unat e + BB ^ length qs * unat qhigh"
    proof -
      have "length q2 + 1 = length qs" using sv by (simp add: x)
      then have "BB ^ length qs = BB * BB ^ length q2" by (metis Suc_eq_plus1 power_Suc)
      then show ?thesis using res(2) by (simp add: nval_snoc x e_def [symmetric] ux)
    qed
    also have "\<dots> = (nval (rev qs) + BB ^ length qs * unat qh) * 2 ^ s + unat e"
      using sv unfolding uq by (simp add: algebra_simps)
    finally have "nval (q @ [qhigh]) * unat d + unat r = (nval (rev qs) + BB ^ length qs * unat qh) * unat d' + (unat e * unat d + unat r)"
      by (simp add: d' algebra_simps)
    also have "unat e * unat d + unat r = unat r1"
      using res(3) by (simp add: e unat_mod)
    finally show ?thesis
      using full sv lq res d0 by (simp add: unat_mod)
  qed
qed

section \<open>The quick modulus\<close>

lemma modQ_loop_value:
  "0 < unat d \<Longrightarrow> unat d < HH \<Longrightarrow>
    unat (modQ_loop n r d) mod unat d = (unat r * BB ^ length n + nval (rev n)) mod unat d"
proof (induction n arbitrary: r)
  case (Cons x n)
  have lt: "unat (y mod d) < HH" for y :: u32
    using Cons.prems by (simp add: unat_mod) (meson less_trans mod_less_divisor)
  have half: "unat (push_bit 16 (y mod d) OR z) = (unat y mod unat d) * HH + unat z" if "unat z < HH" for y z :: u32
    using unat_push_or [of 16 z "y mod d"] that lt [of y] by (simp add: unat_mod)
  define r1 where "r1 = push_bit 16 (r mod d) OR highhalf x"
  define r2 where "r2 = push_bit 16 (r1 mod d) OR lowhalf x"
  have 1: "unat r1 = (unat r mod unat d) * HH + unat (highhalf x)"
    unfolding r1_def by (rule half) simp
  have 2: "unat r2 = (unat r1 mod unat d) * HH + unat (lowhalf x)"
    unfolding r2_def by (rule half) simp
  have "unat r2 mod unat d = (unat r1 * HH + unat (lowhalf x)) mod unat d"
    unfolding 2 by (metis mod_add_left_eq mod_mult_left_eq)
  also have "\<dots> = ((unat r * HH + unat (highhalf x)) * HH + unat (lowhalf x)) mod unat d"
  proof -
    have "unat r1 mod unat d = (unat r * HH + unat (highhalf x)) mod unat d"
      unfolding 1 by (metis mod_add_left_eq mod_mult_left_eq)
    then show ?thesis by (metis mod_add_left_eq mod_mult_left_eq)
  qed
  also have "(unat r * HH + unat (highhalf x)) * HH + unat (lowhalf x) = unat r * BB + unat x"
    using half_split [of x] by (simp add: algebra_simps)
  finally have "unat r2 mod unat d = (unat r * BB + unat x) mod unat d" .
  then have "(unat r2 * BB ^ length n + nval (rev n)) mod unat d =
      ((unat r * BB + unat x) * BB ^ length n + nval (rev n)) mod unat d"
    by (intro mod_add_cong mod_mult_cong) simp_all
  then show ?case
    using Cons.IH [OF Cons.prems, of r2]
    by (simp add: Let_def r1_def [symmetric] r2_def [symmetric] nval_snoc algebra_simps)
qed simp

theorem lbnModQ_value:
  assumes "n \<noteq> []" and "0 < unat d" and "unat d < HH"
  shows "unat (lbnModQ_32 n d) = nval n mod unat d"
proof -
  have "nval n = unat (last n) * BB ^ length (butlast n) + nval (butlast n)"
    using assms(1) nval_snoc [of "butlast n" "last n"] by (simp add: algebra_simps)
  then show ?thesis
    using modQ_loop_value [OF assms(2,3), of "rev (butlast n)" "last n"]
    by (simp add: lbnModQ_32_def unat_mod)
qed

section \<open>Algorithm D\<close>

text \<open>The comparison of the first three words of the dividend with the estimate times two
  words of the divisor, and what its outcome says about the true digit.\<close>

lemma test_too_big:
  fixes N D D2 N3 P e :: nat
  assumes "e * D2 > N3" and "N < (N3 + 1) * P" and "D2 * P \<le> D" and "0 < D2"
  shows "N div D < e"
proof -
  have "N div D \<le> N3 div D2" using assms(2-4) by (rule estimate_ge)
  also have "N3 div D2 < e" using assms(1) by (simp add: less_mult_imp_div_less)
  finally show ?thesis .
qed

lemma test_good:
  fixes N D D2 N3 P e B :: nat
  assumes "e * D2 \<le> N3" and "N3 * P \<le> N" and "D < (D2 + 1) * P" and "e \<le> D2" and "0 < D"
  shows "e \<le> N div D + 1"
proof (cases e)
  case (Suc f)
  have "f * D \<le> f * ((D2 + 1) * P)" using assms(3) by (intro mult_le_mono2) simp
  also have "\<dots> = (f * D2 + f) * P" by (simp add: algebra_simps)
  also have "\<dots> \<le> N3 * P"
    using assms(1,4) Suc by (intro mult_le_mono1) simp
  finally have "f \<le> N div D" using assms(2,5) by (simp add: less_eq_div_iff_mult_less_eq)
  then show ?thesis by (simp add: Suc)
qed simp

text \<open>The double-word test of the code.\<close>

lemma unat_push_hi: "unat (push_bit 32 (w64 r) + w64 nl) = unat r * BB + unat nl"
proof -
  have le: "unat r * BB \<le> 4294967295 * BB" using unat_le_max [of r] by simp
  then have p: "unat (push_bit 32 (w64 r)) = unat r * BB"
    by (simp only: unsigned_push_bit_eq) (simp add: push_bit_eq_mult take_bit_eq_mod)
  have "4294967295 * BB + BB = BB * BB" by simp
  then have "unat r * BB + unat nl < BB * BB" using le unat_lt [of nl] by linarith
  then show ?thesis by (simp add: p unat_word_ariths)
qed

lemma test_64:
  assumes "unat e * dh + unat r = V"
  shows "w64 e * w64 dl > push_bit 32 (w64 r) + w64 nl \<longleftrightarrow> unat e * (dh * BB + unat dl) > V * BB + unat nl"
  unfolding word_less_nat_alt unat_push_hi unat_mac assms [symmetric] by (simp add: algebra_simps)

lemma w64_minus: "e \<noteq> 0 \<Longrightarrow> w64 e * w64 dl - w64 dl = w64 (e - 1) * w64 dl"
proof -
  assume "e \<noteq> 0"
  then have e: "unat (e - 1) + 1 = unat e" using unat_gt_0 [of e] by (simp add: unat_minus_one)
  then have "unat (w64 (e - 1)) + unat (1 :: u64) < BB * BB"
    using unat_lt [of e] by (simp del: unat_lt; linarith)
  then have "unat (w64 (e - 1) + 1) = unat (w64 e)"
    by (simp only: unat_add_64) (use e in simp)
  then have "w64 e = w64 (e - 1) + 1" by (simp add: word_unat_eq_iff)
  then show ?thesis by (simp add: algebra_simps)
qed

text \<open>
  Both forms of the correction leave the true digit or one more: one decrement suffices for that,
  so it does not matter that the first form skips the second test when the remainder was 0.
\<close>

lemma qhat_value:
  assumes N: "N < (V * BB + unat nl + 1) * P" "(V * BB + unat nl) * P \<le> N"
    and D: "(unat dh * BB + unat dl) * P \<le> D" "D < (unat dh * BB + unat dl + 1) * P"
    and dh: "2147483648 \<le> unat dh"
    and e: "unat e * unat dh + unat r = V" "N div D \<le> unat e" "unat e \<le> N div D + 2"
    and q: "q = qhat_first dh dl nl e r \<or> q = qhat_next dh dl nl e r"
  shows "unat q = N div D \<or> unat q = N div D + 1"
proof -
  let ?D2 = "unat dh * BB + unat dl" and ?N3 = "V * BB + unat nl"
  have big: "4294967295 \<le> ?D2" using dh by simp
  then have D2: "0 < ?D2" by linarith
  have "0 < P" using N by (cases P) simp_all
  with D2 have "0 < ?D2 * P" by (rule mult_pos_pos)
  then have D0: "0 < D" using D(1) by linarith
  have bad: "N div D < unat e'" if "unat e' * ?D2 > ?N3" for e' :: u32
    by (rule test_too_big [OF that N(1) D(1) D2])
  have good: "unat e' \<le> N div D + 1" if "\<not> unat e' * ?D2 > ?N3" for e' :: u32
  proof (rule test_good [OF _ N(2) D(2) _ D0])
    show "unat e' * ?D2 \<le> ?N3" using that by simp
    show "unat e' \<le> ?D2" using big unat_le_max [of e'] by linarith
  qed
  note t1 = test_64 [OF e(1), where dl = dl and nl = nl]
  show ?thesis
  proof (cases "unat e * ?D2 > ?N3")
    case False
    then show ?thesis
      using good [of e] e(2) q by (auto simp: qhat_first_def qhat_next_def Let_def t1)
  next
    case True
    then have lt: "N div D < unat e" by (rule bad)
    then have e1: "unat (e - 1) = unat e - 1" by (intro unat_minus_one) auto
    have *: "unat (e - 1) = N div D \<or> unat (e - 1) = N div D + 1"
      using lt e e1 by linarith
    have "q = e - 1 \<or> (q = e - 1 - 1 \<and> r + dh \<ge> dh \<and> w64 e * w64 dl - w64 dl > push_bit 32 (w64 (r + dh)) + w64 nl)"
      using q True by (auto simp: qhat_first_def qhat_next_def Let_def t1 split: if_splits)
    then show ?thesis
    proof (elim disjE conjE)
      assume q: "q = e - 1 - 1" and "r + dh \<ge> dh"
        and t2: "w64 e * w64 dl - w64 dl > push_bit 32 (w64 (r + dh)) + w64 nl"
      have "unat r + unat dh < BB"
      proof (rule ccontr)
        assume n: "\<not> unat r + unat dh < BB"
        have m: "unat r + unat dh - BB < BB" using unat_lt [of r] unat_lt [of dh] by linarith
        have "unat (r + dh) = unat r + unat dh - BB" using n m by (simp add: unat_word_ariths le_mod_geq)
        then show False
          using \<open>r + dh \<ge> dh\<close> n unat_lt [of r] unfolding word_le_nat_alt by linarith
      qed
      then have rd: "unat (r + dh) = unat r + unat dh" by (simp add: unat_word_ariths)
      have "unat (e - 1) * unat dh + unat (r + dh) = V"
      proof -
        obtain f where "unat e = Suc f" using lt by (cases "unat e") auto
        then show ?thesis using e(1) e1 by (simp add: rd)
      qed
      from test_64 [OF this, where dl = dl and nl = nl] have "unat (e - 1) * ?D2 > ?N3"
        using t2 lt by (subst (asm) w64_minus) auto
      then have lt2: "N div D < unat (e - 1)" by (rule bad)
      then have "unat (e - 1 - 1) = unat (e - 1) - 1" by (intro unat_minus_one) auto
      then show ?thesis using lt2 * by (simp only: q) linarith
    qed (use * in auto)
  qed
qed

text \<open>An estimate that is right or one too large is settled by the borrow of the subtraction.\<close>

lemma div_subtract_value:
  assumes s: "div_subtract n d nh e = (q, r)" and len: "length n = length d" and D: "0 < nval d"
    and N: "N = unat nh * BB ^ length d + nval n"
    and e: "unat e = N div nval d \<or> unat e = N div nval d + 1"
  shows "unat q = N div nval d \<and> nval r = N mod nval d \<and> length r = length d"
proof -
  obtain c r1 where m: "lbnMulSub1_32 n d e = (c, r1)" by fastforce
  define P where "P = BB ^ length d"
  define Q R where "Q = N div nval d" and "R = N mod nval d"
  have QR: "N = nval d * Q + R" and R: "R < nval d" using D by (simp_all add: Q_def R_def)
  note v = lbnMulSub1_value [OF m len]
  have l1: "length r1 = length d" using v len by simp
  have eq: "nval r1 + nval d * unat e = nval n + P * unat c" using v by (simp add: len P_def)
  have r1: "nval r1 < P" using nval_less [of r1] by (simp add: l1 P_def)
  have dP: "nval d < P" by (simp add: P_def)
  have N': "N = P * unat nh + nval n" by (simp add: N P_def)
  show ?thesis
  proof (cases "c > nh")
    case False
    then obtain k where k: "unat nh = unat c + k"
      using le_Suc_ex [of "unat c" "unat nh"] by (auto simp: word_less_nat_alt)
    have Pk: "k = 0 \<or> P \<le> P * k" by (cases k) auto
    have *: "nval r1 + nval d * unat e + P * k = nval d * Q + R"
      using eq N' QR by (simp add: k algebra_simps)
    have "unat e = Q"
      using e [folded Q_def]
    proof
      assume "unat e = Q + 1"
      then show ?thesis using * R by (simp add: algebra_simps)
    qed
    then have "nval r1 + P * k = R" using * by simp
    then have "k = 0" using Pk R dP by linarith
    with * \<open>unat e = Q\<close> have "nval r1 = R" by simp
    moreover have "q = e" "r = r1" using s False by (simp_all add: div_subtract_def m)
    ultimately show ?thesis using \<open>unat e = Q\<close> l1 by (simp add: Q_def R_def)
  next
    case True
    then obtain k where k: "unat c = unat nh + 1 + k"
      using le_Suc_ex [of "unat nh + 1" "unat c"] by (auto simp: word_less_nat_alt)
    have Pk: "k = 0 \<or> P \<le> P * k" by (cases k) auto
    have *: "nval r1 + nval d * unat e = nval d * Q + R + P + P * k"
      using eq N' QR by (simp add: k algebra_simps)
    have e1: "unat e = Q + 1"
      using e [folded Q_def]
    proof
      assume "unat e = Q"
      then have "nval d * unat e = nval d * Q" by simp
      then show ?thesis using * r1 by linarith
    qed
    then have **: "nval r1 + nval d = R + P + P * k" using * by (simp add: algebra_simps)
    then have "k = 0" using Pk r1 dP by linarith
    then have sum: "nval r1 + nval d = R + P" using ** by simp
    obtain c2 r2 where a: "lbnAddN_32 r1 d = (c2, r2)" by fastforce
    have "r1 \<noteq> []" using l1 D by (cases d) auto
    note w = lbnAddN_value [OF a l1 this]
    have "nval r2 + P * unat c2 = R + P" using w sum by (simp add: l1 P_def)
    moreover have "unat c2 = 0 \<or> unat c2 = 1" using w by linarith
    moreover have "nval r2 < P" using nval_less [of r2] w by (simp add: l1 P_def)
    ultimately have "nval r2 = R" using R dP by auto
    moreover have "q = e - 1" "r = r2" using s True by (auto simp: div_subtract_def m a)
    moreover have "unat (e - 1) = Q" using e1 unat_minus_one [of e] by fastforce
    ultimately show ?thesis using w l1 by (simp add: Q_def R_def)
  qed
qed

lemma power_top_two: "2 \<le> l \<Longrightarrow> b ^ l = b * (b * b ^ (l - 2))" for b l :: nat
  using le_Suc_ex [of 2 l] by auto

text \<open>The two leading words of a number.\<close>

lemma top_two:
  assumes "2 \<le> length xs"
  shows "\<exists>lo < BB ^ (length xs - 2).
    nval xs = (unat (last xs) * BB + unat (xs ! (length xs - 2))) * BB ^ (length xs - 2) + lo"
proof -
  define l where "l = length xs - 2"
  have l: "length xs = l + 2" using assms by (simp add: l_def)
  then have "last xs = xs ! Suc l" by (subst last_conv_nth) auto
  with l have "drop l xs = [xs ! l, last xs]"
    by (intro nth_equalityI) (auto simp: less_2_cases_iff)
  moreover have "nval xs = nval (take l xs) + BB ^ l * nval (drop l xs)" and "nval (take l xs) < BB ^ l"
    using nval_split [of l xs] l by simp_all
  ultimately show ?thesis
    by (intro exI [of _ "nval (take l xs)"]) (simp add: l algebra_simps)
qed

text \<open>The window of the dividend against the divisor: the estimate from the leading two words by
  the leading word, corrected against the third, is right or one too large.\<close>

lemma window_bounds:
  assumes len: "length n = length d" "2 \<le> length d"
    and N: "N = unat nh * BB ^ length d + nval n"
    and w: "dh = last d" "dl = d ! (length d - 2)" "nm = last n" "nl = n ! (length d - 2)"
    and V: "V = unat nh * BB + unat nm"
    and P: "P = BB ^ (length d - 2)"
  shows "N < (V * BB + unat nl + 1) * P" "(V * BB + unat nl) * P \<le> N"
    "(unat dh * BB + unat dl) * P \<le> nval d" "nval d < (unat dh * BB + unat dl + 1) * P"
    "N < (V + 1) * (BB * P)" "V * (BB * P) \<le> N"
    "unat dh * (BB * P) \<le> nval d" "nval d < (unat dh + 1) * (BB * P)"
proof -
  obtain lo where lo: "lo < P" "nval n = (unat nm * BB + unat nl) * P + lo"
    using top_two [of n] len by (auto simp: w P)
  obtain lo' where lo': "lo' < P" "nval d = (unat dh * BB + unat dl) * P + lo'"
    using top_two [of d] len by (auto simp: w P)
  have "BB ^ length d = BB * (BB * P)"
    unfolding P using len(2) by (rule power_top_two)
  then have NV: "N = (V * BB + unat nl) * P + lo"
    by (simp add: N V lo(2) algebra_simps)
  have top: "(unat x + 1) * P \<le> BB * P" for x :: u32
    using unat_le_max [of x] by (intro mult_le_mono1) simp
  have xP: "(a * BB + unat x) * P + z < (a + 1) * (BB * P)" if "z < P" for a z and x :: u32
  proof -
    have "(a * BB + unat x) * P = a * (BB * P) + unat x * P" by (simp add: algebra_simps)
    moreover have "(a + 1) * (BB * P) = a * (BB * P) + BB * P" by simp
    moreover have "unat x * P + P \<le> BB * P" using top [of x] by (simp only: add_mult_distrib mult_1)
    ultimately show ?thesis using that by linarith
  qed
  show "N < (V * BB + unat nl + 1) * P" "(V * BB + unat nl) * P \<le> N"
    using lo(1) by (simp_all add: NV)
  show "(unat dh * BB + unat dl) * P \<le> nval d" "nval d < (unat dh * BB + unat dl + 1) * P"
    using lo'(1) by (simp_all add: lo'(2))
  show "N < (V + 1) * (BB * P)" unfolding NV using lo(1) by (rule xP)
  show "nval d < (unat dh + 1) * (BB * P)" unfolding lo'(2) using lo'(1) by (rule xP)
  show "V * (BB * P) \<le> N" by (simp add: NV algebra_simps)
  show "unat dh * (BB * P) \<le> nval d" by (simp add: lo'(2) algebra_simps)
qed

lemma digit_value:
  assumes len: "length n = length d" "2 \<le> length d"
    and N: "N = unat nh * BB ^ length d + nval n"
    and w: "dh = last d" "dl = d ! (length d - 2)" "nm = last n" "nl = n ! (length d - 2)"
    and dh: "2147483648 \<le> unat dh"
    and e: "unat e * unat dh + unat r = unat nh * BB + unat nm" "unat r < unat dh"
    and q: "q = qhat_first dh dl nl e r \<or> q = qhat_next dh dl nl e r"
  shows "unat q = N div nval d \<or> unat q = N div nval d + 1"
proof -
  note b = window_bounds [OF len N w refl refl]
  define P where "P = BB ^ (length d - 2)"
  have dh0: "0 < unat dh" using dh by simp
  have "0 < unat dh * (BB * P)" using dh0 by (simp add: P_def)
  then have D0: "0 < nval d" using b(7) unfolding P_def by linarith
  have V: "(unat nh * BB + unat nm) div unat dh = unat e" using e by (intro div_nat_eqI) (simp_all add: algebra_simps)
  show ?thesis
  proof (rule qhat_value [OF b(1-4) dh e(1) _ _ q])
    show "N div nval d \<le> unat e" using estimate_ge [OF b(5) b(7) dh0] V by simp
    show "unat e \<le> N div nval d + 2"
    proof (rule estimate_le [where B = BB])
      show "unat e * unat dh \<le> unat nh * BB + unat nm" using e by simp
      show "unat e \<le> BB + 1" using unat_le_max [of e] by simp
      show "BB \<le> 2 * unat dh" using dh by simp
    qed (rule b(6) b(8) D0)+
  qed
qed

lemma add_wraps: "x + y < x \<longleftrightarrow> BB \<le> unat x + unat y" for x y :: u32
proof (cases "unat x + unat y < BB")
  case True
  then have "unat (x + y) = unat x + unat y" by (simp add: unat_word_ariths)
  then show ?thesis using True by (simp add: word_less_nat_alt)
next
  case False
  have "unat x + unat y - BB < BB" using unat_lt [of x] unat_lt [of y] by linarith
  with False have "unat (x + y) = unat x + unat y - BB" by (simp add: unat_word_ariths le_mod_geq)
  then show ?thesis using False unat_lt [of y] unfolding word_less_nat_alt by linarith
qed

lemma next_digit_value:
  assumes len: "length n = length d" "2 \<le> length d"
    and N: "N = unat nh * BB ^ length d + nval n" "N < BB * nval d"
    and w: "dh = last d" "dl = d ! (length d - 2)" "nm = last n" "nl = n ! (length d - 2)"
    and dh: "2147483648 \<le> unat dh"
    and q: "q = (if nh = dh then
              (let qhat = NOT 0; r = nh + nm in if r < nh then qhat else qhat_next dh dl nl qhat r)
            else (let (qhat, r) = lbnDiv21_32 nh nm dh in qhat_next dh dl nl qhat r))"
  shows "unat q = N div nval d \<or> unat q = N div nval d + 1"
proof -
  define P where "P = BB ^ (length d - 2)"
  note b = window_bounds [OF len N(1) w refl refl, folded P_def]
  have BP: "BB ^ length d = BB * (BB * P)"
    unfolding P_def using len(2) by (rule power_top_two)
  have "BB * nval d < BB * ((unat dh + 1) * (BB * P))"
    using b(8) by (rule mult_strict_left_mono) simp
  with N have "unat nh * BB ^ length d < BB * ((unat dh + 1) * (BB * P))" by linarith
  then have "unat nh * (BB * (BB * P)) < (unat dh + 1) * (BB * (BB * P))"
    by (simp add: BP algebra_simps)
  then have "unat nh < unat dh + 1" by (rule mult_right_less_imp_less) simp
  then have le: "unat nh \<le> unat dh" by simp
  show ?thesis
  proof (cases "nh = dh")
    case False
    then have lt: "unat nh < unat dh" using le by (simp add: word_unat_eq_iff)
    obtain e r where er: "lbnDiv21_32 nh nm dh = (e, r)" by fastforce
    from lbnDiv21_value [OF lt dh er] have "unat e * unat dh + unat r = unat nh * BB + unat nm" "unat r < unat dh"
      by simp_all
    moreover have "q = qhat_next dh dl nl e r" using q False by (simp add: er)
    ultimately show ?thesis by (intro digit_value [OF len N(1) w dh, of e r]) simp_all
  next
    case True
    let ?e = "NOT 0 :: u32"
    have e: "unat ?e = 4294967295" by (simp only: bit.compl_zero unat_max)
    have D0: "0 < nval d" using N(2) by (cases "nval d") simp_all
    have Q: "N div nval d \<le> 4294967295"
      using N(2) D0 by (simp add: div_less_iff_less_mult less_Suc_eq_le [symmetric])
    have max: "4294967295 * unat dh + unat dh = unat dh * BB" by simp
    show ?thesis
    proof (cases "nh + nm < nh")
      case wrap: True
      then have "(unat dl + 1) * BB \<le> (unat nh + unat nm) * BB"
        using unat_lt [of dl] by (intro mult_le_mono1) (simp add: add_wraps del: unat_lt)
      then have est: "unat ?e * (unat dh * BB + unat dl) \<le> (unat nh * BB + unat nm) * BB + unat nl"
        unfolding e True by (simp add: algebra_simps)
      have "unat ?e \<le> unat dh * BB + unat dl" unfolding e using dh by linarith
      then have "unat ?e \<le> N div nval d + 1" by (rule test_good [OF est b(2) b(4) _ D0])
      moreover have "q = ?e" using q True wrap by (simp add: Let_def)
      then have "unat q = 4294967295" by (simp only: e)
      ultimately show ?thesis using Q unfolding e by linarith
    next
      case False
      then have r: "unat (dh + nm) = unat dh + unat nm"
        using True by (simp add: add_wraps unat_word_ariths)
      have "unat ?e * unat dh + unat (dh + nm) = unat nh * BB + unat nm"
        unfolding e r True by simp
      moreover have "q = qhat_next dh dl nl ?e (dh + nm)" using q True False by (simp add: Let_def)
      moreover have "N div nval d \<le> unat ?e" unfolding e by (rule Q)
      moreover have "unat ?e \<le> N div nval d + 2"
      proof (rule estimate_le [where B = BB, OF _ _ _ b(6,8) D0])
        show "unat ?e * unat dh \<le> unat nh * BB + unat nm" unfolding e True by simp
        show "unat ?e \<le> BB + 1" unfolding e by simp
        show "BB \<le> 2 * unat dh" using dh by simp
      qed
      ultimately show ?thesis by (intro qhat_value [OF b(1-4) dh, of ?e "dh + nm"]) blast+
    qed
  qed
qed

lemma nval_butlast: "xs \<noteq> [] \<Longrightarrow> nval xs = nval (butlast xs) + BB ^ (length xs - 1) * unat (last xs)"
  using nval_snoc [of "butlast xs" "last xs"] by simp

lemma div_loop_value:
  "div_loop d dh dl xs n = (q, r) \<Longrightarrow> length n = length d \<Longrightarrow> 2 \<le> length d \<Longrightarrow>
    dh = last d \<Longrightarrow> dl = d ! (length d - 2) \<Longrightarrow> 2147483648 \<le> unat dh \<Longrightarrow> nval n < nval d \<Longrightarrow>
    length q = length xs \<and> length r = length d \<and> nval r < nval d \<and>
    nval (rev xs @ n) = nval q * nval d + nval r"
proof (induction xs arbitrary: n q r)
  case (Cons x xs)
  define n1 where "n1 = x # butlast n"
  define e where "e = (if last n = dh then
              (let qhat = NOT 0; r = last n + last n1
               in if r < last n then qhat else qhat_next dh dl (n1 ! (length d - 2)) qhat r)
            else (let (qhat, r) = lbnDiv21_32 (last n) (last n1) dh
                  in qhat_next dh dl (n1 ! (length d - 2)) qhat r))"
  obtain qd n2 where sub: "div_subtract n1 d (last n) e = (qd, n2)" by fastforce
  have step: "div_loop d dh dl (x # xs) n =
      (case div_subtract n1 d (last n) e of (qhat, n) \<Rightarrow>
         case div_loop d dh dl xs n of (q, n) \<Rightarrow> (q @ [qhat], n))"
    by (simp only: div_loop.simps n1_def e_def Let_def)
  obtain q' where rest: "div_loop d dh dl xs n2 = (q', r)" and q: "q = q' @ [qd]"
    using Cons.prems(1) sub unfolding step by (auto split: prod.splits)
  have ne: "n \<noteq> []" using Cons.prems(2,3) by auto
  then have len: "length n1 = length d" using Cons.prems(2,3) by (simp add: n1_def)
  define N where "N = unat (last n) * BB ^ length d + nval n1"
  have nn: "nval n = nval (butlast n) + BB ^ (length d - 1) * unat (last n)"
    using nval_butlast [OF ne] Cons.prems(2) by simp
  have "BB ^ length d = BB * BB ^ (length d - 1)" using Cons.prems(3) by (cases "length d") auto
  then have N: "N = unat x + BB * nval n" by (simp add: N_def n1_def nn algebra_simps)
  have "unat x + BB * nval n < BB * (nval n + 1)" by (simp add: unat_lt)
  also have "\<dots> \<le> BB * nval d" using Cons.prems(7) by (intro mult_le_mono2) simp
  finally have lt: "N < BB * nval d" by (simp add: N)
  have D0: "0 < nval d" using Cons.prems(7) by simp
  have "unat e = N div nval d \<or> unat e = N div nval d + 1"
    by (rule next_digit_value [OF len Cons.prems(3) N_def lt Cons.prems(4,5) refl refl Cons.prems(6) e_def])
  from div_subtract_value [OF sub len D0 N_def this]
  have d: "unat qd = N div nval d" "nval n2 = N mod nval d" "length n2 = length d" by simp_all
  have "nval n2 < nval d" using d D0 by simp
  note IH = Cons.IH [OF rest d(3) Cons.prems(3-6) this]
  have N2: "N = unat qd * nval d + nval n2" using d by simp
  have "nval (rev (x # xs) @ n) = nval (rev xs) + BB ^ length xs * N"
    by (simp add: nval_append N algebra_simps)
  also have "\<dots> = nval (rev xs @ n2) + BB ^ length xs * (unat qd * nval d)"
    by (simp add: N2 nval_append algebra_simps)
  also have "\<dots> = nval q * nval d + nval r"
    using IH by (simp add: q nval_snoc algebra_simps)
  finally show ?case using IH by (simp add: q)
qed simp

text \<open>Normalising the divisor makes its top word at least \<open>2^31\<close> and shifts nothing out.\<close>

lemma normalised_divisor:
  assumes "d \<noteq> []" and "last d \<noteq> 0" and s: "s = clz_loop (last d) 0 16"
    and len: "length d' = length d" and v: "nval d' + BB ^ length d * c = nval d * 2 ^ s"
  shows "c = 0" and "2147483648 \<le> unat (last d')"
proof -
  define l where "l = length d - 1"
  define dh where "dh = unat (last d)"
  have l: "length d = Suc l" using assms(1) by (simp add: l_def)
  note sn = clz_normalises [OF assms(2) s, folded dh_def]
  have split: "nval xs = nval (butlast xs) + BB ^ l * unat (last xs)" "nval (butlast xs) < BB ^ l"
    if "length xs = Suc l" "xs \<noteq> []" for xs
    using nval_butlast [of xs] nval_less [of "butlast xs"] that by simp_all
  have B: "BB = 2 ^ (32 - s) * 2 ^ s" using sn by (simp flip: power_add)
  with sn have "dh * 2 ^ s < 2 ^ (32 - s) * 2 ^ s" by linarith
  then have "dh < 2 ^ (32 - s)" by (rule mult_right_less_imp_less) simp
  then have "(dh + 1) * BB ^ l \<le> 2 ^ (32 - s) * BB ^ l" by (intro mult_le_mono1) simp
  then have "nval d < 2 ^ (32 - s) * BB ^ l"
    using split [OF l assms(1)] by (simp add: dh_def algebra_simps)
  then have "nval d * 2 ^ s < 2 ^ (32 - s) * BB ^ l * 2 ^ s" by simp
  also have "\<dots> = BB ^ length d" by (simp only: l power_Suc) (simp add: B)
  finally have "BB ^ length d * c < BB ^ length d * 1" using v by linarith
  then show c: "c = 0" by (simp only: nat_mult_less_cancel_disj) simp
  have "2147483648 * BB ^ l \<le> dh * 2 ^ s * BB ^ l" using sn by (intro mult_le_mono1) simp
  also have "\<dots> \<le> nval d * 2 ^ s" using split [OF l assms(1)] by (simp add: dh_def algebra_simps)
  also have "\<dots> = nval d'" using v c by simp
  also have "\<dots> < (unat (last d') + 1) * BB ^ l"
    using split [of d'] l len by (cases "d' = []") (simp_all add: algebra_simps)
  finally have "2147483648 < unat (last d') + 1" by (rule mult_right_less_imp_less) simp
  then show "2147483648 \<le> unat (last d')" by simp
qed

text \<open>The first digit, against the window at the top of the dividend.\<close>

lemma first_digit_value:
  assumes len: "length n = length d" "2 \<le> length d"
    and w: "dh = last d" "dl = d ! (length d - 2)" "nm = last n"
    and dh: "2147483648 \<le> unat dh" and nh: "unat nh < unat dh"
    and N: "N = unat nh * BB ^ length d + nval n"
    and q: "(if nh \<noteq> 0 \<or> nm \<ge> dh then
               (let (qhat, r) = (if nh \<noteq> 0 then lbnDiv21_32 nh nm dh else (nm div dh, nm mod dh));
                    nl = n ! (length d - 2);
                    qhat = qhat_first dh dl nl qhat r
                in div_subtract n d nh qhat)
             else (0, n)) = (qhigh, n')"
  shows "unat qhigh = N div nval d \<and> nval n' = N mod nval d \<and> length n' = length d"
proof -
  define P where "P = BB ^ (length d - 2)"
  note b = window_bounds [OF len N w(1,2,3) refl refl refl, folded P_def]
  have "0 < unat dh * (BB * P)" using dh by (simp add: P_def)
  then have D0: "0 < nval d" using b(7) by linarith
  show ?thesis
  proof (cases "nh \<noteq> 0 \<or> nm \<ge> dh")
    case True
    obtain e r where er: "(if nh \<noteq> 0 then lbnDiv21_32 nh nm dh else (nm div dh, nm mod dh)) = (e, r)"
      by fastforce
    have e: "unat e * unat dh + unat r = unat nh * BB + unat nm \<and> unat r < unat dh"
    proof (cases "nh = 0")
      case False
      then show ?thesis using lbnDiv21_value [OF nh dh, of nm e r] er by simp
    next
      case True
      then show ?thesis using er dh by (auto simp: unat_div unat_mod)
    qed
    have sub: "div_subtract n d nh (qhat_first dh dl (n ! (length d - 2)) e r) = (qhigh, n')"
      using q True er by simp
    show ?thesis
      by (rule div_subtract_value [OF sub len(1) D0 N digit_value [OF len N w refl dh]])
        (use e in auto)
  next
    case False
    then have nh0: "nh = 0" and lt: "unat nm + 1 \<le> unat dh" by (simp_all add: word_le_nat_alt)
    have "N < (unat nm + 1) * (BB * P)" using b(5) by (simp add: nh0)
    also have "\<dots> \<le> unat dh * (BB * P)" using lt by (rule mult_le_mono1)
    finally have "N < nval d" using b(7) by linarith
    moreover have "qhigh = 0" "n' = n" using q False by auto
    ultimately show ?thesis using N nh0 len by simp
  qed
qed

lemma length_lshift_loop: "length (snd (lshift_loop xs s c)) = length xs"
  by (induction xs arbitrary: c) (auto simp: Let_def split_def)

lemma length_lshift [simp]: "length (snd (lbnLshift_32 xs s)) = length xs"
  by (simp add: lbnLshift_32_def length_lshift_loop)

theorem lbnDiv_value:
  assumes "d \<noteq> []" and "last d \<noteq> 0" and "length d \<le> length n" and "lbnDiv_32 n d = (qhigh, q, r, d')"
  shows "nval n = nval (q @ [qhigh]) * nval d + nval r \<and> nval r < nval d \<and>
    length q = length n - length d \<and> length r = length d \<and> d' = d"
proof (cases "length d = 1")
  case True
  then obtain x where d: "d = [x]" by (auto simp: length_Suc_conv)
  obtain qh q1 r1 where 1: "lbnDiv1_32 n x = (qh, q1, r1)" by (cases "lbnDiv1_32 n x") auto
  have "n \<noteq> []" using assms(3) d by auto
  moreover have "x \<noteq> 0" using assms(2) d by simp
  moreover have "qhigh = qh \<and> q = q1 \<and> r = [r1] \<and> d' = d"
    using assms(4) d 1 by (simp add: lbnDiv_32_def)
  ultimately show ?thesis using lbnDiv1_value [of n x qh q1 r1] 1 d by simp
next
  case False
  then have l2: "2 \<le> length d" using assms(1) by (cases d) (auto simp: Suc_le_eq)
  define s where "s = clz_loop (last d) 0 16"
  note sn = clz_normalises [OF assms(2) s_def]
  define qlen where "qlen = length n - length d"
  define ds where "ds = (if s \<noteq> 0 then snd (lbnLshift_32 d s) else d)"
  define nh where "nh = (if s \<noteq> 0 then fst (lbnLshift_32 n s) else 0)"
  define ns where "ns = (if s \<noteq> 0 then snd (lbnLshift_32 n s) else n)"
  have nv: "length ns = length n \<and> unat nh < 2 ^ s \<and> nval ns + BB ^ length n * unat nh = nval n * 2 ^ s"
    using lbnLshift_value [of n s nh ns] sn by (auto simp: ns_def nh_def)
  have "\<exists>c. length ds = length d \<and> nval ds + BB ^ length d * c = nval d * 2 ^ s"
    using lbnLshift_value [of d s "fst (lbnLshift_32 d s)" ds] sn by (cases "s = 0") (auto simp: ds_def)
  then obtain c where dl: "length ds = length d" and vc: "nval ds + BB ^ length d * c = nval d * 2 ^ s" by auto
  have dv: "nval ds = nval d * 2 ^ s" and dh: "2147483648 \<le> unat (last ds)"
    using normalised_divisor [OF assms(1,2) s_def dl vc] vc by simp_all
  obtain qh w1 where first: "(if nh \<noteq> 0 \<or> last (drop qlen ns) \<ge> last ds then
               (let (qhat, r) = (if nh \<noteq> 0 then lbnDiv21_32 nh (last (drop qlen ns)) (last ds)
                                 else (last (drop qlen ns) div last ds, last (drop qlen ns) mod last ds));
                    nl = drop qlen ns ! (length ds - 2);
                    qhat = qhat_first (last ds) (ds ! (length ds - 2)) nl qhat r
                in div_subtract (drop qlen ns) ds nh qhat)
             else (0, drop qlen ns)) = (qh, w1)" by fastforce
  obtain q2 r2 where loop: "div_loop ds (last ds) (ds ! (length ds - 2)) (rev (take qlen ns)) w1 = (q2, r2)"
    by fastforce
  have "lbnDiv_32 n d =
      (case (qh, w1) of (qhigh, n) \<Rightarrow>
         case div_loop ds (last ds) (ds ! (length ds - 2)) (rev (take qlen ns)) n of (q, n) \<Rightarrow>
           if s \<noteq> 0 then (qhigh, q, snd (lbnRshift_32 n s), snd (lbnRshift_32 ds s))
           else (qhigh, q, n, ds))"
    unfolding first [symmetric] using False l2 dl
    by (simp add: lbnDiv_32_def Let_def s_def ds_def nh_def ns_def qlen_def split_def)
  then have code: "qhigh = qh \<and> q = q2 \<and> r = (if s \<noteq> 0 then snd (lbnRshift_32 r2 s) else r2) \<and>
      d' = (if s \<noteq> 0 then snd (lbnRshift_32 ds s) else ds)"
    using assms(4) loop by (simp split: if_splits)
  define N0 where "N0 = unat nh * BB ^ length ds + nval (drop qlen ns)"
  have len: "length (drop qlen ns) = length ds" using nv dl assms(3) by (simp add: qlen_def)
  have "(2 :: nat) ^ s \<le> 2 ^ 31" using sn by (intro power_increasing) auto
  then have nh: "unat nh < unat (last ds)" using nv dh by simp
  from first_digit_value [OF len _ refl refl refl dh nh N0_def first] l2 dl
  have d1: "unat qh = N0 div nval ds" "nval w1 = N0 mod nval ds" "length w1 = length ds" by simp_all
  have D0: "0 < nval ds" using dh nval_butlast [of ds] dl assms(1) by (cases "ds = []") auto
  have lt: "nval w1 < nval ds" using d1 D0 by simp
  have "2 \<le> length ds" using l2 dl by simp
  note d2 = div_loop_value [OF loop d1(3) this refl refl dh lt]
  have lq: "length q2 = qlen" using d2 nv by (simp add: qlen_def)
  have N0: "N0 = unat qh * nval ds + nval w1" using d1 by simp
  have "nval n * 2 ^ s = nval (take qlen ns) + BB ^ qlen * N0"
    using nv nval_split(1) [of qlen ns] assms(3) dl
    by (simp add: N0_def qlen_def algebra_simps flip: power_add)
  also have "\<dots> = nval (take qlen ns @ w1) + BB ^ qlen * (unat qh * nval ds)"
    using nv by (simp add: N0 nval_append qlen_def algebra_simps)
  also have "\<dots> = nval (q2 @ [qh]) * nval ds + nval r2"
    using d2 lq by (simp add: nval_snoc algebra_simps)
  finally have main: "nval n * 2 ^ s = nval (q2 @ [qh]) * nval d * 2 ^ s + nval r2" by (simp add: dv)
  have r2: "nval r2 = 2 ^ s * (nval r2 div 2 ^ s)"
  proof -
    have "2 ^ s dvd nval (q2 @ [qh]) * nval d * 2 ^ s + nval r2" unfolding main [symmetric] by simp
    then have "2 ^ s dvd nval r2" by (simp only: dvd_add_times_triv_left_iff dvd_add_right_iff dvd_triv_right)
    then show ?thesis by simp
  qed
  have shifted: "length y = length x \<and> nval y = nval x div 2 ^ s"
    if "y = (if s \<noteq> 0 then snd (lbnRshift_32 x s) else x)" for x y
    using that lbnRshift_value [of x s "fst (lbnRshift_32 x s)" "snd (lbnRshift_32 x s)"] sn
    by (cases "s = 0") (auto intro!: div_nat_eqI [symmetric])
  have r: "length r = length r2 \<and> nval r = nval r2 div 2 ^ s" by (rule shifted) (use code in simp)
  have d': "length d' = length ds \<and> nval d' = nval ds div 2 ^ s" by (rule shifted) (use code in simp)
  then have "d' = d" using dl dv nval_inj [of d' d] by simp
  moreover have "nval n = nval (q @ [qhigh]) * nval d + nval r"
  proof -
    have "nval n * 2 ^ s = (nval (q2 @ [qh]) * nval d + nval r) * 2 ^ s"
      using main r r2 by (simp add: algebra_simps)
    then show ?thesis using code by simp
  qed
  moreover have "nval r < nval d"
  proof -
    have "nval r * 2 ^ s < nval d * 2 ^ s" using d2 r r2 dv by (simp add: algebra_simps)
    then show ?thesis by simp
  qed
  ultimately show ?thesis using code r d2 lq dl by (simp add: qlen_def)
qed

end
