(* ===== verification/Lbn_Mont.thy ===== *)
theory Lbn_Mont
  imports Lbn_Div "HOL-Library.Monad_Syntax"
begin

text \<open>
  Montgomery arithmetic of \<open>lbn32.c\<close>: the negated inverse of an odd word (\<open>lbnMontInv1_32\<close>),
  the reduction \<open>lbnMontReduce_32\<close> and the conversions \<open>lbnToMont_32\<close>, \<open>lbnFromMont_32\<close>.
  The loops that the C text ends by a condition on data are \<open>partial_function (option)\<close>: not
  returning is \<open>None\<close>, and the theorems show that they return.
\<close>

section \<open>The code\<close>

text \<open>Newton's iteration; it does not end for an even word.\<close>

partial_function (option) mont_inv_loop :: "u32 \<Rightarrow> u32 \<Rightarrow> u32 option" where
  "mont_inv_loop x y = (let z = x * y in if z \<noteq> 1 then mont_inv_loop x (y * (2 - z)) else Some y)"

definition lbnMontInv1_32 :: "u32 \<Rightarrow> u32 option" where
  "lbnMontInv1_32 x = map_option uminus (mont_inv_loop x x)"

text \<open>The main loop of the reduction: \<open>n\<close> is the number from the pointer up, \<open>len\<close> rounds to go.
  The word that the pointer leaves behind is zero by then.\<close>

primrec mont_reduce_loop :: "u32 list \<Rightarrow> u32 \<Rightarrow> nat \<Rightarrow> u32 list \<Rightarrow> u32 \<Rightarrow> u32 list \<times> u32" where
  "mont_reduce_loop md minv 0 n c = (n, c)"
| "mont_reduce_loop md minv (Suc len) n c =
    (let mlen = length md;
         (t, lo) = lbnMulAdd1_32 (take mlen n) md (minv * hd n);
         (cy, hi) = lbnAdd1_32 (drop mlen n) t
     in mont_reduce_loop md minv len (tl (lo @ hi)) (c + cy))"

text \<open>\<open>while (c) c -= lbnSubN_32(n, mod, mlen)\<close>\<close>

partial_function (option) sub_carry :: "u32 list \<Rightarrow> u32 list \<Rightarrow> u32 \<Rightarrow> u32 list option" where
  "sub_carry md n c =
    (if c \<noteq> 0 then (let (b, n) = lbnSubN_32 n md in sub_carry md n (c - b)) else Some n)"

text \<open>\<open>while (lbnCmp_32(n, mod, mlen) >= 0) (void)lbnSubN_32(n, mod, mlen)\<close>\<close>

partial_function (option) sub_while_ge :: "u32 list \<Rightarrow> u32 list \<Rightarrow> u32 list option" where
  "sub_while_ge md n =
    (if lbnCmp_32 n md \<ge> 0 then sub_while_ge md (snd (lbnSubN_32 n md)) else Some n)"

declare mont_inv_loop.simps [code] sub_carry.simps [code] sub_while_ge.simps [code]

text \<open>The result: the top \<open>mlen\<close> of the \<open>2 * mlen\<close> words.\<close>

definition lbnMontReduce_32 :: "u32 list \<Rightarrow> u32 list \<Rightarrow> u32 \<Rightarrow> u32 list option" where
  "lbnMontReduce_32 n md minv =
    (let (n, c) = mont_reduce_loop md minv (length md) n 0
     in do { n \<leftarrow> sub_carry md n c; sub_while_ge md n })"

text \<open>The two macros; the product's high half is what they leave.\<close>

definition lbnMontMul_32 :: "u32 list \<Rightarrow> u32 list \<Rightarrow> u32 list \<Rightarrow> u32 \<Rightarrow> u32 list option" where
  "lbnMontMul_32 n1 n2 md minv = lbnMontReduce_32 (lbnMulX_32 n1 n2) md minv"

definition lbnMontSquare_32 :: "u32 list \<Rightarrow> u32 list \<Rightarrow> u32 \<Rightarrow> u32 list option" where
  "lbnMontSquare_32 n md minv = lbnMontReduce_32 (lbnSquare_32 n) md minv"

text \<open>Move \<open>n\<close> up and divide, the remainder below, the quotient in the words above.\<close>

definition lbnToMont_32 :: "u32 list \<Rightarrow> u32 list \<Rightarrow> u32 list" where
  "lbnToMont_32 n md =
    (let (_, q, r, _) = lbnDiv_32 (replicate (length md) 0 @ n) md in r @ q)"

definition lbnFromMont_32 :: "u32 list \<Rightarrow> u32 list \<Rightarrow> u32 list option" where
  "lbnFromMont_32 n md =
    (let len = length md; n = take len n @ lbnZero_32 (drop len n)
     in do {
       minv \<leftarrow> lbnMontInv1_32 (md ! 0);
       hi \<leftarrow> lbnMontReduce_32 n md minv;
       Some (hi @ hi)
     })"

section \<open>The inverse of a word\<close>

lemma newton_step: "1 - x * (y * (2 - x * y)) = (1 - x * y) ^ 2" for x y :: u32
  by (simp add: power2_eq_square algebra_simps)

lemma mont_inv_loop_returns:
  "1 - x * y = 2 ^ n * k \<Longrightarrow> 0 < n \<Longrightarrow> \<exists>y'. mont_inv_loop x y = Some y' \<and> x * y' = 1"
proof (induction "32 - n" arbitrary: n y k rule: less_induct)
  case less
  show ?case
  proof (cases "x * y = 1")
    case True
    then show ?thesis by (subst mont_inv_loop.simps) simp
  next
    case False
    have n: "n < 32"
    proof (rule ccontr)
      assume "\<not> n < 32"
      then have "(2 :: u32) ^ n = 0" by (simp add: exp_eq_zero_iff)
      then have "1 - x * y = 0" unfolding less.prems(1) by (simp only: mult_zero_left)
      then have "1 = x * y" by (rule right_minus_eq [THEN iffD1])
      with False show False by (simp only: not_True_eq_False)
    qed
    have "1 - x * (y * (2 - x * y)) = 2 ^ (2 * n) * (k * k)"
      unfolding newton_step less.prems(1) by (simp add: power2_eq_square power_mult_distrib mult_2 power_add)
    then have "\<exists>y'. mont_inv_loop x (y * (2 - x * y)) = Some y' \<and> x * y' = 1"
      using n less.prems(2) by (intro less.hyps [of "2 * n"]) simp_all
    then show ?thesis using False by (subst mont_inv_loop.simps) (simp add: Let_def)
  qed
qed

lemma lbnMontInv1_value:
  assumes "odd x"
  shows "\<exists>minv. lbnMontInv1_32 x = Some minv \<and> minv * x = - 1"
proof -
  from assms obtain m where x: "x = 2 * m + 1" by (rule oddE)
  have "1 - x * x = 2 ^ 1 * (- (2 * m * m + 2 * m))" by (simp add: x algebra_simps)
  from mont_inv_loop_returns [OF this] obtain y where "mont_inv_loop x x = Some y" "x * y = 1" by auto
  then show ?thesis by (simp add: lbnMontInv1_32_def mult.commute)
qed

section \<open>Reduction\<close>

lemma nval_hd: "n \<noteq> [] \<Longrightarrow> nval n = unat (hd n) + BB * nval (tl n)"
  by (cases n) simp_all

lemma mont_round_cancels:
  fixes a m minv :: u32
  assumes "minv * m = - 1"
  shows "(unat a + unat m * unat (minv * a)) mod BB = 0"
proof -
  have "a + m * (minv * a) = a + (minv * m) * a" by (simp add: algebra_simps)
  then have "a + m * (minv * a) = 0" using assms by simp
  then have "unat (a + m * (minv * a)) = 0" by simp
  then have "(unat a + unat m * unat (minv * a) mod BB) mod BB = 0"
    by (simp only: unat_word_ariths) simp
  then show ?thesis by (simp only: mod_add_right_eq)
qed

lemma mont_reduce_loop_value:
  "mont_reduce_loop md minv len n c = (r, c') \<Longrightarrow> md \<noteq> [] \<Longrightarrow> minv * hd md = - 1 \<Longrightarrow>
    length n = length md + len \<Longrightarrow>
    nval n + BB ^ length n * unat c < BB ^ length n + nval md \<Longrightarrow>
    length r = length md \<and> nval r + BB ^ length md * unat c' < BB ^ length md + nval md \<and>
    (\<exists>q. BB ^ len * (nval r + BB ^ length md * unat c') = nval n + BB ^ length n * unat c + q * nval md)"
proof (induction len arbitrary: n c)
  case 0
  then show ?case by auto
next
  case (Suc len)
  define mlen where "mlen = length md"
  define u where "u = minv * hd n"
  obtain t lo where 1: "lbnMulAdd1_32 (take mlen n) md u = (t, lo)" by fastforce
  obtain cy hi where 2: "lbnAdd1_32 (drop mlen n) t = (cy, hi)" by fastforce
  have loop: "mont_reduce_loop md minv len (tl (lo @ hi)) (c + cy) = (r, c')"
    using Suc.prems(1) 1 2 by (simp add: Let_def mlen_def u_def)
  have ln: "length n = mlen + Suc len" using Suc.prems(4) by (simp add: mlen_def)
  have v1: "length lo = mlen" "nval lo + BB ^ mlen * unat t = nval (take mlen n) + nval md * unat u"
    using lbnMulAdd1_value [OF 1] ln by (simp_all add: mlen_def)
  have "drop mlen n \<noteq> []" using ln by simp
  from lbnAdd1_value [OF 2 this] have v2: "length hi = Suc len"
      "nval hi + BB ^ Suc len * unat cy = nval (drop mlen n) + unat t" "unat cy \<le> 1"
    using ln by simp_all
  define n1 where "n1 = lo @ hi"
  have "nval n1 + BB ^ length n * unat cy = nval lo + BB ^ mlen * (nval hi + BB ^ Suc len * unat cy)"
    by (simp add: n1_def nval_append v1 ln power_add algebra_simps)
  also have "\<dots> = nval (take mlen n) + nval md * unat u + BB ^ mlen * nval (drop mlen n)"
    unfolding v2(2) using v1(2) by (simp add: algebra_simps)
  also have "\<dots> = nval n + nval md * unat u"
    using nval_split(1) [of mlen n] ln by simp
  finally have sum: "nval n1 + BB ^ length n * unat cy = nval n + nval md * unat u" .
  have ne: "n1 \<noteq> []" "n \<noteq> []" using v2(1) ln by (auto simp: n1_def)
  have "hd n1 = 0"
  proof -
    obtain x xs where n: "n = x # xs" using ne by (cases n) auto
    obtain m ms where md: "md = m # ms" using Suc.prems(2) by (cases md) auto
    have "nval n + nval md * unat u = (unat x + unat m * unat (minv * x)) + BB * (nval xs + nval ms * unat u)"
      by (simp add: n md u_def algebra_simps)
    moreover have "(unat x + unat m * unat (minv * x)) mod BB = 0"
      using Suc.prems(3) md by (intro mont_round_cancels) simp
    ultimately have "(nval n + nval md * unat u) mod BB = 0" by (simp only: mod_mult_self2)
    then have "(nval n1 + BB ^ length n * unat cy) mod BB = 0" unfolding sum .
    moreover have "nval n1 + BB ^ length n * unat cy = unat (hd n1) + BB * (nval (tl n1) + BB ^ (length n - 1) * unat cy)"
      using ne ln by (simp add: nval_hd algebra_simps flip: power_Suc)
    ultimately have "unat (hd n1) mod BB = 0" by (simp only: mod_mult_self2)
    then show ?thesis by (simp add: unat_eq_zero)
  qed
  then have n1: "nval n1 = BB * nval (tl n1)" using nval_hd [OF ne(1)] by simp
  define V where "V = nval (tl n1) + BB ^ (mlen + len) * unat (c + cy)"
  have cc: "unat (c + cy) = unat c + unat cy"
  proof -
    have "nval md < BB ^ mlen" by (simp add: mlen_def)
    also have "\<dots> \<le> BB ^ length n" unfolding ln by (intro power_increasing) simp_all
    finally have "BB ^ length n * unat c < BB ^ length n * 2" using Suc.prems(5) by linarith
    then have "unat c < 2" by simp
    then show ?thesis using v2(3) by (simp add: unat_word_ariths)
  qed
  have V: "BB * V = nval n + BB ^ length n * unat c + unat u * nval md"
    using sum n1 by (simp add: V_def cc ln algebra_simps)
  have bound: "V < BB ^ (mlen + len) + nval md"
  proof -
    have "unat u * nval md \<le> 4294967295 * nval md" using unat_le_max [of u] by (rule mult_le_mono1)
    then have "BB * V < BB ^ length n + BB * nval md" using Suc.prems(5) unfolding V by linarith
    also have "\<dots> = BB * (BB ^ (mlen + len) + nval md)" by (simp add: ln algebra_simps)
    finally show ?thesis by simp
  qed
  have lt: "length (tl n1) = mlen + len" using v1 v2 by (simp add: n1_def)
  from Suc.IH [OF loop Suc.prems(2,3)] lt bound
  obtain q where IH: "length r = mlen" "nval r + BB ^ mlen * unat c' < BB ^ mlen + nval md"
      "BB ^ len * (nval r + BB ^ mlen * unat c') = V + q * nval md"
    by (auto simp: mlen_def V_def n1_def)
  have "BB ^ Suc len * (nval r + BB ^ mlen * unat c') = BB * V + (BB * q) * nval md"
    using IH(3) by (simp add: algebra_simps)
  also have "\<dots> = nval n + BB ^ length n * unat c + (unat u + BB * q) * nval md"
    unfolding V by (simp add: algebra_simps)
  finally show ?case using IH(1,2) by (auto simp: mlen_def)
qed

text \<open>The two subtraction loops return; they subtract the modulus until the number fits.\<close>

lemma sub_carry_returns:
  "length n = length md \<Longrightarrow> 0 < nval md \<Longrightarrow>
    \<exists>r k. sub_carry md n c = Some r \<and> length r = length md \<and>
      nval n + BB ^ length md * unat c = nval r + k * nval md"
proof (induction "nval n + BB ^ length md * unat c" arbitrary: n c rule: less_induct)
  case less
  show ?case
  proof (cases "c = 0")
    case True
    then show ?thesis using less.prems by (subst sub_carry.simps) (auto intro: exI [of _ 0])
  next
    case False
    obtain b r where s: "lbnSubN_32 n md = (b, r)" by fastforce
    have "n \<noteq> []" using less.prems by (cases n) auto
    note v = lbnSubN_value [OF s less.prems(1) this]
    have c1: "1 \<le> unat c" using False by (simp add: Suc_leI unat_gt_0)
    then have cb: "unat (c - b) = unat c - unat b" using v by (intro unat_sub) (simp add: word_le_nat_alt)
    obtain c0 where c0: "unat c = unat b + c0" using c1 v le_Suc_ex [of "unat b" "unat c"] by auto
    have eq: "nval r + BB ^ length md * unat (c - b) + nval md = nval n + BB ^ length md * unat c"
      using v less.prems(1) by (simp add: cb c0 algebra_simps)
    then have "nval r + BB ^ length md * unat (c - b) < nval n + BB ^ length md * unat c"
      using less.prems(2) by linarith
    from less.hyps [OF this] v less.prems obtain r' k where
      "sub_carry md r (c - b) = Some r'" "length r' = length md"
      "nval r + BB ^ length md * unat (c - b) = nval r' + k * nval md" by auto
    then show ?thesis using False s eq
      by (subst sub_carry.simps) (auto intro!: exI [of _ "Suc k"])
  qed
qed

lemma sub_while_ge_returns:
  "length n = length md \<Longrightarrow> 0 < nval md \<Longrightarrow>
    \<exists>r k. sub_while_ge md n = Some r \<and> length r = length md \<and> nval r < nval md \<and> nval n = nval r + k * nval md"
proof (induction "nval n" arbitrary: n rule: less_induct)
  case less
  note cmp = lbnCmp_value [OF less.prems(1)]
  show ?case
  proof (cases "nval n < nval md")
    case True
    then show ?thesis using cmp less.prems by (subst sub_while_ge.simps) (auto intro: exI [of _ 0])
  next
    case False
    obtain b r where s: "lbnSubN_32 n md = (b, r)" by fastforce
    have "n \<noteq> []" using less.prems by (cases n) auto
    note v = lbnSubN_value [OF s less.prems(1) this]
    have "unat b = 0"
    proof (rule ccontr)
      assume "unat b \<noteq> 0"
      then have "BB ^ length n * 1 \<le> BB ^ length n * unat b" by (intro mult_le_mono2) simp
      moreover have "nval r < BB ^ length n" using nval_less [of r] v by simp
      ultimately show False using v False by linarith
    qed
    then have eq: "nval r + nval md = nval n" using v by simp
    with less.prems(2) have "nval r < nval n" by linarith
    from less.hyps [OF this] v less.prems obtain r' k where
      "sub_while_ge md r = Some r'" "length r' = length md" "nval r' < nval md" "nval r = nval r' + k * nval md"
      by auto
    then show ?thesis using False s eq cmp
      by (subst sub_while_ge.simps) (auto intro!: exI [of _ "Suc k"])
  qed
qed

text \<open>What a modulus and its word inverse have to satisfy.\<close>

definition mont_ok :: "u32 list \<Rightarrow> u32 \<Rightarrow> bool" where
  "mont_ok md minv \<longleftrightarrow> md \<noteq> [] \<and> minv * hd md = - 1"

lemma mont_ok_odd: "mont_ok md minv \<Longrightarrow> odd (nval md)"
proof -
  assume ok: "mont_ok md minv"
  then have "odd (minv * hd md)" by (simp add: mont_ok_def)
  then have "odd (hd md)" by simp
  then have "odd (unat (hd md))" using bit_unsigned_iff [of "hd md" 0, where 'a = nat] by (simp add: bit_0)
  then show ?thesis using ok by (cases md) (simp_all add: mont_ok_def)
qed

lemma lbnMontReduce_value:
  assumes "mont_ok md minv" and "length n = 2 * length md"
  shows "\<exists>r. lbnMontReduce_32 n md minv = Some r \<and> length r = length md \<and> nval r < nval md \<and>
    BB ^ length md * nval r mod nval md = nval n mod nval md"
proof -
  have m0: "0 < nval md" using mont_ok_odd [OF assms(1)] by (rule odd_pos)
  obtain r c where loop: "mont_reduce_loop md minv (length md) n 0 = (r, c)" by fastforce
  have bound: "nval n + BB ^ length n * unat (0 :: u32) < BB ^ length n + nval md" by (simp add: trans_less_add1)
  have ok: "md \<noteq> []" "minv * hd md = - 1" using assms(1) by (simp_all add: mont_ok_def)
  have len: "length n = length md + length md" using assms(2) by simp
  from mont_reduce_loop_value [OF loop ok len bound]
  obtain q where 1: "length r = length md"
      "BB ^ length md * (nval r + BB ^ length md * unat c) = nval n + q * nval md" by auto
  from sub_carry_returns [OF 1(1) m0, of c] obtain r1 k1 where 2: "sub_carry md r c = Some r1" "length r1 = length md"
    "nval r + BB ^ length md * unat c = nval r1 + k1 * nval md" by auto
  from sub_while_ge_returns [OF 2(2) m0] obtain r2 k2 where 3: "sub_while_ge md r1 = Some r2"
    "length r2 = length md" "nval r2 < nval md" "nval r1 = nval r2 + k2 * nval md" by auto
  have "BB ^ length md * nval r2 + BB ^ length md * (k1 + k2) * nval md = nval n + q * nval md"
    using 1(2) unfolding 2(3) 3(4) by (simp add: algebra_simps)
  then have "(BB ^ length md * nval r2 + BB ^ length md * (k1 + k2) * nval md) mod nval md
      = (nval n + q * nval md) mod nval md" by (rule arg_cong)
  then have "BB ^ length md * nval r2 mod nval md = nval n mod nval md" by simp
  then show ?thesis using 2 3 loop by (simp add: lbnMontReduce_32_def)
qed

lemma length_lbnMulX: "length (lbnMulX_32 n1 n2) = length n1 + length n2"
  and nval_lbnMulX: "nval (lbnMulX_32 n1 n2) = nval n1 * nval n2"
  using lbnMul_value [of n1 n2] by (simp_all add: lbnMulX_32_def)

section \<open>Numbers in Montgomery form\<close>

text \<open>\<open>r\<close> holds the number \<open>a\<close> in Montgomery form.\<close>

definition mont_rep :: "u32 list \<Rightarrow> nat \<Rightarrow> u32 list \<Rightarrow> bool" where
  "mont_rep md a r \<longleftrightarrow> length r = length md \<and> nval r < nval md \<and>
    nval r mod nval md = a * BB ^ length md mod nval md"

lemma mont_cancel:
  fixes a b m :: nat
  assumes "odd m" and "a * BB ^ k mod m = b * BB ^ k mod m"
  shows "a mod m = b mod m"
proof -
  have "coprime (2 ^ n) m" for n using assms(1) by simp
  from this [of "32 * k"] have "coprime (BB ^ k) m" by (simp only: power_mult) simp
  then have cop: "coprime (int (BB ^ k)) (int m)" by (simp only: coprime_int_iff)
  have "int m dvd (int a - int b) * int (BB ^ k)"
  proof -
    have "int (a * BB ^ k) mod int m = int (b * BB ^ k) mod int m"
      using assms(2) by (simp only: zmod_int [symmetric])
    then show ?thesis by (simp add: mod_eq_dvd_iff left_diff_distrib)
  qed
  then have "int m dvd int a - int b"
    using cop by (simp add: coprime_dvd_mult_left_iff coprime_commute)
  then have "int a mod int m = int b mod int m" by (simp only: mod_eq_dvd_iff)
  then show ?thesis by (simp only: zmod_int [symmetric] of_nat_eq_iff)
qed

lemma mont_mult_step:
  assumes ok: "mont_ok md minv" and a: "mont_rep md a x" and b: "mont_rep md b y"
    and p: "length p = 2 * length md" "nval p = nval x * nval y"
  shows "\<exists>r. lbnMontReduce_32 p md minv = Some r \<and> mont_rep md (a * b) r"
proof -
  define R m where "R = BB ^ length md" and "m = nval md"
  obtain r where r: "lbnMontReduce_32 p md minv = Some r" "length r = length md" "nval r < m"
    "R * nval r mod m = nval p mod m"
    using lbnMontReduce_value [OF ok p(1)] by (auto simp: R_def m_def)
  have "nval p mod m = (nval x mod m) * (nval y mod m) mod m" by (simp add: p mod_mult_eq)
  also have "\<dots> = (a * R mod m) * (b * R mod m) mod m"
    using a b by (simp add: mont_rep_def R_def m_def)
  also have "\<dots> = a * b * R * R mod m" by (simp add: mod_mult_eq algebra_simps)
  finally have "nval r * R mod m = (a * b * R) * R mod m" using r(4) by (simp add: mult.commute)
  then have "nval r mod m = a * b * R mod m"
    unfolding R_def m_def by (rule mont_cancel [OF mont_ok_odd [OF ok]])
  then show ?thesis using r by (simp add: mont_rep_def R_def m_def)
qed

lemma lbnMontMul_rep:
  assumes "mont_ok md minv" and "mont_rep md a x" and "mont_rep md b y"
  shows "\<exists>r. lbnMontMul_32 x y md minv = Some r \<and> mont_rep md (a * b) r"
  unfolding lbnMontMul_32_def using assms
  by (intro mont_mult_step) (auto simp: length_lbnMulX nval_lbnMulX mont_rep_def)

lemma lbnMontSquare_rep:
  assumes "mont_ok md minv" and "mont_rep md a x"
  shows "\<exists>r. lbnMontSquare_32 x md minv = Some r \<and> mont_rep md (a * a) r"
  unfolding lbnMontSquare_32_def using assms lbnSquare_value [of x]
  by (intro mont_mult_step) (auto simp: mont_rep_def)

text \<open>Into Montgomery form, by division.\<close>

lemma lbnToMont_rep:
  assumes "md \<noteq> []" and "last md \<noteq> 0"
  shows "\<exists>r q. lbnToMont_32 n md = r @ q \<and> length q = length n \<and> mont_rep md (nval n) r"
proof -
  obtain qh q r d where div: "lbnDiv_32 (replicate (length md) 0 @ n) md = (qh, q, r, d)"
    by (metis prod_cases4)
  have len: "length md \<le> length (replicate (length md) (0 :: u32) @ n)" by simp
  note v = lbnDiv_value [OF assms len div]
  have "nval n * BB ^ length md = nval (q @ [qh]) * nval md + nval r"
    using v by (simp add: nval_append mult.commute)
  then have "nval r mod nval md = nval n * BB ^ length md mod nval md" by simp
  then have "mont_rep md (nval n) r" using v by (simp add: mont_rep_def)
  then show ?thesis using v div by (intro exI [of _ r] exI [of _ q]) (simp add: lbnToMont_32_def)
qed

text \<open>Out of it, by one reduction.\<close>

lemma from_mont_value:
  assumes ok: "mont_ok md minv" and r: "mont_rep md a x"
  shows "\<exists>y. lbnMontReduce_32 (x @ replicate (length md) 0) md minv = Some y \<and>
    length y = length md \<and> nval y = a mod nval md"
proof -
  have "length (x @ replicate (length md) (0 :: u32)) = 2 * length md" using r by (simp add: mont_rep_def)
  from lbnMontReduce_value [OF ok this] obtain y where
    y: "lbnMontReduce_32 (x @ replicate (length md) 0) md minv = Some y" "length y = length md"
      "nval y < nval md" "nval y * BB ^ length md mod nval md = a * BB ^ length md mod nval md"
    using r by (auto simp: nval_append mont_rep_def mult.commute)
  then show ?thesis using mont_cancel [OF mont_ok_odd [OF ok] y(4)] by simp
qed

lemma replicate_lbnZero: "lbnZero_32 xs = replicate (length xs) 0"
  by (induction xs) simp_all

lemma lbnFromMont_value:
  assumes "odd (hd md)" and "md \<noteq> []" and "length n = 2 * length md" and "mont_rep md a (take (length md) n)"
  shows "\<exists>y. lbnFromMont_32 n md = Some (y @ y) \<and> length y = length md \<and> nval y = a mod nval md"
proof -
  obtain minv where minv: "lbnMontInv1_32 (md ! 0) = Some minv" "minv * hd md = - 1"
    using lbnMontInv1_value [OF assms(1)] assms(2) by (auto simp: hd_conv_nth)
  then have "mont_ok md minv" using assms(2) by (simp add: mont_ok_def)
  from from_mont_value [OF this assms(4)] show ?thesis
    using minv assms(3) by (auto simp: lbnFromMont_32_def replicate_lbnZero)
qed

end
