(* ===== verification/Lbn_Gcd.thy ===== *)
theory Lbn_Gcd
  imports Lbn_Div
begin

text \<open>
  Euclid's algorithm (\<open>lbnGcd_32\<close>) and the modular inverse (\<open>lbnInv_32\<close>) of \<open>lbn32.c\<close>.  A number
  with its length is a list of words; \<open>len = lbnNorm_32(n, len)\<close> is \<open>trim\<close>.
\<close>

section \<open>The code\<close>

definition trim :: "u32 list \<Rightarrow> u32 list" where
  "trim ws = take (lbnNorm_32 ws) ws"

text \<open>The result tells which argument holds the greatest common divisor, 0 for \<open>a\<close>.\<close>

partial_function (option) lbnGcd_32 :: "u32 list \<Rightarrow> u32 list \<Rightarrow> (nat \<times> u32 list) option" where
  "lbnGcd_32 a b =
    (if b \<noteq> [] then
       (let (_, _, r, _) = lbnDiv_32 a b; a = trim r in
        if a = [] then Some (1, b)
        else (let (_, _, r, _) = lbnDiv_32 b a; b = trim r in lbnGcd_32 a b))
     else Some (0, a))"

declare lbnGcd_32.simps [code]

text \<open>The ways out of \<open>lbnInv_32\<close>: 0 with the inverse in \<open>a\<close>, 1, -1, and a failed \<open>assert\<close>.\<close>

datatype inv_result = Inverse "u32 list" | No_Inverse | Out_Of_Memory | Assert_Failed

text \<open>\<open>t0 += p\<close>: grow \<open>t0\<close> to the length of \<open>p\<close>, add, carry into the words above, append a last
  carry.\<close>

definition inv_grow :: "u32 list \<Rightarrow> nat \<Rightarrow> u32 list" where
  "inv_grow t plen = (if plen > length t then t @ replicate (plen - length t) 0 else t)"

definition inv_add0 :: "u32 list \<Rightarrow> u32 list \<Rightarrow> u32 list" where
  "inv_add0 t0 p =
    (let plen = length p;
         t0 = inv_grow t0 plen;
         (cy, lo) = lbnAddN_32 (take plen t0) p;
         hi = drop plen t0;
         (cy, hi) = (if cy \<noteq> 0 \<and> hi \<noteq> [] then lbnAdd1_32 hi cy else (cy, hi))
     in lo @ hi @ (if cy \<noteq> 0 then [cy] else []))"

text \<open>\<open>t1 += p\<close>: on a little-endian machine the carry beyond \<open>plen\<close> is added at \<open>t0 + plen\<close>.\<close>

definition inv_add1 :: "u32 list \<Rightarrow> u32 list \<Rightarrow> u32 list \<Rightarrow> u32 list \<times> u32 list" where
  "inv_add1 t0 t1 p =
    (let plen = length p;
         t1 = inv_grow t1 plen;
         (cy, lo) = lbnAddN_32 (take plen t1) p;
         hi = drop plen t1;
         t1 = lo @ hi;
         (cy, t0) =
           (if cy \<noteq> 0 \<and> hi \<noteq> [] then
              (let (cy, x) = lbnAdd1_32 (take (length hi) (drop plen t0)) cy in (cy, poke plen x t0))
            else (cy, t0))
     in (t0, t1 @ (if cy \<noteq> 0 then [cy] else [])))"

text \<open>One half of a round: divide, normalise quotient and remainder, multiply, with the asserts.\<close>

definition inv_divide ::
  "u32 list \<Rightarrow> u32 list \<Rightarrow> u32 list \<Rightarrow> u32 list \<Rightarrow> inv_result + u32 list \<times> u32 list" where
  "inv_divide md a b t =
    (if length a < length b \<or> b = [] then Inl Assert_Failed
     else
       (let (cy, q, r, _) = lbnDiv_32 a b;
            p = trim (q @ [cy]);
            a = trim r
        in if p = [] then Inl Assert_Failed
           else if a = [] then Inl No_Inverse
           else if length p + length t > length md + 1 then Inl Assert_Failed
           else (let p = trim (lbnMul_32 p t)
                 in if length p > length md then Inl Assert_Failed else Inr (a, p))))"

text \<open>\<open>mod - t1\<close>.\<close>

definition inv_complement :: "u32 list \<Rightarrow> u32 list \<Rightarrow> inv_result" where
  "inv_complement md t1 =
    (if length t1 > length md then Assert_Failed
     else
       (let (cy, lo) = lbnSubN_32 (take (length t1) md) t1;
            hi = drop (length t1) md
        in if cy \<noteq> 0 then
             (if hi = [] then Assert_Failed
              else (let (cy, hi) = lbnSub1_32 hi cy in if cy \<noteq> 0 then Assert_Failed else Inverse (lo @ hi)))
           else Inverse (lo @ hi)))"

text \<open>The loop.  Its condition reads \<open>b[0]\<close>, which is 0 when the length of \<open>b\<close> is 0.\<close>

partial_function (option) inv_loop ::
  "u32 list \<Rightarrow> u32 list \<Rightarrow> u32 list \<Rightarrow> u32 list \<Rightarrow> u32 list \<Rightarrow> inv_result option" where
  "inv_loop md a b t0 t1 =
    (if length b > 1 \<or> b = [] \<or> hd b \<noteq> 1 then
       (case inv_divide md a b t1 of
          Inl e \<Rightarrow> Some e
        | Inr (a, p) \<Rightarrow>
            (let t0 = inv_add0 t0 p in
             if length a \<le> 1 \<and> hd a = 1 then
               Some (if length t0 > length md then Assert_Failed
                     else Inverse (t0 @ lbnZero_32 (replicate (length md - length t0) 0)))
             else
               (case inv_divide md b a t0 of
                  Inl e \<Rightarrow> Some e
                | Inr (b, p) \<Rightarrow> (let (t0, t1) = inv_add1 t0 t1 p in inv_loop md a b t0 t1))))
     else Some (inv_complement md t1))"

declare inv_loop.simps [code]

text \<open>\<open>ok i\<close> tells whether the \<open>i\<close>-th \<open>LBNALLOC\<close> succeeds.\<close>

definition lbnInv_32 :: "(nat \<Rightarrow> bool) \<Rightarrow> u32 list \<Rightarrow> u32 list \<Rightarrow> inv_result option" where
  "lbnInv_32 ok a md =
    (let a = trim a in
     if a = [] then Some No_Inverse
     else
       (let md = trim md in
        if length a > length md then Some Assert_Failed
        else if length a = 1 \<and> a ! 0 = 1 then
          Some (Inverse (a @ lbnZero_32 (replicate (length md - length a) 0)))
        else if \<not> (ok 0 \<and> ok 1 \<and> ok 2 \<and> ok 3) then Some Out_Of_Memory
        else
          (let (cy, q, r, _) = lbnDiv_32 md a;
               t1 = trim (q @ [cy]);
               b = trim r
           in inv_loop md a b [1] t1)))"

section \<open>Normalised numbers\<close>

definition normed :: "u32 list \<Rightarrow> bool" where
  "normed x \<longleftrightarrow> x = [] \<or> last x \<noteq> 0"

lemma trim_value [simp]: "nval (trim x) = nval x"
  using lbnNorm_value [of x] by (simp add: trim_def)

lemma trim_normed [simp]: "normed (trim x)"
  using lbnNorm_value [of x] by (auto simp: trim_def normed_def last_conv_nth min_absorb1 min_absorb2)

lemma trim_Nil [simp]: "trim x = [] \<longleftrightarrow> nval x = 0"
  using lbnNorm_value [of x] by (auto simp: trim_def)

lemma normed_ge:
  assumes "x \<noteq> []"
  shows "normed x \<longleftrightarrow> BB ^ (length x - 1) \<le> nval x"
proof -
  have v: "nval x = nval (butlast x) + BB ^ (length x - 1) * unat (last x)"
    and lt: "nval (butlast x) < BB ^ (length x - 1)"
    using nval_butlast [OF assms] nval_less [of "butlast x"] by simp_all
  show ?thesis
  proof (cases "last x = 0")
    case True
    then show ?thesis using v lt assms by (simp add: normed_def)
  next
    case False
    then have "1 \<le> unat (last x)" by (simp add: Suc_leI unat_gt_0)
    then have "BB ^ (length x - 1) * 1 \<le> BB ^ (length x - 1) * unat (last x)" by (rule mult_le_mono2)
    then have "BB ^ (length x - 1) \<le> nval x" unfolding v by linarith
    then show ?thesis using False by (simp add: normed_def)
  qed
qed

lemma normed_length_le: "normed x \<Longrightarrow> nval x < BB ^ k \<Longrightarrow> length x \<le> k"
proof (cases "x = []")
  case False
  assume "normed x" and "nval x < BB ^ k"
  then have "BB ^ (length x - 1) < BB ^ k" using normed_ge [OF False] by linarith
  then have "length x - 1 < k" by (simp add: power_strict_increasing_iff)
  then show ?thesis by simp
qed simp

lemma normed_length_mono: "normed x \<Longrightarrow> nval x \<le> nval y \<Longrightarrow> length x \<le> length y"
  using normed_length_le [of x "length y"] nval_less [of y] by (simp add: le_less_trans)

lemma normed_pos: "normed x \<Longrightarrow> x \<noteq> [] \<Longrightarrow> 0 < nval x"
  using normed_ge [of x] by (cases "nval x = 0") auto

lemma normed_last: "normed x \<Longrightarrow> x \<noteq> [] \<Longrightarrow> last x \<noteq> 0"
  by (simp add: normed_def)

lemma normed_one: "normed x \<Longrightarrow> length x \<le> 1 \<and> x \<noteq> [] \<and> hd x = 1 \<longleftrightarrow> nval x = 1"
proof (intro iffI)
  assume n: "normed x" and one: "nval x = 1"
  then have "length x \<le> 1" using normed_length_le [of x 1] by simp
  moreover have "x \<noteq> []" using one by auto
  ultimately obtain w where "x = [w]" by (cases x) auto
  then show "length x \<le> 1 \<and> x \<noteq> [] \<and> hd x = 1" using one by (simp add: word_unat_eq_iff)
qed (auto simp: le_Suc_eq length_Suc_conv)

text \<open>Division of normalised numbers.\<close>

lemma lbnDiv_normed:
  assumes "normed b" and "b \<noteq> []" and "length b \<le> length a" and "lbnDiv_32 a b = (qh, q, r, b')"
  shows "nval (q @ [qh]) = nval a div nval b" and "nval r = nval a mod nval b"
  using lbnDiv_value [OF assms(2) normed_last [OF assms(1,2)] assms(3,4)] by simp_all

section \<open>The greatest common divisor\<close>

lemma lbnGcd_value:
  "normed b \<Longrightarrow> length b \<le> length a \<Longrightarrow>
    \<exists>f g. lbnGcd_32 a b = Some (f, g) \<and> nval g = gcd (nval a) (nval b)"
proof (induction "nval b" arbitrary: a b rule: less_induct)
  case less
  show ?case
  proof (cases "b = []")
    case True
    then show ?thesis by (subst lbnGcd_32.simps) simp
  next
    case False
    obtain qh q r b' where 1: "lbnDiv_32 a b = (qh, q, r, b')" by (metis prod_cases4)
    have r: "nval r = nval a mod nval b" by (rule lbnDiv_normed [OF less.prems(1) False less.prems(2) 1])
    have b0: "0 < nval b" using normed_pos less.prems(1) False by simp
    show ?thesis
    proof (cases "nval r = 0")
      case True
      then have "gcd (nval a) (nval b) = nval b" using r by (simp add: gcd.commute gcd_proj1_if_dvd_nat dvd_eq_mod_eq_0)
      then show ?thesis using True False 1 by (subst lbnGcd_32.simps) simp
    next
      case nz: False
      then have ne: "trim r \<noteq> []" by simp
      obtain qh' q' r' a' where 2: "lbnDiv_32 b (trim r) = (qh', q', r', a')" by (metis prod_cases4)
      have lt: "nval r < nval b" using r b0 by simp
      then have le: "length (trim r) \<le> length b" by (intro normed_length_mono) simp_all
      have r': "nval r' = nval b mod nval r" using lbnDiv_normed(2) [OF _ ne le 2] by simp
      then have lt': "nval r' < nval r" using nz by simp
      then have "length (trim r') \<le> length (trim r)" by (intro normed_length_mono) simp_all
      with lt lt' less.hyps [of "trim r'" "trim r"]
      obtain f g where "lbnGcd_32 (trim r) (trim r') = Some (f, g)" "nval g = gcd (nval r) (nval r')" by auto
      moreover have "gcd (nval r) (nval r') = gcd (nval a) (nval b)"
        unfolding r r' by (simp add: gcd.commute flip: gcd_red_nat)
      ultimately show ?thesis using ne False 1 2 by (subst lbnGcd_32.simps) simp
    qed
  qed
qed

section \<open>The inverse\<close>

lemma inv_grow_value [simp]:
  "nval (inv_grow t n) = nval t" "length (inv_grow t n) = max n (length t)"
  by (simp_all add: inv_grow_def nval_append)

text \<open>Adding a normalised number to a normalised number: the sum, normalised.\<close>

lemma add_parts:
  assumes t: "length t = max plen l" "plen \<noteq> 0" and p: "length p = plen"
    and a: "lbnAddN_32 (take plen t) p = (cy, lo)"
  shows "length lo = plen" and "nval lo + BB ^ plen * (unat cy + nval (drop plen t)) = nval t + nval p"
    and "unat cy \<le> 1"
proof -
  have *: "length (take plen t) = length p" "take plen t \<noteq> []" using t p by auto
  note v = lbnAddN_value [OF a *]
  then show "length lo = plen" "unat cy \<le> 1" using * p by simp_all
  show "nval lo + BB ^ plen * (unat cy + nval (drop plen t)) = nval t + nval p"
    using v nval_split(1) [of plen t] t p by (simp add: algebra_simps)
qed

lemma normed_top:
  assumes "x \<noteq> []" and "length x \<le> max (length s) (length t)" and "nval s \<le> nval x" and "nval t \<le> nval x"
    and "normed s" and "normed t" and "s \<noteq> []" and "t \<noteq> []"
  shows "normed x"
proof -
  have "BB ^ (length s - 1) \<le> nval x" "BB ^ (length t - 1) \<le> nval x"
    using assms normed_ge by (meson order_trans)+
  moreover have "BB ^ (length x - 1) \<le> BB ^ (length s - 1) \<or> BB ^ (length x - 1) \<le> BB ^ (length t - 1)"
    using assms(2) by (auto simp: le_max_iff_disj intro!: power_increasing diff_le_mono)
  ultimately show ?thesis using normed_ge [OF assms(1)] by linarith
qed

lemma inv_add0_value:
  assumes "normed t" and "t \<noteq> []" and "normed p" and "p \<noteq> []"
  shows "nval (inv_add0 t p) = nval t + nval p" and "normed (inv_add0 t p)" and "inv_add0 t p \<noteq> []"
proof -
  define plen g where "plen = length p" and "g = inv_grow t plen"
  obtain cy lo where a: "lbnAddN_32 (take plen g) p = (cy, lo)" by fastforce
  define hi where "hi = drop plen g"
  have g: "length g = max plen (length t)" "plen \<noteq> 0" using assms by (simp_all add: g_def plen_def)
  note v = add_parts [OF g plen_def [symmetric] a, folded hi_def]
  obtain cy' hi' where h: "(if cy \<noteq> 0 \<and> hi \<noteq> [] then lbnAdd1_32 hi cy else (cy, hi)) = (cy', hi')" by fastforce
  have code: "inv_add0 t p = lo @ hi' @ (if cy' \<noteq> 0 then [cy'] else [])"
    by (simp only: inv_add0_def Let_def a h prod.case flip: plen_def g_def hi_def)
  have h': "length hi' = length hi \<and> nval hi' + BB ^ length hi * unat cy' = unat cy + nval hi"
  proof (cases "cy \<noteq> 0 \<and> hi \<noteq> []")
    case True
    then show ?thesis using h lbnAdd1_value [of hi cy cy' hi'] by simp
  next
    case False
    then have "cy' = cy" "hi' = hi" using h by (auto split: if_splits)
    then show ?thesis using False by (cases "hi = []") simp_all
  qed
  have "nval (inv_add0 t p) = nval lo + BB ^ plen * (nval hi' + BB ^ length hi * unat cy')"
    by (simp add: code nval_append v(1) conjunct1 [OF h'])
  then show val: "nval (inv_add0 t p) = nval t + nval p" using h' v(2) by (simp add: g_def)
  show ne: "inv_add0 t p \<noteq> []" using v(1) g(2) by (auto simp: code)
  show "normed (inv_add0 t p)"
  proof (cases "cy' = 0")
    case True
    have "length (inv_add0 t p) \<le> max (length p) (length t)"
      using True h' v(1) g by (simp add: code hi_def plen_def)
    from normed_top [OF ne this _ _ assms(3,1,4,2)] show ?thesis by (simp add: val)
  next
    case False
    then show ?thesis by (simp add: code normed_def)
  qed
qed

text \<open>The second accumulator: when the addend is at least as long, there are no words above it, and
  the stray carry does not happen.\<close>

lemma inv_add1_value:
  assumes "normed t1" and "t1 \<noteq> []" and "normed p" and "p \<noteq> []" and "length t1 \<le> length p"
  shows "inv_add1 t0 t1 p = (t0, inv_add0 t1 p)"
  using assms by (simp add: inv_add1_def inv_add0_def Let_def split_def)

lemma length_mult_normed:
  assumes "normed x" "normed y" and "x \<noteq> []" "y \<noteq> []" and "nval x * nval y < BB ^ k"
  shows "length x + length y \<le> k + 1"
proof -
  have "BB ^ (length x - 1) * BB ^ (length y - 1) \<le> nval x * nval y"
    using assms normed_ge by (intro mult_le_mono) blast+
  then have "BB ^ (length x - 1 + (length y - 1)) < BB ^ k" using assms(5) by (simp add: power_add)
  then have "length x - 1 + (length y - 1) < k" by (simp add: power_strict_increasing_iff)
  then show ?thesis using assms(3,4) by (cases x; cases y) simp_all
qed

lemma inv_divide_value:
  assumes n: "normed a" "normed b" "normed t" and ne: "b \<noteq> []" "t \<noteq> []" and le: "nval b \<le> nval a"
    and bound: "(nval a div nval b) * nval t < BB ^ length md"
  obtains (none) "inv_divide md a b t = Inl No_Inverse" "nval a mod nval b = 0"
    | (some) a' p where "inv_divide md a b t = Inr (a', p)" "normed a'" "a' \<noteq> []" "nval a' = nval a mod nval b"
        "normed p" "p \<noteq> []" "nval p = (nval a div nval b) * nval t"
proof -
  obtain qh q r b' where div: "lbnDiv_32 a b = (qh, q, r, b')" by (metis prod_cases4)
  have len: "length b \<le> length a" using normed_length_mono n(2) le by blast
  note v = lbnDiv_normed [OF n(2) ne(1) len div]
  have b0: "0 < nval b" and t0: "0 < nval t" using normed_pos n ne by blast+
  define p where "p = trim (q @ [qh])"
  have p: "nval p = nval a div nval b" "normed p" using v by (simp_all add: p_def)
  have p0: "0 < nval p" using le b0 by (simp add: p div_greater_zero_iff)
  then have pne: "p \<noteq> []" by auto
  show thesis
  proof (cases "nval r = 0")
    case True
    then have "inv_divide md a b t = Inl No_Inverse"
      using div len ne(1) pne by (simp add: inv_divide_def p_def)
    then show thesis using none v True by simp
  next
    case False
    define pr where "pr = trim (lbnMul_32 p t)"
    have pr: "nval pr = nval a div nval b * nval t" "normed pr"
      using lbnMul_value [of p t] by (simp_all add: pr_def p(1))
    have "length p + length t \<le> length md + 1"
      using bound by (intro length_mult_normed p n pne ne) (simp add: p)
    moreover have "length pr \<le> length md" using pr bound by (intro normed_length_le) simp_all
    ultimately have "inv_divide md a b t = Inr (trim r, pr)"
      using div len ne(1) pne False by (simp add: inv_divide_def p_def pr_def Let_def)
    moreover have "0 < nval pr" using p0 t0 by (simp add: pr(1) p(1))
    then have "pr \<noteq> []" by auto
    ultimately show thesis using False v pr by (intro some [of "trim r" pr]) simp_all
  qed
qed

lemma inv_complement_value:
  assumes "nval t1 < nval md" and "normed t1" and "t1 \<noteq> []"
  shows "\<exists>r. inv_complement md t1 = Inverse r \<and> length r = length md \<and> nval r = nval md - nval t1"
proof -
  have len: "length t1 \<le> length md" using assms by (intro normed_length_mono) simp_all
  obtain cy lo where s: "lbnSubN_32 (take (length t1) md) t1 = (cy, lo)" by fastforce
  define hi where "hi = drop (length t1) md"
  have *: "length (take (length t1) md) = length t1" "take (length t1) md \<noteq> []" using len assms(3) by auto
  note v = lbnSubN_value [OF s *]
  have eq: "nval lo + BB ^ length t1 * nval hi + nval t1 = nval md + BB ^ length t1 * unat cy"
    using v nval_split(1) [OF len] len by (simp add: hi_def)
  have lo: "length lo = length t1" "nval lo < BB ^ length t1"
    using v len nval_less [of lo] by simp_all
  show ?thesis
  proof (cases "cy = 0")
    case True
    then have "nval (lo @ hi) = nval md - nval t1" using eq lo by (simp add: nval_append)
    then show ?thesis using True len lo s by (simp add: inv_complement_def hi_def)
  next
    case False
    then have cy: "unat cy = 1" using v by (simp add: le_Suc_eq unat_eq_zero)
    have "hi \<noteq> []"
    proof
      assume "hi = []"
      then have "nval lo + nval t1 = nval md + BB ^ length t1" using eq cy by simp
      then show False using assms(1) lo(2) by linarith
    qed
    obtain c2 hi2 where s2: "lbnSub1_32 hi cy = (c2, hi2)" by fastforce
    note w = lbnSub1_value [OF s2 \<open>hi \<noteq> []\<close>]
    have E2: "nval lo + BB ^ length t1 * nval hi2 + nval t1 = nval md + BB ^ length t1 * (BB ^ length hi * unat c2)"
    proof -
      have "BB ^ length t1 * (nval hi2 + 1) = BB ^ length t1 * (nval hi + BB ^ length hi * unat c2)"
        using w cy by simp
      then show ?thesis using eq cy by (simp add: distrib_left)
    qed
    have L2: "nval lo + BB ^ length t1 * nval hi2 < BB ^ length t1 * BB ^ length hi"
      using nval_less [of "lo @ hi2"] w lo(1) by (simp add: nval_append power_add)
    have "unat c2 = 0"
    proof (rule ccontr)
      assume "unat c2 \<noteq> 0"
      then have "BB ^ length hi * 1 \<le> BB ^ length hi * unat c2" by (intro mult_le_mono2) simp
      then have "BB ^ length t1 * BB ^ length hi \<le> BB ^ length t1 * (BB ^ length hi * unat c2)"
        by (intro mult_le_mono2) simp
      then show False using E2 L2 assms(1) by linarith
    qed
    then have c2: "c2 = 0" by (simp add: unat_eq_zero)
    have "nval (lo @ hi2) = nval md - nval t1"
      using E2 c2 lo(1) by (simp add: nval_append)
    then show ?thesis using False len lo s s2 w c2 \<open>hi \<noteq> []\<close> by (simp add: inv_complement_def hi_def)
  qed
qed

text \<open>
  The loop.  With \<open>A\<close> the number to invert and \<open>M\<close> the modulus, \<open>t0 * b + t1 * a = M\<close>,
  \<open>t0 * A = a\<close> and \<open>- t1 * A = b\<close> modulo \<open>M\<close>; the second accumulator is never the longer one when the
  code adds to it.
\<close>

definition inv_post :: "u32 list \<Rightarrow> nat \<Rightarrow> inv_result \<Rightarrow> bool" where
  "inv_post md A res \<longleftrightarrow>
    (if coprime A (nval md)
     then (\<exists>r. res = Inverse r \<and> length r = length md \<and> nval r < nval md \<and> (nval r * A) mod nval md = 1)
     else res = No_Inverse)"

lemma congruent_by_multiple:
  fixes a b m :: nat
  assumes "int m dvd int a - int b" and "b < m"
  shows "a mod m = b"
proof -
  have "int a mod int m = int b mod int m" using assms(1) by (simp add: mod_eq_dvd_iff)
  then have "a mod m = b mod m" by (simp only: zmod_int [symmetric] of_nat_eq_iff)
  then show ?thesis using assms(2) by simp
qed

lemma inv_loop_returns:
  assumes "1 < nval md"
  shows "normed a \<Longrightarrow> normed b \<Longrightarrow> normed t0 \<Longrightarrow> normed t1 \<Longrightarrow> b \<noteq> [] \<Longrightarrow> t0 \<noteq> [] \<Longrightarrow> t1 \<noteq> [] \<Longrightarrow>
    nval b < nval a \<Longrightarrow> nval t0 * nval b + nval t1 * nval a = nval md \<Longrightarrow>
    int (nval md) dvd int (nval t0) * int A - int (nval a) \<Longrightarrow>
    int (nval md) dvd int (nval t1) * int A + int (nval b) \<Longrightarrow>
    gcd (nval a) (nval b) = gcd A (nval md) \<Longrightarrow>
    \<exists>res. inv_loop md a b t0 t1 = Some res \<and> inv_post md A res"
proof (induction "nval b" arbitrary: a b t0 t1 rule: less_induct)
  case less
  note n = less.prems(1-4) and ne = less.prems(5-7) and lt = less.prems(8) and det = less.prems(9)
    and c0 = less.prems(10) and c1 = less.prems(11) and g = less.prems(12)
  define M where "M = nval md"
  have pos: "0 < nval b" "0 < nval t0" "0 < nval t1" using normed_pos n ne by blast+
  have Mlt: "M < BB ^ length md" by (simp add: M_def)
  have cond: "(length b > 1 \<or> b = [] \<or> hd b \<noteq> 1) \<longleftrightarrow> nval b \<noteq> 1"
    using normed_one [OF n(2)] ne(1) by auto
  show ?case
  proof (cases "nval b = 1")
    case True
    have "nval t1 * 1 \<le> nval t1 * nval a" using lt by (intro mult_le_mono2) simp
    moreover have "nval t0 * nval b = nval t0" using True by simp
    ultimately have t1: "nval t1 < M" using det pos unfolding M_def by linarith
    from inv_complement_value [of t1 md] t1 n ne obtain r where
      r: "inv_complement md t1 = Inverse r" "length r = length md" "nval r = M - nval t1"
      by (auto simp: M_def)
    have "int M dvd int (nval r * A) - int 1"
    proof -
      have "int (nval r * A) - 1 = int M * int A - (int (nval t1) * int A + int (nval b))"
        using t1 True by (simp add: r(3) of_nat_diff algebra_simps)
      then show ?thesis using c1 by (simp add: M_def)
    qed
    then have "nval r * A mod M = 1" using assms by (intro congruent_by_multiple) (simp_all add: M_def)
    moreover have "nval r < M" using r(3) pos t1 by simp
    moreover have "coprime A M" using g True unfolding coprime_iff_gcd_eq_1 by (simp only: M_def) simp
    moreover have "inv_loop md a b t0 t1 = Some (inv_complement md t1)"
      by (subst inv_loop.simps, subst if_not_P) (use cond True in blast, rule refl)
    ultimately show ?thesis using r by (auto simp: inv_post_def M_def)
  next
    case False
    define q where "q = nval a div nval b"
    have aq: "nval a = q * nval b + nval a mod nval b" by (simp add: q_def)
    have loop: "inv_loop md a b t0 t1 =
       (case inv_divide md a b t1 of
          Inl e \<Rightarrow> Some e
        | Inr (a, p) \<Rightarrow>
            (let t0 = inv_add0 t0 p in
             if length a \<le> 1 \<and> hd a = 1 then
               Some (if length t0 > length md then Assert_Failed
                     else Inverse (t0 @ lbnZero_32 (replicate (length md - length t0) 0)))
             else
               (case inv_divide md b a t0 of
                  Inl e \<Rightarrow> Some e
                | Inr (b, p) \<Rightarrow> (let (t0, t1) = inv_add1 t0 t1 p in inv_loop md a b t0 t1))))"
      by (subst inv_loop.simps, subst if_P) (use cond False in blast, rule refl)
    have "q * nval t1 \<le> nval a * nval t1" by (intro mult_le_mono1) (simp add: q_def)
    also have "\<dots> \<le> M" using det by (simp add: M_def mult.commute)
    finally have bound: "nval a div nval b * nval t1 < BB ^ length md"
      using Mlt unfolding q_def by (rule le_less_trans)
    have lt': "nval b \<le> nval a" using lt by simp
    show ?thesis
    proof (rule inv_divide_value [OF n(1,2,4) ne(1,3) lt' bound])
      assume "inv_divide md a b t1 = Inl No_Inverse" and "nval a mod nval b = 0"
      then have "inv_loop md a b t0 t1 = Some No_Inverse" "gcd (nval a) (nval b) = nval b"
        by (auto simp: loop gcd_nat.absorb2 dvd_eq_mod_eq_0)
      then show ?thesis using False g unfolding inv_post_def coprime_iff_gcd_eq_1 by simp
    next
      fix a' p
      assume 1: "inv_divide md a b t1 = Inr (a', p)" and a': "normed a'" "a' \<noteq> []" "nval a' = nval a mod nval b"
        and p: "normed p" "p \<noteq> []" "nval p = nval a div nval b * nval t1"
      define s0 where "s0 = inv_add0 t0 p"
      note s0 = inv_add0_value [OF n(3) ne(2) p(1,2), folded s0_def]
      have s0v: "nval s0 = nval t0 + q * nval t1" using s0(1) p(3) by (simp add: q_def)
      have a'b: "nval a' < nval b" using a'(3) pos by simp
      have a'0: "0 < nval a'" using normed_pos a' by blast
      have av: "nval a = q * nval b + nval a'" using aq a'(3) by simp
      have det': "nval s0 * nval b + nval t1 * nval a' = M"
        using det by (simp add: s0v av M_def algebra_simps)
      have c0': "int M dvd int (nval s0) * int A - int (nval a')"
      proof -
        have "int (nval s0) * int A - int (nval a') =
            (int (nval t0) * int A - int (nval a)) + int q * (int (nval t1) * int A + int (nval b))"
          by (simp add: s0v av algebra_simps)
        then show ?thesis using c0 c1 by (simp add: M_def)
      qed
      have g': "gcd (nval b) (nval a') = gcd A M" using g a'(3) by (simp add: M_def flip: gcd_red_nat)
      have one: "(length a' \<le> 1 \<and> hd a' = 1) \<longleftrightarrow> nval a' = 1" using normed_one [OF a'(1)] a'(2) by auto
      have s0b: "nval s0 \<le> nval s0 * nval b" using pos by simp
      show ?thesis
      proof (cases "nval a' = 1")
        case True
        have "nval s0 < M" using det' [unfolded True] pos s0b by linarith
        moreover have "length s0 \<le> length md"
          using calculation s0(2) Mlt by (intro normed_length_le) simp_all
        moreover have "nval s0 * A mod M = 1"
          using c0' True assms by (intro congruent_by_multiple) (simp_all add: M_def)
        moreover have "coprime A M" using g' True unfolding coprime_iff_gcd_eq_1 by simp
        ultimately show ?thesis
          using True one 1 by (simp add: loop s0_def [symmetric] inv_post_def M_def nval_append)
      next
        case nt: False
        define q2 where "q2 = nval b div nval a'"
        have "q2 * nval s0 \<le> nval b * nval s0" by (intro mult_le_mono1) (simp add: q2_def)
        also have "\<dots> \<le> M" using det' by (simp add: mult.commute)
        finally have bound': "nval b div nval a' * nval s0 < BB ^ length md"
          using Mlt unfolding q2_def by (rule le_less_trans)
        have le': "nval a' \<le> nval b" using a'b by simp
        show ?thesis
        proof (rule inv_divide_value [OF n(2) a'(1) s0(2) a'(2) s0(3) le' bound'])
          assume "inv_divide md b a' s0 = Inl No_Inverse" and "nval b mod nval a' = 0"
          then have "inv_loop md a b t0 t1 = Some No_Inverse" "gcd (nval b) (nval a') = nval a'"
            using 1 nt one by (auto simp: loop s0_def [symmetric] Let_def gcd_nat.absorb2 dvd_eq_mod_eq_0)
          then show ?thesis using nt g' unfolding inv_post_def coprime_iff_gcd_eq_1 M_def by simp
        next
          fix b' p2
          assume 2: "inv_divide md b a' s0 = Inr (b', p2)" and b': "normed b'" "b' \<noteq> []" "nval b' = nval b mod nval a'"
            and p2: "normed p2" "p2 \<noteq> []" "nval p2 = nval b div nval a' * nval s0"
          have "1 * nval t1 \<le> q * nval t1"
            using lt pos by (intro mult_le_mono1) (simp add: q_def div_greater_zero_iff Suc_le_eq)
          then have "nval t1 \<le> nval s0" unfolding s0v by linarith
          moreover have "1 * nval s0 \<le> q2 * nval s0"
            using le' a'0 by (intro mult_le_mono1) (simp add: q2_def div_greater_zero_iff Suc_le_eq)
          ultimately have "nval t1 \<le> nval p2" unfolding p2(3) q2_def by linarith
          then have len: "length t1 \<le> length p2" using n(4) by (intro normed_length_mono)
          define s1 where "s1 = inv_add0 t1 p2"
          note s1 = inv_add0_value [OF n(4) ne(3) p2(1,2), folded s1_def]
          have s1v: "nval s1 = nval t1 + q2 * nval s0" using s1(1) p2(3) by (simp add: q2_def)
          have bv: "nval b = q2 * nval a' + nval b'" by (simp add: b'(3) q2_def)
          have step: "inv_loop md a b t0 t1 = inv_loop md a' b' s0 s1"
            using 1 2 nt one inv_add1_value [OF n(4) ne(3) p2(1,2) len, of s0]
            by (auto simp: loop s0_def [symmetric] s1_def [symmetric] Let_def)
          have b'a': "nval b' < nval a'" using b'(3) a'0 by simp
          have det2: "nval s0 * nval b' + nval s1 * nval a' = nval md"
            using det' by (simp add: s1v bv M_def algebra_simps)
          have c1': "int (nval md) dvd int (nval s1) * int A + int (nval b')"
          proof -
            have "int (nval s1) * int A + int (nval b') =
                (int (nval t1) * int A + int (nval b)) + int q2 * (int (nval s0) * int A - int (nval a'))"
              by (simp add: s1v bv algebra_simps)
            then show ?thesis using c1 c0' by (simp add: M_def)
          qed
          have g2: "gcd (nval a') (nval b') = gcd A (nval md)"
            using g' by (simp add: b'(3) M_def flip: gcd_red_nat)
          from b'a' a'b have "nval b' < nval b" by linarith
          from less.hyps [OF this a'(1) b'(1) s0(2) s1(2) b'(2) s0(3) s1(3) b'a' det2 c0' [unfolded M_def] c1' g2]
          show ?thesis unfolding step .
        qed
      qed
    qed
  qed
qed

text \<open>
  The routine, for a number below the modulus.  When the number is not 0 or 1 and divides the
  modulus, the first remainder is 0 and the loop is entered with a divisor of length 0: the
  code runs into an \<open>assert\<close> instead of returning 1.
\<close>

theorem lbnInv_value:
  assumes "nval a < nval md" and "ok 0" "ok 1" "ok 2" "ok 3" and "1 < nval md"
  shows "\<exists>res. lbnInv_32 ok a md = Some res \<and>
    (if 1 < nval a \<and> nval a dvd nval md then res = Assert_Failed else inv_post (trim md) (nval a) res)"
proof -
  define x m where "x = trim a" and "m = trim md"
  have x: "nval x = nval a" "normed x" and m: "nval m = nval md" "normed m" by (simp_all add: x_def m_def)
  have m0: "0 < nval m" using assms(1) m by simp
  then have mne: "m \<noteq> []" by auto
  have len: "length x \<le> length m" using assms(1) x m by (intro normed_length_mono) simp_all
  have one: "x \<noteq> [] \<Longrightarrow> (length x = 1 \<and> x ! 0 = 1) \<longleftrightarrow> nval x = 1"
    using normed_one [OF x(2)] by (auto simp: hd_conv_nth le_Suc_eq)
  consider "nval a = 0" | "nval a = 1" | "1 < nval a" by linarith
  then show ?thesis
  proof cases
    case 1
    then have "lbnInv_32 ok a md = Some No_Inverse" by (simp add: lbnInv_32_def)
    moreover have "inv_post m (nval a) No_Inverse" using 1 assms(6) m by (simp add: inv_post_def)
    ultimately show ?thesis using 1 by (simp add: m_def)
  next
    case 2
    then have ne: "x \<noteq> []" using x by auto
    then have "lbnInv_32 ok a md = Some (Inverse (x @ lbnZero_32 (replicate (length m - length x) 0)))"
      using 2 len one x mne by (simp add: lbnInv_32_def x_def [symmetric] m_def [symmetric] Let_def)
    moreover have "inv_post m (nval a) (Inverse (x @ lbnZero_32 (replicate (length m - length x) 0)))"
      using 2 len x m assms(1) mne by (simp add: inv_post_def nval_append)
    ultimately show ?thesis using 2 by (simp add: m_def)
  next
    case 3
    then have ne: "x \<noteq> []" "nval x \<noteq> 1" using x by auto
    obtain cy q r d where div: "lbnDiv_32 m x = (cy, q, r, d)" by (metis prod_cases4)
    note v = lbnDiv_normed [OF x(2) ne(1) len div]
    have code: "lbnInv_32 ok a md = inv_loop m x (trim r) [1] (trim (q @ [cy]))"
      using ne len one div assms(2-5)
      by (auto simp: lbnInv_32_def x_def [symmetric] m_def [symmetric] Let_def)
    have t1: "nval (trim (q @ [cy])) = nval md div nval a" using v x m by simp
    have "nval md div nval a \<noteq> 0" using assms(1) 3 by (simp add: div_eq_0_iff)
    then have t1ne: "trim (q @ [cy]) \<noteq> []" using t1 by (metis nval.simps(1))
    show ?thesis
    proof (cases "nval a dvd nval md")
      case True
      then have b: "trim r = []" using v x m by simp
      have "inv_divide m x [] t = Inl Assert_Failed" for t by (simp add: inv_divide_def)
      then have "lbnInv_32 ok a md = Some Assert_Failed"
        unfolding code b by (subst inv_loop.simps) simp
      then show ?thesis using True 3 by simp
    next
      case False
      then have bne: "trim r \<noteq> []" using v x m by (simp add: dvd_eq_mod_eq_0)
      have "\<exists>res. inv_loop m x (trim r) [1] (trim (q @ [cy])) = Some res \<and> inv_post m (nval a) res"
      proof (rule inv_loop_returns)
        show "1 < nval m" using 3 assms(1) m by simp
        show "nval (trim r) < nval x" using v x 3 by simp
        show "nval [1] * nval (trim r) + nval (trim (q @ [cy])) * nval x = nval m"
          unfolding t1 using v x m by simp
        have "int (nval (trim (q @ [cy]))) * int (nval a) + int (nval (trim r)) = int (nval m)"
          unfolding t1 using v x m by (simp flip: of_nat_mult of_nat_add)
        then show "int (nval m) dvd int (nval (trim (q @ [cy]))) * int (nval a) + int (nval (trim r))"
          by simp
        show "gcd (nval x) (nval (trim r)) = gcd (nval a) (nval m)"
          using v x m by (simp add: gcd.commute flip: gcd_red_nat)
        show "normed [1]" by (simp add: normed_def)
      qed (use x bne t1ne in simp_all)
      then show ?thesis using False code by (auto simp: m_def)
    qed
  qed
qed

end
