(* ===== verification/Lbn_Exp.thy ===== *)
theory Lbn_Exp
  imports Lbn_Mont Lbn_Gcd
begin

text \<open>
  Windowed modular exponentiation, \<open>lbnExpMod_32\<close> of \<open>lbn32.c\<close>: the table of odd powers (whose
  allocation may fail part way), the look-ahead bit buffer over the exponent, and the main loop
  that schedules a multiplication for a later squaring.  A failed \<open>assert\<close> and a loop that does not
  end are \<open>None\<close>.
\<close>

section \<open>The code\<close>

definition cassert :: "bool \<Rightarrow> unit option" where
  "cassert c = (if c then Some () else None)"

text \<open>The result 0 with the words of the result buffer, the result -1, and a copy that reads so many
  words past the end of an allocated buffer.\<close>

datatype exp_result = Exp_OK "u32 list" | Exp_No_Memory | Exp_Over_Read nat

definition bnExpModThreshTable :: "nat list" where
  "bnExpModThreshTable = [5, 23, 80, 240, 672, 1792, 4294967295]"

text \<open>\<open>while (ebits > bnExpModThreshTable[wbits]) wbits++\<close>, along the table.\<close>

primrec window_loop :: "nat list \<Rightarrow> nat \<Rightarrow> nat \<Rightarrow> nat" where
  "window_loop [] ebits wbits = wbits"
| "window_loop (x # tbl) ebits wbits = (if ebits > x then window_loop tbl ebits (wbits + 1) else wbits)"

text \<open>Expanding the table: entry \<open>i\<close> is the allocation \<open>i + 1\<close>, after those of \<open>a\<close> (0) and \<open>b\<close> (1);
  \<open>todo\<close> entries are wanted from \<open>i\<close> on.  Then the window shrinks until its table fits.\<close>

primrec table_alloc :: "(nat \<Rightarrow> bool) \<Rightarrow> nat \<Rightarrow> nat \<Rightarrow> nat" where
  "table_alloc ok 0 i = i"
| "table_alloc ok (Suc todo) i = (if ok (i + 1) then table_alloc ok todo (i + 1) else i)"

primrec table_shrink :: "nat \<Rightarrow> nat \<Rightarrow> nat" where
  "table_shrink i 0 = 0"
| "table_shrink i (Suc wbits) = (if 2 ^ Suc wbits > i then table_shrink i wbits else Suc wbits)"

text \<open>The table entries released at once, and those released on the way out.\<close>

definition table_freed_early :: "nat \<Rightarrow> nat \<Rightarrow> nat list" where
  "table_freed_early i tblmask = rev [tblmask + 1..<i]"

definition table_freed_late :: "nat \<Rightarrow> nat list" where
  "table_freed_late tblmask = rev [1..<tblmask]"

text \<open>Each entry is the one before times \<open>n^2\<close>.\<close>

primrec table_fill :: "u32 list \<Rightarrow> u32 \<Rightarrow> u32 list \<Rightarrow> u32 list \<Rightarrow> nat \<Rightarrow> u32 list list option" where
  "table_fill md minv t prev 0 = Some []"
| "table_fill md minv t prev (Suc n) =
    do { x \<leftarrow> lbnMontMul_32 t prev md minv; xs \<leftarrow> table_fill md minv t x n; Some (x # xs) }"

text \<open>The look-ahead bit, and advancing past it: \<open>e\<close> points at word \<open>elen - 1\<close>.\<close>

definition exp_bit :: "u32 list \<Rightarrow> nat \<Rightarrow> u32 \<Rightarrow> bool" where
  "exp_bit e elen bitpos \<longleftrightarrow> e ! (elen - 1) AND bitpos \<noteq> 0"

definition exp_next :: "nat \<Rightarrow> u32 \<Rightarrow> nat \<times> u32" where
  "exp_next elen bitpos =
    (let bitpos = drop_bit 1 bitpos in if bitpos = 0 then (elen - 1, push_bit 31 1) else (elen, bitpos))"

primrec exp_preload :: "u32 list \<Rightarrow> nat \<Rightarrow> nat \<Rightarrow> nat \<Rightarrow> u32 \<Rightarrow> nat \<times> nat \<times> u32" where
  "exp_preload e 0 buf elen bitpos = (buf, elen, bitpos)"
| "exp_preload e (Suc i) buf elen bitpos =
    (let buf = push_bit 1 buf OR of_bool (exp_bit e elen bitpos);
         (elen, bitpos) = exp_next elen bitpos
     in exp_preload e i buf elen bitpos)"

text \<open>\<open>while ((buf & 1) == 0) { buf >>= 1; multpos++; }\<close>\<close>

partial_function (option) scan_low :: "nat \<Rightarrow> u32 \<Rightarrow> (nat \<times> u32) option" where
  "scan_low buf multpos =
    (if buf AND 1 = 0 then scan_low (drop_bit 1 buf) (multpos + 1) else Some (buf, multpos))"

text \<open>The variables of the main loop.  \<open>acc\<close> is the high half of the buffer \<open>b\<close>.\<close>

record exp_state =
  es_elen :: nat
  es_bitpos :: u32
  es_buf :: nat
  es_multpos :: u32
  es_mult :: "u32 list"
  es_isone :: bool
  es_acc :: "u32 list"

text \<open>Advance the window.\<close>

definition exp_advance :: "u32 list \<Rightarrow> nat \<Rightarrow> exp_state \<Rightarrow> exp_state option" where
  "exp_advance e tblmask s =
    do {
      cassert (es_buf s < tblmask);
      let buf = push_bit 1 (es_buf s);
      if es_elen s \<noteq> 0 then
        (let buf = buf OR of_bool (exp_bit e (es_elen s) (es_bitpos s));
             (elen, bitpos) = exp_next (es_elen s) (es_bitpos s)
         in Some (s\<lparr>es_buf := buf, es_elen := elen, es_bitpos := bitpos\<rparr>))
      else Some (s\<lparr>es_buf := buf\<rparr>)
    }"

text \<open>Examine the window for pending multiplies.  \<open>multpos\<close> is unsigned and may wrap on the way.\<close>

definition exp_schedule :: "u32 list list \<Rightarrow> nat \<Rightarrow> nat \<Rightarrow> exp_state \<Rightarrow> exp_state option" where
  "exp_schedule table wbits ebits s =
    (let tblmask = push_bit wbits 1 in
     if es_buf s AND tblmask \<noteq> 0 then
       do {
         (buf, multpos) \<leftarrow> scan_low (es_buf s) (word_of_nat ebits - word_of_nat wbits);
         cassert (multpos \<le> word_of_nat ebits);
         Some (s\<lparr>es_multpos := multpos, es_mult := table ! drop_bit 1 buf, es_buf := 0\<rparr>)
       }
     else Some s)"

text \<open>If we have a pending multiply, do it.\<close>

definition exp_multiply :: "u32 list \<Rightarrow> u32 \<Rightarrow> nat \<Rightarrow> exp_state \<Rightarrow> exp_state option" where
  "exp_multiply md minv ebits s =
    (if word_of_nat ebits = es_multpos s then
       (if es_isone s then Some (s\<lparr>es_acc := es_mult s, es_isone := False\<rparr>)
        else do {
          acc \<leftarrow> lbnMontMul_32 (es_acc s) (es_mult s) md minv;
          Some (s\<lparr>es_acc := acc\<rparr>)
        })
     else Some s)"

definition exp_square :: "u32 list \<Rightarrow> u32 \<Rightarrow> exp_state \<Rightarrow> exp_state option" where
  "exp_square md minv s =
    (if \<not> es_isone s then
       do { acc \<leftarrow> lbnMontSquare_32 (es_acc s) md minv; Some (s\<lparr>es_acc := acc\<rparr>) }
     else Some s)"

partial_function (option) exp_main_loop ::
  "u32 list \<Rightarrow> u32 list \<Rightarrow> u32 \<Rightarrow> u32 list list \<Rightarrow> nat \<Rightarrow> nat \<Rightarrow> exp_state \<Rightarrow> exp_state option" where
  "exp_main_loop e md minv table wbits ebits s =
    (let ebits = ebits - 1 in
     do {
       s \<leftarrow> exp_advance e (push_bit wbits 1) s;
       s \<leftarrow> exp_schedule table wbits ebits s;
       s \<leftarrow> exp_multiply md minv ebits s;
       if ebits = 0 then Some s
       else do { s \<leftarrow> exp_square md minv s; exp_main_loop e md minv table wbits ebits s }
     })"

text \<open>The first window, outside the loop: a multiply due at once by \<open>n^1\<close>, which the loop would
  then square, is the \<open>n^2\<close> already in the buffer.\<close>

definition exp_first :: "u32 list list \<Rightarrow> nat \<Rightarrow> nat \<Rightarrow> exp_state \<Rightarrow> exp_state option" where
  "exp_first table wbits ebits s =
    do {
      cassert (es_buf s AND push_bit wbits 1 \<noteq> 0);
      s \<leftarrow> exp_schedule table wbits ebits s;
      Some (if es_multpos s = word_of_nat ebits then s\<lparr>es_isone := False\<rparr> else s)
    }"

declare scan_low.simps [code] exp_main_loop.simps [code]

definition lbnExpMod_32 :: "(nat \<Rightarrow> bool) \<Rightarrow> u32 list \<Rightarrow> u32 list \<Rightarrow> u32 list \<Rightarrow> exp_result option" where
  "lbnExpMod_32 ok n e md =
    (let mlen = length md; elen = lbnNorm_32 e; e = take elen e; ebits = lbnBits_32 e in
     if elen = 0 then Some (Exp_OK (1 # lbnZero_32 (replicate (mlen - 1) 0)))
     else if ebits = 1 then Some (Exp_OK (n @ lbnZero_32 (replicate (mlen - length n) 0)))
     else
       (let wbits = window_loop bnExpModThreshTable ebits 0 in
        if \<not> ok 0 \<or> \<not> ok 1 then Some Exp_No_Memory
        else
          (let i = table_alloc ok (2 ^ wbits - 1) 1;
               wbits = table_shrink i wbits;
               tblmask = push_bit wbits 1 :: nat
           in do {
             minv \<leftarrow> lbnMontInv1_32 (md ! 0);
             let a = take mlen (lbnToMont_32 n md);
             b \<leftarrow> lbnMontSquare_32 a md minv;
             tbl \<leftarrow> table_fill md minv b a (tblmask - 1);
             let table = a # tbl;
             let bitpos = push_bit ((ebits - 1) mod 32) 1;
             cassert (exp_bit e elen bitpos);
             let (buf, elen, bitpos) = exp_preload e (wbits + 1) 0 elen bitpos;
             s \<leftarrow> exp_first table wbits (ebits - 1)
               \<lparr>es_elen = elen, es_bitpos = bitpos, es_buf = buf, es_multpos = word_of_nat ebits,
                es_mult = [], es_isone = True, es_acc = b\<rparr>;
             s \<leftarrow> exp_main_loop e md minv table wbits (ebits - 1) s;
             cassert (\<not> es_isone s);
             cassert (es_buf s = 0);
             r \<leftarrow> lbnMontReduce_32 (es_acc s @ lbnZero_32 (replicate mlen 0)) md minv;
             Some (Exp_OK r)
           })))"

section \<open>The exponent and the look-ahead reader\<close>

lemma bit_nval: "k < 32 * length e \<Longrightarrow> bit (nval e) k \<longleftrightarrow> bit (e ! (k div 32)) (k mod 32)"
proof (induction e arbitrary: k)
  case (Cons w e)
  have w: "bit (unat w) j \<longleftrightarrow> bit w j" for j by (simp add: bit_unsigned_iff)
  show ?case
  proof (cases "k < 32")
    case True
    have B: "BB = 2 ^ k * 2 ^ (32 - k)" using True by (simp flip: power_add)
    have "(unat w + BB * nval e) div 2 ^ k = (unat w + 2 ^ k * (2 ^ (32 - k) * nval e)) div 2 ^ k"
      by (subst B) (simp only: mult.assoc)
    also have "\<dots> = unat w div 2 ^ k + 2 ^ (32 - k) * nval e" by simp
    finally have "(unat w + BB * nval e) div 2 ^ k = unat w div 2 ^ k + 2 ^ (32 - k) * nval e" .
    then have "bit (nval (w # e)) k \<longleftrightarrow> bit (unat w) k"
      using True by (simp add: bit_iff_odd)
    then show ?thesis using True w by simp
  next
    case False
    then obtain j where k: "k = j + 32" by (metis add.commute le_add_diff_inverse not_less)
    have "(2 :: nat) ^ k = BB * 2 ^ j" by (simp add: k power_add)
    then have "(unat w + BB * nval e) div 2 ^ k = (unat w + BB * nval e) div BB div 2 ^ j"
      by (simp only: div_mult2_eq)
    moreover have "(unat w + BB * nval e) div BB = nval e" by simp
    ultimately have "bit (nval (w # e)) k \<longleftrightarrow> bit (nval e) j"
      unfolding bit_iff_odd nval.simps by (simp only:)
    also have "\<dots> \<longleftrightarrow> bit (e ! (j div 32)) (j mod 32)" using Cons k by simp
    finally have "bit (nval (w # e)) k \<longleftrightarrow> bit (e ! (j div 32)) (j mod 32)" .
    moreover have "k div 32 = Suc (j div 32)" "k mod 32 = j mod 32" by (simp_all add: k)
    ultimately show ?thesis by (simp only: nth_Cons_Suc)
  qed
qed simp

text \<open>\<open>r\<close> bits are still unread.\<close>

definition reader :: "nat \<Rightarrow> nat \<Rightarrow> u32 \<Rightarrow> bool" where
  "reader r elen bitpos \<longleftrightarrow>
    (if r = 0 then elen = 0 else elen = (r - 1) div 32 + 1 \<and> bitpos = push_bit ((r - 1) mod 32) 1)"

lemma exp_bit_reader:
  "reader (Suc r) elen bitpos \<Longrightarrow> Suc r \<le> 32 * length e \<Longrightarrow> exp_bit e elen bitpos \<longleftrightarrow> bit (nval e) r"
  using bit_iff_and_push_bit_not_eq_0 [of "e ! (r div 32)" "r mod 32"]
  by (simp add: reader_def exp_bit_def bit_nval)

lemma exp_next_reader:
  assumes "reader (Suc r) elen bitpos" and "exp_next elen bitpos = (elen', bitpos')"
  shows "reader r elen' bitpos'"
proof -
  have e: "elen = r div 32 + 1" "bitpos = push_bit (r mod 32) 1" using assms(1) by (simp_all add: reader_def)
  show ?thesis
  proof (cases "r mod 32 = 0")
    case True
    then have "elen' = r div 32" "bitpos' = push_bit 31 1" using assms(2) e by (simp_all add: exp_next_def)
    moreover obtain j where "r = 32 * j" using True by (auto elim: dvdE)
    ultimately show ?thesis by (cases j) (simp_all add: reader_def)
  next
    case False
    then obtain j where j: "r mod 32 = Suc j" by (cases "r mod 32") auto
    have "j < 31" using mod_less_divisor [of 32 r] j by simp
    have "drop_bit 1 (push_bit (Suc j) 1) = (push_bit j 1 :: u32)"
      by (rule bit_word_eqI, unfold bit_drop_bit_eq comp_def bit_push_bit_iff bit_1_iff)
        (use \<open>j < 31\<close> in auto)
    then have "drop_bit 1 bitpos = push_bit j 1" "push_bit j (1 :: u32) \<noteq> 0"
      using \<open>j < 31\<close> by (simp_all only: e j) simp
    then have "elen' = elen" "bitpos' = push_bit j 1" using assms(2) by (auto simp: exp_next_def)
    moreover obtain i where "r = 32 * i + Suc j" using j mult_div_mod_eq [of 32 r] by metis
    ultimately show ?thesis using \<open>j < 31\<close> by (simp add: reader_def e)
  qed
qed

lemma shift_in_bit: "push_bit 1 b OR of_bool c = 2 * b + of_bool c" for b :: nat
  by (cases c) (simp_all add: or_Suc_0_eq)

lemma div_exp_Suc: "n div 2 ^ r = 2 * (n div 2 ^ Suc r) + of_bool (bit n r)" for n :: nat
proof -
  have "n div 2 ^ Suc r = n div 2 ^ r div 2" by (simp only: power_Suc2 div_mult2_eq)
  then show ?thesis by (simp add: bit_iff_odd flip: mod_2_eq_odd)
qed

lemma exp_preload_value:
  "exp_preload e i buf elen bitpos = (buf', elen', bitpos') \<Longrightarrow> reader r elen bitpos \<Longrightarrow> i \<le> r \<Longrightarrow>
    r \<le> 32 * length e \<Longrightarrow> buf = nval e div 2 ^ r \<Longrightarrow>
    buf' = nval e div 2 ^ (r - i) \<and> reader (r - i) elen' bitpos'"
proof (induction i arbitrary: r buf elen bitpos)
  case (Suc i)
  then obtain q where r: "r = Suc q" by (cases r) auto
  obtain el bp where n: "exp_next elen bitpos = (el, bp)" by fastforce
  have rd: "reader q el bp" using exp_next_reader Suc.prems(2) n r by blast
  have "push_bit 1 buf OR of_bool (exp_bit e elen bitpos) = nval e div 2 ^ q"
    unfolding shift_in_bit using exp_bit_reader [of q elen bitpos e] Suc.prems r div_exp_Suc [of "nval e" q] by simp
  then show ?case using Suc.IH [OF _ rd] Suc.prems n r by (simp add: Let_def)
qed auto

lemma scan_low_value:
  "0 < buf \<Longrightarrow> \<exists>tz k. scan_low buf mp = Some (k, mp + word_of_nat tz) \<and> odd k \<and> buf = k * 2 ^ tz"
proof (induction buf arbitrary: mp rule: less_induct)
  case (less buf)
  show ?case
  proof (cases "even buf")
    case False
    then show ?thesis
      by (subst scan_low.simps) (auto simp: and_one_eq mod2_eq_if intro!: exI [of _ 0])
  next
    case True
    then have "buf div 2 < buf" "0 < buf div 2" using less.prems by auto
    from less.IH [OF this, of "mp + 1"] obtain tz k where
      "scan_low (buf div 2) (mp + 1) = Some (k, mp + 1 + word_of_nat tz)" "odd k" "buf div 2 = k * 2 ^ tz" by auto
    moreover have "drop_bit 1 buf = buf div 2" by (simp add: drop_bit_eq_div)
    moreover have "buf = 2 * (buf div 2)" using True by simp
    ultimately show ?thesis using True
      by (subst scan_low.simps)
        (auto simp: and_one_eq mod2_eq_if algebra_simps intro!: exI [of _ "Suc tz"])
  qed
qed

section \<open>The arithmetic of a window\<close>

text \<open>
  The exponent bits \<open>c\<close> read so far, in a window of \<open>w + 1\<close> bits whose top is at position \<open>q\<close>: what the
  accumulator has (\<open>a\<close>), the pending multiply by the power \<open>k\<close> due at position \<open>mp\<close>, and the buffer.
\<close>

definition win_inv :: "nat \<Rightarrow> nat \<Rightarrow> nat \<Rightarrow> nat \<Rightarrow> nat \<Rightarrow> nat \<Rightarrow> nat \<Rightarrow> bool" where
  "win_inv w q mp k buf a c \<longleftrightarrow>
    c = a * 2 ^ w + (if mp \<le> q then k * 2 ^ (mp + w - q) else 0) + buf \<and>
    (mp \<le> q \<longrightarrow> q \<le> mp + w \<and> buf < 2 ^ (mp + w - q))"

text \<open>After the multiply due at \<open>q\<close>, if there was one.\<close>

definition win_done :: "nat \<Rightarrow> nat \<Rightarrow> nat \<Rightarrow> nat \<Rightarrow> nat \<Rightarrow> nat \<Rightarrow> nat \<Rightarrow> bool" where
  "win_done w q mp k buf a c \<longleftrightarrow>
    c = a * 2 ^ w + (if mp < q then k * 2 ^ (mp + w - q) else 0) + buf \<and>
    (mp < q \<longrightarrow> q \<le> mp + w \<and> buf < 2 ^ (mp + w - q))"

text \<open>Before the window advances to \<open>q\<close>.\<close>

definition win_next :: "nat \<Rightarrow> nat \<Rightarrow> nat \<Rightarrow> nat \<Rightarrow> nat \<Rightarrow> nat \<Rightarrow> nat \<Rightarrow> bool" where
  "win_next w q mp k buf a c \<longleftrightarrow> win_inv w q mp k (2 * buf) a (2 * c) \<and> (mp \<le> q \<longrightarrow> q < mp + w)"

lemma win_advance:
  assumes "win_next w q mp k buf a c" and "b \<le> 1"
  shows "win_inv w q mp k (2 * buf + b) a (2 * c + b)"
proof (cases "mp \<le> q")
  case True
  then have m: "q < mp + w" "2 * buf < 2 ^ (mp + w - q)"
    using assms by (simp_all add: win_next_def win_inv_def)
  obtain j where j: "mp + w - q = Suc j" using m(1) by (cases "mp + w - q") simp_all
  then have "2 * buf + b < 2 ^ (mp + w - q)" using m(2) assms(2) by simp
  then show ?thesis using assms True by (simp add: win_next_def win_inv_def)
next
  case False
  then show ?thesis using assms by (simp add: win_next_def win_inv_def)
qed

lemma win_not_pending: "win_inv w q mp k buf a c \<Longrightarrow> 2 ^ w \<le> buf \<Longrightarrow> q < mp"
proof (rule ccontr)
  assume i: "win_inv w q mp k buf a c" "2 ^ w \<le> buf" and "\<not> q < mp"
  then have "buf < 2 ^ (mp + w - q)" "mp \<le> q" by (simp_all add: win_inv_def)
  moreover have "(2 :: nat) ^ (mp + w - q) \<le> 2 ^ w" using \<open>mp \<le> q\<close> by (intro power_increasing) simp_all
  ultimately show False using i(2) by linarith
qed

text \<open>A multiply is scheduled: \<open>d\<close> low bits of the buffer stay for later.\<close>

lemma win_schedule:
  assumes i: "win_inv w q mp k buf a c" and buf: "2 ^ w \<le> buf" "buf < 2 ^ Suc w" and d: "d \<le> w"
    and c: "2 ^ (w - q) dvd c" and k: "drop_bit d buf = k' * 2 ^ tz" "odd k'"
  shows "w \<le> q + d + tz" and "d + tz \<le> w" and "k' < 2 ^ (Suc w - d)"
    and "win_inv w q (q + d + tz - w) k' (buf mod 2 ^ d) a c"
proof -
  have np: "\<not> mp \<le> q" using win_not_pending [OF i buf(1)] by simp
  then have ceq: "c = a * 2 ^ w + buf" using i by (simp add: win_inv_def)
  have split: "buf = k' * 2 ^ tz * 2 ^ d + buf mod 2 ^ d"
    using k(1) div_mult_mod_eq [of buf "2 ^ d"] by (simp add: drop_bit_eq_div)
  have "k' * 2 ^ tz < 2 ^ (Suc w - d)"
  proof -
    have "k' * 2 ^ tz * 2 ^ d < 2 ^ (Suc w - d) * 2 ^ d"
      using split buf(2) d by (simp flip: power_add)
    then show ?thesis by simp
  qed
  moreover have "1 \<le> k'" using k(2) by (cases k') auto
  moreover have "k' * 1 \<le> k' * 2 ^ tz" "1 * 2 ^ tz \<le> k' * 2 ^ tz"
    using \<open>1 \<le> k'\<close> by (intro mult_le_mono; simp)+
  ultimately show k'lt: "k' < 2 ^ (Suc w - d)" and tz: "d + tz \<le> w"
  proof -
    show "k' < 2 ^ (Suc w - d)"
      using \<open>k' * 2 ^ tz < 2 ^ (Suc w - d)\<close> \<open>k' * 1 \<le> k' * 2 ^ tz\<close> by linarith
    have "(2 :: nat) ^ tz < 2 ^ (Suc w - d)"
      using \<open>k' * 2 ^ tz < 2 ^ (Suc w - d)\<close> \<open>1 * 2 ^ tz \<le> k' * 2 ^ tz\<close> by linarith
    then have "tz < Suc w - d" by (simp add: power_strict_increasing_iff)
    then show "d + tz \<le> w" by simp
  qed
  show wq: "w \<le> q + d + tz"
  proof (rule ccontr)
    assume n: "\<not> w \<le> q + d + tz"
    have "(2 :: nat) ^ (w - q) dvd a * 2 ^ w" by (simp add: dvd_mult le_imp_power_dvd)
    then have "2 ^ (w - q) dvd buf" using c unfolding ceq by (simp add: dvd_add_right_iff)
    then have "2 ^ (d + Suc tz) dvd buf"
      using n by (elim power_le_dvd) simp
    then have "2 ^ Suc tz dvd drop_bit d buf"
      by (auto simp: drop_bit_eq_div power_add elim!: dvdE)
    then have "2 * 2 ^ tz dvd k' * 2 ^ tz" by (simp add: k(1))
    then have "2 dvd k'" by simp
    then show False using k(2) by simp
  qed
  have "buf mod 2 ^ d < 2 ^ (d + tz)"
  proof -
    have "buf mod 2 ^ d < 2 ^ d" by simp
    also have "(2 :: nat) ^ d \<le> 2 ^ (d + tz)" by (intro power_increasing) simp_all
    finally show ?thesis .
  qed
  moreover have "q + d + tz - w + w - q = d + tz" using wq by simp
  moreover have le: "q + d + tz - w \<le> q" using tz by simp
  ultimately show "win_inv w q (q + d + tz - w) k' (buf mod 2 ^ d) a c"
    using tz wq split le by (simp add: win_inv_def ceq power_add mult.assoc mult.left_commute mult.commute)
qed

lemma win_multiply:
  "win_inv w q mp k buf a c \<Longrightarrow> win_done w q mp k buf (if mp = q then a + k else a) c"
  by (auto simp: win_inv_def win_done_def algebra_simps)

lemma win_square:
  assumes "win_done w (Suc q) mp k buf a c"
  shows "win_next w q mp k buf (2 * a) c"
proof (cases "mp < Suc q")
  case True
  then have "Suc q \<le> mp + w" "buf < 2 ^ (mp + w - Suc q)" "c = a * 2 ^ w + k * 2 ^ (mp + w - Suc q) + buf"
    using assms by (simp_all add: win_done_def)
  moreover have "mp + w - q = Suc (mp + w - Suc q)" using calculation(1) by simp
  ultimately show ?thesis using True by (simp add: win_next_def win_inv_def algebra_simps)
next
  case False
  then show ?thesis using assms by (simp add: win_next_def win_inv_def win_done_def algebra_simps)
qed

lemma win_end: "win_done w 0 mp k buf a (c * 2 ^ w) \<Longrightarrow> buf < 2 ^ w \<Longrightarrow> buf = 0 \<and> a = c"
proof -
  assume "win_done w 0 mp k buf a (c * 2 ^ w)" and b: "buf < 2 ^ w"
  then have eq: "c * 2 ^ w = a * 2 ^ w + buf" by (simp add: win_done_def)
  then have "(c * 2 ^ w) div 2 ^ w = (a * 2 ^ w + buf) div 2 ^ w" by simp
  then have "c = a" using b by simp
  then show ?thesis using eq by simp
qed

section \<open>The steps of the main loop\<close>

text \<open>\<open>table ! i\<close> holds the power \<open>2 * i + 1\<close>.\<close>

definition table_ok :: "u32 list \<Rightarrow> nat \<Rightarrow> nat \<Rightarrow> u32 list list \<Rightarrow> bool" where
  "table_ok md x w table \<longleftrightarrow>
    length table = 2 ^ w \<and> (\<forall>i < 2 ^ w. mont_rep md (x ^ (2 * i + 1)) (table ! i))"

text \<open>The accumulator holds \<open>x ^ a\<close>, and the pending multiplier \<open>x ^ k\<close>, due at \<open>mp\<close>.\<close>

definition exp_holds :: "u32 list \<Rightarrow> nat \<Rightarrow> nat \<Rightarrow> nat \<Rightarrow> nat \<Rightarrow> nat \<Rightarrow> exp_state \<Rightarrow> bool" where
  "exp_holds md x q mp k a s \<longleftrightarrow>
    es_multpos s = word_of_nat mp \<and> mp < BB \<and> (mp \<le> q \<longrightarrow> mont_rep md (x ^ k) (es_mult s)) \<and>
    (if es_isone s then a = 0 else mont_rep md (x ^ a) (es_acc s))"

text \<open>The exponent down to position \<open>q - w\<close>.\<close>

definition seen :: "u32 list \<Rightarrow> nat \<Rightarrow> nat \<Rightarrow> nat" where
  "seen e w q = nval e * 2 ^ w div 2 ^ q"

lemma seen_Suc: "seen e w q = 2 * seen e w (Suc q) + of_bool (w \<le> q \<and> bit (nval e) (q - w))"
proof -
  have "bit (nval e * 2 ^ w) q \<longleftrightarrow> w \<le> q \<and> bit (nval e) (q - w)"
    by (simp add: bit_push_bit_iff_nat flip: push_bit_eq_mult)
  then show ?thesis using div_exp_Suc [of "nval e * 2 ^ w" q] by (simp add: seen_def)
qed

lemma seen_dvd: "2 ^ (w - q) dvd seen e w q"
proof (cases "q \<le> w")
  case True
  then have "nval e * 2 ^ w = (nval e * 2 ^ (w - q)) * 2 ^ q" by (simp flip: power_add)
  then have "seen e w q = nval e * 2 ^ (w - q)" unfolding seen_def by (simp only:) simp
  then show ?thesis by simp
qed simp

lemma exp_advance_ok:
  assumes win: "win_next w q mp k (es_buf s) a (seen e w (Suc q))" and buf: "es_buf s < 2 ^ w"
    and rd: "reader (Suc q - w) (es_elen s) (es_bitpos s)" and len: "Suc q \<le> 32 * length e"
  shows "\<exists>b el bp. exp_advance e (push_bit w 1) s = Some (s\<lparr>es_buf := b, es_elen := el, es_bitpos := bp\<rparr>) \<and>
    win_inv w q mp k b a (seen e w q) \<and> b < 2 ^ Suc w \<and> reader (q - w) el bp"
proof -
  have tm: "push_bit w 1 = (2 :: nat) ^ w" by (simp add: push_bit_eq_mult)
  define c where "c = (w \<le> q \<and> bit (nval e) (q - w))"
  define b where "b = 2 * es_buf s + of_bool c"
  have inv: "win_inv w q mp k b a (seen e w q)"
    unfolding b_def seen_Suc [of e w q] c_def by (rule win_advance [OF win]) simp
  have b: "b < 2 ^ Suc w" using buf by (simp add: b_def)
  show ?thesis
  proof (cases "w \<le> q")
    case True
    then have r: "Suc q - w = Suc (q - w)" by simp
    obtain el bp where n: "exp_next (es_elen s) (es_bitpos s) = (el, bp)" by fastforce
    have "es_elen s \<noteq> 0" using rd by (simp add: r reader_def)
    moreover have "exp_bit e (es_elen s) (es_bitpos s) = c"
      using exp_bit_reader [OF rd [unfolded r]] len True by (simp add: c_def)
    moreover have "reader (q - w) el bp" by (rule exp_next_reader [OF rd [unfolded r] n])
    moreover have "push_bit 1 (es_buf s) OR of_bool c = b" by (simp only: shift_in_bit b_def)
    ultimately have "exp_advance e (push_bit w 1) s = Some (s\<lparr>es_buf := b, es_elen := el, es_bitpos := bp\<rparr>)"
      using buf n by (simp add: exp_advance_def tm cassert_def Let_def)
    then show ?thesis using inv b \<open>reader (q - w) el bp\<close> by blast
  next
    case False
    then have "es_elen s = 0" "b = push_bit 1 (es_buf s)" using rd by (simp_all add: reader_def b_def c_def)
    then show ?thesis
      using inv b buf False unfolding exp_advance_def tm
      by (auto simp: cassert_def Let_def reader_def intro!: exI [of _ "es_bitpos s"] exI [of _ b])
  qed
qed

lemma top_bit_set: "b < 2 ^ Suc w \<Longrightarrow> b AND push_bit w 1 \<noteq> 0 \<longleftrightarrow> 2 ^ w \<le> b" for b :: nat
proof -
  assume b: "b < 2 ^ Suc w"
  have "b AND push_bit w 1 \<noteq> 0 \<longleftrightarrow> odd (b div 2 ^ w)"
    by (simp only: bit_iff_and_push_bit_not_eq_0 [symmetric] bit_iff_odd)
  also have "\<dots> \<longleftrightarrow> 2 ^ w \<le> b"
  proof (cases "2 ^ w \<le> b")
    case True
    then have "b div 2 ^ w = 1" using b by (intro div_nat_eqI) simp_all
    then show ?thesis using True by simp
  qed simp
  finally show ?thesis .
qed

text \<open>The position computed with wrap-around.\<close>

lemma wrap_pos: "w \<le> q + t \<Longrightarrow> word_of_nat q - word_of_nat w + word_of_nat t = (word_of_nat (q + t - w) :: u32)"
proof -
  assume "w \<le> q + t"
  then have "word_of_nat (q + t - w) = (word_of_nat (q + t) - word_of_nat w :: u32)" by (rule of_nat_diff)
  then show ?thesis by simp
qed

lemma word_of_nat_le: "a \<le> b \<Longrightarrow> b < BB \<Longrightarrow> word_of_nat a \<le> (word_of_nat b :: u32)"
  by (simp add: word_le_nat_alt unat_of_nat)

lemma word_of_nat_eq: "a < BB \<Longrightarrow> b < BB \<Longrightarrow> word_of_nat a = (word_of_nat b :: u32) \<longleftrightarrow> a = b"
  by (simp add: word_unat_eq_iff unat_of_nat)

lemma exp_schedule_ok:
  assumes win: "win_inv w q mp k (es_buf s) a (seen e w q)" and buf: "es_buf s < 2 ^ Suc w"
    and tbl: "table_ok md x w table" and holds: "exp_holds md x q mp k a s" and q: "q < BB" and k: "k \<noteq> 0"
  shows "\<exists>b m t mp' k'. k' \<noteq> 0 \<and> exp_schedule table w q s = Some (s\<lparr>es_multpos := m, es_mult := t, es_buf := b\<rparr>) \<and>
    win_inv w q mp' k' b a (seen e w q) \<and> b < 2 ^ w \<and>
    exp_holds md x q mp' k' a (s\<lparr>es_multpos := m, es_mult := t, es_buf := b\<rparr>) \<and> (2 ^ w \<le> es_buf s \<longrightarrow> b = 0 \<and> mp' \<le> q \<and> (mp' = q \<longrightarrow> k' = 1))"
proof (cases "2 ^ w \<le> es_buf s")
  case False
  then have "exp_schedule table w q s = Some s" using top_bit_set [OF buf] by (simp add: exp_schedule_def)
  then show ?thesis using False win holds k
    by (intro exI [of _ "es_buf s"] exI [of _ "es_multpos s"] exI [of _ "es_mult s"] exI [of _ mp] exI [of _ k]) simp
next
  case True
  then have "0 < es_buf s" using gr0I by fastforce
  from scan_low_value [OF this, of "word_of_nat q - word_of_nat w"] obtain tz k' where
    scan: "scan_low (es_buf s) (word_of_nat q - word_of_nat w) = Some (k', word_of_nat q - word_of_nat w + word_of_nat tz)"
    and k': "odd k'" "es_buf s = k' * 2 ^ tz" by auto
  have "drop_bit 0 (es_buf s) = k' * 2 ^ tz" using k'(2) by simp
  note S = win_schedule [OF win True buf le0 seen_dvd this k'(1)]
  define mp' where "mp' = q + tz - w"
  have mp': "mp' \<le> q" "mp' < BB" using S(2) q by (simp_all add: mp'_def)
  have pos: "word_of_nat q - word_of_nat w + word_of_nat tz = (word_of_nat mp' :: u32)"
    unfolding mp'_def using S(1) by (intro wrap_pos) simp
  have le: "word_of_nat mp' \<le> (word_of_nat q :: u32)" by (rule word_of_nat_le [OF mp'(1) q])
  have half: "2 * drop_bit 1 k' + 1 = k'" using k'(1) by (simp add: drop_bit_eq_div)
  have "k' div 2 < 2 ^ w" using S(3) by (simp add: less_mult_imp_div_less mult.commute)
  then have t: "mont_rep md (x ^ k') (table ! drop_bit 1 k')"
    using tbl half unfolding table_ok_def drop_bit_eq_div by (metis power_one_right)
  have code: "exp_schedule table w q s =
      Some (s\<lparr>es_multpos := word_of_nat mp', es_mult := table ! drop_bit 1 k', es_buf := 0\<rparr>)"
    using scan le True top_bit_set [OF buf] by (simp add: exp_schedule_def pos cassert_def)
  have "win_inv w q mp' k' 0 a (seen e w q)" using S(4) by (simp add: mp'_def)
  moreover have "mp' = q \<longrightarrow> k' = 1"
  proof
    assume "mp' = q"
    then have "tz = w" using S(1,2) by (simp add: mp'_def)
    then have "k' * 2 ^ w < 2 * 2 ^ w" using buf k'(2) by simp
    then have "k' < 2" by simp
    then show "k' = 1" using k'(1) by (cases k') auto
  qed
  ultimately show ?thesis
    using code mp' t holds odd_pos [OF k'(1)]
    by (intro exI [of _ 0] exI [of _ "word_of_nat mp'"] exI [of _ "table ! drop_bit 1 k'"] exI [of _ mp'] exI [of _ k'])
      (simp add: exp_holds_def)
qed

lemma exp_multiply_ok:
  assumes ok: "mont_ok md minv" and win: "win_inv w q mp k b a c" and holds: "exp_holds md x q mp k a s"
    and q: "q < BB" and k: "k \<noteq> 0"
  shows "\<exists>i r a'. exp_multiply md minv q s = Some (s\<lparr>es_isone := i, es_acc := r\<rparr>) \<and>
    win_done w q mp k b a' c \<and> exp_holds md x q mp k a' (s\<lparr>es_isone := i, es_acc := r\<rparr>)"
proof (cases "mp = q")
  case False
  then have "word_of_nat q \<noteq> es_multpos s" using holds q word_of_nat_eq [of q mp] by (auto simp: exp_holds_def)
  then have "exp_multiply md minv q s = Some (s\<lparr>es_isone := es_isone s, es_acc := es_acc s\<rparr>)"
    by (simp add: exp_multiply_def)
  then show ?thesis using win_multiply [OF win] holds False by fastforce
next
  case True
  then have eq: "word_of_nat q = es_multpos s" using holds by (simp add: exp_holds_def)
  have m: "mont_rep md (x ^ k) (es_mult s)" using holds True by (simp add: exp_holds_def)
  have d: "win_done w q mp k b (a + k) c" using win_multiply [OF win] True by simp
  show ?thesis
  proof (cases "es_isone s")
    case isone: True
    then have "a = 0" using holds by (simp add: exp_holds_def)
    then show ?thesis
      using isone eq m d holds
      by (intro exI [of _ False] exI [of _ "es_mult s"] exI [of _ k]) (simp add: exp_multiply_def exp_holds_def)
  next
    case False
    then have "mont_rep md (x ^ a) (es_acc s)" using holds by (simp add: exp_holds_def)
    from lbnMontMul_rep [OF ok this m] obtain r where
      "lbnMontMul_32 (es_acc s) (es_mult s) md minv = Some r" "mont_rep md (x ^ (a + k)) r"
      by (auto simp: power_add)
    then show ?thesis
      using False eq d holds
      by (intro exI [of _ False] exI [of _ r] exI [of _ "a + k"]) (simp add: exp_multiply_def exp_holds_def)
  qed
qed

lemma exp_square_ok:
  assumes ok: "mont_ok md minv" and holds: "exp_holds md x (Suc q) mp k a s"
  shows "\<exists>r. exp_square md minv s = Some (s\<lparr>es_acc := r\<rparr>) \<and> exp_holds md x q mp k (2 * a) (s\<lparr>es_acc := r\<rparr>)"
proof (cases "es_isone s")
  case True
  then show ?thesis using holds
    by (intro exI [of _ "es_acc s"]) (simp add: exp_square_def exp_holds_def)
next
  case False
  then have "mont_rep md (x ^ a) (es_acc s)" using holds by (simp add: exp_holds_def)
  from lbnMontSquare_rep [OF ok this] obtain r where
    "lbnMontSquare_32 (es_acc s) md minv = Some r" "mont_rep md (x ^ (2 * a)) r"
    by (auto simp: power_add mult_2)
  then show ?thesis using False holds by (intro exI [of _ r]) (simp add: exp_square_def exp_holds_def)
qed

text \<open>One round up to the multiply.\<close>

lemma exp_round_ok:
  assumes ok: "mont_ok md minv" and tbl: "table_ok md x w table"
    and win: "win_next w q mp k (es_buf s) a (seen e w (Suc q))" and buf: "es_buf s < 2 ^ w"
    and rd: "reader (Suc q - w) (es_elen s) (es_bitpos s)" and holds: "exp_holds md x q mp k a s"
    and k: "k \<noteq> 0" and len: "Suc q \<le> 32 * length e" and q: "q < BB"
  shows "\<exists>s' mp' k' a'.
    exp_main_loop e md minv table w (Suc q) s =
      (if q = 0 then Some s' else do { s \<leftarrow> exp_square md minv s'; exp_main_loop e md minv table w q s }) \<and>
    win_done w q mp' k' (es_buf s') a' (seen e w q) \<and> es_buf s' < 2 ^ w \<and>
    reader (q - w) (es_elen s') (es_bitpos s') \<and> exp_holds md x q mp' k' a' s' \<and> k' \<noteq> 0"
proof -
  from exp_advance_ok [OF win buf rd len] obtain b el bp where
    1: "exp_advance e (push_bit w 1) s = Some (s\<lparr>es_buf := b, es_elen := el, es_bitpos := bp\<rparr>)"
      "win_inv w q mp k b a (seen e w q)" "b < 2 ^ Suc w" "reader (q - w) el bp" by auto
  define s1 where "s1 = s\<lparr>es_buf := b, es_elen := el, es_bitpos := bp\<rparr>"
  have s1: "exp_holds md x q mp k a s1" "win_inv w q mp k (es_buf s1) a (seen e w q)" "es_buf s1 < 2 ^ Suc w"
    using holds 1 by (simp_all add: s1_def exp_holds_def)
  from exp_schedule_ok [OF s1(2,3) tbl s1(1) q k] obtain b2 m t mp2 k2 where
    2: "k2 \<noteq> 0" "exp_schedule table w q s1 = Some (s1\<lparr>es_multpos := m, es_mult := t, es_buf := b2\<rparr>)"
      "win_inv w q mp2 k2 b2 a (seen e w q)" "b2 < 2 ^ w"
      "exp_holds md x q mp2 k2 a (s1\<lparr>es_multpos := m, es_mult := t, es_buf := b2\<rparr>)"
    by blast
  define s2 where "s2 = s1\<lparr>es_multpos := m, es_mult := t, es_buf := b2\<rparr>"
  from exp_multiply_ok [OF ok 2(3) 2(5) q 2(1)] obtain i r a' where
    3: "exp_multiply md minv q s2 = Some (s2\<lparr>es_isone := i, es_acc := r\<rparr>)"
      "win_done w q mp2 k2 b2 a' (seen e w q)" "exp_holds md x q mp2 k2 a' (s2\<lparr>es_isone := i, es_acc := r\<rparr>)"
    unfolding s2_def by blast
  define s3 where "s3 = s2\<lparr>es_isone := i, es_acc := r\<rparr>"
  have "exp_main_loop e md minv table w (Suc q) s =
      (if q = 0 then Some s3 else do { s \<leftarrow> exp_square md minv s3; exp_main_loop e md minv table w q s })"
      using 1(1) [folded s1_def] 2(2) [folded s2_def] 3(1) [folded s3_def]
      by (subst exp_main_loop.simps) simp
  then show ?thesis using 1 2 3 by (intro exI [of _ s3] exI [of _ mp2] exI [of _ k2] exI [of _ a'])
    (simp add: s3_def s2_def s1_def)
qed

lemma seen_0: "seen e w 0 = nval e * 2 ^ w"
  by (simp add: seen_def)

lemma exp_main_loop_ok:
  assumes ok: "mont_ok md minv" and tbl: "table_ok md x w table"
  shows "win_next w q mp k (es_buf s) a (seen e w (Suc q)) \<Longrightarrow> es_buf s < 2 ^ w \<Longrightarrow>
    reader (Suc q - w) (es_elen s) (es_bitpos s) \<Longrightarrow> exp_holds md x q mp k a s \<Longrightarrow> k \<noteq> 0 \<Longrightarrow>
    Suc q \<le> 32 * length e \<Longrightarrow> q < BB \<Longrightarrow>
    \<exists>s'. exp_main_loop e md minv table w (Suc q) s = Some s' \<and> es_buf s' = 0 \<and>
      (if es_isone s' then nval e = 0 else mont_rep md (x ^ nval e) (es_acc s'))"
proof (induction q arbitrary: mp k a s)
  case 0
  from exp_round_ok [OF ok tbl 0] obtain s' mp' k' a' where
    1: "exp_main_loop e md minv table w (Suc 0) s = Some s'"
      "win_done w 0 mp' k' (es_buf s') a' (seen e w 0)" "es_buf s' < 2 ^ w" "exp_holds md x 0 mp' k' a' s'"
    by auto
  from win_end [OF 1(2) [unfolded seen_0] 1(3)] have "es_buf s' = 0" "a' = nval e" by simp_all
  then show ?case using 1 by (auto simp: exp_holds_def)
next
  case (Suc q)
  from exp_round_ok [OF ok tbl Suc.prems] obtain s1 mp' k' a' where
    1: "exp_main_loop e md minv table w (Suc (Suc q)) s =
        do { s \<leftarrow> exp_square md minv s1; exp_main_loop e md minv table w (Suc q) s }"
      "win_done w (Suc q) mp' k' (es_buf s1) a' (seen e w (Suc q))" "es_buf s1 < 2 ^ w"
      "reader (Suc q - w) (es_elen s1) (es_bitpos s1)" "exp_holds md x (Suc q) mp' k' a' s1" "k' \<noteq> 0"
    by auto
  from exp_square_ok [OF ok 1(5)] obtain r where
    2: "exp_square md minv s1 = Some (s1\<lparr>es_acc := r\<rparr>)" "exp_holds md x q mp' k' (2 * a') (s1\<lparr>es_acc := r\<rparr>)" by auto
  have "\<exists>s'. exp_main_loop e md minv table w (Suc q) (s1\<lparr>es_acc := r\<rparr>) = Some s' \<and> es_buf s' = 0 \<and>
      (if es_isone s' then nval e = 0 else mont_rep md (x ^ nval e) (es_acc s'))"
    using win_square [OF 1(2)] 1 2 Suc.prems by (intro Suc.IH [of mp' k' _ "2 * a'"]) simp_all
  then show ?case using 1(1) 2(1) by simp
qed

section \<open>The whole computation\<close>

lemma table_alloc_bound: "i \<le> table_alloc ok n i \<and> table_alloc ok n i \<le> i + n"
proof (induction n arbitrary: i)
  case (Suc n)
  show ?case using Suc.IH [of "Suc i"] by simp
qed simp

lemma table_shrink_bound: "table_shrink i w \<le> w \<and> (0 < i \<longrightarrow> 2 ^ table_shrink i w \<le> i)"
  by (induction w) auto

lemma table_fill_ok:
  assumes ok: "mont_ok md minv" and t: "mont_rep md (x ^ 2) t"
  shows "mont_rep md (x ^ j) prev \<Longrightarrow>
    \<exists>tbl. table_fill md minv t prev n = Some tbl \<and> length tbl = n \<and>
      (\<forall>i < n. mont_rep md (x ^ (j + 2 * Suc i)) (tbl ! i))"
proof (induction n arbitrary: j prev)
  case (Suc n)
  from lbnMontMul_rep [OF ok t Suc.prems] obtain y where
    y1: "lbnMontMul_32 t prev md minv = Some y" "mont_rep md (x ^ 2 * x ^ j) y" by auto
  have "x ^ 2 * x ^ j = x ^ (j + 2)" by (simp add: power_add mult.commute power2_eq_square)
  then have y: "lbnMontMul_32 t prev md minv = Some y" "mont_rep md (x ^ (j + 2)) y"
    using y1 by (simp_all only:)
  from Suc.IH [OF y(2)] obtain tbl where
    tbl: "table_fill md minv t y n = Some tbl" "length tbl = n" "\<forall>i < n. mont_rep md (x ^ (j + 2 + 2 * Suc i)) (tbl ! i)"
    by auto
  have "mont_rep md (x ^ (j + 2 * Suc i)) ((y # tbl) ! i)" if "i < Suc n" for i
    using that y tbl(3) by (cases i) (auto simp: add.assoc)
  then show ?case using y tbl by simp
qed simp

text \<open>The whole table, the base itself in front.\<close>

lemma table_cons_ok:
  assumes ok: "mont_ok md minv" and a: "mont_rep md x a" and b: "mont_rep md (x ^ 2) b"
  obtains tbl where "table_fill md minv b a (2 ^ w - 1) = Some tbl" "table_ok md x w (a # tbl)"
proof -
  from table_fill_ok [OF ok b, of 1 a "2 ^ w - 1"] a obtain tbl where
    tbl: "table_fill md minv b a (2 ^ w - 1) = Some tbl" "length tbl = 2 ^ w - 1"
      "\<forall>i < 2 ^ w - 1. mont_rep md (x ^ (1 + 2 * Suc i)) (tbl ! i)" by auto
  have "table_ok md x w (a # tbl)"
    unfolding table_ok_def
  proof (intro conjI allI impI)
    fix j :: nat assume j: "j < 2 ^ w"
    show "mont_rep md (x ^ (2 * j + 1)) ((a # tbl) ! j)"
    proof (cases j)
      case (Suc i)
      then have "mont_rep md (x ^ (1 + 2 * Suc i)) (tbl ! i)" using j tbl(3) by simp
      then show ?thesis by (simp add: Suc)
    qed (use a in simp)
  qed (simp add: tbl(2))
  then show thesis using that tbl(1) by blast
qed

lemma window_small: "window_loop bnExpModThreshTable ebits 0 < ebits \<and> window_loop bnExpModThreshTable ebits 0 \<le> 7"
  if "2 \<le> ebits"
  using that by (simp add: bnExpModThreshTable_def)

text \<open>The loop from its set-up to the result: with a table for a window no longer than the exponent.\<close>

lemma expmod_body:
  assumes ok: "mont_ok md minv" and tbl: "table_ok md x w table" and b: "mont_rep md (x ^ 2) b"
    and E: "2 ^ q \<le> nval e" "nval e < 2 ^ Suc q" and w: "w \<le> q" and q: "0 < q" "Suc q < BB"
    and len: "Suc q \<le> 32 * length e" and rd: "reader (Suc q) elen bitpos"
    and pre: "exp_preload e (w + 1) 0 elen bitpos = (buf, elen', bitpos')"
    and s: "s = \<lparr>es_elen = elen', es_bitpos = bitpos', es_buf = buf, es_multpos = word_of_nat (Suc q),
                es_mult = [], es_isone = True, es_acc = b\<rparr>"
  shows "\<exists>s1 s2. exp_first table w q s = Some s1 \<and> exp_main_loop e md minv table w q s1 = Some s2 \<and>
    \<not> es_isone s2 \<and> es_buf s2 = 0 \<and> mont_rep md (x ^ nval e) (es_acc s2)"
proof -
  have "nval e div 2 ^ Suc q = 0" using E(2) by simp
  with exp_preload_value [OF pre rd] w len
  have buf: "buf = nval e div 2 ^ (q - w)" and rd': "reader (q - w) elen' bitpos'" by simp_all
  have "(2 :: nat) ^ q = 2 ^ (q - w) * 2 ^ w" using w by (simp flip: power_add)
  then have buf_seen: "buf = seen e w q" by (simp add: buf seen_def div_mult_mult2)
  have lo: "2 ^ w \<le> buf"
  proof -
    have "2 ^ q div 2 ^ (q - w) \<le> nval e div 2 ^ (q - w)" using E(1) by (rule div_le_mono)
    then show ?thesis using w by (simp add: buf \<open>2 ^ q = _\<close>)
  qed
  have hi: "buf < 2 ^ Suc w"
  proof -
    have "nval e < 2 ^ Suc w * 2 ^ (q - w)" using E(2) \<open>2 ^ q = _\<close> by (simp add: mult.commute mult.left_commute)
    then show ?thesis by (simp add: buf less_mult_imp_div_less)
  qed
  have win: "win_inv w q (Suc q) 1 (es_buf s) 0 (seen e w q)" by (simp add: win_inv_def s buf_seen)
  have hb: "es_buf s < 2 ^ Suc w" "2 ^ w \<le> es_buf s" using hi lo by (simp_all add: s)
  have holds: "exp_holds md x q (Suc q) 1 0 s" using q by (simp add: exp_holds_def s)
  have qB: "q < BB" using q by simp
  from exp_schedule_ok [OF win hb(1) tbl holds qB one_neq_zero] hb(2) obtain m t mp k where
    sch: "k \<noteq> 0" "exp_schedule table w q s = Some (s\<lparr>es_multpos := m, es_mult := t, es_buf := 0\<rparr>)"
      "win_inv w q mp k 0 0 (seen e w q)"
      "exp_holds md x q mp k 0 (s\<lparr>es_multpos := m, es_mult := t, es_buf := 0\<rparr>)" "mp \<le> q" "mp = q \<longrightarrow> k = 1"
    by auto
  define s0 where "s0 = s\<lparr>es_multpos := m, es_mult := t, es_buf := 0\<rparr>"
  have mpB: "mp < BB" "m = word_of_nat mp" using sch(4) by (simp_all add: exp_holds_def)
  have now: "es_multpos s0 = word_of_nat q \<longleftrightarrow> mp = q"
    using word_of_nat_eq [OF mpB(1) qB] by (simp add: s0_def mpB(2))
  define s1 where "s1 = (if mp = q then s0\<lparr>es_isone := False\<rparr> else s0)"
  have first: "exp_first table w q s = Some s1"
    using top_bit_set [OF hb(1)] hb(2) sch(2) now
    by (simp add: exp_first_def cassert_def s1_def flip: s0_def)
  obtain p where p: "q = Suc p" using q(1) by (cases q) auto
  have wdone: "win_done w q mp k 0 (if mp = q then 1 else 0) (seen e w q)"
    using win_multiply [OF sch(3)] sch(6) by auto
  have wnext: "win_next w p mp k (es_buf s1) (2 * (if mp = q then 1 else 0)) (seen e w (Suc p))"
    using win_square [OF wdone [unfolded p]] by (cases "mp = Suc p") (simp_all add: s1_def s0_def p)
  have holds1: "exp_holds md x p mp k (2 * (if mp = q then 1 else 0)) s1"
    using sch(4) b by (auto simp: exp_holds_def s1_def s0_def s p)
  have b1: "es_buf s1 < 2 ^ w" by (simp add: s1_def s0_def)
  have r1: "reader (Suc p - w) (es_elen s1) (es_bitpos s1)" using rd' by (simp add: s1_def s0_def s p)
  have p1: "Suc p \<le> 32 * length e" "p < BB" using len q p by simp_all
  from exp_main_loop_ok [OF ok tbl wnext b1 r1 holds1 sch(1) p1] obtain s2 where
    "exp_main_loop e md minv table w (Suc p) s1 = Some s2" "es_buf s2 = 0"
    "if es_isone s2 then nval e = 0 else mont_rep md (x ^ nval e) (es_acc s2)" by auto
  moreover have "nval e \<noteq> 0" using E(1) by (cases "nval e") simp_all
  ultimately show ?thesis using first by (auto simp: p split: if_splits)
qed

text \<open>The exponent's top bit and the reader at it.\<close>

lemma exponent_top:
  assumes "normed e" and "e \<noteq> []"
  obtains q where "lbnBits_32 e = Suc q" "2 ^ q \<le> nval e" "nval e < 2 ^ Suc q" "Suc q \<le> 32 * length e"
    "reader (Suc q) (length e) (push_bit (q mod 32) 1)" "exp_bit e (length e) (push_bit (q mod 32) 1)"
proof -
  have pos: "0 < nval e" using normed_pos assms by blast
  note B = lbnBits_value [of e]
  have "lbnBits_32 e \<noteq> 0"
  proof
    assume "lbnBits_32 e = 0"
    then show False using B pos by simp
  qed
  then obtain q where q: "lbnBits_32 e = Suc q" by (cases "lbnBits_32 e") auto
  have E: "2 ^ q \<le> nval e" "nval e < 2 ^ Suc q" "Suc q \<le> 32 * length e" using B pos by (simp_all add: q)
  have "(2 :: nat) ^ (32 * (length e - 1)) = BB ^ (length e - 1)" by (simp only: power_mult) simp
  also have "\<dots> < 2 ^ Suc q" using normed_ge [OF assms(2)] assms(1) E(2) by simp
  finally have "32 * (length e - 1) < Suc q" by (rule power_less_imp_less_exp [rotated]) simp
  moreover have "0 < length e" using assms(2) by simp
  ultimately have "q div 32 = length e - 1" using E(3) by (intro div_nat_eqI) simp_all
  then have rd: "reader (Suc q) (length e) (push_bit (q mod 32) 1)" using assms(2) by (simp add: reader_def)
  have "nval e div 2 ^ q = 1" using E by (intro div_nat_eqI) simp_all
  then have "bit (nval e) q" by (simp add: bit_iff_odd)
  then have "exp_bit e (length e) (push_bit (q mod 32) 1)" using exp_bit_reader [OF rd E(3)] by simp
  then show thesis using that q E rd by blast
qed

theorem lbnExpMod_value:
  assumes odd: "odd (hd md)" and md: "md \<noteq> []" "last md \<noteq> 0" and n: "length n \<le> length md"
    and e: "32 * length e < BB" and ok: "ok 0" "ok 1"
  shows "\<exists>r. lbnExpMod_32 ok n e md = Some (Exp_OK r) \<and> length r = length md \<and>
    nval r mod nval md = nval n ^ nval e mod nval md \<and> (1 < nval e \<longrightarrow> nval r < nval md)"
proof -
  define e' where "e' = trim e"
  have e'n: "nval e' = nval e" "normed e'" "length e' = lbnNorm_32 e" "length e' \<le> length e"
    using lbnNorm_value [of e] trim_normed [of e] trim_value [of e]
    by (simp_all only: e'_def) (simp_all add: trim_def)
  define mlen where "mlen = length md"
  have mlen: "0 < mlen" using md by (simp add: mlen_def)
  note unfold = lbnExpMod_32_def [of ok n e md, unfolded Let_def, folded trim_def, folded e'_def e'n(3), folded mlen_def]
  show ?thesis
  proof (cases "e' = []")
    case True
    then have "lbnExpMod_32 ok n e md = Some (Exp_OK (1 # lbnZero_32 (replicate (mlen - 1) 0)))" "nval e = 0"
      using e'n(1) by (simp_all add: unfold)
    then show ?thesis using mlen by (simp add: mlen_def)
  next
    case False
    obtain q where q: "lbnBits_32 e' = Suc q" "2 ^ q \<le> nval e'" "nval e' < 2 ^ Suc q" "Suc q \<le> 32 * length e'"
      "reader (Suc q) (length e') (push_bit (q mod 32) 1)" "exp_bit e' (length e') (push_bit (q mod 32) 1)"
      using exponent_top [OF e'n(2) False] by blast
    show ?thesis
    proof (cases "q = 0")
      case True
      then have "lbnExpMod_32 ok n e md = Some (Exp_OK (n @ lbnZero_32 (replicate (mlen - length n) 0)))"
        using False q(1) by (simp add: unfold)
      moreover have "nval e = 1" using True q e'n(1) by simp
      ultimately show ?thesis using n by (simp add: mlen_def nval_append)
    next
      case q0: False
      define w0 i w where "w0 = window_loop bnExpModThreshTable (Suc q) 0"
        and "i = table_alloc ok (2 ^ w0 - 1) 1" and "w = table_shrink i w0"
      have "w0 \<le> q" using window_small [of "Suc q"] q0 by (simp add: w0_def)
      then have w: "w \<le> q" using table_shrink_bound [of i w0] by (simp add: w_def)
      have hd: "md ! 0 = hd md" using md(1) by (simp add: hd_conv_nth)
      from lbnMontInv1_value [OF odd] obtain minv where minv: "lbnMontInv1_32 (md ! 0) = Some minv" "minv * hd md = - 1"
        by (auto simp: hd)
      then have mok: "mont_ok md minv" using md by (simp add: mont_ok_def)
      from lbnToMont_rep [OF md, of n] obtain a qq where
        a0: "lbnToMont_32 n md = a @ qq" "mont_rep md (nval n) a" by auto
      then have a: "take mlen (lbnToMont_32 n md) = a" by (simp add: mont_rep_def mlen_def)
      from lbnMontSquare_rep [OF mok a0(2)] obtain b where
        b: "lbnMontSquare_32 a md minv = Some b" "mont_rep md (nval n ^ 2) b" by (auto simp: power2_eq_square)
      from table_cons_ok [OF mok a0(2) b(2)] obtain tbl where
        tbl: "table_fill md minv b a (2 ^ w - 1) = Some tbl" and table: "table_ok md (nval n) w (a # tbl)" .
      obtain buf el bp where pre: "exp_preload e' (w + 1) 0 (length e') (push_bit (q mod 32) 1) = (buf, el, bp)"
        by (metis prod_cases3)
      define s where "s = \<lparr>es_elen = el, es_bitpos = bp, es_buf = buf, es_multpos = word_of_nat (Suc q),
                es_mult = [], es_isone = True, es_acc = b\<rparr>"
      have qB: "Suc q < BB" using q(4) e e'n(4) by linarith
      from expmod_body [OF mok table b(2) q(2,3) w _ qB q(4,5) pre s_def] q0 obtain s1 s2 where
        body: "exp_first (a # tbl) w q s = Some s1" "exp_main_loop e' md minv (a # tbl) w q s1 = Some s2"
          "\<not> es_isone s2" "es_buf s2 = 0" "mont_rep md (nval n ^ nval e') (es_acc s2)" by auto
      from from_mont_value [OF mok body(5)] obtain r where
        r: "lbnMontReduce_32 (es_acc s2 @ replicate (length md) 0) md minv = Some r" "length r = length md"
          "nval r = nval n ^ nval e' mod nval md" by auto
      have one: "push_bit w 1 = (2 :: nat) ^ w" by (simp add: push_bit_eq_mult)
      have neq: "length e' \<noteq> 0" "Suc q \<noteq> 1" using False q0 by simp_all
      have "lbnExpMod_32 ok n e md = Some (Exp_OK r)"
        unfolding unfold q(1) w0_def [symmetric] i_def [symmetric] w_def [symmetric] one diff_Suc_1
        using neq ok minv(1) a b(1) tbl q(6) pre body r(1)
        by (simp add: cassert_def replicate_lbnZero mlen_def flip: s_def [simplified])
      moreover have "0 < nval md" using mont_ok_odd [OF mok] by (rule odd_pos)
      ultimately show ?thesis using r e'n(1) by simp
    qed
  qed
qed

end
