(* ===== verification/Lbn_Two.thy ===== *)
theory Lbn_Two
  imports Lbn_Exp
begin

text \<open>
  \<open>lbnTwoExpMod_32\<close> of \<open>lbn32.c\<close>: powers of two modulo an odd number, used by the Fermat tests.  As
  many high bits of the exponent as fit are one shift; then square and double.
\<close>

section \<open>The code\<close>

text \<open>The first loop: consume exponent bits while \<open>2^e\<close> stays below the modulus of \<open>bits\<close> bits.
  The bit under \<open>bitpos\<close> is unconsumed when the loop ends with \<open>elen\<close> positive.\<close>

partial_function (option) two_find_e ::
  "u32 list \<Rightarrow> nat \<Rightarrow> nat \<Rightarrow> nat \<Rightarrow> u32 \<Rightarrow> (nat \<times> nat \<times> u32) option" where
  "two_find_e ex bits e elen bitpos =
    (if elen = 0 then Some (e, elen, bitpos)
     else
       (let (elen, bitpos) = exp_next elen bitpos
        in if elen = 0 then Some (e, elen, bitpos)
           else (let e = push_bit 1 e OR of_bool (exp_bit ex elen bitpos)
                 in if e \<ge> bits then Some (drop_bit 1 e, elen, bitpos)
                    else two_find_e ex bits e elen bitpos)))"

text \<open>A modular doubling: subtract the modulus on a carry or when the result exceeds it.\<close>

definition two_double :: "u32 list \<Rightarrow> u32 list \<Rightarrow> u32 list" where
  "two_double md a1 =
    (let (c, a1) = lbnDouble_32 a1
     in if c \<noteq> 0 \<or> lbnCmp_32 a1 md > 0 then snd (lbnSubN_32 a1 md) else a1)"

partial_function (option) two_loop ::
  "u32 list \<Rightarrow> u32 list \<Rightarrow> u32 \<Rightarrow> nat \<Rightarrow> u32 \<Rightarrow> u32 list \<Rightarrow> u32 list option" where
  "two_loop ex md minv elen bitpos a1 =
    (let a1 = (if exp_bit ex elen bitpos then two_double md a1 else a1);
         (elen, bitpos) = exp_next elen bitpos
     in if elen = 0 then Some a1
        else do { a1 \<leftarrow> lbnMontSquare_32 a1 md minv; two_loop ex md minv elen bitpos a1 })"

declare two_find_e.simps [code] two_loop.simps [code]

text \<open>The shift count of the case \<open>bits <= 1\<close> is the exponent's length in words, which is 1 there.\<close>

definition lbnTwoExpMod_32 :: "(nat \<Rightarrow> bool) \<Rightarrow> u32 list \<Rightarrow> u32 list \<Rightarrow> exp_result option" where
  "lbnTwoExpMod_32 ok ex md =
    (let mlen = length md; elen = length ex; n = replicate mlen 0; bits = lbnBits_32 ex
     in do {
       cassert (mlen \<noteq> 0);
       cassert (ex ! (elen - 1) \<noteq> 0);
       if bits \<le> 1 then Some (Exp_OK (n[0 := push_bit elen 1]))
       else do {
         let bitpos = push_bit ((bits - 1) mod 32) 1;
         let bits = lbnBits_32 md;
         cassert (bits > 1);
         (e, elen, bitpos) \<leftarrow> two_find_e ex bits 1 elen bitpos;
         let n = n[e div 32 := push_bit (e mod 32) 1];
         if elen = 0 then Some (Exp_OK n)
         else if \<not> ok 0 \<or> \<not> ok 1 then Some Exp_No_Memory
         else do {
           cassert (md ! 0 AND 1 \<noteq> 0);
           minv \<leftarrow> lbnMontInv1_32 (md ! 0);
           let b = take mlen (lbnToMont_32 (take (e div 32 + 1) n) md);
           a1 \<leftarrow> lbnMontSquare_32 b md minv;
           a1 \<leftarrow> two_loop ex md minv elen bitpos a1;
           r \<leftarrow> lbnMontReduce_32 (a1 @ replicate mlen 0) md minv;
           Some (Exp_OK r)
         }
       }
     })"

section \<open>Correctness\<close>

lemma two_find_e_ok:
  "reader (Suc q) elen bitpos \<Longrightarrow> Suc q \<le> 32 * length ex \<Longrightarrow> e = nval ex div 2 ^ q \<Longrightarrow> e < bits \<Longrightarrow>
    \<exists>e' elen' bitpos' r. two_find_e ex bits e elen bitpos = Some (e', elen', bitpos') \<and>
      reader r elen' bitpos' \<and> r \<le> q \<and> e' = nval ex div 2 ^ r \<and> e' < bits"
proof (induction q arbitrary: e elen bitpos)
  case 0
  obtain el bp where n: "exp_next elen bitpos = (el, bp)" by fastforce
  then have "reader 0 el bp" using exp_next_reader 0 by blast
  then have "el = 0" by (simp add: reader_def)
  then show ?case using 0 n by (subst two_find_e.simps) (auto simp: reader_def intro!: exI [of _ 0])
next
  case (Suc q)
  obtain el bp where n: "exp_next elen bitpos = (el, bp)" by fastforce
  then have rd: "reader (Suc q) el bp" using exp_next_reader Suc.prems by blast
  then have el: "el \<noteq> 0" "elen \<noteq> 0" using Suc.prems(1) by (simp_all add: reader_def)
  define e2 where "e2 = push_bit 1 e OR of_bool (exp_bit ex el bp)"
  have "exp_bit ex el bp = bit (nval ex) q" using exp_bit_reader [OF rd] Suc.prems(2) by simp
  then have e2: "e2 = nval ex div 2 ^ q"
    unfolding e2_def shift_in_bit using Suc.prems(3) div_exp_Suc [of "nval ex" q] by simp
  have code: "two_find_e ex bits e elen bitpos =
      (if e2 \<ge> bits then Some (drop_bit 1 e2, el, bp) else two_find_e ex bits e2 el bp)"
    using el n by (subst two_find_e.simps) (simp add: Let_def e2_def)
  show ?case
  proof (cases "e2 \<ge> bits")
    case True
    have "drop_bit 1 e2 = e"
      by (simp add: drop_bit_eq_div e2 Suc.prems(3) mult.commute flip: div_mult2_eq)
    then have "two_find_e ex bits e elen bitpos = Some (e, el, bp)" using True by (simp add: code)
    then show ?thesis using rd Suc.prems(3,4) by blast
  next
    case False
    from Suc.IH [OF rd _ e2] False Suc.prems obtain e' elen' bitpos' r where
      "two_find_e ex bits e2 el bp = Some (e', elen', bitpos')" "reader r elen' bitpos'" "r \<le> q"
      "e' = nval ex div 2 ^ r" "e' < bits" by auto
    then show ?thesis using False by (auto simp: code intro!: exI [of _ r])
  qed
qed

lemma two_double_rep:
  assumes odd: "odd (nval md)" and r: "mont_rep md (2 ^ k) a"
  shows "mont_rep md (2 ^ Suc k) (two_double md a)"
proof -
  obtain c d where dbl: "lbnDouble_32 a = (c, d)" by fastforce
  have a: "length a = length md" "nval a < nval md" "nval a mod nval md = 2 ^ k * BB ^ length md mod nval md"
    using r by (simp_all add: mont_rep_def)
  note v = lbnDouble_value [OF dbl]
  have len: "length d = length md" using v a by simp
  have m: "nval md < BB ^ length md" by simp
  have ne: "d \<noteq> []" using len odd by (cases md) auto
  note cmp = lbnCmp_value [OF len]
  define t where "t = two_double md a"
  have t: "length t = length md \<and> nval t < nval md \<and> (nval t = 2 * nval a \<or> nval t + nval md = 2 * nval a)"
  proof (cases "c \<noteq> 0 \<or> lbnCmp_32 d md > 0")
    case False
    then have "t = d" "c = 0" by (simp_all add: t_def two_double_def dbl)
    moreover have "nval d \<le> nval md" using False cmp by (simp split: if_splits)
    moreover have "nval d \<noteq> nval md"
    proof
      assume "nval d = nval md"
      then have "nval md = 2 * nval a" using v \<open>c = 0\<close> by simp
      then show False using odd by simp
    qed
    ultimately show ?thesis using v len by simp
  next
    case True
    obtain b s where sub: "lbnSubN_32 d md = (b, s)" by fastforce
    then have ts: "t = s" using True by (simp add: t_def two_double_def dbl)
    note w = lbnSubN_value [OF sub len ne]
    have s: "nval s < BB ^ length md" using nval_less [of s] w len by simp
    have eq: "nval s + nval md + BB ^ length md * unat c = 2 * nval a + BB ^ length md * unat b"
      using v w a(1) len by simp
    have bc: "unat b = unat c"
    proof (cases "c = 0")
      case True
      then have "nval md < nval d" using \<open>c \<noteq> 0 \<or> _\<close> cmp by (simp split: if_splits)
      have "unat b = 0"
      proof (rule ccontr)
        assume "unat b \<noteq> 0"
        then have "BB ^ length d * 1 \<le> BB ^ length d * unat b" by (intro mult_le_mono2) simp
        moreover have "nval s + nval md = nval d + BB ^ length d * unat b" using w by simp
        ultimately show False using s \<open>nval md < nval d\<close> unfolding len by linarith
      qed
      then show ?thesis using True by simp
    next
      case False
      then have c1: "unat c = 1" using v by (simp add: le_Suc_eq unat_eq_zero)
      have "unat b \<noteq> 0"
      proof
        assume "unat b = 0"
        then have "nval s + nval md = nval d" using w by simp
        then show False using v c1 a m by simp
      qed
      then show ?thesis using w c1 by simp
    qed
    then have "nval s + nval md = 2 * nval a" using eq by simp
    then show ?thesis using ts w len a by simp
  qed
  have "nval t mod nval md = 2 * nval a mod nval md"
    using t by (metis mod_add_self2)
  also have "\<dots> = 2 * (nval a mod nval md) mod nval md" by (simp add: mod_mult_right_eq)
  also have "\<dots> = 2 ^ Suc k * BB ^ length md mod nval md"
    unfolding a(3) by (simp add: mod_mult_right_eq mult.assoc)
  finally show ?thesis using t by (simp add: mont_rep_def t_def)
qed

lemma two_loop_ok:
  assumes ok: "mont_ok md minv"
  shows "reader (Suc r) elen bitpos \<Longrightarrow> Suc r \<le> 32 * length ex \<Longrightarrow>
    mont_rep md (2 ^ (2 * (nval ex div 2 ^ Suc r))) a1 \<Longrightarrow>
    \<exists>a. two_loop ex md minv elen bitpos a1 = Some a \<and> mont_rep md (2 ^ nval ex) a"
proof (induction r arbitrary: elen bitpos a1)
  case 0
  obtain el bp where n: "exp_next elen bitpos = (el, bp)" by fastforce
  then have el: "el = 0" using exp_next_reader [OF 0(1) n] by (simp add: reader_def)
  define a2 where "a2 = (if exp_bit ex elen bitpos then two_double md a1 else a1)"
  have "mont_rep md (2 ^ (nval ex div 2 ^ 0)) a2"
    using 0(3) exp_bit_reader [OF 0(1,2)] two_double_rep [OF mont_ok_odd [OF ok] 0(3)]
    unfolding div_exp_Suc [of "nval ex" 0] by (auto simp: a2_def simp del: power_Suc)
  then have "mont_rep md (2 ^ nval ex) a2" by simp
  then show ?case using n el by (subst two_loop.simps) (simp add: a2_def)
next
  case (Suc r)
  obtain el bp where n: "exp_next elen bitpos = (el, bp)" by fastforce
  then have rd: "reader (Suc r) el bp" using exp_next_reader [OF Suc.prems(1) n] by simp
  define a2 where "a2 = (if exp_bit ex elen bitpos then two_double md a1 else a1)"
  have "mont_rep md (2 ^ (nval ex div 2 ^ Suc r)) a2"
    using Suc.prems exp_bit_reader [OF Suc.prems(1,2)] two_double_rep [OF mont_ok_odd [OF ok] Suc.prems(3)]
      div_exp_Suc [of "nval ex" "Suc r"]
    by (auto simp: a2_def simp del: power_Suc)
  from lbnMontSquare_rep [OF ok this] obtain a3 where
    3: "lbnMontSquare_32 a2 md minv = Some a3" "mont_rep md (2 ^ (2 * (nval ex div 2 ^ Suc r))) a3"
    by (auto simp: mult_2 power_add)
  from Suc.IH [OF rd _ 3(2)] Suc.prems obtain a where
    "two_loop ex md minv el bp a3 = Some a" "mont_rep md (2 ^ nval ex) a" by auto
  moreover have "el \<noteq> 0" using rd by (simp add: reader_def)
  ultimately show ?case using n 3 by (subst two_loop.simps) (simp add: a2_def)
qed

lemma odd_hd: "md \<noteq> [] \<Longrightarrow> odd (nval md) \<longleftrightarrow> odd (hd md)"
proof -
  assume "md \<noteq> []"
  then obtain x xs where md: "md = x # xs" by (cases md) auto
  have "odd (nval md) \<longleftrightarrow> odd (unat x)" by (simp add: md)
  also have "\<dots> \<longleftrightarrow> odd x" using bit_unsigned_iff [of x 0, where 'a = nat] by (simp add: bit_0)
  finally show ?thesis by (simp add: md)
qed

lemma nval_set_bit:
  assumes "e div 32 < m"
  shows "nval ((replicate m 0)[e div 32 := push_bit (e mod 32) 1]) = 2 ^ e"
    and "nval (take (e div 32 + 1) ((replicate m 0)[e div 32 := push_bit (e mod 32) 1])) = 2 ^ e"
proof -
  have w: "unat (push_bit (e mod 32) (1 :: u32)) = 2 ^ (e mod 32)"
    using unat_push_32 [of "e mod 32" 1] power_strict_increasing [of "e mod 32" 32 "2 :: nat"] by simp
  have 2: "2 ^ e = BB ^ (e div 32) * 2 ^ (e mod 32)"
  proof -
    have "(2 :: nat) ^ e = 2 ^ (32 * (e div 32) + e mod 32)" by simp
    also have "\<dots> = (2 ^ 32) ^ (e div 32) * 2 ^ (e mod 32)" by (simp only: power_add power_mult)
    finally show ?thesis by simp
  qed
  define rest where "rest = replicate (m - Suc (e div 32)) (0 :: u32)"
  have split: "(replicate m 0)[e div 32 := push_bit (e mod 32) 1]
      = replicate (e div 32) 0 @ push_bit (e mod 32) 1 # rest"
    using assms by (simp add: upd_conv_take_nth_drop rest_def min_absorb1)
  show "nval ((replicate m 0)[e div 32 := push_bit (e mod 32) 1]) = 2 ^ e"
    unfolding split by (simp add: nval_append w [simplified] 2 rest_def)
  show "nval (take (e div 32 + 1) ((replicate m 0)[e div 32 := push_bit (e mod 32) 1])) = 2 ^ e"
    unfolding split by (simp add: nval_append w [simplified] 2)
qed

theorem lbnTwoExpMod_value:
  assumes odd: "odd (hd md)" and md: "md \<noteq> []" "last md \<noteq> 0" "1 < nval md"
    and ex: "ex \<noteq> []" "last ex \<noteq> 0" and ok: "ok 0" "ok 1"
  shows "\<exists>r. lbnTwoExpMod_32 ok ex md = Some (Exp_OK r) \<and> length r = length md \<and>
    nval r mod nval md = 2 ^ nval ex mod nval md"
proof -
  define mlen where "mlen = length md"
  have mlen: "mlen \<noteq> 0" using md by (simp add: mlen_def)
  have last: "ex ! (length ex - 1) \<noteq> 0" using ex by (simp add: last_conv_nth)
  obtain q where q: "lbnBits_32 ex = Suc q" "2 ^ q \<le> nval ex" "nval ex < 2 ^ Suc q" "Suc q \<le> 32 * length ex"
      "reader (Suc q) (length ex) (push_bit (q mod 32) 1)"
    using exponent_top [of ex] ex by (auto simp: normed_def)
  note B = lbnBits_value [of md]
  define bits where "bits = lbnBits_32 md"
  have bits: "nval md < 2 ^ bits" "2 ^ bits \<le> 2 * nval md" "bits \<le> 32 * mlen" using B md by (simp_all add: bits_def mlen_def)
  have bits1: "1 < bits"
  proof (rule ccontr)
    assume "\<not> 1 < bits"
    then have "(2 :: nat) ^ bits \<le> 2 ^ 1" by (intro power_increasing) simp_all
    then show False using bits md(3) by simp
  qed
  note unfold = lbnTwoExpMod_32_def [of ok ex md, unfolded Let_def, folded mlen_def bits_def]
  show ?thesis
  proof (cases "q = 0")
    case True
    then have ex1: "nval ex = 1" using q by simp
    have "length ex \<le> 1" using normed_length_le [of ex 1] ex ex1 by (simp add: normed_def)
    then have l1: "length ex = 1" using ex by (cases ex) simp_all
    have "lbnTwoExpMod_32 ok ex md = Some (Exp_OK ((replicate mlen 0)[0 := push_bit 1 1]))"
      using True mlen last q(1) l1 by (simp add: unfold cassert_def)
    moreover have "nval ((replicate mlen 0)[0 := push_bit 1 1]) = 2"
      using nval_set_bit(1) [of 1 mlen] mlen by simp
    ultimately show ?thesis using ex1 by (simp add: mlen_def)
  next
    case q0: False
    have "1 = nval ex div 2 ^ q" using q by (intro div_nat_eqI [symmetric]) simp_all
    from two_find_e_ok [OF q(5,4) this bits1] obtain e el bp r where
      f: "two_find_e ex bits 1 (length ex) (push_bit (q mod 32) 1) = Some (e, el, bp)"
        "reader r el bp" "r \<le> q" "e = nval ex div 2 ^ r" "e < bits" by auto
    define n where "n = (replicate mlen 0)[e div 32 := push_bit (e mod 32) (1 :: u32)]"
    have "e div 32 < mlen" using f(5) bits(3) by (simp add: less_mult_imp_div_less mult.commute)
    note n = nval_set_bit [OF this, folded n_def]
    have start: "lbnTwoExpMod_32 ok ex md =
        (if el = 0 then Some (Exp_OK n)
         else if \<not> ok 0 \<or> \<not> ok 1 then Some Exp_No_Memory
         else do {
           cassert (md ! 0 AND 1 \<noteq> 0);
           minv \<leftarrow> lbnMontInv1_32 (md ! 0);
           a1 \<leftarrow> lbnMontSquare_32 (take mlen (lbnToMont_32 (take (e div 32 + 1) n) md)) md minv;
           a1 \<leftarrow> two_loop ex md minv el bp a1;
           r \<leftarrow> lbnMontReduce_32 (a1 @ replicate mlen 0) md minv;
           Some (Exp_OK r)
         })"
      unfolding unfold q(1) diff_Suc_1 f(1) n_def
      using q0 mlen last bits1 by (simp add: cassert_def)
    show ?thesis
    proof (cases "r = 0")
      case True
      then have "el = 0" "e = nval ex" using f by (simp_all add: reader_def)
      then show ?thesis using start n(1) by (simp add: n_def mlen_def)
    next
      case False
      then obtain r' where r: "r = Suc r'" by (cases r) auto
      have hd: "md ! 0 = hd md" using md(1) by (simp add: hd_conv_nth)
      from lbnMontInv1_value [OF odd] obtain minv where
        minv: "lbnMontInv1_32 (md ! 0) = Some minv" "minv * hd md = - 1" by (auto simp: hd)
      then have mok: "mont_ok md minv" using md by (simp add: mont_ok_def)
      from lbnToMont_rep [OF md(1,2), of "take (e div 32 + 1) n"] obtain b qq where
        b0: "lbnToMont_32 (take (e div 32 + 1) n) md = b @ qq" "mont_rep md (2 ^ e) b" unfolding n(2) by auto
      then have b: "take mlen (lbnToMont_32 (take (e div 32 + 1) n) md) = b" by (simp add: mont_rep_def mlen_def)
      from lbnMontSquare_rep [OF mok b0(2)] obtain a1 where
        a1: "lbnMontSquare_32 b md minv = Some a1" "mont_rep md (2 ^ (2 * (nval ex div 2 ^ Suc r'))) a1"
        using f(4) r by (auto simp: mult_2 power_add)
      have "Suc r' \<le> 32 * length ex" using f(3) q(4) r by simp
      from two_loop_ok [OF mok f(2) [unfolded r] this a1(2)] obtain a2 where
        a2: "two_loop ex md minv el bp a1 = Some a2" "mont_rep md (2 ^ nval ex) a2" by auto
      from from_mont_value [OF mok a2(2)] obtain y where
        y: "lbnMontReduce_32 (a2 @ replicate mlen 0) md minv = Some y" "length y = mlen"
          "nval y = 2 ^ nval ex mod nval md" by (auto simp: mlen_def)
      have "el \<noteq> 0" using f(2) r by (simp add: reader_def)
      moreover have "md ! 0 AND 1 \<noteq> 0" using odd by (simp add: hd and_one_eq odd_iff_mod_2_eq_one)
      ultimately have "lbnTwoExpMod_32 ok ex md = Some (Exp_OK y)"
        unfolding start b using ok minv(1) a1(1) a2(1) y(1) by (simp add: cassert_def)
      then show ?thesis using y by (simp add: mlen_def)
    qed
  qed
qed

end
