(* ===== verification/Lbn_Double.thy ===== *)
theory Lbn_Double
  imports Lbn_Exp
begin

text \<open>
  \<open>lbnDoubleExpMod_32\<close> of \<open>lbn32.c\<close>: the product of two powers modulo an odd number, with two
  windows over the two exponents and one chain of squarings.
\<close>

section \<open>The code\<close>

text \<open>Both tables grow together, the second up to its own size \<open>size2\<close>; \<open>c\<close> counts the allocations.\<close>

primrec dtable_alloc :: "(nat \<Rightarrow> bool) \<Rightarrow> nat \<Rightarrow> nat \<Rightarrow> nat \<Rightarrow> nat \<Rightarrow> nat" where
  "dtable_alloc ok size2 0 i c = i"
| "dtable_alloc ok size2 (Suc todo) i c =
    (if \<not> ok c then i
     else if i < size2 then
       (if \<not> ok (c + 1) then i else dtable_alloc ok size2 todo (i + 1) (c + 2))
     else dtable_alloc ok size2 todo (i + 1) (c + 1))"

primrec dexp_preload :: "u32 list \<Rightarrow> u32 list \<Rightarrow> nat \<Rightarrow> nat \<Rightarrow> nat \<Rightarrow> nat \<Rightarrow> u32 \<Rightarrow> nat \<times> nat \<times> nat \<times> u32" where
  "dexp_preload e1 e2 0 buf1 buf2 elen bitpos = (buf1, buf2, elen, bitpos)"
| "dexp_preload e1 e2 (Suc i) buf1 buf2 elen bitpos =
    (let buf1 = push_bit 1 buf1 OR of_bool (exp_bit e1 elen bitpos);
         buf2 = (if elen \<le> length e2 then push_bit 1 buf2 OR of_bool (exp_bit e2 elen bitpos) else buf2);
         (elen, bitpos) = exp_next elen bitpos
     in dexp_preload e1 e2 i buf1 buf2 elen bitpos)"

record dexp_state =
  ds_elen :: nat
  ds_bitpos :: u32
  ds_buf1 :: nat
  ds_mult1pos :: u32
  ds_mult1 :: "u32 list"
  ds_buf2 :: nat
  ds_mult2pos :: u32
  ds_mult2 :: "u32 list"
  ds_isone :: bool
  ds_acc :: "u32 list"

text \<open>Advance the windows.\<close>

definition dexp_advance :: "u32 list \<Rightarrow> u32 list \<Rightarrow> nat \<Rightarrow> dexp_state \<Rightarrow> dexp_state option" where
  "dexp_advance e1 e2 tblmask s =
    do {
      cassert (ds_buf1 s < tblmask);
      let buf1 = push_bit 1 (ds_buf1 s);
      cassert (ds_buf2 s < tblmask);
      let buf2 = push_bit 1 (ds_buf2 s);
      if ds_elen s \<noteq> 0 then
        (let buf1 = buf1 OR of_bool (exp_bit e1 (ds_elen s) (ds_bitpos s));
             buf2 = (if ds_elen s \<le> length e2
                     then buf2 OR of_bool (exp_bit e2 (ds_elen s) (ds_bitpos s)) else buf2);
             (elen, bitpos) = exp_next (ds_elen s) (ds_bitpos s)
         in Some (s\<lparr>ds_buf1 := buf1, ds_buf2 := buf2, ds_elen := elen, ds_bitpos := bitpos\<rparr>))
      else Some (s\<lparr>ds_buf1 := buf1, ds_buf2 := buf2\<rparr>)
    }"

definition dexp_schedule1 :: "u32 list list \<Rightarrow> nat \<Rightarrow> nat \<Rightarrow> dexp_state \<Rightarrow> dexp_state option" where
  "dexp_schedule1 table1 w1bits ebits s =
    (if ds_buf1 s AND push_bit w1bits 1 \<noteq> 0 then
       do {
         (buf1, mult1pos) \<leftarrow> scan_low (ds_buf1 s) (word_of_nat ebits - word_of_nat w1bits);
         cassert (mult1pos \<le> word_of_nat ebits);
         Some (s\<lparr>ds_mult1pos := mult1pos, ds_mult1 := table1 ! drop_bit 1 buf1, ds_buf1 := 0\<rparr>)
       }
     else Some s)"

text \<open>The second window may be smaller: the low \<open>w2bits\<close> bits of the buffer (the difference, here) are
  remembered for later.\<close>

definition dexp_schedule2 :: "u32 list list \<Rightarrow> nat \<Rightarrow> nat \<Rightarrow> nat \<Rightarrow> dexp_state \<Rightarrow> dexp_state option" where
  "dexp_schedule2 table2 w1bits w2bits ebits s =
    (if ds_buf2 s AND push_bit w1bits 1 \<noteq> 0 then
       (let i = ds_buf2 s AND (push_bit w2bits 1 - 1);
            buf2 = drop_bit w2bits (ds_buf2 s)
        in do {
         (buf2, mult2pos) \<leftarrow> scan_low buf2 (word_of_nat ebits - word_of_nat w1bits + word_of_nat w2bits);
         cassert (mult2pos \<le> word_of_nat ebits);
         Some (s\<lparr>ds_mult2pos := mult2pos, ds_mult2 := table2 ! drop_bit 1 buf2, ds_buf2 := i\<rparr>)
       })
     else Some s)"

text \<open>A multiply into the accumulator, which may still be the implicit 1.\<close>

definition dexp_times :: "u32 list \<Rightarrow> u32 \<Rightarrow> u32 list \<Rightarrow> dexp_state \<Rightarrow> dexp_state option" where
  "dexp_times md minv m s =
    (if ds_isone s then Some (s\<lparr>ds_acc := m, ds_isone := False\<rparr>)
     else do { acc \<leftarrow> lbnMontMul_32 (ds_acc s) m md minv; Some (s\<lparr>ds_acc := acc\<rparr>) })"

definition dexp_multiply :: "u32 list \<Rightarrow> u32 \<Rightarrow> nat \<Rightarrow> dexp_state \<Rightarrow> dexp_state option" where
  "dexp_multiply md minv ebits s =
    do {
      s \<leftarrow> (if word_of_nat ebits = ds_mult1pos s then dexp_times md minv (ds_mult1 s) s else Some s);
      if word_of_nat ebits = ds_mult2pos s then dexp_times md minv (ds_mult2 s) s else Some s
    }"

definition dexp_square :: "u32 list \<Rightarrow> u32 \<Rightarrow> dexp_state \<Rightarrow> dexp_state option" where
  "dexp_square md minv s =
    (if \<not> ds_isone s then
       do { acc \<leftarrow> lbnMontSquare_32 (ds_acc s) md minv; Some (s\<lparr>ds_acc := acc\<rparr>) }
     else Some s)"

partial_function (option) dexp_main_loop ::
  "u32 list \<Rightarrow> u32 list \<Rightarrow> u32 list \<Rightarrow> u32 \<Rightarrow> u32 list list \<Rightarrow> u32 list list \<Rightarrow> nat \<Rightarrow> nat \<Rightarrow> nat \<Rightarrow>
    dexp_state \<Rightarrow> dexp_state option" where
  "dexp_main_loop e1 e2 md minv table1 table2 w1bits w2bits ebits s =
    (let ebits = ebits - 1 in
     do {
       s \<leftarrow> dexp_advance e1 e2 (push_bit w1bits 1) s;
       s \<leftarrow> dexp_schedule1 table1 w1bits ebits s;
       s \<leftarrow> dexp_schedule2 table2 w1bits w2bits ebits s;
       s \<leftarrow> dexp_multiply md minv ebits s;
       if ebits = 0 then Some s
       else do {
         s \<leftarrow> dexp_square md minv s;
         dexp_main_loop e1 e2 md minv table1 table2 w1bits w2bits ebits s
       }
     })"

declare dexp_main_loop.simps [code]

text \<open>The first windows: the squares \<open>n1^2\<close> (in the accumulator) and \<open>n2^2\<close> (\<open>b2\<close>, the low half of
  the buffer) are at hand.\<close>

definition dexp_first ::
  "u32 list \<Rightarrow> u32 \<Rightarrow> u32 list list \<Rightarrow> u32 list list \<Rightarrow> nat \<Rightarrow> nat \<Rightarrow> nat \<Rightarrow> u32 list \<Rightarrow>
    dexp_state \<Rightarrow> dexp_state option" where
  "dexp_first md minv table1 table2 w1bits w2bits ebits b2 s =
    do {
      cassert (ds_buf1 s AND push_bit w1bits 1 \<noteq> 0);
      s \<leftarrow> dexp_schedule1 table1 w1bits ebits s;
      let s = (if ds_mult1pos s = word_of_nat ebits then s\<lparr>ds_isone := False\<rparr> else s);
      if ds_buf2 s AND push_bit w1bits 1 \<noteq> 0 then
        do {
          s \<leftarrow> dexp_schedule2 table2 w1bits w2bits ebits s;
          if ds_mult2pos s = word_of_nat ebits then dexp_times md minv b2 s else Some s
        }
      else Some s
    }"

text \<open>Both exponents 1: the product, reduced when it is long enough, and \<open>mlen\<close> words of it copied.\<close>

definition dexp_product :: "(nat \<Rightarrow> bool) \<Rightarrow> u32 list \<Rightarrow> u32 list \<Rightarrow> u32 list \<Rightarrow> exp_result" where
  "dexp_product ok n1 n2 md =
    (if \<not> ok 0 then Exp_No_Memory
     else
       (let a = lbnMul_32 n1 n2;
            a = (if length n1 + length n2 \<ge> length md then (let (_, q, r, _) = lbnDiv_32 a md in r @ q) else a)
        in if length a < length md then Exp_Over_Read (length md - length a)
           else Exp_OK (take (length md) a)))"

text \<open>The tables, the loops and the conversion back, for exponents of at least two bits.\<close>

definition dexp_general ::
  "(nat \<Rightarrow> bool) \<Rightarrow> u32 list \<Rightarrow> u32 list \<Rightarrow> u32 list \<Rightarrow> u32 list \<Rightarrow> u32 list \<Rightarrow> exp_result option" where
  "dexp_general ok n1 e1 n2 e2 md =
    (let mlen = length md; e1bits = lbnBits_32 e1; e2bits = lbnBits_32 e2;
         w1bits = window_loop bnExpModThreshTable e1bits 0;
         w2bits = window_loop bnExpModThreshTable e2bits 0
     in do {
       cassert (w1bits \<ge> w2bits);
       if \<not> ok 0 \<or> \<not> ok 1 \<or> \<not> ok 2 then Some Exp_No_Memory
       else
         (let i = dtable_alloc ok (2 ^ w2bits) (2 ^ w1bits - 1) 1 3;
              w1bits = table_shrink i w1bits;
              w2bits = (if w2bits > w1bits then w1bits else w2bits);
              size1 = push_bit w1bits 1 :: nat;
              size2 = push_bit w2bits 1 :: nat;
              w2bits = w1bits - w2bits
          in do {
            minv \<leftarrow> lbnMontInv1_32 (md ! 0);
            let a1 = take mlen (lbnToMont_32 n1 md);
            b1 \<leftarrow> lbnMontSquare_32 a1 md minv;
            tbl1 \<leftarrow> table_fill md minv b1 a1 (size1 - 1);
            let a2 = take mlen (lbnToMont_32 n2 md);
            b2 \<leftarrow> lbnMontSquare_32 a2 md minv;
            tbl2 \<leftarrow> table_fill md minv b2 a2 (size2 - 1);
            let bitpos = push_bit ((e1bits - 1) mod 32) 1;
            cassert (exp_bit e1 (length e1) bitpos);
            let (buf1, buf2, elen, bitpos) = dexp_preload e1 e2 (w1bits + 1) 0 0 (length e1) bitpos;
            s \<leftarrow> dexp_first md minv (a1 # tbl1) (a2 # tbl2) w1bits w2bits (e1bits - 1) b2
              \<lparr>ds_elen = elen, ds_bitpos = bitpos, ds_buf1 = buf1, ds_mult1pos = word_of_nat e1bits,
               ds_mult1 = [], ds_buf2 = buf2, ds_mult2pos = word_of_nat e1bits, ds_mult2 = [],
               ds_isone = True, ds_acc = b1\<rparr>;
            s \<leftarrow> dexp_main_loop e1 e2 md minv (a1 # tbl1) (a2 # tbl2) w1bits w2bits (e1bits - 1) s;
            cassert (\<not> ds_isone s);
            cassert (ds_buf1 s = 0);
            cassert (ds_buf2 s = 0);
            r \<leftarrow> lbnMontReduce_32 (ds_acc s @ lbnZero_32 (replicate mlen 0)) md minv;
            Some (Exp_OK r)
          })
     })"

definition lbnDoubleExpMod_32 ::
  "(nat \<Rightarrow> bool) \<Rightarrow> u32 list \<Rightarrow> u32 list \<Rightarrow> u32 list \<Rightarrow> u32 list \<Rightarrow> u32 list \<Rightarrow> exp_result option" where
  "lbnDoubleExpMod_32 ok n1 e1 n2 e2 md =
    (let e1 = trim e1; e2 = trim e2;
         (n1, e1, n2, e2) =
           (if lbnBits_32 e1 < lbnBits_32 e2 then (n2, e2, n1, e1) else (n1, e1, n2, e2))
     in if e2 = [] then lbnExpMod_32 ok n1 e1 md
        else if lbnBits_32 e1 = 1 then Some (dexp_product ok n1 n2 md)
        else dexp_general ok n1 e1 n2 e2 md)"

section \<open>Reading two exponents\<close>

lemma exp_bit2_reader:
  assumes "reader (Suc r) elen bitpos"
  shows "(elen \<le> length e2 \<and> exp_bit e2 elen bitpos) \<longleftrightarrow> bit (nval e2) r"
proof (cases "elen \<le> length e2")
  case True
  have "r div 32 + 1 \<le> length e2" using assms True by (simp add: reader_def)
  then have "r div 32 < length e2" by simp
  then have "r < length e2 * 32" by (simp only: div_less_iff_less_mult)
  then have "Suc r \<le> 32 * length e2" by simp
  then show ?thesis using exp_bit_reader [OF assms] True by simp
next
  case False
  have "length e2 \<le> r div 32" using assms False by (simp add: reader_def)
  then have le: "32 * length e2 \<le> r" by (simp add: less_eq_div_iff_mult_less_eq mult.commute)
  have "nval e2 < BB ^ length e2" by simp
  also have "BB ^ length e2 = (2 :: nat) ^ (32 * length e2)" by (simp only: power_mult) simp
  also have "\<dots> \<le> 2 ^ r" using le by (intro power_increasing) simp_all
  finally show ?thesis using False by (simp add: bit_iff_odd)
qed

lemma dexp_preload_value:
  "dexp_preload e1 e2 i buf1 buf2 elen bitpos = (b1, b2, elen', bitpos') \<Longrightarrow> reader r elen bitpos \<Longrightarrow> i \<le> r \<Longrightarrow>
    r \<le> 32 * length e1 \<Longrightarrow> buf1 = nval e1 div 2 ^ r \<Longrightarrow> buf2 = nval e2 div 2 ^ r \<Longrightarrow>
    b1 = nval e1 div 2 ^ (r - i) \<and> b2 = nval e2 div 2 ^ (r - i) \<and> reader (r - i) elen' bitpos'"
proof (induction i arbitrary: r buf1 buf2 elen bitpos)
  case (Suc i)
  then obtain q where r: "r = Suc q" by (cases r) auto
  obtain el bp where n: "exp_next elen bitpos = (el, bp)" by fastforce
  have rd: "reader q el bp" using exp_next_reader Suc.prems(2) n r by blast
  note rd' = Suc.prems(2) [unfolded r]
  have 1: "push_bit 1 buf1 OR of_bool (exp_bit e1 elen bitpos) = nval e1 div 2 ^ q"
    unfolding shift_in_bit using exp_bit_reader [OF rd'] Suc.prems r div_exp_Suc [of "nval e1" q] by simp
  have 2: "(if elen \<le> length e2 then push_bit 1 buf2 OR of_bool (exp_bit e2 elen bitpos) else buf2) = nval e2 div 2 ^ q"
  proof (cases "elen \<le> length e2")
    case True
    then show ?thesis
      unfolding shift_in_bit using exp_bit2_reader [OF rd', of e2] Suc.prems r div_exp_Suc [of "nval e2" q] by simp
  next
    case False
    then have "length e2 \<le> q div 32" using rd' by (simp add: reader_def)
    then have le: "32 * length e2 \<le> q" by (simp add: less_eq_div_iff_mult_less_eq mult.commute)
    have "nval e2 < BB ^ length e2" by simp
    also have "BB ^ length e2 = (2 :: nat) ^ (32 * length e2)" by (simp only: power_mult) simp
    also have "\<dots> \<le> 2 ^ q" using le by (intro power_increasing) simp_all
    finally have "nval e2 < 2 ^ q" .
    then show ?thesis using False Suc.prems(6) r by simp
  qed
  have "dexp_preload e1 e2 i (nval e1 div 2 ^ q) (nval e2 div 2 ^ q) el bp = (b1, b2, elen', bitpos')"
    using Suc.prems(1) n unfolding dexp_preload.simps Let_def 1 2 by simp
  then show ?case using Suc.IH [OF _ rd _ _ refl refl] Suc.prems r by simp
qed auto

section \<open>One window\<close>

text \<open>The pending multiplier \<open>x ^ k\<close> of a window, due at \<open>mp\<close>.\<close>

definition pending :: "u32 list \<Rightarrow> nat \<Rightarrow> nat \<Rightarrow> nat \<Rightarrow> nat \<Rightarrow> u32 \<Rightarrow> u32 list \<Rightarrow> bool" where
  "pending md x q mp k m t \<longleftrightarrow>
    m = word_of_nat mp \<and> mp < BB \<and> k \<noteq> 0 \<and> (mp \<le> q \<longrightarrow> mont_rep md (x ^ k) t)"

lemma pending_now: "pending md x q mp k m t \<Longrightarrow> q < BB \<Longrightarrow> word_of_nat q = m \<longleftrightarrow> mp = q"
  using word_of_nat_eq [of mp q] by (auto simp: pending_def)

lemma pending_mono: "pending md x q mp k m t \<Longrightarrow> p \<le> q \<Longrightarrow> pending md x p mp k m t"
  by (auto simp: pending_def)

text \<open>Scheduling a multiply from a buffer with its top bit set, \<open>d\<close> low bits kept.\<close>

lemma schedule_core:
  assumes win: "win_inv w q mp k buf a c" and buf: "2 ^ w \<le> buf" "buf < 2 ^ Suc w" and d: "d \<le> w"
    and c: "2 ^ (w - q) dvd c" and q: "q < BB" and tbl: "table_ok md x (w - d) table"
  obtains k' mp' where
    "scan_low (drop_bit d buf) (word_of_nat q - word_of_nat w + word_of_nat d) = Some (k', word_of_nat mp')"
    "win_inv w q mp' k' (buf mod 2 ^ d) a c" "pending md x q mp' k' (word_of_nat mp') (table ! drop_bit 1 k')"
    "word_of_nat mp' \<le> (word_of_nat q :: u32)" "mp' \<le> q" "mp' = q \<longrightarrow> k' = 1" "buf mod 2 ^ d < 2 ^ w"
proof -
  have "(2 :: nat) ^ d \<le> 2 ^ w" using d by (intro power_increasing) simp_all
  then have "2 ^ d \<le> buf" using buf(1) by linarith
  then have "0 < drop_bit d buf" by (simp add: drop_bit_eq_div div_greater_zero_iff)
  from scan_low_value [OF this, of "word_of_nat q - word_of_nat w + word_of_nat d"] obtain tz k' where
    scan: "scan_low (drop_bit d buf) (word_of_nat q - word_of_nat w + word_of_nat d)
        = Some (k', word_of_nat q - word_of_nat w + word_of_nat d + word_of_nat tz)"
    and k': "odd k'" "drop_bit d buf = k' * 2 ^ tz" by auto
  note S = win_schedule [OF win buf d c k'(2,1)]
  define mp' where "mp' = q + d + tz - w"
  have mp': "mp' \<le> q" "mp' < BB" using S(2) q by (simp_all add: mp'_def)
  have pos: "word_of_nat q - word_of_nat w + word_of_nat d + word_of_nat tz = (word_of_nat mp' :: u32)"
    using wrap_pos [of w q "d + tz"] S(1) by (simp add: mp'_def add.assoc)
  have half: "2 * drop_bit 1 k' + 1 = k'" using k'(1) by (simp add: drop_bit_eq_div)
  have sw: "(2 :: nat) ^ (Suc w - d) = 2 * 2 ^ (w - d)" using d by (simp add: Suc_diff_le)
  then have "k' div 2 < 2 ^ (w - d)" using S(3) by (simp add: less_mult_imp_div_less mult.commute)
  then have t: "mont_rep md (x ^ k') (table ! drop_bit 1 k')"
    using tbl half unfolding table_ok_def drop_bit_eq_div by (metis power_one_right)
  have one: "mp' = q \<longrightarrow> k' = 1"
  proof
    assume "mp' = q"
    then have "tz = w - d" using S(1,2) by (simp add: mp'_def)
    moreover have "buf div 2 ^ d < 2 ^ (Suc w - d)"
    proof -
      have "buf < 2 ^ (Suc w - d) * 2 ^ d" using buf(2) d by (simp flip: power_add)
      then show ?thesis by (simp add: less_mult_imp_div_less)
    qed
    ultimately have "k' * 2 ^ (w - d) < 2 * 2 ^ (w - d)" using k'(2) sw by (simp add: drop_bit_eq_div)
    then have "k' < 2" by simp
    then show "k' = 1" using k'(1) by (cases k') auto
  qed
  have "pending md x q mp' k' (word_of_nat mp') (table ! drop_bit 1 k')"
    using t mp' odd_pos [OF k'(1)] by (simp add: pending_def)
  moreover have "word_of_nat mp' \<le> (word_of_nat q :: u32)" by (rule word_of_nat_le [OF mp'(1) q])
  moreover have "buf mod 2 ^ d < 2 ^ w"
    by (rule less_le_trans [OF _ \<open>(2 :: nat) ^ d \<le> 2 ^ w\<close>]) simp
  ultimately show thesis using that [of k' mp'] scan S(4) mp' one by (simp add: pos mp'_def)
qed

section \<open>The steps of the main loop\<close>

text \<open>The accumulator holds \<open>x1 ^ a1 * x2 ^ a2\<close>.\<close>

definition dacc :: "u32 list \<Rightarrow> nat \<Rightarrow> nat \<Rightarrow> nat \<Rightarrow> nat \<Rightarrow> dexp_state \<Rightarrow> bool" where
  "dacc md x1 x2 a1 a2 s \<longleftrightarrow>
    (if ds_isone s then a1 = 0 \<and> a2 = 0 else mont_rep md (x1 ^ a1 * x2 ^ a2) (ds_acc s))"

lemma dexp_times_ok:
  assumes ok: "mont_ok md minv" and acc: "dacc md x1 x2 a1 a2 s" and m: "mont_rep md (x1 ^ b1 * x2 ^ b2) m"
  shows "\<exists>i r. dexp_times md minv m s = Some (s\<lparr>ds_isone := i, ds_acc := r\<rparr>) \<and>
    dacc md x1 x2 (a1 + b1) (a2 + b2) (s\<lparr>ds_isone := i, ds_acc := r\<rparr>)"
proof (cases "ds_isone s")
  case True
  then show ?thesis using acc m
    by (intro exI [of _ False] exI [of _ m]) (simp add: dexp_times_def dacc_def)
next
  case False
  then have "mont_rep md (x1 ^ a1 * x2 ^ a2) (ds_acc s)" using acc by (simp add: dacc_def)
  from lbnMontMul_rep [OF ok this m] obtain r where
    r: "lbnMontMul_32 (ds_acc s) m md minv = Some r" "mont_rep md (x1 ^ a1 * x2 ^ a2 * (x1 ^ b1 * x2 ^ b2)) r"
    by auto
  have "x1 ^ a1 * x2 ^ a2 * (x1 ^ b1 * x2 ^ b2) = x1 ^ (a1 + b1) * x2 ^ (a2 + b2)"
    by (simp add: power_add algebra_simps)
  with r have "mont_rep md (x1 ^ (a1 + b1) * x2 ^ (a2 + b2)) r" by (simp only:)
  then show ?thesis using False r(1)
    by (intro exI [of _ False] exI [of _ r]) (simp add: dexp_times_def dacc_def)
qed

lemma dexp_multiply_ok:
  assumes ok: "mont_ok md minv" and q: "q < BB"
    and w1: "win_inv w q mp1 k1 (ds_buf1 s) a1 c1" and p1: "pending md x1 q mp1 k1 (ds_mult1pos s) (ds_mult1 s)"
    and w2: "win_inv w q mp2 k2 (ds_buf2 s) a2 c2" and p2: "pending md x2 q mp2 k2 (ds_mult2pos s) (ds_mult2 s)"
    and acc: "dacc md x1 x2 a1 a2 s"
  shows "\<exists>i r b1 b2. dexp_multiply md minv q s = Some (s\<lparr>ds_isone := i, ds_acc := r\<rparr>) \<and>
    dacc md x1 x2 b1 b2 (s\<lparr>ds_isone := i, ds_acc := r\<rparr>) \<and>
    win_done w q mp1 k1 (ds_buf1 s) b1 c1 \<and> win_done w q mp2 k2 (ds_buf2 s) b2 c2"
proof -
  define b1 b2 where "b1 = (if mp1 = q then a1 + k1 else a1)" and "b2 = (if mp2 = q then a2 + k2 else a2)"
  note now = pending_now [OF p1 q] pending_now [OF p2 q]
  have "\<exists>i r. (if word_of_nat q = ds_mult1pos s then dexp_times md minv (ds_mult1 s) s else Some s)
      = Some (s\<lparr>ds_isone := i, ds_acc := r\<rparr>) \<and> dacc md x1 x2 b1 a2 (s\<lparr>ds_isone := i, ds_acc := r\<rparr>)"
  proof (cases "mp1 = q")
    case True
    then have "mont_rep md (x1 ^ k1 * x2 ^ 0) (ds_mult1 s)" using p1 by (simp add: pending_def)
    from dexp_times_ok [OF ok acc this] show ?thesis using True now by (simp add: b1_def)
  next
    case False
    then show ?thesis using acc now
      by (intro exI [of _ "ds_isone s"] exI [of _ "ds_acc s"]) (simp add: b1_def)
  qed
  then obtain i r where 1: "(if word_of_nat q = ds_mult1pos s then dexp_times md minv (ds_mult1 s) s else Some s)
      = Some (s\<lparr>ds_isone := i, ds_acc := r\<rparr>)" "dacc md x1 x2 b1 a2 (s\<lparr>ds_isone := i, ds_acc := r\<rparr>)" by auto
  define t where "t = s\<lparr>ds_isone := i, ds_acc := r\<rparr>"
  have t: "ds_mult2pos t = ds_mult2pos s" "ds_mult2 t = ds_mult2 s" by (simp_all add: t_def)
  have "\<exists>i r. (if word_of_nat q = ds_mult2pos t then dexp_times md minv (ds_mult2 t) t else Some t)
      = Some (t\<lparr>ds_isone := i, ds_acc := r\<rparr>) \<and> dacc md x1 x2 b1 b2 (t\<lparr>ds_isone := i, ds_acc := r\<rparr>)"
  proof (cases "mp2 = q")
    case True
    then have "mont_rep md (x1 ^ 0 * x2 ^ k2) (ds_mult2 s)" using p2 by (simp add: pending_def)
    from dexp_times_ok [OF ok 1(2) this] show ?thesis using True now by (simp add: b2_def t flip: t_def)
  next
    case False
    then show ?thesis using 1(2) now
      by (intro exI [of _ "ds_isone t"] exI [of _ "ds_acc t"]) (simp add: b2_def t flip: t_def)
  qed
  then obtain i' r' where 2: "(if word_of_nat q = ds_mult2pos t then dexp_times md minv (ds_mult2 t) t else Some t)
      = Some (t\<lparr>ds_isone := i', ds_acc := r'\<rparr>)" "dacc md x1 x2 b1 b2 (t\<lparr>ds_isone := i', ds_acc := r'\<rparr>)" by auto
  have "dexp_multiply md minv q s =
      (if word_of_nat q = ds_mult2pos t then dexp_times md minv (ds_mult2 t) t else Some t)"
    unfolding dexp_multiply_def 1(1) t_def [symmetric] by simp
  moreover have "t\<lparr>ds_isone := i', ds_acc := r'\<rparr> = s\<lparr>ds_isone := i', ds_acc := r'\<rparr>" by (simp add: t_def)
  ultimately have "dexp_multiply md minv q s = Some (s\<lparr>ds_isone := i', ds_acc := r'\<rparr>)"
    using 2(1) by (simp only:)
  moreover have "dacc md x1 x2 b1 b2 (s\<lparr>ds_isone := i', ds_acc := r'\<rparr>)" using 2(2) by (simp add: t_def dacc_def)
  moreover have "win_done w q mp1 k1 (ds_buf1 s) b1 c1" "win_done w q mp2 k2 (ds_buf2 s) b2 c2"
    unfolding b1_def b2_def using win_multiply [OF w1] win_multiply [OF w2] by simp_all
  ultimately show ?thesis by blast
qed

lemma dexp_square_ok:
  assumes ok: "mont_ok md minv" and acc: "dacc md x1 x2 a1 a2 s"
  shows "\<exists>r. dexp_square md minv s = Some (s\<lparr>ds_acc := r\<rparr>) \<and> dacc md x1 x2 (2 * a1) (2 * a2) (s\<lparr>ds_acc := r\<rparr>)"
proof (cases "ds_isone s")
  case True
  then show ?thesis using acc by (intro exI [of _ "ds_acc s"]) (simp add: dexp_square_def dacc_def)
next
  case False
  then have "mont_rep md (x1 ^ a1 * x2 ^ a2) (ds_acc s)" using acc by (simp add: dacc_def)
  from lbnMontSquare_rep [OF ok this] obtain r where
    r: "lbnMontSquare_32 (ds_acc s) md minv = Some r" "mont_rep md (x1 ^ a1 * x2 ^ a2 * (x1 ^ a1 * x2 ^ a2)) r"
    by auto
  have "x ^ (2 * a) = x ^ a * x ^ a" for x a :: nat by (simp add: mult_2 power_add)
  then have "x1 ^ a1 * x2 ^ a2 * (x1 ^ a1 * x2 ^ a2) = x1 ^ (2 * a1) * x2 ^ (2 * a2)"
    by (simp only:) (simp add: algebra_simps)
  with r have "mont_rep md (x1 ^ (2 * a1) * x2 ^ (2 * a2)) r" by (simp only:)
  then show ?thesis using False r(1) by (intro exI [of _ r]) (simp add: dexp_square_def dacc_def)
qed

lemma dexp_advance_ok:
  assumes w1: "win_next w q mp1 k1 (ds_buf1 s) a1 (seen e1 w (Suc q))" "ds_buf1 s < 2 ^ w"
    and w2: "win_next w q mp2 k2 (ds_buf2 s) a2 (seen e2 w (Suc q))" "ds_buf2 s < 2 ^ w"
    and rd: "reader (Suc q - w) (ds_elen s) (ds_bitpos s)" and len: "Suc q \<le> 32 * length e1"
  shows "\<exists>b1 b2 el bp. dexp_advance e1 e2 (push_bit w 1) s =
      Some (s\<lparr>ds_buf1 := b1, ds_buf2 := b2, ds_elen := el, ds_bitpos := bp\<rparr>) \<and>
    win_inv w q mp1 k1 b1 a1 (seen e1 w q) \<and> b1 < 2 ^ Suc w \<and>
    win_inv w q mp2 k2 b2 a2 (seen e2 w q) \<and> b2 < 2 ^ Suc w \<and> reader (q - w) el bp"
proof -
  have tm: "push_bit w 1 = (2 :: nat) ^ w" by (simp add: push_bit_eq_mult)
  define c1 c2 where "c1 = (w \<le> q \<and> bit (nval e1) (q - w))" and "c2 = (w \<le> q \<and> bit (nval e2) (q - w))"
  define b1 b2 where "b1 = 2 * ds_buf1 s + of_bool c1" and "b2 = 2 * ds_buf2 s + of_bool c2"
  have inv: "win_inv w q mp1 k1 b1 a1 (seen e1 w q)" "win_inv w q mp2 k2 b2 a2 (seen e2 w q)"
    unfolding b1_def b2_def seen_Suc [of _ w q] c1_def c2_def
    by (rule win_advance [OF w1(1)] win_advance [OF w2(1)]; simp)+
  have b: "b1 < 2 ^ Suc w" "b2 < 2 ^ Suc w" using w1 w2 by (simp_all add: b1_def b2_def)
  show ?thesis
  proof (cases "w \<le> q")
    case True
    then have r: "Suc q - w = Suc (q - w)" by simp
    obtain el bp where n: "exp_next (ds_elen s) (ds_bitpos s) = (el, bp)" by fastforce
    have el: "ds_elen s \<noteq> 0" using rd by (simp add: r reader_def)
    have bit1: "exp_bit e1 (ds_elen s) (ds_bitpos s) = c1"
      using exp_bit_reader [OF rd [unfolded r]] len True by (simp add: c1_def)
    have sh1: "push_bit 1 (ds_buf1 s) OR of_bool c1 = b1" by (simp only: shift_in_bit b1_def)
    have sh2: "(if ds_elen s \<le> length e2 then push_bit 1 (ds_buf2 s) OR of_bool (exp_bit e2 (ds_elen s) (ds_bitpos s))
        else push_bit 1 (ds_buf2 s)) = b2"
      unfolding shift_in_bit using exp_bit2_reader [OF rd [unfolded r], of e2] True
      by (auto simp: b2_def c2_def)
    have "dexp_advance e1 e2 (push_bit w 1) s =
        Some (s\<lparr>ds_buf1 := b1, ds_buf2 := b2, ds_elen := el, ds_bitpos := bp\<rparr>)"
      unfolding dexp_advance_def Let_def bit1 sh1 sh2 tm using el w1(2) w2(2) n by (simp add: cassert_def)
    then show ?thesis using inv b exp_next_reader [OF rd [unfolded r] n] by blast
  next
    case False
    then have "ds_elen s = 0" "b1 = push_bit 1 (ds_buf1 s)" "b2 = push_bit 1 (ds_buf2 s)"
      using rd by (simp_all add: reader_def b1_def b2_def c1_def c2_def)
    then have "dexp_advance e1 e2 (push_bit w 1) s =
        Some (s\<lparr>ds_buf1 := b1, ds_buf2 := b2, ds_elen := ds_elen s, ds_bitpos := ds_bitpos s\<rparr>)"
      using w1(2) w2(2) by (simp add: dexp_advance_def tm cassert_def)
    moreover have "reader (q - w) (ds_elen s) (ds_bitpos s)"
      using False \<open>ds_elen s = 0\<close> by (simp add: reader_def)
    ultimately show ?thesis using inv b by blast
  qed
qed

lemma dexp_schedule1_ok:
  assumes win: "win_inv w q mp k (ds_buf1 s) a (seen e w q)" and buf: "ds_buf1 s < 2 ^ Suc w"
    and tbl: "table_ok md x w table" and pend: "pending md x q mp k (ds_mult1pos s) (ds_mult1 s)" and q: "q < BB"
  shows "\<exists>b m t mp' k'. dexp_schedule1 table w q s = Some (s\<lparr>ds_mult1pos := m, ds_mult1 := t, ds_buf1 := b\<rparr>) \<and>
    win_inv w q mp' k' b a (seen e w q) \<and> b < 2 ^ w \<and> pending md x q mp' k' m t \<and>
    (2 ^ w \<le> ds_buf1 s \<longrightarrow> mp' \<le> q \<and> (mp' = q \<longrightarrow> k' = 1))"
proof (cases "2 ^ w \<le> ds_buf1 s")
  case False
  then have "dexp_schedule1 table w q s = Some s" using top_bit_set [OF buf] by (simp add: dexp_schedule1_def)
  then show ?thesis using False win pend
    by (intro exI [of _ "ds_buf1 s"] exI [of _ "ds_mult1pos s"] exI [of _ "ds_mult1 s"] exI [of _ mp] exI [of _ k]) simp
next
  case True
  have tbl': "table_ok md x (w - 0) table" using tbl by simp
  obtain k' mp' where S:
    "scan_low (drop_bit 0 (ds_buf1 s)) (word_of_nat q - word_of_nat w + word_of_nat 0) = Some (k', word_of_nat mp')"
    "win_inv w q mp' k' (ds_buf1 s mod 2 ^ 0) a (seen e w q)"
    "pending md x q mp' k' (word_of_nat mp') (table ! drop_bit 1 k')"
    "word_of_nat mp' \<le> (word_of_nat q :: u32)" "mp' \<le> q" "mp' = q \<longrightarrow> k' = 1"
    by (rule schedule_core [OF win True buf le0 seen_dvd q tbl'])
  have "dexp_schedule1 table w q s =
      Some (s\<lparr>ds_mult1pos := word_of_nat mp', ds_mult1 := table ! drop_bit 1 k', ds_buf1 := 0\<rparr>)"
    using S(1,4) True top_bit_set [OF buf] by (simp add: dexp_schedule1_def cassert_def)
  then show ?thesis using S
    by (intro exI [of _ 0] exI [of _ "word_of_nat mp'"] exI [of _ "table ! drop_bit 1 k'"] exI [of _ mp'] exI [of _ k']) simp
qed

lemma low_bits_mod: "b AND (push_bit d 1 - 1) = b mod 2 ^ d" for b d :: nat
proof -
  have "push_bit d 1 - 1 = (mask d :: nat)" by (simp add: mask_eq_exp_minus_1 push_bit_eq_mult)
  then show ?thesis by (simp only: flip: take_bit_eq_mask) (simp add: take_bit_eq_mod)
qed

lemma dexp_schedule2_ok:
  assumes win: "win_inv w q mp k (ds_buf2 s) a (seen e w q)" and buf: "ds_buf2 s < 2 ^ Suc w" and d: "d \<le> w"
    and tbl: "table_ok md x (w - d) table" and pend: "pending md x q mp k (ds_mult2pos s) (ds_mult2 s)" and q: "q < BB"
  shows "\<exists>b m t mp' k'. dexp_schedule2 table w d q s = Some (s\<lparr>ds_mult2pos := m, ds_mult2 := t, ds_buf2 := b\<rparr>) \<and>
    win_inv w q mp' k' b a (seen e w q) \<and> b < 2 ^ w \<and> pending md x q mp' k' m t \<and>
    (2 ^ w \<le> ds_buf2 s \<longrightarrow> mp' \<le> q \<and> (mp' = q \<longrightarrow> k' = 1))"
proof (cases "2 ^ w \<le> ds_buf2 s")
  case False
  then have "dexp_schedule2 table w d q s = Some s" using top_bit_set [OF buf] by (simp add: dexp_schedule2_def)
  then show ?thesis using False win pend
    by (intro exI [of _ "ds_buf2 s"] exI [of _ "ds_mult2pos s"] exI [of _ "ds_mult2 s"] exI [of _ mp] exI [of _ k]) simp
next
  case True
  obtain k' mp' where S:
    "scan_low (drop_bit d (ds_buf2 s)) (word_of_nat q - word_of_nat w + word_of_nat d) = Some (k', word_of_nat mp')"
    "win_inv w q mp' k' (ds_buf2 s mod 2 ^ d) a (seen e w q)"
    "pending md x q mp' k' (word_of_nat mp') (table ! drop_bit 1 k')"
    "word_of_nat mp' \<le> (word_of_nat q :: u32)" "mp' \<le> q" "mp' = q \<longrightarrow> k' = 1" "ds_buf2 s mod 2 ^ d < 2 ^ w"
    by (rule schedule_core [OF win True buf d seen_dvd q tbl])
  have "dexp_schedule2 table w d q s =
      Some (s\<lparr>ds_mult2pos := word_of_nat mp', ds_mult2 := table ! drop_bit 1 k', ds_buf2 := ds_buf2 s mod 2 ^ d\<rparr>)"
    unfolding dexp_schedule2_def low_bits_mod
    using S(1,4) True top_bit_set [OF buf] by (simp add: cassert_def)
  then show ?thesis using S
    by (intro exI [of _ "ds_buf2 s mod 2 ^ d"] exI [of _ "word_of_nat mp'"] exI [of _ "table ! drop_bit 1 k'"]
        exI [of _ mp'] exI [of _ k']) simp
qed

text \<open>The invariant before a round, with the windows about to advance to position \<open>q\<close>, and after its
  multiplies.\<close>

definition dexp_inv :: "u32 list \<Rightarrow> nat \<Rightarrow> nat \<Rightarrow> u32 list \<Rightarrow> u32 list \<Rightarrow> nat \<Rightarrow> nat \<Rightarrow> dexp_state \<Rightarrow> bool" where
  "dexp_inv md x1 x2 e1 e2 w q s \<longleftrightarrow>
    (\<exists>mp1 k1 a1 mp2 k2 a2.
      win_next w q mp1 k1 (ds_buf1 s) a1 (seen e1 w (Suc q)) \<and> ds_buf1 s < 2 ^ w \<and>
      win_next w q mp2 k2 (ds_buf2 s) a2 (seen e2 w (Suc q)) \<and> ds_buf2 s < 2 ^ w \<and>
      reader (Suc q - w) (ds_elen s) (ds_bitpos s) \<and>
      pending md x1 q mp1 k1 (ds_mult1pos s) (ds_mult1 s) \<and>
      pending md x2 q mp2 k2 (ds_mult2pos s) (ds_mult2 s) \<and> dacc md x1 x2 a1 a2 s)"

definition dexp_after :: "u32 list \<Rightarrow> nat \<Rightarrow> nat \<Rightarrow> u32 list \<Rightarrow> u32 list \<Rightarrow> nat \<Rightarrow> nat \<Rightarrow> dexp_state \<Rightarrow> bool" where
  "dexp_after md x1 x2 e1 e2 w q s \<longleftrightarrow>
    (\<exists>mp1 k1 a1 mp2 k2 a2.
      win_done w q mp1 k1 (ds_buf1 s) a1 (seen e1 w q) \<and> ds_buf1 s < 2 ^ w \<and>
      win_done w q mp2 k2 (ds_buf2 s) a2 (seen e2 w q) \<and> ds_buf2 s < 2 ^ w \<and>
      reader (q - w) (ds_elen s) (ds_bitpos s) \<and>
      pending md x1 q mp1 k1 (ds_mult1pos s) (ds_mult1 s) \<and>
      pending md x2 q mp2 k2 (ds_mult2pos s) (ds_mult2 s) \<and> dacc md x1 x2 a1 a2 s)"

lemma dexp_invI:
  "win_next w q mp1 k1 (ds_buf1 s) a1 (seen e1 w (Suc q)) \<Longrightarrow> ds_buf1 s < 2 ^ w \<Longrightarrow>
    win_next w q mp2 k2 (ds_buf2 s) a2 (seen e2 w (Suc q)) \<Longrightarrow> ds_buf2 s < 2 ^ w \<Longrightarrow>
    reader (Suc q - w) (ds_elen s) (ds_bitpos s) \<Longrightarrow>
    pending md x1 q mp1 k1 (ds_mult1pos s) (ds_mult1 s) \<Longrightarrow>
    pending md x2 q mp2 k2 (ds_mult2pos s) (ds_mult2 s) \<Longrightarrow> dacc md x1 x2 a1 a2 s \<Longrightarrow>
    dexp_inv md x1 x2 e1 e2 w q s"
  unfolding dexp_inv_def by blast

lemma dexp_afterI:
  "win_done w q mp1 k1 (ds_buf1 s) a1 (seen e1 w q) \<Longrightarrow> ds_buf1 s < 2 ^ w \<Longrightarrow>
    win_done w q mp2 k2 (ds_buf2 s) a2 (seen e2 w q) \<Longrightarrow> ds_buf2 s < 2 ^ w \<Longrightarrow>
    reader (q - w) (ds_elen s) (ds_bitpos s) \<Longrightarrow>
    pending md x1 q mp1 k1 (ds_mult1pos s) (ds_mult1 s) \<Longrightarrow>
    pending md x2 q mp2 k2 (ds_mult2pos s) (ds_mult2 s) \<Longrightarrow> dacc md x1 x2 a1 a2 s \<Longrightarrow>
    dexp_after md x1 x2 e1 e2 w q s"
  unfolding dexp_after_def by blast

lemma dexp_round_ok:
  assumes ok: "mont_ok md minv" and t1: "table_ok md x1 w table1" and t2: "table_ok md x2 (w - d) table2" and d: "d \<le> w"
    and inv: "dexp_inv md x1 x2 e1 e2 w q s" and len: "Suc q \<le> 32 * length e1" and q: "q < BB"
  shows "\<exists>s'. dexp_main_loop e1 e2 md minv table1 table2 w d (Suc q) s =
      (if q = 0 then Some s' else do { s \<leftarrow> dexp_square md minv s'; dexp_main_loop e1 e2 md minv table1 table2 w d q s }) \<and>
    dexp_after md x1 x2 e1 e2 w q s'"
proof -
  from inv obtain mp1 k1 a1 mp2 k2 a2 where I:
      "win_next w q mp1 k1 (ds_buf1 s) a1 (seen e1 w (Suc q))" "ds_buf1 s < 2 ^ w"
      "win_next w q mp2 k2 (ds_buf2 s) a2 (seen e2 w (Suc q))" "ds_buf2 s < 2 ^ w"
      "reader (Suc q - w) (ds_elen s) (ds_bitpos s)"
      "pending md x1 q mp1 k1 (ds_mult1pos s) (ds_mult1 s)"
      "pending md x2 q mp2 k2 (ds_mult2pos s) (ds_mult2 s)" "dacc md x1 x2 a1 a2 s"
    unfolding dexp_inv_def by blast
  from dexp_advance_ok [OF I(1-5) len] obtain b1 b2 el bp where A:
    "dexp_advance e1 e2 (push_bit w 1) s = Some (s\<lparr>ds_buf1 := b1, ds_buf2 := b2, ds_elen := el, ds_bitpos := bp\<rparr>)"
    "win_inv w q mp1 k1 b1 a1 (seen e1 w q)" "b1 < 2 ^ Suc w" "win_inv w q mp2 k2 b2 a2 (seen e2 w q)" "b2 < 2 ^ Suc w"
    "reader (q - w) el bp" by blast
  define s1 where "s1 = s\<lparr>ds_buf1 := b1, ds_buf2 := b2, ds_elen := el, ds_bitpos := bp\<rparr>"
  have B0: "win_inv w q mp1 k1 (ds_buf1 s1) a1 (seen e1 w q)" "ds_buf1 s1 < 2 ^ Suc w"
    "pending md x1 q mp1 k1 (ds_mult1pos s1) (ds_mult1 s1)"
    using A I by (simp_all add: s1_def)
  from dexp_schedule1_ok [OF B0(1,2) t1 B0(3) q] obtain c1 m1 u1 mp1' k1' where B:
    "dexp_schedule1 table1 w q s1 = Some (s1\<lparr>ds_mult1pos := m1, ds_mult1 := u1, ds_buf1 := c1\<rparr>)"
    "win_inv w q mp1' k1' c1 a1 (seen e1 w q)" "c1 < 2 ^ w" "pending md x1 q mp1' k1' m1 u1" by blast
  define s2 where "s2 = s1\<lparr>ds_mult1pos := m1, ds_mult1 := u1, ds_buf1 := c1\<rparr>"
  have C0: "win_inv w q mp2 k2 (ds_buf2 s2) a2 (seen e2 w q)" "ds_buf2 s2 < 2 ^ Suc w"
    "pending md x2 q mp2 k2 (ds_mult2pos s2) (ds_mult2 s2)"
    using A I by (simp_all add: s1_def s2_def)
  from dexp_schedule2_ok [OF C0(1,2) d t2 C0(3) q] obtain c2 m2 u2 mp2' k2' where C:
    "dexp_schedule2 table2 w d q s2 = Some (s2\<lparr>ds_mult2pos := m2, ds_mult2 := u2, ds_buf2 := c2\<rparr>)"
    "win_inv w q mp2' k2' c2 a2 (seen e2 w q)" "c2 < 2 ^ w" "pending md x2 q mp2' k2' m2 u2" by blast
  define s3 where "s3 = s2\<lparr>ds_mult2pos := m2, ds_mult2 := u2, ds_buf2 := c2\<rparr>"
  have D0: "win_inv w q mp1' k1' (ds_buf1 s3) a1 (seen e1 w q)" "pending md x1 q mp1' k1' (ds_mult1pos s3) (ds_mult1 s3)"
    "win_inv w q mp2' k2' (ds_buf2 s3) a2 (seen e2 w q)" "pending md x2 q mp2' k2' (ds_mult2pos s3) (ds_mult2 s3)"
    "dacc md x1 x2 a1 a2 s3"
    using B C I by (simp_all add: s1_def s2_def s3_def dacc_def)
  from dexp_multiply_ok [OF ok q D0] obtain i r a1' a2' where D:
    "dexp_multiply md minv q s3 = Some (s3\<lparr>ds_isone := i, ds_acc := r\<rparr>)"
    "dacc md x1 x2 a1' a2' (s3\<lparr>ds_isone := i, ds_acc := r\<rparr>)"
    "win_done w q mp1' k1' (ds_buf1 s3) a1' (seen e1 w q)" "win_done w q mp2' k2' (ds_buf2 s3) a2' (seen e2 w q)" by blast
  define s4 where "s4 = s3\<lparr>ds_isone := i, ds_acc := r\<rparr>"
  have "dexp_main_loop e1 e2 md minv table1 table2 w d (Suc q) s =
      (if q = 0 then Some s4 else do { s \<leftarrow> dexp_square md minv s4; dexp_main_loop e1 e2 md minv table1 table2 w d q s })"
    using A(1) [folded s1_def] B(1) [folded s2_def] C(1) [folded s3_def] D(1) [folded s4_def]
    by (subst dexp_main_loop.simps) simp
  moreover have "dexp_after md x1 x2 e1 e2 w q s4"
    by (rule dexp_afterI [of _ _ mp1' k1' _ a1' _ mp2' k2' a2'])
      (use A(6) B(3,4) C(3,4) D(2-4) in \<open>simp_all add: s4_def s3_def s2_def s1_def\<close>)
  ultimately show ?thesis by blast
qed

lemma dexp_main_loop_ok:
  assumes ok: "mont_ok md minv" and t1: "table_ok md x1 w table1" and t2: "table_ok md x2 (w - d) table2" and d: "d \<le> w"
  shows "dexp_inv md x1 x2 e1 e2 w q s \<Longrightarrow> Suc q \<le> 32 * length e1 \<Longrightarrow> q < BB \<Longrightarrow>
    \<exists>s'. dexp_main_loop e1 e2 md minv table1 table2 w d (Suc q) s = Some s' \<and> ds_buf1 s' = 0 \<and> ds_buf2 s' = 0 \<and>
      dacc md x1 x2 (nval e1) (nval e2) s'"
proof (induction q arbitrary: s)
  case 0
  from dexp_round_ok [OF ok t1 t2 d 0] obtain s' where
    s': "dexp_main_loop e1 e2 md minv table1 table2 w d (Suc 0) s = Some s'" "dexp_after md x1 x2 e1 e2 w 0 s'" by auto
  from s'(2) obtain mp1 k1 a1 mp2 k2 a2 where E:
    "win_done w 0 mp1 k1 (ds_buf1 s') a1 (nval e1 * 2 ^ w)" "ds_buf1 s' < 2 ^ w"
    "win_done w 0 mp2 k2 (ds_buf2 s') a2 (nval e2 * 2 ^ w)" "ds_buf2 s' < 2 ^ w" "dacc md x1 x2 a1 a2 s'"
    unfolding dexp_after_def seen_0 by blast
  from win_end [OF E(1,2)] win_end [OF E(3,4)] show ?case using s'(1) E(5) by simp
next
  case (Suc q)
  from dexp_round_ok [OF ok t1 t2 d Suc.prems] obtain s1 where
    s1: "dexp_main_loop e1 e2 md minv table1 table2 w d (Suc (Suc q)) s =
        do { s \<leftarrow> dexp_square md minv s1; dexp_main_loop e1 e2 md minv table1 table2 w d (Suc q) s }"
      "dexp_after md x1 x2 e1 e2 w (Suc q) s1" by auto
  from s1(2) obtain mp1 k1 a1 mp2 k2 a2 where A:
      "win_done w (Suc q) mp1 k1 (ds_buf1 s1) a1 (seen e1 w (Suc q))" "ds_buf1 s1 < 2 ^ w"
      "win_done w (Suc q) mp2 k2 (ds_buf2 s1) a2 (seen e2 w (Suc q))" "ds_buf2 s1 < 2 ^ w"
      "reader (Suc q - w) (ds_elen s1) (ds_bitpos s1)"
      "pending md x1 (Suc q) mp1 k1 (ds_mult1pos s1) (ds_mult1 s1)"
      "pending md x2 (Suc q) mp2 k2 (ds_mult2pos s1) (ds_mult2 s1)" "dacc md x1 x2 a1 a2 s1"
    unfolding dexp_after_def by blast
  from dexp_square_ok [OF ok A(8)] obtain r where
    r: "dexp_square md minv s1 = Some (s1\<lparr>ds_acc := r\<rparr>)" "dacc md x1 x2 (2 * a1) (2 * a2) (s1\<lparr>ds_acc := r\<rparr>)" by blast
  have "dexp_inv md x1 x2 e1 e2 w q (s1\<lparr>ds_acc := r\<rparr>)"
    by (rule dexp_invI [of _ _ mp1 k1 _ "2 * a1" _ mp2 k2 "2 * a2"])
      (use win_square [OF A(1)] win_square [OF A(3)] A(2,4,5) pending_mono [OF A(6), of q]
         pending_mono [OF A(7), of q] r(2) in simp_all)
  from Suc.IH [OF this] Suc.prems s1(1) r(1) show ?case by simp
qed

section \<open>The whole computation\<close>

lemma dexp_body:
  assumes ok: "mont_ok md minv" and t1: "table_ok md x1 w table1" and t2: "table_ok md x2 (w - d) table2" and d: "d \<le> w"
    and b1: "mont_rep md (x1 ^ 2) b1" and b2: "mont_rep md (x2 ^ 2) b2"
    and E: "2 ^ q \<le> nval e1" "nval e1 < 2 ^ Suc q" "nval e2 < 2 ^ Suc q" and w: "w \<le> q" and q: "0 < q" "Suc q < BB"
    and len: "Suc q \<le> 32 * length e1" and rd: "reader (Suc q) elen bitpos"
    and pre: "dexp_preload e1 e2 (w + 1) 0 0 elen bitpos = (buf1, buf2, elen', bitpos')"
    and s: "s = \<lparr>ds_elen = elen', ds_bitpos = bitpos', ds_buf1 = buf1, ds_mult1pos = word_of_nat (Suc q),
               ds_mult1 = [], ds_buf2 = buf2, ds_mult2pos = word_of_nat (Suc q), ds_mult2 = [],
               ds_isone = True, ds_acc = b1\<rparr>"
  shows "\<exists>s1 s2. dexp_first md minv table1 table2 w d q b2 s = Some s1 \<and>
    dexp_main_loop e1 e2 md minv table1 table2 w d q s1 = Some s2 \<and>
    \<not> ds_isone s2 \<and> ds_buf1 s2 = 0 \<and> ds_buf2 s2 = 0 \<and>
    mont_rep md (x1 ^ nval e1 * x2 ^ nval e2) (ds_acc s2)"
proof -
  have "nval e1 div 2 ^ Suc q = 0" "nval e2 div 2 ^ Suc q = 0" using E by simp_all
  with dexp_preload_value [OF pre rd] w len
  have buf: "buf1 = nval e1 div 2 ^ (q - w)" "buf2 = nval e2 div 2 ^ (q - w)"
    and rd': "reader (q - w) elen' bitpos'" by simp_all
  have 2: "(2 :: nat) ^ q = 2 ^ (q - w) * 2 ^ w" using w by (simp flip: power_add)
  then have seen: "buf1 = seen e1 w q" "buf2 = seen e2 w q" by (simp_all add: buf seen_def div_mult_mult2)
  have lo: "2 ^ w \<le> buf1"
  proof -
    have "2 ^ q div 2 ^ (q - w) \<le> nval e1 div 2 ^ (q - w)" using E(1) by (rule div_le_mono)
    then show ?thesis using w by (simp add: buf 2)
  qed
  have hi: "buf1 < 2 ^ Suc w" "buf2 < 2 ^ Suc w"
  proof -
    have "nval e1 < 2 ^ Suc w * 2 ^ (q - w)" "nval e2 < 2 ^ Suc w * 2 ^ (q - w)"
      using E(2,3) 2 by (simp_all add: mult.commute mult.left_commute)
    then show "buf1 < 2 ^ Suc w" "buf2 < 2 ^ Suc w" by (simp_all add: buf less_mult_imp_div_less)
  qed
  have qB: "q < BB" using q by simp
  obtain p where p: "q = Suc p" using q(1) by (cases q) auto
  have I1: "win_inv w q (Suc q) 1 (ds_buf1 s) 0 (seen e1 w q)" "ds_buf1 s < 2 ^ Suc w"
      "pending md x1 q (Suc q) 1 (ds_mult1pos s) (ds_mult1 s)"
    using q hi by (simp_all add: win_inv_def s seen pending_def)
  from dexp_schedule1_ok [OF I1(1,2) t1 I1(3) qB] obtain c1 m1 u1 mp1 k1 where
    S1: "dexp_schedule1 table1 w q s = Some (s\<lparr>ds_mult1pos := m1, ds_mult1 := u1, ds_buf1 := c1\<rparr>)"
      "win_inv w q mp1 k1 c1 0 (seen e1 w q)" "c1 < 2 ^ w" "pending md x1 q mp1 k1 m1 u1"
      "2 ^ w \<le> ds_buf1 s \<longrightarrow> mp1 \<le> q \<and> (mp1 = q \<longrightarrow> k1 = 1)" by blast
  have mp1: "mp1 \<le> q" "mp1 = q \<longrightarrow> k1 = 1" using S1(5) lo by (simp_all add: s)
  define h1 where "h1 = (if mp1 = q then 1 else 0 :: nat)"
  define s1 where "s1 = s\<lparr>ds_mult1pos := m1, ds_mult1 := u1, ds_buf1 := c1\<rparr>"
  define s2 where "s2 = (if ds_mult1pos s1 = word_of_nat q then s1\<lparr>ds_isone := False\<rparr> else s1)"
  have now1: "ds_mult1pos s1 = word_of_nat q \<longleftrightarrow> mp1 = q"
    using pending_now [OF S1(4) qB] by (auto simp: s1_def)
  have s2: "s2 = s1\<lparr>ds_isone := (mp1 \<noteq> q)\<rparr>" 
    using now1 by (cases "mp1 = q") (simp_all add: s2_def s1_def s)
  have acc2: "dacc md x1 x2 (2 * h1) 0 s2" using b1 by (simp add: dacc_def s2 h1_def s1_def s)
  have done1: "win_done w q mp1 k1 c1 h1 (seen e1 w q)"
    using win_multiply [OF S1(2)] mp1(2) by (auto simp: h1_def)
  have I2: "win_inv w q (Suc q) 1 (ds_buf2 s2) 0 (seen e2 w q)" "ds_buf2 s2 < 2 ^ Suc w"
      "pending md x2 q (Suc q) 1 (ds_mult2pos s2) (ds_mult2 s2)"
    using q hi by (simp_all add: win_inv_def s2 s1_def s seen pending_def)
  from dexp_schedule2_ok [OF I2(1,2) d t2 I2(3) qB] obtain c2 m2 u2 mp2 k2 where
    S2: "dexp_schedule2 table2 w d q s2 = Some (s2\<lparr>ds_mult2pos := m2, ds_mult2 := u2, ds_buf2 := c2\<rparr>)"
      "win_inv w q mp2 k2 c2 0 (seen e2 w q)" "c2 < 2 ^ w" "pending md x2 q mp2 k2 m2 u2"
      "2 ^ w \<le> ds_buf2 s2 \<longrightarrow> mp2 \<le> q \<and> (mp2 = q \<longrightarrow> k2 = 1)" by blast
  define s3 where "s3 = s2\<lparr>ds_mult2pos := m2, ds_mult2 := u2, ds_buf2 := c2\<rparr>"
  have top2: "ds_buf2 s2 AND push_bit w 1 \<noteq> 0 \<longleftrightarrow> 2 ^ w \<le> ds_buf2 s2" by (rule top_bit_set [OF I2(2)])
  have first: "dexp_first md minv table1 table2 w d q b2 s =
      (if 2 ^ w \<le> ds_buf2 s2 then
         do { s \<leftarrow> dexp_schedule2 table2 w d q s2;
              if ds_mult2pos s = word_of_nat q then dexp_times md minv b2 s else Some s }
       else Some s2)"
    using top_bit_set [OF I1(2)] lo top2 S1(1) [folded s1_def]
    by (simp add: dexp_first_def cassert_def s2_def [symmetric] s del: push_bit_of_1)
  have r2: "reader (Suc p - w) (ds_elen s2) (ds_bitpos s2)" using rd' by (simp add: s2 s1_def s p)
  have w1: "win_next w p mp1 k1 c1 (2 * h1) (seen e1 w (Suc p))" by (rule win_square [OF done1 [unfolded p]])
  have p1: "pending md x1 p mp1 k1 m1 u1" by (rule pending_mono [OF S1(4)]) (simp add: p)
  have "\<exists>s4. dexp_first md minv table1 table2 w d q b2 s = Some s4 \<and> dexp_inv md x1 x2 e1 e2 w p s4"
  proof (cases "2 ^ w \<le> ds_buf2 s2")
    case False
    have "win_done w q (Suc q) 1 (ds_buf2 s2) 0 (seen e2 w q)" using win_multiply [OF I2(1)] by simp
    from win_square [OF this [unfolded p]] have w2: "win_next w p (Suc q) 1 (ds_buf2 s2) (2 * 0) (seen e2 w (Suc p))"
      by (simp add: p)
    have f2: "ds_mult1pos s2 = m1" "ds_mult1 s2 = u1" "ds_buf1 s2 = c1" by (simp_all add: s2 s1_def)
    have p2: "pending md x2 p (Suc q) 1 (ds_mult2pos s2) (ds_mult2 s2)"
      by (rule pending_mono [OF I2(3)]) (simp add: p)
    have a2: "dacc md x1 x2 (2 * h1) (2 * 0) s2" unfolding mult_0_right by (rule acc2)
    have "dexp_inv md x1 x2 e1 e2 w p s2"
      by (rule dexp_invI [OF _ _ w2 _ r2 _ p2 a2, of mp1 k1]) (use w1 p1 S1(3) False in \<open>simp_all add: f2\<close>)
    then show ?thesis using False by (simp add: first)
  next
    case True
    then have mp2: "mp2 \<le> q" "mp2 = q \<longrightarrow> k2 = 1" using S2(5) by simp_all
    define h2 where "h2 = (if mp2 = q then 1 else 0 :: nat)"
    have done2: "win_done w q mp2 k2 c2 h2 (seen e2 w q)"
      using win_multiply [OF S2(2)] mp2(2) by (auto simp: h2_def)
    have w2: "win_next w p mp2 k2 c2 (2 * h2) (seen e2 w (Suc p))" by (rule win_square [OF done2 [unfolded p]])
    have p2: "pending md x2 p mp2 k2 m2 u2" by (rule pending_mono [OF S2(4)]) (simp add: p)
    have now2: "ds_mult2pos s3 = word_of_nat q \<longleftrightarrow> mp2 = q"
      using pending_now [OF S2(4) qB] by (auto simp: s3_def)
    have acc3: "dacc md x1 x2 (2 * h1) 0 s3" 
    proof -
      have "dacc md x1 x2 (2 * h1) 0 s3 = dacc md x1 x2 (2 * h1) 0 s2" by (simp add: dacc_def s3_def)
      then show ?thesis using acc2 by simp
    qed
    have "\<exists>i r. (if ds_mult2pos s3 = word_of_nat q then dexp_times md minv b2 s3 else Some s3)
        = Some (s3\<lparr>ds_isone := i, ds_acc := r\<rparr>) \<and> dacc md x1 x2 (2 * h1) (2 * h2) (s3\<lparr>ds_isone := i, ds_acc := r\<rparr>)"
    proof (cases "mp2 = q")
      case True
      have "mont_rep md (x1 ^ 0 * x2 ^ 2) b2" using b2 by simp
      from dexp_times_ok [OF ok acc3 this] show ?thesis using True now2 by (simp add: h2_def numeral_2_eq_2)
    next
      case False
      then show ?thesis using acc3 now2
        by (intro exI [of _ "ds_isone s3"] exI [of _ "ds_acc s3"]) (simp add: h2_def)
    qed
    then obtain i r where 4: "(if ds_mult2pos s3 = word_of_nat q then dexp_times md minv b2 s3 else Some s3)
        = Some (s3\<lparr>ds_isone := i, ds_acc := r\<rparr>)" "dacc md x1 x2 (2 * h1) (2 * h2) (s3\<lparr>ds_isone := i, ds_acc := r\<rparr>)" by auto
    have "dexp_inv md x1 x2 e1 e2 w p (s3\<lparr>ds_isone := i, ds_acc := r\<rparr>)"
      by (rule dexp_invI [of _ _ mp1 k1 _ "2 * h1" _ mp2 k2 "2 * h2"])
        (use w1 w2 p1 p2 r2 S1(3) S2(3) 4(2) in \<open>simp_all add: s3_def s2 s1_def\<close>)
    moreover have "dexp_first md minv table1 table2 w d q b2 s = Some (s3\<lparr>ds_isone := i, ds_acc := r\<rparr>)"
      using True S2(1) [folded s3_def] 4(1) by (simp add: first)
    ultimately show ?thesis by blast
  qed
  then obtain s4 where s4: "dexp_first md minv table1 table2 w d q b2 s = Some s4" "dexp_inv md x1 x2 e1 e2 w p s4" by blast
  have "Suc p \<le> 32 * length e1" "p < BB" using len q p by simp_all
  from dexp_main_loop_ok [OF ok t1 t2 d s4(2) this] obtain s5 where
    s5: "dexp_main_loop e1 e2 md minv table1 table2 w d (Suc p) s4 = Some s5" "ds_buf1 s5 = 0" "ds_buf2 s5 = 0"
      "dacc md x1 x2 (nval e1) (nval e2) s5" by blast
  have "nval e1 \<noteq> 0" using E(1) by (cases "nval e1") simp_all
  then show ?thesis using s4 s5 p by (auto simp: dacc_def split: if_splits)
qed

text \<open>Both windows come from the same table of thresholds, so the longer exponent has the larger one.\<close>

lemma window_loop_mono: "e2 \<le> e1 \<Longrightarrow> window_loop tbl e2 w \<le> window_loop tbl e1 w"
proof (induction tbl arbitrary: w)
  case (Cons x tbl)
  have ge: "w \<le> window_loop tbl e w" for tbl e w
    by (induction tbl arbitrary: w) (simp_all, metis Suc_leD)
  then have "w \<le> window_loop tbl e1 (w + 1)" by (meson Suc_leD add_leD1)
  then show ?case using Cons by simp
qed simp

lemma dexp_general_value:
  assumes odd: "odd (hd md)" and md: "md \<noteq> []" "last md \<noteq> 0"
    and e1: "normed e1" "e1 \<noteq> []" "1 < nval e1" and le: "lbnBits_32 e2 \<le> lbnBits_32 e1"
    and e: "32 * length e1 < BB" and ok: "ok 0" "ok 1" "ok 2"
  shows "\<exists>r. dexp_general ok n1 e1 n2 e2 md = Some (Exp_OK r) \<and> length r = length md \<and>
    nval r = nval n1 ^ nval e1 * nval n2 ^ nval e2 mod nval md"
proof -
  obtain q where q: "lbnBits_32 e1 = Suc q" "2 ^ q \<le> nval e1" "nval e1 < 2 ^ Suc q" "Suc q \<le> 32 * length e1"
    "reader (Suc q) (length e1) (push_bit (q mod 32) 1)" "exp_bit e1 (length e1) (push_bit (q mod 32) 1)"
    using exponent_top [OF e1(1,2)] by blast
  have q0: "0 < q" using e1(3) q(3) by (cases q) simp_all
  have "nval e2 < 2 ^ lbnBits_32 e2" using lbnBits_value [of e2] by simp
  also have "\<dots> \<le> 2 ^ Suc q" using le by (intro power_increasing) (simp_all add: q)
  finally have e2: "nval e2 < 2 ^ Suc q" .
  define w1 w2 where "w1 = window_loop bnExpModThreshTable (Suc q) 0"
    and "w2 = window_loop bnExpModThreshTable (lbnBits_32 e2) 0"
  have w21: "w2 \<le> w1" using window_loop_mono le by (simp add: w1_def w2_def q)
  define i w d where "i = dtable_alloc ok (2 ^ w2) (2 ^ w1 - 1) 1 3" and "w = table_shrink i w1"
    and "d = w - (if w2 > w then w else w2)"
  have wd: "w - d = (if w2 > w then w else w2)" "d \<le> w" by (simp_all add: d_def)
  have "w1 \<le> q" using window_small [of "Suc q"] q0 by (simp add: w1_def)
  then have w: "w \<le> q" using table_shrink_bound [of i w1] by (simp add: w_def)
  have hd: "md ! 0 = hd md" using md(1) by (simp add: hd_conv_nth)
  from lbnMontInv1_value [OF odd] obtain minv where minv: "lbnMontInv1_32 (md ! 0) = Some minv" "minv * hd md = - 1"
    by (auto simp: hd)
  then have mok: "mont_ok md minv" using md by (simp add: mont_ok_def)
  have base: "\<exists>a b tbl. take (length md) (lbnToMont_32 n md) = a \<and> lbnMontSquare_32 a md minv = Some b \<and>
      mont_rep md (nval n ^ 2) b \<and> table_fill md minv b a (2 ^ v - 1) = Some tbl \<and>
      table_ok md (nval n) v (a # tbl)" for n v
  proof -
    from lbnToMont_rep [OF md, of n] obtain a qq where
      a0: "lbnToMont_32 n md = a @ qq" "mont_rep md (nval n) a" by auto
    from lbnMontSquare_rep [OF mok a0(2)] obtain b where
      b: "lbnMontSquare_32 a md minv = Some b" "mont_rep md (nval n ^ 2) b" by (auto simp: power2_eq_square)
    from table_cons_ok [OF mok a0(2) b(2)] obtain tbl where
      "table_fill md minv b a (2 ^ v - 1) = Some tbl" "table_ok md (nval n) v (a # tbl)" .
    with a0 b show ?thesis by (auto simp: mont_rep_def)
  qed
  from base [of n1 w] obtain a1 b1 tbl1 where
    1: "take (length md) (lbnToMont_32 n1 md) = a1" "lbnMontSquare_32 a1 md minv = Some b1"
      "mont_rep md (nval n1 ^ 2) b1" "table_fill md minv b1 a1 (2 ^ w - 1) = Some tbl1"
      "table_ok md (nval n1) w (a1 # tbl1)" by blast
  from base [of n2 "w - d"] obtain a2 b2 tbl2 where
    2: "take (length md) (lbnToMont_32 n2 md) = a2" "lbnMontSquare_32 a2 md minv = Some b2"
      "mont_rep md (nval n2 ^ 2) b2" "table_fill md minv b2 a2 (2 ^ (w - d) - 1) = Some tbl2"
      "table_ok md (nval n2) (w - d) (a2 # tbl2)" by blast
  obtain buf1 buf2 el bp where
    pre: "dexp_preload e1 e2 (w + 1) 0 0 (length e1) (push_bit (q mod 32) 1) = (buf1, buf2, el, bp)"
    by (metis prod_cases4)
  define s where "s = \<lparr>ds_elen = el, ds_bitpos = bp, ds_buf1 = buf1, ds_mult1pos = word_of_nat (Suc q),
               ds_mult1 = [], ds_buf2 = buf2, ds_mult2pos = word_of_nat (Suc q), ds_mult2 = [],
               ds_isone = True, ds_acc = b1\<rparr>"
  have qB: "Suc q < BB" using q(4) e by linarith
  from dexp_body [OF mok 1(5) 2(5) wd(2) 1(3) 2(3) q(2,3) e2 w q0 qB q(4,5) pre s_def] obtain s1 s2 where
    body: "dexp_first md minv (a1 # tbl1) (a2 # tbl2) w d q b2 s = Some s1"
      "dexp_main_loop e1 e2 md minv (a1 # tbl1) (a2 # tbl2) w d q s1 = Some s2"
      "\<not> ds_isone s2" "ds_buf1 s2 = 0" "ds_buf2 s2 = 0"
      "mont_rep md (nval n1 ^ nval e1 * nval n2 ^ nval e2) (ds_acc s2)" by blast
  from from_mont_value [OF mok body(6)] obtain r where
    r: "lbnMontReduce_32 (ds_acc s2 @ replicate (length md) 0) md minv = Some r" "length r = length md"
      "nval r = nval n1 ^ nval e1 * nval n2 ^ nval e2 mod nval md" by auto
  have one: "push_bit v 1 = (2 :: nat) ^ v" for v by (simp add: push_bit_eq_mult)
  have "dexp_general ok n1 e1 n2 e2 md = Some (Exp_OK r)"
    unfolding dexp_general_def Let_def q(1) w1_def [symmetric] w2_def [symmetric] i_def [symmetric]
      w_def [symmetric] wd(1) [symmetric] one diff_Suc_1
    using ok minv(1) 1(1,2,4) 2(1,2,4) q(6) w21 pre body r(1) wd(2)
    by (simp add: cassert_def replicate_lbnZero flip: s_def [simplified])
  with r show ?thesis by blast
qed

lemma trim_facts: "nval (trim e) = nval e" "normed (trim e)" "length (trim e) \<le> length e"
  using lbnNorm_value [of e] trim_normed [of e] trim_value [of e] by (simp_all add: trim_def)

lemma lbnBits_eq_1:
  assumes "normed e" shows "lbnBits_32 e = 1 \<longleftrightarrow> nval e = 1"
proof (cases "e = []")
  case True
  then show ?thesis using lbnBits_value [of e] by simp
next
  case False
  then obtain q where q: "lbnBits_32 e = Suc q" "2 ^ q \<le> nval e" "nval e < 2 ^ Suc q"
    using exponent_top [OF assms False] by metis
  have "nval e = 1 \<Longrightarrow> q = 0"
  proof (rule ccontr)
    assume "nval e = 1" "q \<noteq> 0"
    then have "(2 :: nat) ^ 1 \<le> 2 ^ q" by (intro power_increasing) simp_all
    with q(2) \<open>nval e = 1\<close> show False by simp
  qed
  then show ?thesis using q by auto
qed

text \<open>The product when both exponents are 1: right when the factors have as many words as the modulus,
  a read past the buffer otherwise.\<close>

lemma dexp_product_value:
  assumes md: "md \<noteq> []" "last md \<noteq> 0" and len: "length md \<le> length n1 + length n2" and ok: "ok 0"
  shows "\<exists>r. dexp_product ok n1 n2 md = Exp_OK r \<and> length r = length md \<and> nval r = nval n1 * nval n2 mod nval md"
proof -
  have a: "length (lbnMul_32 n1 n2) = length n1 + length n2" "nval (lbnMul_32 n1 n2) = nval n1 * nval n2"
    using lbnMul_value [of n1 n2] by simp_all
  obtain qh q r d where D: "lbnDiv_32 (lbnMul_32 n1 n2) md = (qh, q, r, d)" by (metis prod_cases4)
  from lbnDiv_value [OF md _ D] len a have V:
    "nval n1 * nval n2 = nval (q @ [qh]) * nval md + nval r" "nval r < nval md" "length r = length md" by simp_all
  then have "nval r = nval n1 * nval n2 mod nval md" by simp
  then show ?thesis using ok len V(3) D a by (simp add: dexp_product_def)
qed

lemma dexp_product_over_read:
  "length n1 + length n2 < length md \<Longrightarrow> ok 0 \<Longrightarrow>
    dexp_product ok n1 n2 md = Exp_Over_Read (length md - (length n1 + length n2))"
  using lbnMul_value [of n1 n2] by (simp add: dexp_product_def)

lemma double_sorted:
  assumes odd: "odd (hd md)" and md: "md \<noteq> []" "last md \<noteq> 0"
    and n: "length n1 \<le> length md" "length n2 \<le> length md"
    and e: "normed e1" "normed e2" "32 * length e1 < BB"
    and le: "lbnBits_32 e2 \<le> lbnBits_32 e1"
    and ok: "ok 0" "ok 1" "ok 2"
    and short: "\<not> (nval e1 = 1 \<and> nval e2 = 1 \<and> length n1 + length n2 < length md)"
  shows "\<exists>r. (if e2 = [] then lbnExpMod_32 ok n1 e1 md
        else if lbnBits_32 e1 = 1 then Some (dexp_product ok n1 n2 md)
        else dexp_general ok n1 e1 n2 e2 md) = Some (Exp_OK r) \<and> length r = length md \<and>
      nval r mod nval md = nval n1 ^ nval e1 * nval n2 ^ nval e2 mod nval md"
proof (cases "e2 = []")
  case True
  from lbnExpMod_value [OF odd md n(1) e(3) ok(1,2)] show ?thesis using True by auto
next
  case False
  then have pos: "lbnBits_32 e2 \<noteq> 0" using exponent_top [OF e(2) False] by (metis Suc_neq_Zero)
  then have "lbnBits_32 e1 \<noteq> 0" using le by simp
  then have e1: "e1 \<noteq> []" using lbnBits_value [of e1] by auto
  show ?thesis
  proof (cases "lbnBits_32 e1 = 1")
    case True
    then have "lbnBits_32 e2 = 1" using le pos by simp
    then have one: "nval e1 = 1" "nval e2 = 1" using lbnBits_eq_1 e True by blast+
    then have "length md \<le> length n1 + length n2" using short by simp
    from dexp_product_value [where ?n1.0 = n1 and ?n2.0 = n2 and ok = ok, OF md this ok(1)] show ?thesis using one False True by auto
  next
    case not1: False
    have "0 < nval e1" using normed_pos e(1) e1 by blast
    moreover have "nval e1 \<noteq> 1" using not1 lbnBits_eq_1 [OF e(1)] by simp
    ultimately have "1 < nval e1" by simp
    from dexp_general_value [where ?n1.0 = n1 and ?n2.0 = n2, OF odd md e(1) e1 this le e(3) ok]
    show ?thesis using False not1 by auto
  qed
qed

lemma lbnDoubleExpMod_value:
  assumes odd: "odd (hd md)" and md: "md \<noteq> []" "last md \<noteq> 0"
    and n: "length n1 \<le> length md" "length n2 \<le> length md"
    and e: "32 * length e1 < BB" "32 * length e2 < BB"
    and ok: "ok 0" "ok 1" "ok 2"
    and short: "\<not> (nval e1 = 1 \<and> nval e2 = 1 \<and> length n1 + length n2 < length md)"
  shows "\<exists>r. lbnDoubleExpMod_32 ok n1 e1 n2 e2 md = Some (Exp_OK r) \<and> length r = length md \<and>
    nval r mod nval md = nval n1 ^ nval e1 * nval n2 ^ nval e2 mod nval md"
proof -
  note T = trim_facts(1) [of e1] trim_facts(1) [of e2]
  have l: "32 * length (trim e1) < BB" "32 * length (trim e2) < BB"
    using e trim_facts(3) [of e1] trim_facts(3) [of e2] by linarith+
  show ?thesis
  proof (cases "lbnBits_32 (trim e1) < lbnBits_32 (trim e2)")
    case True
    then have le: "lbnBits_32 (trim e1) \<le> lbnBits_32 (trim e2)" by simp
    have "\<not> (nval (trim e2) = 1 \<and> nval (trim e1) = 1 \<and> length n2 + length n1 < length md)"
      using short T by auto
    from double_sorted [OF odd md n(2,1) trim_facts(2) trim_facts(2) l(2) le ok this]
    show ?thesis using True by (simp add: lbnDoubleExpMod_32_def Let_def T mult.commute)
  next
    case False
    then have le: "lbnBits_32 (trim e2) \<le> lbnBits_32 (trim e1)" by simp
    have "\<not> (nval (trim e1) = 1 \<and> nval (trim e2) = 1 \<and> length n1 + length n2 < length md)"
      using short T by auto
    from double_sorted [OF odd md n trim_facts(2) trim_facts(2) l(1) le ok this]
    show ?thesis using False by (simp add: lbnDoubleExpMod_32_def Let_def T)
  qed
qed

lemma double_over_read:
  assumes "length n1 + length n2 < length md" and "nval e1 = 1" "nval e2 = 1" and "ok 0"
  shows "lbnDoubleExpMod_32 ok n1 e1 n2 e2 md
    = Some (Exp_Over_Read (length md - (length n1 + length n2)))"
proof -
  note T = trim_facts(1,2) [of e1] trim_facts(1,2) [of e2]
  have "lbnBits_32 (trim e1) = 1" "lbnBits_32 (trim e2) = 1" using T assms lbnBits_eq_1 by metis+
  moreover have "trim e2 \<noteq> []" using T(3) assms(3) by auto
  ultimately show ?thesis using dexp_product_over_read [of n1 n2 md ok, OF assms(1,4)]
    by (simp add: lbnDoubleExpMod_32_def)
qed

end
