(* ===== verification/Lbn_Precomp.thy ===== *)
theory Lbn_Precomp
  imports Lbn_Exp
begin

text \<open>
  Exponentiation with precomputed powers of a fixed base (\<open>lbnBasePrecompBegin_32\<close>,
  \<open>lbnBasePrecompExp_32\<close> and \<open>lbnDoubleBasePrecompExp_32\<close> of \<open>lbn32.c\<close>): the table of the powers
  \<open>g^(2^(j*bits))\<close>, and the walk over the digits of the exponent, once per digit value from the
  largest down.  A failed \<open>assert\<close>, a loop that does not end and a read past the table are \<open>None\<close>.
\<close>

section \<open>The code\<close>

datatype precomp_result = Precomp_OK "u32 list list" | Precomp_No_Memory

text \<open>\<open>do ... while (--i)\<close>: \<open>bits\<close> squarings.\<close>

primrec precomp_square :: "u32 list \<Rightarrow> u32 \<Rightarrow> nat \<Rightarrow> u32 list \<Rightarrow> u32 list option" where
  "precomp_square md minv 0 a = Some a"
| "precomp_square md minv (Suc i) a =
    do { b \<leftarrow> lbnMontSquare_32 a md minv; precomp_square md minv i b }"

text \<open>The remaining \<open>n\<close> entries of the array.\<close>

primrec precomp_fill :: "u32 list \<Rightarrow> u32 \<Rightarrow> nat \<Rightarrow> nat \<Rightarrow> u32 list \<Rightarrow> u32 list list option" where
  "precomp_fill md minv bits 0 a = Some []"
| "precomp_fill md minv bits (Suc n) a =
    do {
      a \<leftarrow> precomp_square md minv bits a;
      array \<leftarrow> precomp_fill md minv bits n a;
      Some (a # array)
    }"

definition lbnBasePrecompBegin_32 ::
  "(nat \<Rightarrow> bool) \<Rightarrow> nat \<Rightarrow> nat \<Rightarrow> u32 list \<Rightarrow> u32 list \<Rightarrow> precomp_result option" where
  "lbnBasePrecompBegin_32 ok n bits g md =
    (let g = trim g; mlen = length md in
     do {
       cassert (length g \<noteq> 0);
       cassert (mlen = lbnNorm_32 md);
       cassert (length g \<le> mlen);
       if \<not> ok 0 \<or> \<not> ok 1 then Some Precomp_No_Memory
       else do {
         cassert (md ! 0 AND 1 \<noteq> 0);
         minv \<leftarrow> lbnMontInv1_32 (md ! 0);
         let (_, q, a, _) = lbnDiv_32 (lbnZero_32 (replicate mlen 0) @ g) md;
         cassert (bits \<noteq> 0);
         cassert (n \<noteq> 0);
         array \<leftarrow> precomp_fill md minv bits (n - 1) a;
         Some (Precomp_OK (a # array))
       }
     })"

text \<open>An accumulator times \<open>d\<close>; \<open>None\<close> is the null flag of one that is implicitly 1.\<close>

definition precomp_times :: "u32 list \<Rightarrow> u32 \<Rightarrow> u32 list option \<Rightarrow> u32 list \<Rightarrow> u32 list option option" where
  "precomp_times md minv b d =
    (case b of None \<Rightarrow> Some (Some d)
     | Some b1 \<Rightarrow> do { c \<leftarrow> lbnMontMul_32 b1 d md minv; Some (Some c) })"

text \<open>Shifting the buffer down by \<open>bits\<close>, with the next word when it runs short: the current
  bits, the buffer, the words left and the valid bits.\<close>

definition precomp_shift :: "nat \<Rightarrow> u32 \<Rightarrow> u32 list \<Rightarrow> int \<Rightarrow> u32 \<times> u32 \<times> u32 list \<times> int" where
  "precomp_shift bits buf words bufbits =
    (let curbits = buf;
         buf = drop_bit bits buf;
         bufbits = bufbits - int bits
     in if bufbits < 0 \<and> words \<noteq> [] then
          (let nextword = hd words in
           (curbits OR push_bit (nat (bufbits + int bits)) nextword,
            drop_bit (nat (- bufbits)) nextword, tl words, bufbits + 32))
        else (curbits, buf, words, bufbits))"

partial_function (option) precomp_walk ::
  "nat \<Rightarrow> nat \<Rightarrow> u32 list list \<Rightarrow> u32 list \<Rightarrow> u32 \<Rightarrow> u32 \<Rightarrow> u32 list \<Rightarrow> int \<Rightarrow> nat \<Rightarrow> u32 list option \<Rightarrow>
    u32 list option option" where
  "precomp_walk bits i array md minv buf words bufbits j b =
    (if words \<noteq> [] \<or> buf \<noteq> 0 then
       (let (curbits, buf, words, bufbits) = precomp_shift bits buf words bufbits in
        do {
          b \<leftarrow> (if unat (curbits AND (push_bit bits 1 - 1)) = i
                then do { cassert (j < length array); precomp_times md minv b (array ! j) }
                else Some b);
          precomp_walk bits i array md minv buf words bufbits (j + 1) b
        })
     else Some b)"

declare precomp_walk.simps [code]

text \<open>The outer loop, \<open>i\<close> from \<open>mask\<close> down: \<open>b\<close> collects a round, \<open>a\<close> the products of the \<open>b\<close>s.\<close>

primrec precomp_loop ::
  "(nat \<Rightarrow> u32 list option \<Rightarrow> u32 list option option) \<Rightarrow> u32 list \<Rightarrow> u32 \<Rightarrow> nat \<Rightarrow>
    u32 list option \<Rightarrow> u32 list option \<Rightarrow> u32 list option option" where
  "precomp_loop round md minv 0 a b = Some a"
| "precomp_loop round md minv (Suc i) a b =
    do {
      b \<leftarrow> round (Suc i) b;
      a \<leftarrow> (case b of None \<Rightarrow> Some a | Some b1 \<Rightarrow> precomp_times md minv a b1);
      precomp_loop round md minv i a b
    }"

text \<open>Out of Montgomery form; a null accumulator fails the assertion.\<close>

definition precomp_finish :: "u32 list \<Rightarrow> u32 \<Rightarrow> u32 list option \<Rightarrow> exp_result option" where
  "precomp_finish md minv a =
    do {
      a1 \<leftarrow> a;
      r \<leftarrow> lbnMontReduce_32 (a1 @ lbnZero_32 (replicate (length md) 0)) md minv;
      Some (Exp_OK r)
    }"

definition precomp_round :: "nat \<Rightarrow> u32 list list \<Rightarrow> u32 list \<Rightarrow> u32 list \<Rightarrow> u32 \<Rightarrow> nat \<Rightarrow>
    u32 list option \<Rightarrow> u32 list option option" where
  "precomp_round bits array e md minv i b = precomp_walk bits i array md minv (hd e) (tl e) 32 0 b"

definition lbnBasePrecompExp_32 ::
  "(nat \<Rightarrow> bool) \<Rightarrow> u32 list list \<Rightarrow> nat \<Rightarrow> u32 list \<Rightarrow> u32 list \<Rightarrow> exp_result option" where
  "lbnBasePrecompExp_32 ok array bits e md =
    (let md = trim md; e = trim e; mask = push_bit bits 1 - 1 :: u32 in
     do {
       cassert (md \<noteq> []);
       if e = [] then Some (Exp_OK (1 # lbnZero_32 (replicate (length md - 1) 0)))
       else do {
         minv \<leftarrow> lbnMontInv1_32 (md ! 0);
         if \<not> ok 0 \<or> \<not> ok 1 \<or> \<not> ok 2 then Some Exp_No_Memory
         else do {
           a \<leftarrow> precomp_loop (precomp_round bits array e md minv) md minv (unat mask) None None;
           precomp_finish md minv a
         }
       }
     })"

definition precomp_double_round ::
  "nat \<Rightarrow> u32 list list \<Rightarrow> u32 list \<Rightarrow> u32 list list \<Rightarrow> u32 list \<Rightarrow> u32 list \<Rightarrow> u32 \<Rightarrow> nat \<Rightarrow>
    u32 list option \<Rightarrow> u32 list option option" where
  "precomp_double_round bits array1 e1 array2 e2 md minv i b =
    do {
      b \<leftarrow> precomp_walk bits i array1 md minv (hd e1) (tl e1) 32 0 b;
      precomp_walk bits i array2 md minv (hd e2) (tl e2) 32 0 b
    }"

definition lbnDoubleBasePrecompExp_32 ::
  "(nat \<Rightarrow> bool) \<Rightarrow> nat \<Rightarrow> u32 list list \<Rightarrow> u32 list \<Rightarrow> u32 list list \<Rightarrow> u32 list \<Rightarrow> u32 list \<Rightarrow>
    exp_result option" where
  "lbnDoubleBasePrecompExp_32 ok bits array1 e1 array2 e2 md =
    (let md = trim md; mask = push_bit bits 1 - 1 :: u32 in
     do {
       cassert (md \<noteq> []);
       if trim e1 = [] then lbnBasePrecompExp_32 ok array2 bits e2 md
       else if trim e2 = [] then lbnBasePrecompExp_32 ok array1 bits (trim e1) md
       else do {
         minv \<leftarrow> lbnMontInv1_32 (md ! 0);
         if \<not> ok 0 \<or> \<not> ok 1 \<or> \<not> ok 2 then Some Exp_No_Memory
         else do {
           a \<leftarrow> precomp_loop (precomp_double_round bits array1 (trim e1) array2 (trim e2) md minv)
             md minv (unat mask) None None;
           precomp_finish md minv a
         }
       }
     })"

section \<open>The digits of the exponent\<close>

text \<open>The weight in \<open>r * 2^(j * bits)\<close> of the digits equal to \<open>i\<close>.\<close>

function digit_weight :: "nat \<Rightarrow> nat \<Rightarrow> nat \<Rightarrow> nat \<Rightarrow> nat" where
  "digit_weight bits i j r =
    (if r = 0 \<or> bits = 0 then 0
     else of_bool (r mod 2 ^ bits = i) * 2 ^ (j * bits) + digit_weight bits i (j + 1) (r div 2 ^ bits))"
  by pat_completeness auto
termination
  by (relation "measure (\<lambda>(bits, i, j, r). r)") (auto intro!: div_less_dividend one_less_power)

declare digit_weight.simps [simp del]

lemma digit_weight_0 [simp]: "digit_weight bits i j 0 = 0"
  by (simp add: digit_weight.simps)

lemma sum_of_bool: "d \<le> n \<Longrightarrow> (\<Sum>k = 1..n. k * of_bool (d = k)) = (d :: nat)"
proof (induction n)
  case (Suc n)
  have "(\<Sum>k = 1..n. k * of_bool (Suc n = k)) = (0 :: nat)" by (intro sum.neutral) simp
  then show ?case using Suc by (cases "d = Suc n") simp_all
qed simp

lemma digit_weight_sum:
  assumes "0 < bits"
  shows "(\<Sum>k = 1..2 ^ bits - 1. k * digit_weight bits k j r) = r * 2 ^ (j * bits)"
proof (induction r arbitrary: j rule: less_induct)
  case (less r)
  show ?case
  proof (cases "r = 0")
    case False
    have lt: "r div 2 ^ bits < r" using False assms by (intro div_less_dividend one_less_power) simp_all
    have "r mod 2 ^ bits < 2 ^ bits" by (rule mod_less_divisor) simp
    then have d: "r mod 2 ^ bits \<le> 2 ^ bits - 1" by linarith
    have "digit_weight bits k j r = of_bool (r mod 2 ^ bits = k) * 2 ^ (j * bits) +
        digit_weight bits k (j + 1) (r div 2 ^ bits)" for k
      using False assms by (subst digit_weight.simps) simp
    then have "(\<Sum>k = 1..2 ^ bits - 1. k * digit_weight bits k j r) =
        (\<Sum>k = 1..2 ^ bits - 1. k * of_bool (r mod 2 ^ bits = k) * 2 ^ (j * bits) +
          k * digit_weight bits k (j + 1) (r div 2 ^ bits))"
      by (simp add: distrib_left mult.assoc)
    also have "\<dots> = (\<Sum>k = 1..2 ^ bits - 1. k * of_bool (r mod 2 ^ bits = k)) * 2 ^ (j * bits) +
        (\<Sum>k = 1..2 ^ bits - 1. k * digit_weight bits k (j + 1) (r div 2 ^ bits))"
      by (simp only: sum.distrib sum_distrib_right)
    also have "\<dots> = (r mod 2 ^ bits) * 2 ^ (j * bits) + (r div 2 ^ bits) * 2 ^ ((j + 1) * bits)"
      using less [OF lt, of "j + 1"] sum_of_bool [OF d] by simp
    also have "\<dots> = (r mod 2 ^ bits + r div 2 ^ bits * 2 ^ bits) * 2 ^ (j * bits)"
    proof -
      have "d * P + q * 2 ^ ((j + 1) * bits) = (d + q * 2 ^ bits) * P" if "P = 2 ^ (j * bits)" for d q P :: nat
        unfolding that by (simp add: power_add algebra_simps)
      then show ?thesis by blast
    qed
    finally show ?thesis by (simp only: mod_div_mult_eq)
  qed simp
qed

section \<open>The bit buffer\<close>

text \<open>At digit \<open>j\<close>, with \<open>p\<close> words fetched: the buffer holds the fetched words from bit \<open>j * bits\<close> on.\<close>

definition walk_inv :: "u32 list \<Rightarrow> nat \<Rightarrow> nat \<Rightarrow> nat \<Rightarrow> u32 \<Rightarrow> u32 list \<Rightarrow> int \<Rightarrow> bool" where
  "walk_inv e bits p j buf words bufbits \<longleftrightarrow>
    0 < p \<and> p \<le> length e \<and> words = drop p e \<and> bufbits = 32 * int p - int (j * bits) \<and>
    unat buf = nval (take p e) div 2 ^ (j * bits) \<and> (words \<noteq> [] \<longrightarrow> j * bits \<le> 32 * p)"

lemma BB_power: "BB ^ p = 2 ^ (32 * p)"
  by (simp only: power_mult) simp

text \<open>The loop goes on as long as there are digits left.\<close>

lemma walk_more:
  assumes inv: "walk_inv e bits p j buf words bufbits" and e: "normed e"
  shows "(words \<noteq> [] \<or> buf \<noteq> 0) \<longleftrightarrow> nval e div 2 ^ (j * bits) \<noteq> 0"
proof (cases "words = []")
  case True
  then have "take p e = e" using inv by (simp add: walk_inv_def)
  then show ?thesis using inv True by (simp add: walk_inv_def flip: unat_eq_0)
next
  case False
  then have p: "p < length e" and le: "j * bits \<le> 32 * p" using inv by (simp_all add: walk_inv_def)
  have "(2 :: nat) ^ (j * bits) \<le> 2 ^ (32 * (length e - 1))" using p le by (intro power_increasing) simp_all
  also have "\<dots> \<le> nval e"
  proof -
    have "e \<noteq> []" using p by auto
    then show ?thesis using normed_ge e by (simp flip: BB_power)
  qed
  finally show ?thesis using False by (simp add: div_eq_0_iff)
qed

lemma mod_div_power: "a mod 2 ^ (m + k) div 2 ^ m = a div 2 ^ m mod (2 :: nat) ^ k"
  by (simp add: power_add mod_mult2_eq)

text \<open>One step: the low bits of the current bits are digit \<open>j\<close>, and the invariant holds at \<open>j + 1\<close>.\<close>

lemma precomp_shift_ok:
  assumes inv: "walk_inv e bits p j buf words bufbits" and bits: "0 < bits" "bits < 32"
    and s: "precomp_shift bits buf words bufbits = (curbits, buf', words', bufbits')"
  shows "unat (curbits AND (push_bit bits 1 - 1)) = nval e div 2 ^ (j * bits) mod 2 ^ bits \<and>
    (\<exists>p'. walk_inv e bits p' (j + 1) buf' words' bufbits')"
proof -
  define m where "m = j * bits"
  have I: "0 < p" "p \<le> length e" "words = drop p e" "bufbits = 32 * int p - int m"
      "unat buf = nval (take p e) div 2 ^ m" "words \<noteq> [] \<longrightarrow> m \<le> 32 * p"
    using inv by (simp_all add: walk_inv_def m_def)
  have mask: "unat (x AND (push_bit bits 1 - 1)) = unat x mod 2 ^ bits" for x :: u32
  proof -
    have "x AND (push_bit bits 1 - 1) = take_bit bits x" by (simp add: take_bit_eq_mask mask_eq_exp_minus_1)
    moreover have "unat (take_bit bits x) = take_bit bits (unat x)" by (rule unsigned_take_bit_eq)
    ultimately show ?thesis by (simp only: take_bit_eq_mod)
  qed
  have shifted: "unat (drop_bit bits buf) = nval (take p e) div 2 ^ (m + bits)"
    by (simp add: unat_drop_32 I(5) power_add flip: div_mult2_eq)
  have m': "(j + 1) * bits = m + bits" by (simp add: m_def)
  show ?thesis
  proof (cases "bufbits - int bits < 0 \<and> words \<noteq> []")
    case False
    then have r: "curbits = buf" "buf' = drop_bit bits buf" "words' = words" "bufbits' = bufbits - int bits"
      using s by (auto simp: precomp_shift_def)
    have le: "words \<noteq> [] \<longrightarrow> m + bits \<le> 32 * p" using False I(4) by auto
    have "nval (take p e) div 2 ^ m mod 2 ^ bits = nval e div 2 ^ m mod 2 ^ bits"
    proof (cases "words = []")
      case False
      have "nval (take p e) = nval e mod 2 ^ (32 * p)" using nval_mod [OF I(2)] by (simp add: BB_power)
      then have "nval (take p e) div 2 ^ m mod 2 ^ bits = nval e mod 2 ^ (32 * p) mod 2 ^ (m + bits) div 2 ^ m"
        by (simp add: mod_div_power)
      also have "nval e mod 2 ^ (32 * p) mod 2 ^ (m + bits) = nval e mod 2 ^ (m + bits)"
        using le False by (intro mod_mod_cancel) (simp add: le_imp_power_dvd)
      finally show ?thesis by (simp add: mod_div_power)
    qed (use I(3) in simp)
    moreover have "walk_inv e bits p (j + 1) buf' words' bufbits'"
      unfolding walk_inv_def m' using I le shifted r by simp
    ultimately show ?thesis using r mask I(5) unfolding m_def by auto
  next
    case True
    then have p: "p < length e" using I(3) by simp
    have m: "m \<le> 32 * p" "32 * p < m + bits" using True I by auto
    define k where "k = 32 * p - m"
    have k: "32 * p = m + k" "k < bits" using m by (simp_all add: k_def)
    have n: "nat (bufbits - int bits + int bits) = k" "nat (- (bufbits - int bits)) = bits - k"
      using k I(4) by auto
    have r: "curbits = buf OR push_bit k (e ! p)" "buf' = drop_bit (bits - k) (e ! p)"
        "words' = drop (Suc p) e" "bufbits' = bufbits - int bits + 32"
      using s True p unfolding precomp_shift_def Let_def n by (auto simp: I(3) hd_drop_conv_nth drop_Suc tl_drop)
    have take: "nval (take (Suc p) e) = nval (take p e) + 2 ^ (m + k) * unat (e ! p)"
      using p by (simp add: take_Suc_conv_app_nth nval_snoc BB_power k(1) min_absorb2 del: take_Suc)
    have lt: "nval (take p e) < 2 ^ (m + k)" using nval_less [of "take p e"] p by (simp add: BB_power k(1) min_absorb2)
    have cur: "nval (take (Suc p) e) div 2 ^ m = unat buf + 2 ^ k * unat (e ! p)"
      by (simp add: take I(5) power_add mult.assoc)
    have b: "unat buf < 2 ^ k" using lt by (simp add: I(5) less_mult_imp_div_less mult.commute power_add)
    have "k < 32" using k bits by simp
    have "unat curbits mod 2 ^ bits = (unat buf + 2 ^ k * unat (e ! p)) mod 2 ^ bits"
    proof -
      have "unat curbits = unat buf + unat (e ! p) * 2 ^ k mod BB"
        unfolding r(1) using unat_push_or [of k buf "e ! p"] b \<open>k < 32\<close> by (simp add: or.commute)
      then have "unat curbits mod 2 ^ bits = (unat buf + unat (e ! p) * 2 ^ k mod BB mod 2 ^ bits) mod 2 ^ bits"
        by (simp add: mod_add_right_eq)
      also have "unat (e ! p) * 2 ^ k mod BB mod 2 ^ bits = unat (e ! p) * 2 ^ k mod 2 ^ bits"
      proof (rule mod_mod_cancel)
        have "(2 :: nat) ^ bits dvd 2 ^ 32" using bits by (intro le_imp_power_dvd) simp
        then show "(2 :: nat) ^ bits dvd BB" by simp
      qed
      finally show ?thesis by (simp add: mod_add_right_eq mult.commute)
    qed
    moreover have "nval (take (Suc p) e) div 2 ^ m mod 2 ^ bits = nval e div 2 ^ m mod 2 ^ bits"
    proof -
      have "nval (take (Suc p) e) = nval e mod 2 ^ (32 * Suc p)"
        using nval_mod [of "Suc p" e] p unfolding BB_power by simp
      then have "nval (take (Suc p) e) div 2 ^ m mod 2 ^ bits = nval e mod 2 ^ (32 * Suc p) mod 2 ^ (m + bits) div 2 ^ m"
        by (simp add: mod_div_power)
      also have "nval e mod 2 ^ (32 * Suc p) mod 2 ^ (m + bits) = nval e mod 2 ^ (m + bits)"
        using k bits by (intro mod_mod_cancel le_imp_power_dvd) simp
      finally show ?thesis by (simp add: mod_div_power)
    qed
    ultimately have "unat (curbits AND (push_bit bits 1 - 1)) = nval e div 2 ^ m mod 2 ^ bits"
      by (simp only: mask cur)
    moreover have "walk_inv e bits (Suc p) (j + 1) buf' words' bufbits'"
    proof -
      have "nval (take (Suc p) e) div 2 ^ (m + bits) = nval (take (Suc p) e) div 2 ^ (m + k) div 2 ^ (bits - k)"
        using k by (simp flip: div_mult2_eq power_add)
      also have "nval (take (Suc p) e) div 2 ^ (m + k) = unat (e ! p)" using lt by (simp add: take)
      finally have "unat buf' = nval (take (Suc p) e) div 2 ^ (m + bits)" by (simp add: r unat_drop_32)
      then show ?thesis unfolding walk_inv_def m' using p r k bits I(4) by simp
    qed
    ultimately show ?thesis unfolding m_def by blast
  qed
qed

section \<open>The walk\<close>

text \<open>An accumulator that holds \<open>X\<close>; \<open>n\<close> is its total exponent, 0 exactly when it is implicitly 1.\<close>

definition acc_rep :: "u32 list \<Rightarrow> nat \<Rightarrow> nat \<Rightarrow> u32 list option \<Rightarrow> bool" where
  "acc_rep md X n b \<longleftrightarrow> (case b of None \<Rightarrow> X = 1 \<and> n = 0 | Some r \<Rightarrow> mont_rep md X r \<and> n \<noteq> 0)"

lemma acc_rep_None [simp]: "acc_rep md (Suc 0) 0 None"
  by (simp add: acc_rep_def)

lemma precomp_times_ok:
  assumes ok: "mont_ok md minv" and b: "acc_rep md X n b" and d: "mont_rep md Y d" and k: "k \<noteq> 0"
  shows "\<exists>b'. precomp_times md minv b d = Some b' \<and> acc_rep md (X * Y) (n + k) b'"
proof (cases b)
  case None
  then show ?thesis using b d k by (simp add: acc_rep_def precomp_times_def)
next
  case (Some r)
  then have "mont_rep md X r" "n \<noteq> 0" using b by (simp_all add: acc_rep_def)
  with lbnMontMul_rep [OF ok _ d] obtain c where "lbnMontMul_32 r d md minv = Some c" "mont_rep md (X * Y) c" by blast
  then show ?thesis using Some \<open>n \<noteq> 0\<close> by (simp add: precomp_times_def acc_rep_def)
qed

text \<open>The table of the powers of \<open>g\<close>, long enough for the exponent.\<close>

definition power_table :: "u32 list \<Rightarrow> nat \<Rightarrow> nat \<Rightarrow> u32 list list \<Rightarrow> bool" where
  "power_table md g bits array \<longleftrightarrow>
    (\<forall>j < length array. mont_rep md (g ^ (2 ^ (j * bits))) (array ! j))"

lemma precomp_walk_ok:
  assumes ok: "mont_ok md minv" and tbl: "power_table md g bits array" and bits: "0 < bits" "bits < 32"
    and e: "normed e" and len: "nval e < 2 ^ (length array * bits)" and i: "0 < i"
  shows "walk_inv e bits p j buf words bufbits \<Longrightarrow> r = nval e div 2 ^ (j * bits) \<Longrightarrow> acc_rep md X n b \<Longrightarrow>
    \<exists>b'. precomp_walk bits i array md minv buf words bufbits j b = Some b' \<and>
      acc_rep md (X * g ^ digit_weight bits i j r) (n + digit_weight bits i j r) b'"
proof (induction r arbitrary: p j buf words bufbits X n b rule: less_induct)
  case (less r)
  note more = walk_more [OF less.prems(1) e]
  show ?case
  proof (cases "r = 0")
    case True
    then show ?thesis using more less.prems by (subst precomp_walk.simps) simp
  next
    case False
    obtain c buf' words' bb' where s: "precomp_shift bits buf words bufbits = (c, buf', words', bb')"
      by (metis prod_cases4)
    from precomp_shift_ok [OF less.prems(1) bits s] obtain p' where
      c: "unat (c AND (push_bit bits 1 - 1)) = r mod 2 ^ bits" and inv': "walk_inv e bits p' (j + 1) buf' words' bb'"
      using less.prems(2) by auto
    define w where "w = of_bool (r mod 2 ^ bits = i) * (2 :: nat) ^ (j * bits)"
    have "\<exists>b1. (if unat (c AND (push_bit bits 1 - 1)) = i
                then do { cassert (j < length array); precomp_times md minv b (array ! j) }
                else Some b) = Some b1 \<and> acc_rep md (X * g ^ w) (n + w) b1"
    proof (cases "r mod 2 ^ bits = i")
      case True
      have "2 ^ (j * bits) \<le> nval e"
        using False less.prems(2) by (metis div_less not_le)
      then have "(2 :: nat) ^ (j * bits) < 2 ^ (length array * bits)" using len by linarith
      then have "j * bits < length array * bits" by (rule power_less_imp_less_exp [rotated]) simp
      then have j: "j < length array" by simp
      then have "mont_rep md (g ^ (2 ^ (j * bits))) (array ! j)" using tbl by (simp add: power_table_def)
      from precomp_times_ok [OF ok less.prems(3) this, of "2 ^ (j * bits)"] show ?thesis
        unfolding c using True j by (simp add: w_def cassert_def)
    qed (use c less.prems(3) in \<open>simp add: w_def\<close>)
    then obtain b1 where b1: "(if unat (c AND (push_bit bits 1 - 1)) = i
                then do { cassert (j < length array); precomp_times md minv b (array ! j) }
                else Some b) = Some b1" "acc_rep md (X * g ^ w) (n + w) b1" by blast
    have lt: "r div 2 ^ bits < r" using False bits by (intro div_less_dividend one_less_power) simp_all
    have r': "r div 2 ^ bits = nval e div 2 ^ ((j + 1) * bits)"
      unfolding less.prems(2) by (simp add: power_add mult.commute flip: div_mult2_eq)
    have W: "digit_weight bits i j r = w + digit_weight bits i (j + 1) (r div 2 ^ bits)"
      using False bits by (subst digit_weight.simps) (simp add: w_def)
    from less.IH [OF lt inv' r' b1(2)] obtain b' where
      "precomp_walk bits i array md minv buf' words' bb' (j + 1) b1 = Some b'"
      "acc_rep md (X * g ^ digit_weight bits i j r) (n + digit_weight bits i j r) b'"
      unfolding W by (auto simp: power_add mult.assoc add.assoc)
    moreover have "words \<noteq> [] \<or> buf \<noteq> 0" using more False less.prems(2) by simp
    ultimately show ?thesis using s b1(1) by (subst precomp_walk.simps) simp
  qed
qed

lemma walk_inv_start: "e \<noteq> [] \<Longrightarrow> walk_inv e bits 1 0 (hd e) (tl e) 32"
  by (cases e) (simp_all add: walk_inv_def)

lemma precomp_walk_start:
  assumes "mont_ok md minv" and "power_table md g bits array" and "0 < bits" "bits < 32"
    and "normed e" "e \<noteq> []" and "nval e < 2 ^ (length array * bits)" and "0 < i" and "acc_rep md X n b"
  shows "\<exists>b'. precomp_walk bits i array md minv (hd e) (tl e) 32 0 b = Some b' \<and>
    acc_rep md (X * g ^ digit_weight bits i 0 (nval e)) (n + digit_weight bits i 0 (nval e)) b'"
  using precomp_walk_ok [OF assms(1-5,7,8) walk_inv_start [OF assms(6)] _ assms(9)] by simp

section \<open>The rounds\<close>

text \<open>Round \<open>k\<close> multiplies \<open>Y k\<close> into \<open>b\<close>; from \<open>i\<close> down to 1 the accumulator collects \<open>b\<close> after each.\<close>

lemma precomp_loop_ok:
  assumes ok: "mont_ok md minv"
    and round: "\<And>k X n b. 0 < k \<Longrightarrow> k \<le> i \<Longrightarrow> acc_rep md X n b \<Longrightarrow>
      \<exists>b'. round k b = Some b' \<and> acc_rep md (X * Y k) (n + N k) b'"
    and a: "acc_rep md A n a" and b: "acc_rep md B m b"
  shows "\<exists>a'. precomp_loop round md minv i a b = Some a' \<and>
    acc_rep md (A * B ^ i * (\<Prod>k = 1..i. Y k ^ k)) (n + i * m + (\<Sum>k = 1..i. k * N k)) a'"
  using assms(2-)
proof (induction i arbitrary: A n a B m b)
  case (Suc i)
  from Suc.prems(1) [OF _ _ Suc.prems(3), of "Suc i"] obtain b' where
    b': "round (Suc i) b = Some b'" "acc_rep md (B * Y (Suc i)) (m + N (Suc i)) b'" by auto
  have "\<exists>a'. (case b' of None \<Rightarrow> Some a | Some b1 \<Rightarrow> precomp_times md minv a b1) = Some a' \<and>
      acc_rep md (A * (B * Y (Suc i))) (n + (m + N (Suc i))) a'"
  proof (cases b')
    case None
    then have "B * Y (Suc i) = 1" "m + N (Suc i) = 0" using b'(2) by (simp_all add: acc_rep_def)
    then show ?thesis using None Suc.prems(2) by simp
  next
    case (Some b1)
    then have "mont_rep md (B * Y (Suc i)) b1" "m + N (Suc i) \<noteq> 0" using b'(2) by (simp_all add: acc_rep_def)
    from precomp_times_ok [OF ok Suc.prems(2) this] show ?thesis using Some by simp
  qed
  then obtain a' where a': "(case b' of None \<Rightarrow> Some a | Some b1 \<Rightarrow> precomp_times md minv a b1) = Some a'"
      "acc_rep md (A * (B * Y (Suc i))) (n + (m + N (Suc i))) a'" by blast
  have "\<exists>a''. precomp_loop round md minv i a' b' = Some a'' \<and>
    acc_rep md (A * (B * Y (Suc i)) * (B * Y (Suc i)) ^ i * (\<Prod>k = 1..i. Y k ^ k))
      (n + (m + N (Suc i)) + i * (m + N (Suc i)) + (\<Sum>k = 1..i. k * N k)) a''"
    by (rule Suc.IH [OF _ a'(2) b'(2)]) (use Suc.prems(1) in simp)
  moreover have "A * (B * Y (Suc i)) * (B * Y (Suc i)) ^ i * (\<Prod>k = 1..i. Y k ^ k) =
      A * B ^ Suc i * (\<Prod>k = 1..Suc i. Y k ^ k)"
    by (simp add: power_mult_distrib algebra_simps)
  moreover have "n + (m + N (Suc i)) + i * (m + N (Suc i)) + (\<Sum>k = 1..i. k * N k) =
      n + Suc i * m + (\<Sum>k = 1..Suc i. k * N k)"
    by (simp add: algebra_simps)
  ultimately have "\<exists>a''. precomp_loop round md minv i a' b' = Some a'' \<and>
    acc_rep md (A * B ^ Suc i * (\<Prod>k = 1..Suc i. Y k ^ k)) (n + Suc i * m + (\<Sum>k = 1..Suc i. k * N k)) a''"
    by (simp only:)
  then show ?case by (simp only: precomp_loop.simps b'(1) a'(1) Option.bind_lunit)
qed simp

lemma prod_power_weights:
  assumes "0 < bits"
  shows "(\<Prod>k = 1..2 ^ bits - 1. (g ^ digit_weight bits k 0 r) ^ k) = (g :: nat) ^ r"
proof -
  have "(\<Prod>k = 1..2 ^ bits - 1. (g ^ digit_weight bits k 0 r) ^ k) =
      g ^ (\<Sum>k = 1..2 ^ bits - 1. k * digit_weight bits k 0 r)"
    by (simp add: power_sum power_mult [symmetric] mult.commute)
  then show ?thesis using digit_weight_sum [OF assms, of 0 r] by simp
qed

lemma unat_mask: "bits < 32 \<Longrightarrow> unat (push_bit bits 1 - 1 :: u32) = 2 ^ bits - 1"
proof -
  assume b: "bits < 32"
  then have "(2 :: nat) ^ bits < 2 ^ 32" by (intro power_strict_increasing) simp_all
  then have "unat (push_bit bits 1 :: u32) = 2 ^ bits" using unat_push_32 [of bits 1] by simp
  moreover from this have "push_bit bits 1 \<noteq> (0 :: u32)" by (metis power_not_zero unsigned_0 zero_neq_numeral)
  ultimately show ?thesis using unat_minus_one [of "push_bit bits 1 :: u32"] by simp
qed

lemma precomp_finish_ok:
  assumes "mont_ok md minv" and "acc_rep md X n a" and "n \<noteq> 0"
  shows "\<exists>r. precomp_finish md minv a = Some (Exp_OK r) \<and> length r = length md \<and> nval r = X mod nval md"
proof -
  obtain a1 where a1: "a = Some a1" "mont_rep md X a1" using assms by (cases a) (auto simp: acc_rep_def)
  from from_mont_value [OF assms(1) a1(2)] show ?thesis
    using a1(1) by (auto simp: precomp_finish_def replicate_lbnZero)
qed

text \<open>The set-up that the two functions share.\<close>

lemma precomp_minv:
  assumes "odd (hd md)" and "md \<noteq> []"
  obtains minv where "lbnMontInv1_32 (md ! 0) = Some minv" "mont_ok md minv"
  using lbnMontInv1_value [OF assms(1)] assms(2) that by (auto simp: mont_ok_def hd_conv_nth)

lemma trim_id: "normed x \<Longrightarrow> trim x = x"
proof -
  assume "normed x"
  then have "length (trim x) = length x" by (intro le_antisym normed_length_mono) simp_all
  then show ?thesis using nval_inj [of "trim x" x] by simp
qed

section \<open>The three functions\<close>

lemma precomp_square_ok:
  "mont_ok md minv \<Longrightarrow> mont_rep md x a \<Longrightarrow>
    \<exists>b. precomp_square md minv i a = Some b \<and> mont_rep md (x ^ (2 ^ i)) b"
proof (induction i arbitrary: x a)
  case (Suc i)
  from lbnMontSquare_rep [OF Suc.prems] obtain b where
    b: "lbnMontSquare_32 a md minv = Some b" "mont_rep md (x * x) b" by blast
  have "(x * x) ^ (2 ^ i) = x ^ (2 ^ Suc i)" by (simp add: power_mult power2_eq_square)
  with Suc.IH [OF Suc.prems(1) b(2)] b(1) show ?case by simp
qed simp

lemma precomp_fill_ok:
  "mont_ok md minv \<Longrightarrow> mont_rep md (g ^ (2 ^ (j * bits))) a \<Longrightarrow>
    \<exists>array. precomp_fill md minv bits n a = Some array \<and> length array = n \<and>
      (\<forall>i < n. mont_rep md (g ^ (2 ^ ((j + Suc i) * bits))) (array ! i))"
proof (induction n arbitrary: j a)
  case (Suc n)
  have e: "(g ^ 2 ^ (j * bits)) ^ 2 ^ bits = g ^ 2 ^ (Suc j * bits)"
    by (simp add: power_add mult.commute flip: power_mult)
  from precomp_square_ok [OF Suc.prems, of bits] obtain b where
    b: "precomp_square md minv bits a = Some b" "mont_rep md (g ^ 2 ^ (Suc j * bits)) b" unfolding e by blast
  from Suc.IH [OF Suc.prems(1) b(2)] obtain array where
    array: "precomp_fill md minv bits n b = Some array" "length array = n"
      "\<forall>i < n. mont_rep md (g ^ (2 ^ ((Suc j + Suc i) * bits))) (array ! i)" by blast
  have "mont_rep md (g ^ (2 ^ ((j + Suc i) * bits))) ((b # array) ! i)" if "i < Suc n" for i
    using that array(3) b(2) by (cases i) auto
  then show ?case using array b(1) by (intro exI [of _ "b # array"]) simp
qed simp

lemma lbnBasePrecompBegin_value:
  assumes odd: "odd (hd md)" and md: "md \<noteq> []" "last md \<noteq> 0" and g: "nval g \<noteq> 0" "length (trim g) \<le> length md"
    and ok: "ok 0" "ok 1" and n: "0 < n" "0 < bits"
  shows "\<exists>array. lbnBasePrecompBegin_32 ok n bits g md = Some (Precomp_OK array) \<and> length array = n \<and>
    power_table md (nval g) bits array"
proof -
  obtain minv where minv: "lbnMontInv1_32 (md ! 0) = Some minv" "mont_ok md minv"
    using precomp_minv [OF odd md(1)] by blast
  have "trim g \<noteq> []" using g(1) by simp
  moreover have "length md = lbnNorm_32 md"
    using trim_id [of md] md lbnNorm_value [of md] by (simp add: normed_def trim_def take_all_iff)
  moreover have "md ! 0 AND 1 \<noteq> 0" using odd md(1) by (simp add: hd_conv_nth and_one_eq odd_iff_mod_2_eq_one)
  moreover obtain qh q a d where div: "lbnDiv_32 (lbnZero_32 (replicate (length md) 0) @ trim g) md = (qh, q, a, d)"
    by (metis prod_cases4)
  moreover have a: "mont_rep md (nval g) a"
  proof -
    have "length md \<le> length (lbnZero_32 (replicate (length md) (0 :: u32)) @ trim g)" by simp
    note V = lbnDiv_value [OF md this div]
    then have "nval g * BB ^ length md = nval (q @ [qh]) * nval md + nval a"
      by (simp add: nval_append replicate_lbnZero mult.commute)
    then have "nval a mod nval md = nval g * BB ^ length md mod nval md" by simp
    then show ?thesis using V by (simp add: mont_rep_def)
  qed
  moreover obtain array where
    array: "precomp_fill md minv bits (n - 1) a = Some array" "length array = n - 1"
      "\<forall>i < n - 1. mont_rep md (nval g ^ (2 ^ (Suc i * bits))) (array ! i)"
    using precomp_fill_ok [OF minv(2), of "nval g" 0 bits a "n - 1"] a by auto
  moreover have "power_table md (nval g) bits (a # array)"
    unfolding power_table_def
  proof (intro allI impI)
    fix j assume "j < length (a # array)"
    then show "mont_rep md (nval g ^ 2 ^ (j * bits)) ((a # array) ! j)"
      using a array(2,3) by (cases j) auto
  qed
  ultimately show ?thesis using ok n g(2) minv(1)
    by (intro exI [of _ "a # array"]) (simp add: lbnBasePrecompBegin_32_def cassert_def Let_def)
qed

lemma lbnBasePrecompExp_value:
  assumes odd: "odd (hd md)" and md: "md \<noteq> []" "last md \<noteq> 0" and ok: "ok 0" "ok 1" "ok 2"
    and bits: "0 < bits" "bits < 32" and tbl: "power_table md g bits array"
    and len: "nval e < 2 ^ (length array * bits)"
  shows "\<exists>r. lbnBasePrecompExp_32 ok array bits e md = Some (Exp_OK r) \<and> length r = length md \<and>
    nval r mod nval md = g ^ nval e mod nval md"
proof -
  have t: "trim md = md" using trim_id md by (simp add: normed_def)
  show ?thesis
  proof (cases "trim e = []")
    case True
    then have "lbnBasePrecompExp_32 ok array bits e md = Some (Exp_OK (1 # lbnZero_32 (replicate (length md - 1) 0)))"
      using md(1) by (simp add: lbnBasePrecompExp_32_def t cassert_def)
    moreover have "nval e = 0" using True by simp
    ultimately show ?thesis using md(1) by simp
  next
    case False
    obtain minv where minv: "lbnMontInv1_32 (md ! 0) = Some minv" "mont_ok md minv"
      using precomp_minv [OF odd md(1)] by blast
    define W where "W k = digit_weight bits k 0 (nval e)" for k
    have len': "nval (trim e) < 2 ^ (length array * bits)" using len by simp
    have "\<exists>a. precomp_loop (precomp_round bits array (trim e) md minv) md minv (2 ^ bits - 1) None None = Some a \<and>
        acc_rep md (1 * 1 ^ (2 ^ bits - 1) * (\<Prod>k = 1..2 ^ bits - 1. (g ^ W k) ^ k))
          (0 + (2 ^ bits - 1) * 0 + (\<Sum>k = 1..2 ^ bits - 1. k * W k)) a"
    proof (rule precomp_loop_ok [OF minv(2)])
      fix k X n b assume "0 < (k :: nat)" "acc_rep md X n b"
      from precomp_walk_start [OF minv(2) tbl bits trim_normed False len' this]
      show "\<exists>b'. precomp_round bits array (trim e) md minv k b = Some b' \<and> acc_rep md (X * g ^ W k) (n + W k) b'"
        by (simp add: precomp_round_def W_def)
    qed simp_all
    moreover have "(\<Prod>k = 1..2 ^ bits - 1. (g ^ W k) ^ k) = g ^ nval e"
      unfolding W_def by (rule prod_power_weights [OF bits(1)])
    moreover have "(\<Sum>k = 1..2 ^ bits - 1. k * W k) = nval e"
      unfolding W_def using digit_weight_sum [OF bits(1), of 0 "nval e"] by simp
    ultimately obtain a where
      a: "precomp_loop (precomp_round bits array (trim e) md minv) md minv (2 ^ bits - 1) None None = Some a"
        "acc_rep md (g ^ nval e) (nval e) a" by auto
    have "nval e \<noteq> 0" using False by simp
    from precomp_finish_ok [OF minv(2) a(2) this] obtain r where
      r: "precomp_finish md minv a = Some (Exp_OK r)" "length r = length md" "nval r = g ^ nval e mod nval md" by blast
    have "lbnBasePrecompExp_32 ok array bits e md = Some (Exp_OK r)"
      using a(1) r(1) minv(1) md(1) False ok unat_mask [OF bits(2)]
      by (simp add: lbnBasePrecompExp_32_def t cassert_def Let_def)
    then show ?thesis using r by simp
  qed
qed

lemma lbnDoubleBasePrecompExp_value:
  assumes odd: "odd (hd md)" and md: "md \<noteq> []" "last md \<noteq> 0" and ok: "ok 0" "ok 1" "ok 2"
    and bits: "0 < bits" "bits < 32"
    and tbl: "power_table md g1 bits array1" "power_table md g2 bits array2"
    and len: "nval e1 < 2 ^ (length array1 * bits)" "nval e2 < 2 ^ (length array2 * bits)"
  shows "\<exists>r. lbnDoubleBasePrecompExp_32 ok bits array1 e1 array2 e2 md = Some (Exp_OK r) \<and>
    length r = length md \<and> nval r mod nval md = g1 ^ nval e1 * g2 ^ nval e2 mod nval md"
proof -
  have t: "trim md = md" using trim_id md by (simp add: normed_def)
  have len': "nval (trim e1) < 2 ^ (length array1 * bits)" "nval (trim e2) < 2 ^ (length array2 * bits)"
    using len by simp_all
  note unfold = lbnDoubleBasePrecompExp_32_def [of ok bits array1 e1 array2 e2 md, unfolded Let_def t]
  show ?thesis
  proof (cases "trim e1 = [] \<or> trim e2 = []")
    case True
    show ?thesis
    proof (cases "trim e1 = []")
      case True
      then show ?thesis using lbnBasePrecompExp_value [OF odd md ok bits tbl(2) len(2)] md(1)
        by (auto simp: unfold cassert_def)
    next
      case False
      then show ?thesis using lbnBasePrecompExp_value [OF odd md ok bits tbl(1) len'(1)] md(1) True
        by (auto simp: unfold cassert_def)
    qed
  next
    case False
    then have ne: "trim e1 \<noteq> []" "trim e2 \<noteq> []" by simp_all
    obtain minv where minv: "lbnMontInv1_32 (md ! 0) = Some minv" "mont_ok md minv"
      using precomp_minv [OF odd md(1)] by blast
    define W1 W2 where "W1 k = digit_weight bits k 0 (nval e1)" and "W2 k = digit_weight bits k 0 (nval e2)" for k
    let ?round = "precomp_double_round bits array1 (trim e1) array2 (trim e2) md minv"
    have "\<exists>a. precomp_loop ?round md minv (2 ^ bits - 1) None None = Some a \<and>
        acc_rep md (1 * 1 ^ (2 ^ bits - 1) * (\<Prod>k = 1..2 ^ bits - 1. (g1 ^ W1 k * g2 ^ W2 k) ^ k))
          (0 + (2 ^ bits - 1) * 0 + (\<Sum>k = 1..2 ^ bits - 1. k * (W1 k + W2 k))) a"
    proof (rule precomp_loop_ok [OF minv(2)])
      fix k X n b assume k: "0 < (k :: nat)" and b: "acc_rep md X n b"
      from precomp_walk_start [OF minv(2) tbl(1) bits trim_normed ne(1) len'(1) k b] obtain b1 where
        b1: "precomp_walk bits k array1 md minv (hd (trim e1)) (tl (trim e1)) 32 0 b = Some b1"
          "acc_rep md (X * g1 ^ W1 k) (n + W1 k) b1" by (auto simp: W1_def)
      from precomp_walk_start [OF minv(2) tbl(2) bits trim_normed ne(2) len'(2) k b1(2)] b1(1)
      show "\<exists>b'. ?round k b = Some b' \<and> acc_rep md (X * (g1 ^ W1 k * g2 ^ W2 k)) (n + (W1 k + W2 k)) b'"
        by (simp add: precomp_double_round_def W2_def mult.assoc add.assoc)
    qed simp_all
    moreover have "(\<Prod>k = 1..2 ^ bits - 1. (g1 ^ W1 k * g2 ^ W2 k) ^ k) = g1 ^ nval e1 * g2 ^ nval e2"
      unfolding W1_def W2_def power_mult_distrib prod.distrib prod_power_weights [OF bits(1)] ..
    moreover have "(\<Sum>k = 1..2 ^ bits - 1. k * (W1 k + W2 k)) = nval e1 + nval e2"
      unfolding W1_def W2_def distrib_left sum.distrib
      using digit_weight_sum [OF bits(1), of 0] by simp
    ultimately obtain a where
      a: "precomp_loop ?round md minv (2 ^ bits - 1) None None = Some a"
        "acc_rep md (g1 ^ nval e1 * g2 ^ nval e2) (nval e1 + nval e2) a" by auto
    have "nval e1 + nval e2 \<noteq> 0" using ne by simp
    from precomp_finish_ok [OF minv(2) a(2) this] obtain r where
      r: "precomp_finish md minv a = Some (Exp_OK r)" "length r = length md"
        "nval r = g1 ^ nval e1 * g2 ^ nval e2 mod nval md" by blast
    have "lbnDoubleBasePrecompExp_32 ok bits array1 e1 array2 e2 md = Some (Exp_OK r)"
      unfolding unfold using a(1) r(1) minv(1) md(1) ne ok unat_mask [OF bits(2)] by (simp add: cassert_def)
    then show ?thesis using r by simp
  qed
qed

end
