(* ===== verification/Lbn_Correct.thy ===== *)
theory Lbn_Correct
  imports Lbn_Bytes Lbn_Two Lbn_Double Lbn_Precomp
begin

text \<open>
  What the routines of \<open>lbn32.c\<close> promise to their callers, as statements about the numbers that the
  word lists denote (\<open>nval\<close>): the component theories prove the parts, this theory composes them.
  The number \<open>ok k\<close> tells whether allocation \<open>k\<close> of a call succeeds.
\<close>

section \<open>Arithmetic\<close>

text \<open>Adding and then subtracting a number of the same length gives the first number back, and the
  carry out of the addition is the borrow of the subtraction.\<close>

theorem lbn_add_sub_roundtrip:
  assumes "length xs = length ys" and "xs \<noteq> []" and "lbnAddN_32 xs ys = (c, s)"
  shows "lbnSubN_32 s ys = (c, xs)"
proof -
  note add = lbnAddN_value [OF assms(3,1,2)]
  obtain b r where sub: "lbnSubN_32 s ys = (b, r)" by fastforce
  have "s \<noteq> []" using add assms(2) by auto
  with lbnSubN_value [OF sub] add assms(1)
  have r: "length r = length xs" "nval r + nval ys = nval s + BB ^ length xs * unat b" "unat b \<le> 1" by simp_all
  define B where "B = BB ^ length xs"
  have *: "nval r + B * unat c = nval xs + B * unat b" using r(2) add by (simp add: B_def)
  have lt: "nval r < B" "nval xs < B" using nval_less [of r] r(1) nval_less [of xs] by (simp_all add: B_def)
  have "unat c = (nval r + B * unat c) div B" using lt by simp
  also have "\<dots> = unat b" unfolding * using lt by simp
  finally have "c = b" by (simp add: word_unat_eq_iff)
  with * have "nval r = nval xs" by simp
  then have "r = xs" using nval_inj r(1) by blast
  with sub \<open>c = b\<close> show ?thesis by simp
qed

theorem lbn_add_sub_roundtrip_witness:
  "lbnSubN_32 (snd (lbnAddN_32 [4294967295, 4294967295] [1, 0])) [1, 0] = (1, [4294967295, 4294967295])"
  by (rule lbn_add_sub_roundtrip) (simp_all add: drop_bit_eq_div)

text \<open>The squaring routine, which adds the products off the diagonal once and doubles them, computes
  what the general multiplication computes, and that is the square of the number.\<close>

theorem lbn_square_is_mul:
  "lbnSquare_32 n = lbnMul_32 n n \<and> nval (lbnSquare_32 n) = nval n ^ 2"
proof -
  have "length (lbnSquare_32 n) = length (lbnMul_32 n n)" "nval (lbnSquare_32 n) = nval (lbnMul_32 n n)"
    using lbnSquare_value [of n] lbnMul_value [of n n] by simp_all
  then show ?thesis using nval_inj lbnSquare_value [of n] by (auto simp: power2_eq_square)
qed

text \<open>C23. Division: quotient (with its extra high word) and remainder are \<open>div\<close> and \<open>mod\<close>, of the lengths
  that the callers rely on, and the divisor, which the routine shifts in place, is restored.\<close>

theorem lbn_div_correct:
  assumes "d \<noteq> []" and "last d \<noteq> 0" and "length d \<le> length n" and "lbnDiv_32 n d = (qhigh, q, r, d')"
  shows "nval (q @ [qhigh]) = nval n div nval d \<and> nval r = nval n mod nval d \<and>
    length q = length n - length d \<and> length r = length d \<and> d' = d"
proof -
  note V = lbnDiv_value [OF assms]
  then have "nval n div nval d = nval (q @ [qhigh])" "nval n mod nval d = nval r" by simp_all
  with V show ?thesis by simp
qed

theorem lbn_div_correct_witness:
  "case lbnDiv_32 [5, 6, 7] [3, 1] of (qhigh, q, r, d) \<Rightarrow> nval (q @ [qhigh]) = nval [5, 6, 7] div nval [3, 1] \<and>
    nval r = nval [5, 6, 7] mod nval [3, 1] \<and> length q = 1 \<and> length r = 2 \<and> d = [3, 1]"
proof -
  obtain qhigh q r d where D: "lbnDiv_32 [5, 6, 7] [3, 1] = (qhigh, q, r, d)" by (metis prod_cases4)
  from lbn_div_correct [OF _ _ _ D] show ?thesis by (simp add: D)
qed

section \<open>Bytes\<close>

text \<open>Bytes inserted big-endian at any offset are read back by the extraction at that offset, and no
  other byte of the number changes.\<close>

theorem lbn_bytes_roundtrip:
  assumes "lsbyte + length buf \<le> 4 * length n"
  shows "lbnExtractBigBytes_32 (lbnInsertBigBytes_32 n buf lsbyte) lsbyte (length buf) = buf \<and>
    (\<forall>k < 4 * length n. k < lsbyte \<or> lsbyte + length buf \<le> k \<longrightarrow>
      le_view (lbnInsertBigBytes_32 n buf lsbyte) ! k = le_view n ! k)"
proof -
  note I = lbnInsertBigBytes_value [OF assms]
  have lv: "lsbyte + length (rev buf) \<le> length (le_view n)" using assms by simp
  have "lbnExtractBigBytes_32 (lbnInsertBigBytes_32 n buf lsbyte) lsbyte (length buf) =
      rev (take (length buf) (drop lsbyte (poke lsbyte (rev buf) (le_view n))))"
    using lbnExtractBigBytes_value [of lsbyte "length buf" "lbnInsertBigBytes_32 n buf lsbyte"] assms I by simp
  also have "\<dots> = buf" using lv by (simp add: poke_def)
  finally show ?thesis using I lv by (auto simp: poke_def nth_append)
qed

theorem lbn_bytes_roundtrip_witness:
  "lbnExtractBigBytes_32 (lbnInsertBigBytes_32 [1, 2] [7, 8, 9] 3) 3 3 = [7, 8, 9]"
  using lbn_bytes_roundtrip [of 3 "[7, 8, 9]" "[1, 2]"] by (simp add: numeral_3_eq_3)

section \<open>Montgomery arithmetic\<close>

text \<open>Newton's iteration for the inverse of a word ends exactly for odd words, and then gives the
  negated inverse.\<close>

theorem lbn_mont_inverse_terminates:
  "case lbnMontInv1_32 x of None \<Rightarrow> even x | Some y \<Rightarrow> odd x \<and> y * x = - 1"
proof -
  have loop: "mont_inv_loop x y = Some z \<Longrightarrow> x * z = 1" for y z
    by (rule mont_inv_loop.raw_induct [of "\<lambda>x y z. x * z = 1" "(x, y)" z, simplified])
      (auto simp: Let_def split: if_splits)
  have *: "odd x \<and> y * x = - 1" if "lbnMontInv1_32 x = Some y" for y
  proof -
    from that obtain z where z: "mont_inv_loop x x = Some z" "y = - z" by (auto simp: lbnMontInv1_32_def)
    have "odd (x * z)" unfolding loop [OF z(1)] by simp
    then have "odd x" by auto
    then show ?thesis using loop [OF z(1)] z(2) by (simp add: mult.commute)
  qed
  then show ?thesis using lbnMontInv1_value [of x] by (cases "odd x") (auto split: option.split)
qed

text \<open>C26. The Montgomery product refines multiplication modulo an odd number: on representatives of \<open>a\<close>
  and \<open>b\<close> it returns (its two subtraction loops end) the representative of \<open>a * b\<close>, and reducing a
  representative gives the number back.\<close>

theorem lbn_mont_refines:
  assumes "mont_ok md minv" and "mont_rep md a x" and "mont_rep md b y"
  shows "\<exists>r v. lbnMontMul_32 x y md minv = Some r \<and> mont_rep md (a * b) r \<and>
    lbnMontReduce_32 (r @ replicate (length md) 0) md minv = Some v \<and> nval v = a * b mod nval md"
  using lbnMontMul_rep [OF assms] from_mont_value [OF assms(1)] by meson

theorem lbn_mont_refines_witness:
  "\<exists>r v. lbnMontMul_32 [1] [1] [3] 1431655765 = Some r \<and>
    lbnMontReduce_32 (r @ [0]) [3] 1431655765 = Some v \<and> nval v = 1"
  using lbn_mont_refines [of "[3]" 1431655765 1 "[1]" 1 "[1]"]
  by (auto simp: mont_ok_def mont_rep_def)

section \<open>Greatest common divisor and inverse\<close>

text \<open>C27. Euclid's algorithm returns for every pair of normalised numbers, the second no longer than the
  first, and what it returns is their greatest common divisor.\<close>

theorem lbn_gcd_correct:
  assumes "normed b" and "length b \<le> length a"
  shows "\<exists>which g. lbnGcd_32 a b = Some (which, g) \<and> nval g = gcd (nval a) (nval b)"
  using lbnGcd_value [OF assms] by blast

theorem lbn_gcd_correct_witness:
  "\<exists>which g. lbnGcd_32 [12, 5] [18] = Some (which, g) \<and> nval g = gcd (nval [12, 5]) (nval [18])"
  by (rule lbn_gcd_correct) (simp_all add: normed_def)

text \<open>C25. The modular inverse of a reduced number, when memory is at hand: 1 is returned when the numbers
  have a common factor, the inverse otherwise, except that for a proper divisor of the modulus the
  code runs into a failed assertion (the division by the zero remainder) where it means to return 1.\<close>

theorem lbn_inv_correct:
  assumes "nval a < nval md" and "1 < nval md" and "ok 0" "ok 1" "ok 2" "ok 3"
  shows "\<exists>res. lbnInv_32 ok a md = Some res \<and>
    (if 1 < nval a \<and> nval a dvd nval md then res = Assert_Failed
     else if coprime (nval a) (nval md) then
       (\<exists>r. res = Inverse r \<and> nval r < nval md \<and> nval r * nval a mod nval md = 1)
     else res = No_Inverse)"
  using lbnInv_value [of a md ok] assms by (auto simp: inv_post_def split: if_splits)

theorem lbn_inv_correct_witness:
  "\<exists>res. lbnInv_32 (\<lambda>_. True) [3] [9] = Some res \<and> res = Assert_Failed"
  using lbn_inv_correct [of "[3]" "[9]" "\<lambda>_. True"] by simp

section \<open>Exponentiation\<close>

text \<open>C24. Windowed exponentiation returns the power modulo an odd number whenever its two working buffers
  can be allocated: however the allocation of the table fails, only the window shrinks.\<close>

theorem lbn_expmod_correct:
  assumes "odd (hd md)" and "md \<noteq> []" "last md \<noteq> 0" and "length n \<le> length md"
    and "32 * length e < BB" and "ok 0" "ok 1"
  shows "\<exists>r. lbnExpMod_32 ok n e md = Some (Exp_OK r) \<and> length r = length md \<and>
    nval r mod nval md = nval n ^ nval e mod nval md"
  using lbnExpMod_value [of md n e ok] assms by blast

theorem lbn_expmod_correct_witness:
  "\<exists>r. lbnExpMod_32 (\<lambda>k. k < 4) [7] [45] [35] = Some (Exp_OK r) \<and> length r = 1 \<and>
    nval r mod 35 = 7 ^ 45 mod 35"
  using lbn_expmod_correct [of "[35]" "[7]" "[45]" "\<lambda>k. k < 4"] by simp

text \<open>The table of \<open>lbnExpMod_32\<close>, of \<open>i - 1\<close> allocated entries and \<open>2 ^ wbits\<close> wanted: no entry is
  freed twice and none that was not allocated, and what is never freed is the entry at the shrunken
  table size, whenever more entries than that were allocated.\<close>

theorem lbn_expmod_table_leak:
  "let i = table_alloc ok (2 ^ wbits - 1) 1;
       tblmask = 2 ^ table_shrink i wbits;
       freed = table_freed_early i tblmask @ table_freed_late tblmask
   in distinct freed \<and> set freed \<subseteq> {1..<i} \<and> {1..<i} - set freed = (if tblmask < i then {tblmask} else {})"
proof -
  define i t where "i = table_alloc ok (2 ^ wbits - 1) 1" and "t = (2 :: nat) ^ table_shrink i wbits"
  have "1 \<le> i" using table_alloc_bound [of 1 ok "2 ^ wbits - 1"] by (simp add: i_def)
  then have t: "t \<le> i" "0 < t" using table_shrink_bound [of i wbits] by (simp_all add: t_def)
  have "distinct (table_freed_early i t @ table_freed_late t)"
    by (auto simp: table_freed_early_def table_freed_late_def)
  moreover have "set (table_freed_early i t @ table_freed_late t) = {1..<i} - (if t < i then {t} else {})"
    using t by (auto simp: table_freed_early_def table_freed_late_def)
  ultimately show ?thesis using t unfolding i_def [symmetric] t_def [symmetric] Let_def by auto
qed

text \<open>The power of two, the optimised routine of the Fermat tests.\<close>

theorem lbn_two_expmod_correct:
  assumes "odd (hd md)" and "md \<noteq> []" "last md \<noteq> 0" "1 < nval md" and "ex \<noteq> []" "last ex \<noteq> 0"
    and "ok 0" "ok 1"
  shows "\<exists>r. lbnTwoExpMod_32 ok ex md = Some (Exp_OK r) \<and> length r = length md \<and>
    nval r mod nval md = 2 ^ nval ex mod nval md"
  using lbnTwoExpMod_value [of md ex ok] assms by blast

theorem lbn_two_expmod_correct_witness:
  "\<exists>r. lbnTwoExpMod_32 (\<lambda>_. True) [340] [341] = Some (Exp_OK r) \<and> length r = 1 \<and> nval r mod 341 = 2 ^ 340 mod 341"
  using lbn_two_expmod_correct [of "[341]" "[340]" "\<lambda>_. True"] by simp

text \<open>C28. The product of two powers with one chain of squarings, for bases no longer than the modulus.
  The hypothesis on the lengths excludes the one case in which the code reads past its buffer.\<close>

theorem lbn_double_expmod_correct:
  assumes "odd (hd md)" and "md \<noteq> []" "last md \<noteq> 0" and "length n1 \<le> length md" "length n2 \<le> length md"
    and "32 * length e1 < BB" "32 * length e2 < BB" and "ok 0" "ok 1" "ok 2"
    and "nval e1 \<noteq> 1 \<or> nval e2 \<noteq> 1 \<or> length md \<le> length n1 + length n2"
  shows "\<exists>r. lbnDoubleExpMod_32 ok n1 e1 n2 e2 md = Some (Exp_OK r) \<and> length r = length md \<and>
    nval r mod nval md = nval n1 ^ nval e1 * nval n2 ^ nval e2 mod nval md"
proof -
  have "\<not> (nval e1 = 1 \<and> nval e2 = 1 \<and> length n1 + length n2 < length md)" using assms(11) by auto
  from lbnDoubleExpMod_value [where ok = ok, OF assms(1-10) this] show ?thesis .
qed

theorem lbn_double_expmod_correct_witness:
  "\<exists>r. lbnDoubleExpMod_32 (\<lambda>k. k < 3) [7] [13] [8] [6] [35] = Some (Exp_OK r) \<and> length r = 1 \<and>
    nval r mod 35 = 7 ^ 13 * 8 ^ 6 mod 35"
  using lbn_double_expmod_correct [of "[35]" "[7]" "[8]" "[13]" "[6]" "\<lambda>k. k < 3"] by simp

text \<open>That case: with both exponents 1 and bases shorter together than the modulus, the product
  buffer has fewer words than are copied out of it.\<close>

theorem lbn_double_expmod_over_read:
  assumes "length n1 + length n2 < length md" and "nval e1 = 1" "nval e2 = 1" and "ok 0"
  shows "lbnDoubleExpMod_32 ok n1 e1 n2 e2 md
    = Some (Exp_Over_Read (length md - (length n1 + length n2)))"
  using assms by (rule double_over_read)

theorem lbn_double_expmod_over_read_witness:
  "lbnDoubleExpMod_32 (\<lambda>_. True) [7] [1] [8] [1] [35, 1, 1] = Some (Exp_Over_Read 1)"
  by (subst lbn_double_expmod_over_read) simp_all

text \<open>Precomputed powers: what \<open>lbnBasePrecompBegin_32\<close> stores makes \<open>lbnBasePrecompExp_32\<close> return the
  power of the base for every exponent the table is long enough for, and the double version the
  product of two powers of it.\<close>

theorem lbn_precomp_correct:
  assumes "odd (hd md)" and "md \<noteq> []" "last md \<noteq> 0" and "nval g \<noteq> 0" "length (trim g) \<le> length md"
    and "ok 0" "ok 1" "ok 2" and "0 < n" and "0 < bits" "bits < 32"
    and "nval e < 2 ^ (n * bits)" and "nval e' < 2 ^ (n * bits)"
  shows "\<exists>array r r'. lbnBasePrecompBegin_32 ok n bits g md = Some (Precomp_OK array) \<and> length array = n \<and>
    lbnBasePrecompExp_32 ok array bits e md = Some (Exp_OK r) \<and>
    nval r mod nval md = nval g ^ nval e mod nval md \<and>
    lbnDoubleBasePrecompExp_32 ok bits array e array e' md = Some (Exp_OK r') \<and>
    nval r' mod nval md = nval g ^ nval e * nval g ^ nval e' mod nval md"
proof -
  from lbnBasePrecompBegin_value [where ok = ok, OF assms(1-7,9,10)] obtain array where
    A: "lbnBasePrecompBegin_32 ok n bits g md = Some (Precomp_OK array)" "length array = n"
      "power_table md (nval g) bits array" by blast
  note B = assms(1-3,6-8,10,11) A(3)
  from lbnBasePrecompExp_value [where ok = ok, OF B] lbnDoubleBasePrecompExp_value [where ok = ok, OF B A(3)]
  show ?thesis using A assms(12,13) by blast
qed

theorem lbn_precomp_correct_witness:
  "\<exists>array r r'. lbnBasePrecompBegin_32 (\<lambda>_. True) 7 5 [7] [35] = Some (Precomp_OK array) \<and> length array = 7 \<and>
    lbnBasePrecompExp_32 (\<lambda>_. True) array 5 [45] [35] = Some (Exp_OK r) \<and>
    nval r mod 35 = 7 ^ 45 mod 35 \<and>
    lbnDoubleBasePrecompExp_32 (\<lambda>_. True) 5 array [45] array [6] [35] = Some (Exp_OK r') \<and>
    nval r' mod 35 = 7 ^ 45 * 7 ^ 6 mod 35"
  using lbn_precomp_correct [of "[35]" "[7]" "\<lambda>_. True" 7 5 "[45]" "[6]"] lbnNorm_value [of "[7]"]
  by (simp add: trim_def)

end
