(* ===== verification/Zrtp_Engine.thy ===== *)
theory Zrtp_Engine
  imports Prelude
begin

text \<open>
  The ZRTP protocol engine: \<open>ZrtpStateClass.cpp\<close>, \<open>ZrtpStates.h\<close> and the entry points of \<open>ZRtp.cpp\<close>
  that feed it.  A state of the engine is a record; an event handler is a function from a state to the
  state after it.  The object \<open>parent\<close> (class \<open>ZRtp\<close>, with the callbacks into the application behind
  it) answers the engine's questions: its answers are the parameter \<open>P\<close>, functions of everything the
  engine has called so far, and what the engine calls is logged in \<open>calls\<close>.
\<close>

section \<open>Data\<close>

datatype zrtpStates =
  Initial | Detect | AckDetected | AckSent | WaitCommit | CommitSent | WaitDHPart2 | WaitConfirm1 |
  WaitConfirm2 | WaitConfAck | WaitClearAck | SecureState | WaitErrorAck

datatype EventDataType = ZrtpInitial | ZrtpClose | ZrtpPacket | Timer | ErrorPkt

datatype SecureSubStates = Normal | WaitSasRelayAck

datatype MessageSeverity = Info | Warning | Severe | ZrtpError

datatype EnableSecurity = ForReceiver | ForSender

text \<open>The messages the engine sends, by their kind; a Hello by its place among the prepared ones.\<close>

datatype zrtp_message =
  Hello nat | HelloAck | Commit | DHPart1 | DHPart2 | Confirm1 | Confirm2 | Conf2Ack | ErrorMsg nat |
  ErrorAck | PingAck | RelayAck | SASrelay

abbreviation (input) "SevereCannotSend \<equiv> 5 :: nat"
abbreviation (input) "SevereProtocolError \<equiv> 6 :: nat"
abbreviation (input) "SevereNoTimer \<equiv> 7 :: nat"
abbreviation (input) "SevereTooMuchRetries \<equiv> 8 :: nat"
abbreviation (input) "InfoSecureStateOn \<equiv> 10 :: nat"
abbreviation (input) "InfoSecureStateOff \<equiv> 11 :: nat"
abbreviation (input) "MalformedPacket \<equiv> 0x10 :: nat"
abbreviation (input) "CriticalSWError \<equiv> 0x20 :: nat"
abbreviation (input) "UnsuppZRTPVersion \<equiv> 0x30 :: nat"
abbreviation (input) "IgnorePacket \<equiv> 0x7fffffff :: nat"

text \<open>What the engine calls in its parent.\<close>

datatype parent_call =
  SynchEnter | SynchLeave | SendPacket "zrtp_message option" bool | ActivateTimer int int | CancelTimer |
  NegotiationFailed MessageSeverity nat | NotSuppOther | SendInfo MessageSeverity nat |
  SecretsReady EnableSecurity bool | SecretsOff EnableSecurity

record zrtp_event =
  ev_type :: EventDataType
  ev_length :: nat
  ev_packet :: "u8 list"

record zrtp_timer =
  tm_time :: int
  tm_start :: int
  tm_capping :: int
  tm_counter :: int
  tm_maxResend :: int

text \<open>The answers of the parent.  A \<open>prepare\<close> function hands back the packet (\<open>None\<close>) or \<open>NULL\<close> with
  an error code.\<close>

record zrtp_parent =
  p_sendData :: "parent_call list \<Rightarrow> zrtp_message \<Rightarrow> bool"
  p_activateTimer :: "parent_call list \<Rightarrow> int \<Rightarrow> int"
  p_prepareCommit :: "parent_call list \<Rightarrow> u8 list \<Rightarrow> nat option"
  p_prepareDHPart1 :: "parent_call list \<Rightarrow> u8 list \<Rightarrow> nat option"
  p_prepareDHPart2 :: "parent_call list \<Rightarrow> u8 list \<Rightarrow> nat option"
  p_prepareConfirm1 :: "parent_call list \<Rightarrow> u8 list \<Rightarrow> nat option"
  p_prepareConfirm1MultiStream :: "parent_call list \<Rightarrow> u8 list \<Rightarrow> nat option"
  p_prepareConfirm2 :: "parent_call list \<Rightarrow> u8 list \<Rightarrow> nat option"
  p_prepareConfirm2MultiStream :: "parent_call list \<Rightarrow> u8 list \<Rightarrow> nat option"
  p_prepareConf2Ack :: "parent_call list \<Rightarrow> u8 list \<Rightarrow> nat option"
  p_preparePingAck :: "parent_call list \<Rightarrow> u8 list \<Rightarrow> bool"
  p_verifyH2 :: "parent_call list \<Rightarrow> u8 list \<Rightarrow> bool"
  p_isLengthOk :: "bool \<Rightarrow> u8 list \<Rightarrow> bool"
  p_compareCommit :: "parent_call list \<Rightarrow> u8 list \<Rightarrow> int"
  p_srtpSecretsReady :: "parent_call list \<Rightarrow> EnableSecurity \<Rightarrow> bool"

record engine =
  state :: zrtpStates
  sentPacket :: "zrtp_message option"
  commitPkt :: "zrtp_message option"
  T1 :: zrtp_timer
  T2 :: zrtp_timer
  t1ResendExtend :: int
  multiStream :: bool
  secSubstate :: SecureSubStates
  sentVersion :: int
  retryCounters :: "nat list"
  helloVersions :: "int list"
  currentHello :: nat
  calls :: "parent_call list"

section \<open>Calls and timers\<close>

definition call :: "parent_call \<Rightarrow> engine \<Rightarrow> engine" where
  "call c s = s\<lparr>calls := calls s @ [c]\<rparr>"

definition nextState :: "zrtpStates \<Rightarrow> engine \<Rightarrow> engine" where
  "nextState st s = s\<lparr>state := st\<rparr>"

text \<open>\<open>ZRtp::sendPacketZRTP\<close>: a null packet is not sent, with the result 0.\<close>

definition sendPacketZRTP :: "zrtp_parent \<Rightarrow> zrtp_message option \<Rightarrow> engine \<Rightarrow> bool \<times> engine" where
  "sendPacketZRTP P pkt s =
    (let ok = (case pkt of None \<Rightarrow> False | Some m \<Rightarrow> p_sendData P (calls s) m)
     in (ok, call (SendPacket pkt ok) s))"

definition activateTimer :: "zrtp_parent \<Rightarrow> int \<Rightarrow> engine \<Rightarrow> int \<times> engine" where
  "activateTimer P tm s = (let rc = p_activateTimer P (calls s) tm in (rc, call (ActivateTimer tm rc) s))"

definition cancelTimer :: "engine \<Rightarrow> engine" where
  "cancelTimer s = call CancelTimer s"

definition srtpSecretsReady :: "zrtp_parent \<Rightarrow> EnableSecurity \<Rightarrow> engine \<Rightarrow> bool \<times> engine" where
  "srtpSecretsReady P part s =
    (let ok = p_srtpSecretsReady P (calls s) part in (ok, call (SecretsReady part ok) s))"

datatype which_timer = Timer1 | Timer2

definition get_timer :: "which_timer \<Rightarrow> engine \<Rightarrow> zrtp_timer" where
  "get_timer w s = (case w of Timer1 \<Rightarrow> T1 s | Timer2 \<Rightarrow> T2 s)"

definition put_timer :: "which_timer \<Rightarrow> zrtp_timer \<Rightarrow> engine \<Rightarrow> engine" where
  "put_timer w t s = (case w of Timer1 \<Rightarrow> s\<lparr>T1 := t\<rparr> | Timer2 \<Rightarrow> s\<lparr>T2 := t\<rparr>)"

definition startTimer :: "zrtp_parent \<Rightarrow> which_timer \<Rightarrow> engine \<Rightarrow> int \<times> engine" where
  "startTimer P w s =
    (let t = get_timer w s;
         t = t\<lparr>tm_time := tm_start t, tm_counter := 0\<rparr>
     in activateTimer P (tm_time t) (put_timer w t s))"

definition nextTimer :: "zrtp_parent \<Rightarrow> which_timer \<Rightarrow> engine \<Rightarrow> int \<times> engine" where
  "nextTimer P w s =
    (let t = get_timer w s;
         t = t\<lparr>tm_time := tm_time t + tm_time t\<rparr>;
         t = t\<lparr>tm_time := (if tm_time t > tm_capping t then tm_capping t else tm_time t)\<rparr>
     in if tm_maxResend t > 0 then
          (let t = t\<lparr>tm_counter := tm_counter t + 1\<rparr> in
           if tm_counter t > tm_maxResend t then (- 1, put_timer w t s)
           else activateTimer P (tm_time t) (put_timer w t s))
        else activateTimer P (tm_time t) (put_timer w t s))"

definition sendFailed :: "engine \<Rightarrow> engine" where
  "sendFailed s = call (NegotiationFailed Severe SevereCannotSend) (nextState Initial (s\<lparr>sentPacket := None\<rparr>))"

definition timerFailed :: "nat \<Rightarrow> engine \<Rightarrow> engine" where
  "timerFailed subCode s = call (NegotiationFailed Severe subCode) (nextState Initial (s\<lparr>sentPacket := None\<rparr>))"

definition sendErrorPacket :: "zrtp_parent \<Rightarrow> nat \<Rightarrow> engine \<Rightarrow> engine" where
  "sendErrorPacket P errorCode s =
    (let s = cancelTimer s;
         s = call (NegotiationFailed ZrtpError errorCode) s;
         s = nextState WaitErrorAck (s\<lparr>sentPacket := Some (ErrorMsg errorCode)\<rparr>);
         (ok, s) = sendPacketZRTP P (Some (ErrorMsg errorCode)) s
     in if \<not> ok then sendFailed s
        else (let (rc, s) = startTimer P Timer2 s in if rc \<le> 0 then sendFailed s else s))"

definition sendSASRelay :: "zrtp_parent \<Rightarrow> engine \<Rightarrow> engine" where
  "sendSASRelay P s =
    (let s = cancelTimer s;
         s = s\<lparr>sentPacket := Some SASrelay, secSubstate := WaitSasRelayAck\<rparr>;
         (ok, s) = sendPacketZRTP P (Some SASrelay) s
     in if \<not> ok then sendFailed s
        else (let (rc, s) = startTimer P Timer2 s in if rc \<le> 0 then sendFailed s else s))"

text \<open>The common tail: send the stored packet; on failure back to \<open>Initial\<close>.\<close>

definition send_stored :: "zrtp_parent \<Rightarrow> engine \<Rightarrow> engine" where
  "send_stored P s = (let (ok, s) = sendPacketZRTP P (sentPacket s) s in if \<not> ok then sendFailed s else s)"

text \<open>Send the stored packet and start a timer for its repetition.\<close>

definition send_and_start :: "zrtp_parent \<Rightarrow> which_timer \<Rightarrow> engine \<Rightarrow> engine" where
  "send_and_start P w s =
    (let (ok, s) = sendPacketZRTP P (sentPacket s) s in
     if \<not> ok then sendFailed s
     else (let (rc, s) = startTimer P w s in if rc \<le> 0 then timerFailed SevereNoTimer s else s))"

text \<open>A timeout: send the stored packet again, count, set the timer again; what happens when the retries
  are used up is \<open>too_many\<close>.\<close>

definition resend :: "zrtp_parent \<Rightarrow> which_timer \<Rightarrow> nat \<Rightarrow> (engine \<Rightarrow> engine) \<Rightarrow> engine \<Rightarrow> engine" where
  "resend P w k too_many s =
    (let (ok, s) = sendPacketZRTP P (sentPacket s) s in
     if \<not> ok then sendFailed s
     else
       (let s = s\<lparr>retryCounters := (retryCounters s)[k := retryCounters s ! k + 1]\<rparr>;
            (rc, s) = nextTimer P w s
        in if rc \<le> 0 then too_many s else s))"

text \<open>The last branch of most states: any other event (an error, a close) ends the negotiation.\<close>

definition give_up :: "zrtp_event \<Rightarrow> engine \<Rightarrow> engine" where
  "give_up ev s =
    (let s = (if ev_type ev \<noteq> ZrtpClose then call (NegotiationFailed Severe SevereProtocolError) s else s)
     in nextState Initial (s\<lparr>sentPacket := None\<rparr>))"

section \<open>Message types\<close>

text \<open>The characters of the message type that the engine looks at, in lower case.\<close>

definition tolower :: "u8 \<Rightarrow> u8" where
  "tolower c = (if 65 \<le> c \<and> c \<le> 90 then c + 32 else c)"

definition msg_char :: "u8 list \<Rightarrow> nat \<Rightarrow> char" where
  "msg_char pkt k = char_of (unat (tolower (pkt ! (4 + k))))"

definition is_Hello :: "u8 list \<Rightarrow> bool" where
  "is_Hello pkt \<longleftrightarrow> msg_char pkt 0 = CHR ''h'' \<and> msg_char pkt 7 = CHR '' ''"

definition is_HelloAck :: "u8 list \<Rightarrow> bool" where
  "is_HelloAck pkt \<longleftrightarrow> msg_char pkt 0 = CHR ''h'' \<and> msg_char pkt 7 = CHR ''k''"

definition is_late_Hello :: "u8 list \<Rightarrow> bool" where
  "is_late_Hello pkt \<longleftrightarrow> msg_char pkt 0 = CHR ''h'' \<and> msg_char pkt 4 = CHR ''o'' \<and>
    (msg_char pkt 7 = CHR ''k'' \<or> msg_char pkt 7 = CHR '' '')"

definition is_Commit :: "u8 list \<Rightarrow> bool" where
  "is_Commit pkt \<longleftrightarrow> msg_char pkt 0 = CHR ''c'' \<and> msg_char pkt 7 = CHR '' ''"

definition is_DHPart1 :: "u8 list \<Rightarrow> bool" where
  "is_DHPart1 pkt \<longleftrightarrow> msg_char pkt 0 = CHR ''d'' \<and> msg_char pkt 6 = CHR ''1''"

definition is_DHPart2 :: "u8 list \<Rightarrow> bool" where
  "is_DHPart2 pkt \<longleftrightarrow> msg_char pkt 0 = CHR ''d'' \<and> msg_char pkt 6 = CHR ''2''"

definition is_Confirm1 :: "u8 list \<Rightarrow> bool" where
  "is_Confirm1 pkt \<longleftrightarrow> msg_char pkt 0 = CHR ''c'' \<and> msg_char pkt 7 = CHR ''1''"

definition is_Confirm2 :: "u8 list \<Rightarrow> bool" where
  "is_Confirm2 pkt \<longleftrightarrow> msg_char pkt 0 = CHR ''c'' \<and> msg_char pkt 7 = CHR ''2''"

definition is_ConfAck :: "u8 list \<Rightarrow> bool" where
  "is_ConfAck pkt \<longleftrightarrow> msg_char pkt 0 = CHR ''c'' \<and> msg_char pkt 7 = CHR ''k''"

definition is_ErrorAck :: "u8 list \<Rightarrow> bool" where
  "is_ErrorAck pkt \<longleftrightarrow> msg_char pkt 0 = CHR ''e'' \<and> msg_char pkt 7 = CHR ''k''"

definition is_RelayAck :: "u8 list \<Rightarrow> bool" where
  "is_RelayAck pkt \<longleftrightarrow> msg_char pkt 0 = CHR ''r'' \<and> msg_char pkt 7 = CHR ''k''"

definition is_Error :: "u8 list \<Rightarrow> bool" where
  "is_Error pkt \<longleftrightarrow> msg_char pkt 0 = CHR ''e'' \<and> msg_char pkt 4 = CHR ''r'' \<and> msg_char pkt 7 = CHR '' ''"

definition is_Ping :: "u8 list \<Rightarrow> bool" where
  "is_Ping pkt \<longleftrightarrow> msg_char pkt 0 = CHR ''p'' \<and> msg_char pkt 4 = CHR '' '' \<and> msg_char pkt 7 = CHR '' ''"

definition is_SASrelay :: "u8 list \<Rightarrow> bool" where
  "is_SASrelay pkt \<longleftrightarrow> msg_char pkt 0 = CHR ''s'' \<and> msg_char pkt 7 = CHR ''y''"

text \<open>\<open>ZrtpPacketHello::getVersionInt\<close>: the version string is at offset 12.  The second test adds 2 to
  the first character where it means the third character.\<close>

definition isdigit :: "u8 \<Rightarrow> bool" where
  "isdigit c \<longleftrightarrow> 48 \<le> c \<and> c \<le> 57"

definition getVersionInt :: "u8 list \<Rightarrow> int" where
  "getVersionInt pkt =
    (let vp = drop 12 pkt in
     if isdigit (vp ! 0) \<and> isdigit (vp ! 0 + 2)
     then (uint (vp ! 0) - 48) * 10 + (uint (vp ! 2) - 48) else 0)"

section \<open>The negotiation of the version\<close>

text \<open>Find the sent Hello among the prepared ones; then go down to a version that the peer supports.\<close>

function hello_find :: "nat \<Rightarrow> nat \<Rightarrow> nat \<Rightarrow> nat" where
  "hello_find n cur i = (if i < n \<and> i \<noteq> cur then hello_find n cur (i + 1) else i)"
  by pat_completeness auto
termination by (relation "measure (\<lambda>(n, cur, i). n - i)") auto

declare hello_find.simps [simp del]

primrec hello_down :: "int list \<Rightarrow> int \<Rightarrow> nat \<Rightarrow> nat option" where
  "hello_down vs recv 0 = (if vs ! 0 > recv then None else Some 0)"
| "hello_down vs recv (Suc i) = (if vs ! Suc i > recv then hello_down vs recv i else Some (Suc i))"

definition negotiate_version :: "zrtp_parent \<Rightarrow> int \<Rightarrow> engine \<Rightarrow> engine" where
  "negotiate_version P recvVersion s =
    (case hello_down (helloVersions s) recvVersion (hello_find (length (helloVersions s)) (currentHello s) 0) of
       None \<Rightarrow> sendErrorPacket P UnsuppZRTPVersion s
     | Some i \<Rightarrow>
         (let s = s\<lparr>currentHello := i, sentVersion := helloVersions s ! i, sentPacket := Some (Hello i)\<rparr>
          in send_and_start P Timer1 s))"

section \<open>The handlers\<close>

definition evInitial :: "zrtp_parent \<Rightarrow> zrtp_event \<Rightarrow> engine \<Rightarrow> engine" where
  "evInitial P ev s =
    (if ev_type ev = ZrtpInitial then
       (let s = s\<lparr>sentVersion := helloVersions s ! currentHello s, sentPacket := Some (Hello (currentHello s))\<rparr>;
            (ok, s) = sendPacketZRTP P (sentPacket s) s
        in if \<not> ok then sendFailed s
           else
             (let (rc, s) = startTimer P Timer1 s in
              if rc \<le> 0 then timerFailed SevereNoTimer s else nextState Detect s))
     else s)"

text \<open>A Hello of our version in state \<open>Detect\<close>: acknowledge it and prepare the Commit.\<close>

definition detect_accept :: "zrtp_parent \<Rightarrow> u8 list \<Rightarrow> engine \<Rightarrow> engine" where
  "detect_accept P pkt s =
    (let (ok, s) = sendPacketZRTP P (Some HelloAck) s in
     if \<not> ok then call (NegotiationFailed Severe SevereCannotSend) s
     else
       (case p_prepareCommit P (calls s) pkt of
          Some errorCode \<Rightarrow> sendErrorPacket P errorCode (nextState AckSent (s\<lparr>commitPkt := None\<rparr>))
        | None \<Rightarrow>
            (let s = nextState AckSent (s\<lparr>commitPkt := Some Commit\<rparr>);
                 (rc, s) = startTimer P Timer1 s;
                 s = (if rc \<le> 0 then timerFailed SevereNoTimer s else s)
             in s\<lparr>T1 := (T1 s)\<lparr>tm_maxResend := t1ResendExtend s\<rparr>\<rparr>)))"

definition evDetect :: "zrtp_parent \<Rightarrow> zrtp_event \<Rightarrow> engine \<Rightarrow> engine" where
  "evDetect P ev s =
    (if ev_type ev = ZrtpPacket then
       (let pkt = ev_packet ev in
        if is_HelloAck pkt then nextState AckDetected ((cancelTimer s)\<lparr>sentPacket := None\<rparr>)
        else if is_Hello pkt then
          (let s = cancelTimer s; recvVersion = getVersionInt pkt in
           if recvVersion > sentVersion s then
             (let (rc, s) = startTimer P Timer1 s in if rc \<le> 0 then timerFailed SevereNoTimer s else s)
           else if recvVersion \<noteq> sentVersion s then negotiate_version P recvVersion s
           else detect_accept P pkt s)
        else s)
     else if ev_type ev = Timer then
       resend P Timer1 0 (\<lambda>s. nextState Detect (call NotSuppOther (s\<lparr>commitPkt := None\<rparr>))) s
     else if ev_type ev = ZrtpInitial then send_and_start P Timer1 (cancelTimer s)
     else give_up ev s)"

text \<open>A Commit makes us the responder; the text is the same in \<open>AckSent\<close> and \<open>WaitCommit\<close>, but for the
  prepared Commit that only the first forgets (\<open>forget\<close>, not in multi-stream mode).\<close>

definition become_responder :: "zrtp_parent \<Rightarrow> u8 list \<Rightarrow> (engine \<Rightarrow> engine) \<Rightarrow> engine \<Rightarrow> engine" where
  "become_responder P pkt forget s =
    (if \<not> multiStream s then
       (case p_prepareDHPart1 P (calls s) pkt of
          Some errorCode \<Rightarrow> if errorCode \<noteq> IgnorePacket then sendErrorPacket P errorCode s else s
        | None \<Rightarrow> send_stored P (nextState WaitDHPart2 ((forget s)\<lparr>sentPacket := Some DHPart1\<rparr>)))
     else
       (case p_prepareConfirm1MultiStream P (calls s) pkt of
          Some errorCode \<Rightarrow> if errorCode \<noteq> IgnorePacket then sendErrorPacket P errorCode s else s
        | None \<Rightarrow> send_stored P (nextState WaitConfirm2 (s\<lparr>sentPacket := Some Confirm1\<rparr>))))"

definition evAckSent :: "zrtp_parent \<Rightarrow> zrtp_event \<Rightarrow> engine \<Rightarrow> engine" where
  "evAckSent P ev s =
    (if ev_type ev = ZrtpPacket then
       (let pkt = ev_packet ev in
        if is_HelloAck pkt then
          (let s = cancelTimer s;
               s = s\<lparr>sentPacket := commitPkt s\<rparr>;
               s = nextState CommitSent (s\<lparr>commitPkt := None\<rparr>)
           in send_and_start P Timer2 s)
        else if is_Hello pkt then
          (let (ok, s) = sendPacketZRTP P (Some HelloAck) s in
           if \<not> ok then call (NegotiationFailed Severe SevereCannotSend) (nextState Detect s) else s)
        else if is_Commit pkt then
          become_responder P pkt (\<lambda>s. s\<lparr>commitPkt := None\<rparr>) (cancelTimer s)
        else s)
     else if ev_type ev = Timer then
       resend P Timer1 1 (\<lambda>s. nextState Detect ((call NotSuppOther s)\<lparr>commitPkt := None\<rparr>)) s
     else (give_up ev s)\<lparr>commitPkt := None\<rparr>)"

definition evAckDetected :: "zrtp_parent \<Rightarrow> zrtp_event \<Rightarrow> engine \<Rightarrow> engine" where
  "evAckDetected P ev s =
    (if ev_type ev = ZrtpPacket then
       (let pkt = ev_packet ev in
        if is_Hello pkt then
          (case p_prepareCommit P (calls s) pkt of
             Some errorCode \<Rightarrow> sendErrorPacket P errorCode s
           | None \<Rightarrow> send_stored P ((nextState WaitCommit s)\<lparr>sentPacket := Some HelloAck\<rparr>))
        else s)
     else
       nextState Initial
         (if ev_type ev \<noteq> ZrtpClose then call (NegotiationFailed Severe SevereProtocolError) s else s))"

definition evWaitCommit :: "zrtp_parent \<Rightarrow> zrtp_event \<Rightarrow> engine \<Rightarrow> engine" where
  "evWaitCommit P ev s =
    (if ev_type ev = ZrtpPacket then
       (let pkt = ev_packet ev in
        if is_Hello pkt then send_stored P s
        else if is_Commit pkt then become_responder P pkt id s
        else s)
     else give_up ev s)"

text \<open>A second Commit while ours is under way: the smaller one gives way.\<close>

definition commit_clash :: "zrtp_parent \<Rightarrow> u8 list \<Rightarrow> engine \<Rightarrow> engine" where
  "commit_clash P pkt s =
    (if \<not> p_verifyH2 P (calls s) pkt then s
     else
       (let s = cancelTimer s in
        if \<not> p_isLengthOk P (multiStream s) pkt then sendErrorPacket P CriticalSWError s
        else if p_compareCommit P (calls s) pkt < 0 then become_responder P pkt id s
        else (let (rc, s) = startTimer P Timer2 s in if rc \<le> 0 then timerFailed SevereNoTimer s else s)))"

definition commit_DHPart1 :: "zrtp_parent \<Rightarrow> u8 list \<Rightarrow> engine \<Rightarrow> engine" where
  "commit_DHPart1 P pkt s =
    (let s = (cancelTimer s)\<lparr>sentPacket := None\<rparr> in
     case p_prepareDHPart2 P (calls s) pkt of
       Some errorCode \<Rightarrow>
         if errorCode \<noteq> IgnorePacket then sendErrorPacket P errorCode s
         else (let (rc, s) = startTimer P Timer2 s in if rc \<le> 0 then timerFailed SevereNoTimer s else s)
     | None \<Rightarrow> send_and_start P Timer2 (nextState WaitConfirm1 (s\<lparr>sentPacket := Some DHPart2\<rparr>)))"

text \<open>\<open>parent->sendInfo(Severe, CriticalSWError)\<close> and the Error packet, when SRTP cannot be switched on.\<close>

definition secrets_failed :: "zrtp_parent \<Rightarrow> engine \<Rightarrow> engine" where
  "secrets_failed P s = sendErrorPacket P CriticalSWError (call (SendInfo Severe CriticalSWError) s)"

definition commit_Confirm1 :: "zrtp_parent \<Rightarrow> u8 list \<Rightarrow> engine \<Rightarrow> engine" where
  "commit_Confirm1 P pkt s =
    (let s = cancelTimer s in
     case p_prepareConfirm2MultiStream P (calls s) pkt of
       Some errorCode \<Rightarrow> sendErrorPacket P errorCode s
     | None \<Rightarrow>
         (let s = (nextState WaitConfAck s)\<lparr>sentPacket := Some Confirm2\<rparr>;
              (ok, s) = sendPacketZRTP P (sentPacket s) s
          in if \<not> ok then sendFailed s
             else
               (let (rc, s) = startTimer P Timer2 s in
                if rc \<le> 0 then timerFailed SevereNoTimer s
                else (let (ok, s) = srtpSecretsReady P ForReceiver s in
                      if \<not> ok then secrets_failed P s else s))))"

definition evCommitSent :: "zrtp_parent \<Rightarrow> zrtp_event \<Rightarrow> engine \<Rightarrow> engine" where
  "evCommitSent P ev s =
    (if ev_type ev = ZrtpPacket then
       (let pkt = ev_packet ev in
        if is_late_Hello pkt then s
        else if is_Commit pkt then commit_clash P pkt s
        else if is_DHPart1 pkt then commit_DHPart1 P pkt s
        else if multiStream s \<and> is_Confirm1 pkt then commit_Confirm1 P pkt s
        else s)
     else if ev_type ev = Timer then resend P Timer2 2 (timerFailed SevereTooMuchRetries) s
     else give_up ev s)"

definition evWaitDHPart2 :: "zrtp_parent \<Rightarrow> zrtp_event \<Rightarrow> engine \<Rightarrow> engine" where
  "evWaitDHPart2 P ev s =
    (if ev_type ev = ZrtpPacket then
       (let pkt = ev_packet ev in
        if is_Commit pkt then send_stored P s
        else if is_DHPart2 pkt then
          (case p_prepareConfirm1 P (calls s) pkt of
             Some errorCode \<Rightarrow> if errorCode \<noteq> IgnorePacket then sendErrorPacket P errorCode s else s
           | None \<Rightarrow> send_stored P ((nextState WaitConfirm2 s)\<lparr>sentPacket := Some Confirm1\<rparr>))
        else s)
     else give_up ev s)"

definition evWaitConfirm1 :: "zrtp_parent \<Rightarrow> zrtp_event \<Rightarrow> engine \<Rightarrow> engine" where
  "evWaitConfirm1 P ev s =
    (if ev_type ev = ZrtpPacket then
       (let pkt = ev_packet ev in
        if is_Confirm1 pkt then
          (let s = cancelTimer s in
           case p_prepareConfirm2 P (calls s) pkt of
             Some errorCode \<Rightarrow> sendErrorPacket P errorCode s
           | None \<Rightarrow>
               (let (ok, s) = srtpSecretsReady P ForReceiver s in
                if \<not> ok then secrets_failed P s
                else send_and_start P Timer2 ((nextState WaitConfAck s)\<lparr>sentPacket := Some Confirm2\<rparr>)))
        else s)
     else if ev_type ev = Timer then resend P Timer2 3 (timerFailed SevereTooMuchRetries) s
     else give_up ev s)"

definition evWaitConfirm2 :: "zrtp_parent \<Rightarrow> zrtp_event \<Rightarrow> engine \<Rightarrow> engine" where
  "evWaitConfirm2 P ev s =
    (if ev_type ev = ZrtpPacket then
       (let pkt = ev_packet ev in
        if is_DHPart2 pkt \<or> (multiStream s \<and> is_Commit pkt) then send_stored P s
        else if is_Confirm2 pkt then
          (case p_prepareConf2Ack P (calls s) pkt of
             Some errorCode \<Rightarrow> sendErrorPacket P errorCode s
           | None \<Rightarrow>
               (let s = s\<lparr>sentPacket := Some Conf2Ack\<rparr>;
                    (ok, s) = sendPacketZRTP P (sentPacket s) s
                in if \<not> ok then sendFailed s
                   else
                     (let (ok, s) = srtpSecretsReady P ForReceiver s in
                      if \<not> ok then secrets_failed P s
                      else
                        (let (ok, s) = srtpSecretsReady P ForSender s in
                         if \<not> ok then secrets_failed P s
                         else call (SendInfo Info InfoSecureStateOn) (nextState SecureState s)))))
        else s)
     else give_up ev s)"

definition evWaitConfAck :: "zrtp_parent \<Rightarrow> zrtp_event \<Rightarrow> engine \<Rightarrow> engine" where
  "evWaitConfAck P ev s =
    (if ev_type ev = ZrtpPacket then
       (let pkt = ev_packet ev in
        if is_ConfAck pkt then
          (let s = (cancelTimer s)\<lparr>sentPacket := None\<rparr>;
               (ok, s) = srtpSecretsReady P ForSender s
           in if \<not> ok then secrets_failed P s
              else call (SendInfo Info InfoSecureStateOn) (nextState SecureState s))
        else s)
     else if ev_type ev = Timer then
       (let (ok, s) = sendPacketZRTP P (sentPacket s) s in
        if \<not> ok then call (SecretsOff ForReceiver) (sendFailed s)
        else
          (let s = s\<lparr>retryCounters := (retryCounters s)[4 := retryCounters s ! 4 + 1]\<rparr>;
               (rc, s) = nextTimer P Timer2 s
           in if rc \<le> 0 then call (SecretsOff ForReceiver) (timerFailed SevereTooMuchRetries s) else s))
     else call (SecretsOff ForReceiver) (give_up ev s))"

definition evWaitClearAck :: "zrtp_parent \<Rightarrow> zrtp_event \<Rightarrow> engine \<Rightarrow> engine" where
  "evWaitClearAck P ev s = s"

definition evWaitErrorAck :: "zrtp_parent \<Rightarrow> zrtp_event \<Rightarrow> engine \<Rightarrow> engine" where
  "evWaitErrorAck P ev s =
    (if ev_type ev = ZrtpPacket then
       (if is_ErrorAck (ev_packet ev) then nextState Initial ((cancelTimer s)\<lparr>sentPacket := None\<rparr>) else s)
     else if ev_type ev = Timer then resend P Timer2 5 (timerFailed SevereTooMuchRetries) s
     else give_up ev s)"

text \<open>The substate in which a SAS relay packet awaits its acknowledgement: whether the event was handled.\<close>

definition subEvWaitRelayAck :: "zrtp_parent \<Rightarrow> zrtp_event \<Rightarrow> engine \<Rightarrow> bool \<times> engine" where
  "subEvWaitRelayAck P ev s =
    (if ev_type ev = ZrtpPacket then
       (True, if is_RelayAck (ev_packet ev)
              then (cancelTimer s)\<lparr>secSubstate := Normal, sentPacket := None\<rparr> else s)
     else if ev_type ev = Timer then
       (let (ok, s) = sendPacketZRTP P (sentPacket s) s in
        if \<not> ok then (False, sendFailed s)
        else (let (rc, s) = nextTimer P Timer2 s in (\<not> rc \<le> 0, s)))
     else (False, s))"

definition secure_event :: "zrtp_parent \<Rightarrow> zrtp_event \<Rightarrow> engine \<Rightarrow> engine" where
  "secure_event P ev s =
    (if ev_type ev = ZrtpPacket then
       (if is_Confirm2 (ev_packet ev) then
          (if sentPacket s = None then s
           else
             (let (ok, s) = sendPacketZRTP P (sentPacket s) s in
              if \<not> ok then
                (let s = nextState Initial (s\<lparr>sentPacket := None\<rparr>);
                     s = call (SecretsOff ForReceiver) (call (SecretsOff ForSender) s)
                 in call (NegotiationFailed Severe SevereCannotSend) s)
              else s))
        else s)
     else if ev_type ev = Timer then s
     else if ev_type ev = ErrorPkt then s
     else
       (let s = s\<lparr>sentPacket := None\<rparr>;
            s = nextState Initial (call (SecretsOff ForReceiver) (call (SecretsOff ForSender) s));
            s = (if ev_type ev \<noteq> ZrtpClose then call (NegotiationFailed Severe SevereProtocolError) s else s)
        in call (SendInfo Info InfoSecureStateOff) s))"

definition evSecureState :: "zrtp_parent \<Rightarrow> zrtp_event \<Rightarrow> engine \<Rightarrow> engine" where
  "evSecureState P ev s =
    (if secSubstate s = WaitSasRelayAck then
       (let (handled, s) = subEvWaitRelayAck P ev s in if handled then s else secure_event P ev s)
     else secure_event P ev s)"

section \<open>The engine\<close>

text \<open>The table \<open>states\<close>.\<close>

definition handler :: "zrtpStates \<Rightarrow> zrtp_parent \<Rightarrow> zrtp_event \<Rightarrow> engine \<Rightarrow> engine" where
  "handler st =
    (case st of
       Initial \<Rightarrow> evInitial | Detect \<Rightarrow> evDetect | AckDetected \<Rightarrow> evAckDetected | AckSent \<Rightarrow> evAckSent
     | WaitCommit \<Rightarrow> evWaitCommit | CommitSent \<Rightarrow> evCommitSent | WaitDHPart2 \<Rightarrow> evWaitDHPart2
     | WaitConfirm1 \<Rightarrow> evWaitConfirm1 | WaitConfirm2 \<Rightarrow> evWaitConfirm2 | WaitConfAck \<Rightarrow> evWaitConfAck
     | WaitClearAck \<Rightarrow> evWaitClearAck | SecureState \<Rightarrow> evSecureState | WaitErrorAck \<Rightarrow> evWaitErrorAck)"

definition engine_event :: "zrtp_parent \<Rightarrow> zrtp_event \<Rightarrow> engine \<Rightarrow> engine" where
  "engine_event P ev s = handler (state s) P ev s"

text \<open>The length check: the length field, in words, with the fixed header and the CRC, in 16 bits.\<close>

definition totalLength :: "u8 list \<Rightarrow> u16" where
  "totalLength pkt = be_word (take 2 (drop 2 pkt)) * 4 + (12 + 4)"

definition processEvent :: "zrtp_parent \<Rightarrow> zrtp_event \<Rightarrow> engine \<Rightarrow> engine" where
  "processEvent P ev s =
    (let s = call SynchEnter s; pkt = ev_packet ev in
     if ev_type ev = ZrtpPacket then
       (if state s \<noteq> WaitErrorAck \<and> unat (totalLength pkt) \<noteq> ev_length ev then
          call SynchLeave (sendErrorPacket P MalformedPacket s)
        else if is_Error pkt then
          (let s = cancelTimer s;
               (_, s) = sendPacketZRTP P (Some ErrorAck) s
           in call SynchLeave (engine_event P (ev\<lparr>ev_type := ErrorPkt\<rparr>) s))
        else if is_Ping pkt then
          (let s = (if p_preparePingAck P (calls s) pkt then snd (sendPacketZRTP P (Some PingAck) s) else s)
           in call SynchLeave s)
        else if is_SASrelay pkt then call SynchLeave (snd (sendPacketZRTP P (Some RelayAck) s))
        else call SynchLeave (engine_event P ev s))
     else if ev_type ev = ZrtpClose then call SynchLeave (engine_event P ev (cancelTimer s))
     else call SynchLeave (engine_event P ev s))"

text \<open>The constructor; \<open>sentPacket\<close> is not initialised and holds whatever was there.\<close>

definition ZrtpStateClass :: "int list \<Rightarrow> nat \<Rightarrow> zrtp_message option \<Rightarrow> engine" where
  "ZrtpStateClass versions cur junk =
    \<lparr>state = Initial, sentPacket = junk, commitPkt = None,
     T1 = \<lparr>tm_time = 0, tm_start = 50, tm_capping = 800, tm_counter = 0, tm_maxResend = 20\<rparr>,
     T2 = \<lparr>tm_time = 0, tm_start = 150, tm_capping = 1200, tm_counter = 0, tm_maxResend = 10\<rparr>,
     t1ResendExtend = 60, multiStream = False, secSubstate = Normal, sentVersion = 0,
     retryCounters = replicate 6 0, helloVersions = versions, currentHello = cur, calls = []\<rparr>"

text \<open>The entry points of class \<open>ZRtp\<close>.\<close>

definition packet_event :: "u8 list \<Rightarrow> nat \<Rightarrow> zrtp_event" where
  "packet_event message len = \<lparr>ev_type = ZrtpPacket, ev_length = len, ev_packet = message\<rparr>"

definition plain_event :: "EventDataType \<Rightarrow> zrtp_event" where
  "plain_event t = \<lparr>ev_type = t, ev_length = 0, ev_packet = []\<rparr>"

definition processZrtpMessage :: "zrtp_parent \<Rightarrow> u8 list \<Rightarrow> nat \<Rightarrow> engine \<Rightarrow> engine" where
  "processZrtpMessage P message len s = processEvent P (packet_event message len) s"

definition processTimeout :: "zrtp_parent \<Rightarrow> engine \<Rightarrow> engine" where
  "processTimeout P s = processEvent P (plain_event Timer) s"

definition startZrtpEngine :: "zrtp_parent \<Rightarrow> engine \<Rightarrow> engine" where
  "startZrtpEngine P s = (if state s = Initial then processEvent P (plain_event ZrtpInitial) s else s)"

definition stopZrtp :: "zrtp_parent \<Rightarrow> engine \<Rightarrow> engine" where
  "stopZrtp P s = processEvent P (plain_event ZrtpClose) s"

text \<open>A valid SRTP packet stands for the acknowledgement of Confirm2: the engine's own Conf2Ack packet
  (with its CRC field) is handed in as if it had been received.\<close>

definition zrtpConf2Ack :: "u8 list \<Rightarrow> u8 list" where
  "zrtpConf2Ack crc = [0x50, 0x5a, 0, 3] @ map (\<lambda>c. of_nat (of_char c)) ''Conf2ACK'' @ crc"

definition conf2AckSecure :: "zrtp_parent \<Rightarrow> u8 list \<Rightarrow> engine \<Rightarrow> engine" where
  "conf2AckSecure P crc s = processEvent P (packet_event (zrtpConf2Ack crc) (16 + 12)) s"

definition setMultiStream :: "bool \<Rightarrow> engine \<Rightarrow> engine" where
  "setMultiStream multi s = s\<lparr>multiStream := multi\<rparr>"

definition setT1Resend :: "int \<Rightarrow> engine \<Rightarrow> engine" where
  "setT1Resend counter s =
    (if counter < 0 \<or> counter > 10 then s\<lparr>T1 := (T1 s)\<lparr>tm_maxResend := counter\<rparr>\<rparr> else s)"

definition setT1ResendExtend :: "int \<Rightarrow> engine \<Rightarrow> engine" where
  "setT1ResendExtend counter s = s\<lparr>t1ResendExtend := counter\<rparr>"

definition setT1Capping :: "int \<Rightarrow> engine \<Rightarrow> engine" where
  "setT1Capping capping s = (if capping \<ge> 50 then s\<lparr>T1 := (T1 s)\<lparr>tm_capping := capping\<rparr>\<rparr> else s)"

definition setT2Resend :: "int \<Rightarrow> engine \<Rightarrow> engine" where
  "setT2Resend counter s =
    (if counter < 0 \<or> counter > 10 then s\<lparr>T2 := (T2 s)\<lparr>tm_maxResend := counter\<rparr>\<rparr> else s)"

definition setT2Capping :: "int \<Rightarrow> engine \<Rightarrow> engine" where
  "setT2Capping capping s = (if capping \<ge> 150 then s\<lparr>T2 := (T2 s)\<lparr>tm_capping := capping\<rparr>\<rparr> else s)"

text \<open>Destroying the engine: closed first, unless it is in state \<open>Initial\<close>.\<close>

definition destroy :: "zrtp_parent \<Rightarrow> engine \<Rightarrow> engine" where
  "destroy P s =
    (if state s \<noteq> Initial then engine_event P (plain_event ZrtpClose) (cancelTimer s) else s)"

end
