(* ===== verification/Zrtp_Safety.thy ===== *)
theory Zrtp_Safety
  imports Zrtp_Engine
begin

text \<open>
  The runs of the protocol engine.  The operations of class \<open>ZRtp\<close> on its engine are the labels of a
  machine; the locale \<open>guarded_machine\<close> states what an invariant of such a machine must satisfy, and
  its interpretation on the engine yields, for every run, what is stored for a repetition, which
  directions of SRTP are switched on, which version was announced and how often a timer may fire.
\<close>

section \<open>Machines with guarded operations\<close>

locale guarded_machine =
  fixes initial :: "'s \<Rightarrow> bool"
    and admissible :: "'op \<Rightarrow> 's \<Rightarrow> bool"
    and exec :: "'op \<Rightarrow> 's \<Rightarrow> 's"
    and inv_ok :: "'s \<Rightarrow> bool"
  assumes initial_ok: "initial s \<Longrightarrow> inv_ok s"
    and exec_ok: "inv_ok s \<Longrightarrow> admissible op s \<Longrightarrow> inv_ok (exec op s)"
begin

lemma exec_list_ok:
  assumes "inv_ok s" and "\<And>n. n < length ops \<Longrightarrow> admissible (ops ! n) (fold exec (take n ops) s)"
  shows "inv_ok (fold exec ops s)"
  using assms
proof (induction ops arbitrary: s)
  case (Cons op ops)
  have "admissible op s" using Cons.prems(2)[of 0] by simp
  then have "inv_ok (exec op s)" using Cons.prems(1) exec_ok by simp
  moreover have "admissible (ops ! n) (fold exec (take n ops) (exec op s))" if "n < length ops" for n
    using Cons.prems(2)[of "Suc n"] that by simp
  ultimately show ?case using Cons.IH by simp
qed simp

end

section \<open>The operations of the engine\<close>

text \<open>The application sends a SAS relay packet only over an established session.\<close>

datatype engine_op =
  Start | Stop | Timeout | Message "u8 list" nat | SasRelay | Conf2AckSecure "u8 list" | MultiStream bool |
  T1Resend int | T1ResendExtend int | T1Capping int | T2Resend int | T2Capping int

definition perform :: "zrtp_parent \<Rightarrow> engine_op \<Rightarrow> engine \<Rightarrow> engine" where
  "perform P op s =
    (case op of
       Start \<Rightarrow> startZrtpEngine P s
     | Stop \<Rightarrow> stopZrtp P s
     | Timeout \<Rightarrow> processTimeout P s
     | Message pkt len \<Rightarrow> processZrtpMessage P pkt len s
     | SasRelay \<Rightarrow> sendSASRelay P s
     | Conf2AckSecure crc \<Rightarrow> conf2AckSecure P crc s
     | MultiStream b \<Rightarrow> setMultiStream b s
     | T1Resend n \<Rightarrow> setT1Resend n s
     | T1ResendExtend n \<Rightarrow> setT1ResendExtend n s
     | T1Capping n \<Rightarrow> setT1Capping n s
     | T2Resend n \<Rightarrow> setT2Resend n s
     | T2Capping n \<Rightarrow> setT2Capping n s)"

definition op_ok :: "engine_op \<Rightarrow> engine \<Rightarrow> bool" where
  "op_ok op s \<longleftrightarrow> (op = SasRelay \<longrightarrow> state s = SecureState)"

definition engine_start :: "engine \<Rightarrow> bool" where
  "engine_start s \<longleftrightarrow> (\<exists>vs cur junk. cur < length vs \<and> s = ZrtpStateClass vs cur junk)"

section \<open>The invariant\<close>

text \<open>Whether a direction of SRTP is on, read off the log.\<close>

primrec secret_on :: "EnableSecurity \<Rightarrow> bool \<Rightarrow> parent_call list \<Rightarrow> bool" where
  "secret_on part b [] = b"
| "secret_on part b (c # cs) =
    secret_on part
      (case c of SecretsReady p ok \<Rightarrow> if p = part then ok else b
       | SecretsOff p \<Rightarrow> if p = part then False else b
       | _ \<Rightarrow> b) cs"

lemma secret_on_append [simp]: "secret_on part b (cs @ ds) = secret_on part (secret_on part b cs) ds"
  by (induction cs arbitrary: b) auto

definition srtp_on :: "EnableSecurity \<Rightarrow> engine \<Rightarrow> bool" where
  "srtp_on part s = secret_on part False (calls s)"

definition timer_asked :: "parent_call \<Rightarrow> bool" where
  "timer_asked c = (case c of ActivateTimer tm _ \<Rightarrow> 50 \<le> tm | _ \<Rightarrow> True)"

text \<open>What is stored for a repetition, by state.\<close>

definition stored_ok :: "engine \<Rightarrow> bool" where
  "stored_ok s =
    (case state s of
       Initial \<Rightarrow> True
     | Detect \<Rightarrow> sentPacket s = Some (Hello (currentHello s))
     | AckSent \<Rightarrow> sentPacket s = Some (Hello (currentHello s)) \<and> commitPkt s = Some Commit
     | AckDetected \<Rightarrow> sentPacket s = None
     | WaitCommit \<Rightarrow> sentPacket s = Some HelloAck
     | CommitSent \<Rightarrow> sentPacket s \<in> {Some Commit, None}
     | WaitDHPart2 \<Rightarrow> sentPacket s = Some DHPart1
     | WaitConfirm1 \<Rightarrow> sentPacket s = Some DHPart2
     | WaitConfirm2 \<Rightarrow> sentPacket s = Some Confirm1
     | WaitConfAck \<Rightarrow> sentPacket s = Some Confirm2
     | WaitClearAck \<Rightarrow> False
     | SecureState \<Rightarrow> sentPacket s \<in> {None, Some Conf2Ack, Some SASrelay}
     | WaitErrorAck \<Rightarrow> (case sentPacket s of Some (ErrorMsg c) \<Rightarrow> True | _ \<Rightarrow> False))"

definition secrets_ok :: "engine \<Rightarrow> bool" where
  "secrets_ok s =
    (case state s of
       WaitConfAck \<Rightarrow> srtp_on ForReceiver s
     | SecureState \<Rightarrow> srtp_on ForReceiver s \<and> srtp_on ForSender s
     | _ \<Rightarrow> True)"

definition version_ok :: "engine \<Rightarrow> bool" where
  "version_ok s =
    (currentHello s < length (helloVersions s) \<and>
     (state s \<in> {Detect, AckSent} \<longrightarrow> sentVersion s = helloVersions s ! currentHello s))"

text \<open>A SAS relay packet that could not be sent leaves the substate behind, with a timer that never ran.\<close>

definition relay_failed :: "engine \<Rightarrow> bool" where
  "relay_failed s \<longleftrightarrow> SendPacket (Some SASrelay) False \<in> set (calls s)"

definition timers_ok :: "engine \<Rightarrow> bool" where
  "timers_ok s =
    (tm_start (T1 s) = 50 \<and> 50 \<le> tm_capping (T1 s) \<and> tm_start (T2 s) = 150 \<and> 150 \<le> tm_capping (T2 s) \<and>
     0 \<le> tm_counter (T1 s) \<and> 0 \<le> tm_counter (T2 s) \<and>
     (state s \<in> {Detect, AckSent} \<longrightarrow> 50 \<le> tm_time (T1 s)) \<and>
     (state s \<in> {CommitSent, WaitConfirm1, WaitConfAck, WaitErrorAck} \<longrightarrow> 150 \<le> tm_time (T2 s)) \<and>
     (relay_failed s \<or>
        (secSubstate s = WaitSasRelayAck \<longrightarrow> 150 \<le> tm_time (T2 s)) \<and> list_all timer_asked (calls s)))"

definition engine_ok :: "engine \<Rightarrow> bool" where
  "engine_ok s \<longleftrightarrow>
    stored_ok s \<and> secrets_ok s \<and> version_ok s \<and> timers_ok s \<and> length (retryCounters s) = 6"

text \<open>The part of the invariant that no change of state can break.\<close>

definition core_ok :: "engine \<Rightarrow> bool" where
  "core_ok s =
    (currentHello s < length (helloVersions s) \<and>
     tm_start (T1 s) = 50 \<and> 50 \<le> tm_capping (T1 s) \<and> tm_start (T2 s) = 150 \<and> 150 \<le> tm_capping (T2 s) \<and>
     0 \<le> tm_counter (T1 s) \<and> 0 \<le> tm_counter (T2 s) \<and>
     (relay_failed s \<or>
        (secSubstate s = WaitSasRelayAck \<longrightarrow> 150 \<le> tm_time (T2 s)) \<and> list_all timer_asked (calls s)) \<and>
     length (retryCounters s) = 6)"

lemma core_okI: "engine_ok s \<Longrightarrow> core_ok s"
  by (auto simp: engine_ok_def core_ok_def version_ok_def timers_ok_def)

lemma engine_okI:
  assumes "core_ok s" "stored_ok s" "secrets_ok s"
    and "state s \<in> {Detect, AckSent} \<Longrightarrow> sentVersion s = helloVersions s ! currentHello s \<and> 50 \<le> tm_time (T1 s)"
    and "state s \<in> {CommitSent, WaitConfirm1, WaitConfAck, WaitErrorAck} \<Longrightarrow> 150 \<le> tm_time (T2 s)"
  shows "engine_ok s"
  using assms by (auto simp: engine_ok_def core_ok_def version_ok_def timers_ok_def)

section \<open>The building blocks keep the invariant\<close>

named_theorems engine_simps

lemma snd_sendPacketZRTP [engine_simps]:
  "snd (sendPacketZRTP P pkt s) = call (SendPacket pkt (fst (sendPacketZRTP P pkt s))) s"
  by (simp add: sendPacketZRTP_def Let_def)

lemma snd_activateTimer [engine_simps]:
  "snd (activateTimer P tm s) = call (ActivateTimer tm (fst (activateTimer P tm s))) s"
  by (simp add: activateTimer_def Let_def)

lemma snd_srtpSecretsReady [engine_simps]:
  "snd (srtpSecretsReady P part s) = call (SecretsReady part (fst (srtpSecretsReady P part s))) s"
  by (simp add: srtpSecretsReady_def Let_def)

lemma srtp_on_call [engine_simps]:
  "srtp_on part (call c s) =
    (case c of SecretsReady p ok \<Rightarrow> if p = part then ok else srtp_on part s
     | SecretsOff p \<Rightarrow> if p = part then False else srtp_on part s
     | _ \<Rightarrow> srtp_on part s)"
  by (cases c) (simp_all add: srtp_on_def call_def)

lemma call_fields [simp]:
  "state (call c s) = state s" "sentPacket (call c s) = sentPacket s" "commitPkt (call c s) = commitPkt s"
  "T1 (call c s) = T1 s" "T2 (call c s) = T2 s" "t1ResendExtend (call c s) = t1ResendExtend s"
  "multiStream (call c s) = multiStream s" "secSubstate (call c s) = secSubstate s"
  "sentVersion (call c s) = sentVersion s" "retryCounters (call c s) = retryCounters s"
  "helloVersions (call c s) = helloVersions s" "currentHello (call c s) = currentHello s"
  "calls (call c s) = calls s @ [c]"
  by (simp_all add: call_def)

lemma nextState_fields [simp]:
  "state (nextState st s) = st" "sentPacket (nextState st s) = sentPacket s"
  "commitPkt (nextState st s) = commitPkt s" "T1 (nextState st s) = T1 s" "T2 (nextState st s) = T2 s"
  "t1ResendExtend (nextState st s) = t1ResendExtend s" "multiStream (nextState st s) = multiStream s"
  "secSubstate (nextState st s) = secSubstate s" "sentVersion (nextState st s) = sentVersion s"
  "retryCounters (nextState st s) = retryCounters s" "helloVersions (nextState st s) = helloVersions s"
  "currentHello (nextState st s) = currentHello s" "calls (nextState st s) = calls s"
  by (simp_all add: nextState_def)

lemma cancelTimer_fields [simp]:
  "state (cancelTimer s) = state s" "sentPacket (cancelTimer s) = sentPacket s"
  "commitPkt (cancelTimer s) = commitPkt s" "T1 (cancelTimer s) = T1 s" "T2 (cancelTimer s) = T2 s"
  "t1ResendExtend (cancelTimer s) = t1ResendExtend s" "multiStream (cancelTimer s) = multiStream s"
  "secSubstate (cancelTimer s) = secSubstate s" "sentVersion (cancelTimer s) = sentVersion s"
  "retryCounters (cancelTimer s) = retryCounters s" "helloVersions (cancelTimer s) = helloVersions s"
  "currentHello (cancelTimer s) = currentHello s" "calls (cancelTimer s) = calls s @ [CancelTimer]"
  by (simp_all add: cancelTimer_def)

lemma srtp_on_fields [simp]:
  "srtp_on part (nextState st s) = srtp_on part s"
  "srtp_on part (cancelTimer s) = srtp_on part s"
  "srtp_on part (s\<lparr>state := st\<rparr>) = srtp_on part s"
  "srtp_on part (s\<lparr>sentPacket := p\<rparr>) = srtp_on part s"
  "srtp_on part (s\<lparr>commitPkt := p\<rparr>) = srtp_on part s"
  "srtp_on part (s\<lparr>T1 := t\<rparr>) = srtp_on part s"
  "srtp_on part (s\<lparr>T2 := t\<rparr>) = srtp_on part s"
  "srtp_on part (s\<lparr>multiStream := b\<rparr>) = srtp_on part s"
  "srtp_on part (s\<lparr>t1ResendExtend := n\<rparr>) = srtp_on part s"
  "srtp_on part (s\<lparr>secSubstate := x\<rparr>) = srtp_on part s"
  "srtp_on part (s\<lparr>sentVersion := v\<rparr>) = srtp_on part s"
  "srtp_on part (s\<lparr>retryCounters := r\<rparr>) = srtp_on part s"
  "srtp_on part (s\<lparr>currentHello := i\<rparr>) = srtp_on part s"
  by (simp_all add: srtp_on_def cancelTimer_def)

text \<open>A call that is harmless leaves the invariant alone.\<close>

definition plain_call :: "parent_call \<Rightarrow> bool" where
  "plain_call c = (case c of ActivateTimer _ _ \<Rightarrow> False | SecretsReady _ _ \<Rightarrow> False | SecretsOff _ \<Rightarrow> False | _ \<Rightarrow> True)"

lemma plain_calls [simp]:
  "plain_call SynchEnter" "plain_call SynchLeave" "plain_call (SendPacket p b)" "plain_call CancelTimer"
  "plain_call (NegotiationFailed sv n)" "plain_call NotSuppOther" "plain_call (SendInfo sv n)"
  by (simp_all add: plain_call_def)

lemma plain_asked: "plain_call c \<Longrightarrow> timer_asked c"
  by (cases c) (auto simp: plain_call_def timer_asked_def)

lemma plain_srtp: "plain_call c \<Longrightarrow> srtp_on part (call c s) = srtp_on part s"
  by (cases c) (auto simp: plain_call_def srtp_on_def)

lemma engine_ok_call [simp]: "engine_ok s \<Longrightarrow> plain_call c \<Longrightarrow> engine_ok (call c s)"
  by (auto simp: engine_ok_def stored_ok_def secrets_ok_def version_ok_def timers_ok_def plain_srtp plain_asked
      relay_failed_def cong: zrtpStates.case_cong)

lemma engine_ok_cancel [simp]: "engine_ok s \<Longrightarrow> engine_ok (cancelTimer s)"
  by (simp add: cancelTimer_def)

lemma core_ok_fields [simp]:
  "core_ok s \<Longrightarrow> timer_asked c \<Longrightarrow> core_ok (call c s)"
  "core_ok (nextState st s) = core_ok s"
  "core_ok s \<Longrightarrow> core_ok (cancelTimer s)"
  "core_ok (s\<lparr>state := st\<rparr>) = core_ok s"
  "core_ok (s\<lparr>sentPacket := p\<rparr>) = core_ok s"
  "core_ok (s\<lparr>commitPkt := p\<rparr>) = core_ok s"
  "core_ok (s\<lparr>multiStream := b\<rparr>) = core_ok s"
  "core_ok (s\<lparr>sentVersion := v\<rparr>) = core_ok s"
  by (auto simp: core_ok_def cancelTimer_def timer_asked_def relay_failed_def)

lemma startTimer_fields [simp]:
  "state (snd (startTimer P w s)) = state s" "sentPacket (snd (startTimer P w s)) = sentPacket s"
  "commitPkt (snd (startTimer P w s)) = commitPkt s"
  "secSubstate (snd (startTimer P w s)) = secSubstate s" "multiStream (snd (startTimer P w s)) = multiStream s"
  "sentVersion (snd (startTimer P w s)) = sentVersion s" "currentHello (snd (startTimer P w s)) = currentHello s"
  "helloVersions (snd (startTimer P w s)) = helloVersions s"
  "retryCounters (snd (startTimer P w s)) = retryCounters s"
  "srtp_on part (snd (startTimer P w s)) = srtp_on part s"
  "T1 (snd (startTimer P w s)) =
    (if w = Timer1 then (T1 s)\<lparr>tm_time := tm_start (T1 s), tm_counter := 0\<rparr> else T1 s)"
  "T2 (snd (startTimer P w s)) =
    (if w = Timer2 then (T2 s)\<lparr>tm_time := tm_start (T2 s), tm_counter := 0\<rparr> else T2 s)"
  by (auto simp: startTimer_def snd_activateTimer put_timer_def get_timer_def srtp_on_call Let_def
      split: which_timer.splits)

lemma core_ok_startTimer [simp]: "core_ok s \<Longrightarrow> core_ok (snd (startTimer P w s))"
  by (cases w) (auto simp: core_ok_def startTimer_def snd_activateTimer put_timer_def get_timer_def Let_def
      timer_asked_def relay_failed_def)

lemma core_okD: "core_ok s \<Longrightarrow> tm_start (T1 s) = 50 \<and> tm_start (T2 s) = 150"
  by (simp add: core_ok_def)

lemma nextTimer_fields [simp]:
  "state (snd (nextTimer P w s)) = state s" "sentPacket (snd (nextTimer P w s)) = sentPacket s"
  "commitPkt (snd (nextTimer P w s)) = commitPkt s"
  "secSubstate (snd (nextTimer P w s)) = secSubstate s" "multiStream (snd (nextTimer P w s)) = multiStream s"
  "sentVersion (snd (nextTimer P w s)) = sentVersion s" "currentHello (snd (nextTimer P w s)) = currentHello s"
  "helloVersions (snd (nextTimer P w s)) = helloVersions s"
  "retryCounters (snd (nextTimer P w s)) = retryCounters s"
  "srtp_on part (snd (nextTimer P w s)) = srtp_on part s"
  "w = Timer2 \<Longrightarrow> T1 (snd (nextTimer P w s)) = T1 s"
  "w = Timer1 \<Longrightarrow> T2 (snd (nextTimer P w s)) = T2 s"
  by (auto simp: nextTimer_def snd_activateTimer put_timer_def get_timer_def srtp_on_call Let_def
      split: which_timer.splits)

lemma nextTimer_time:
  assumes "core_ok s"
  shows "50 \<le> tm_time (T1 s) \<Longrightarrow> 50 \<le> tm_time (T1 (snd (nextTimer P w s)))"
    and "150 \<le> tm_time (T2 s) \<Longrightarrow> 150 \<le> tm_time (T2 (snd (nextTimer P w s)))"
  using assms
  by (cases w; auto simp: core_ok_def nextTimer_def snd_activateTimer put_timer_def get_timer_def Let_def)+

lemma core_ok_nextTimer:
  assumes core: "core_ok s"
    and w: "relay_failed s \<or> 50 \<le> tm_time (get_timer w s) \<and> (w = Timer2 \<longrightarrow> 150 \<le> tm_time (T2 s))"
  shows "core_ok (snd (nextTimer P w s))"
proof (cases "relay_failed s")
  case True
  then show ?thesis using core
    by (cases w) (auto simp: core_ok_def nextTimer_def snd_activateTimer put_timer_def get_timer_def Let_def
        relay_failed_def)
next
  case False
  with w have "50 \<le> tm_time (get_timer w s)" "w = Timer2 \<longrightarrow> 150 \<le> tm_time (T2 s)" by auto
  then show ?thesis using core False
    by (cases w) (auto simp: core_ok_def nextTimer_def snd_activateTimer put_timer_def get_timer_def Let_def
        timer_asked_def relay_failed_def)
qed

lemma engine_ok_nextTimer:
  assumes ok: "engine_ok s"
    and w: "relay_failed s \<or> 50 \<le> tm_time (get_timer w s) \<and> (w = Timer2 \<longrightarrow> 150 \<le> tm_time (T2 s))"
  shows "engine_ok (snd (nextTimer P w s))"
proof (rule engine_okI)
  note time = nextTimer_time[where P = P and w = w, OF core_okI[OF ok]]
  show "core_ok (snd (nextTimer P w s))" by (rule core_ok_nextTimer[OF core_okI[OF ok] w])
  show "stored_ok (snd (nextTimer P w s))"
    using ok by (simp add: engine_ok_def stored_ok_def cong: zrtpStates.case_cong)
  show "secrets_ok (snd (nextTimer P w s))"
    using ok by (simp add: engine_ok_def secrets_ok_def cong: zrtpStates.case_cong)
  have v: "version_ok s" and t: "timers_ok s" using ok by (simp_all add: engine_ok_def)
  show "sentVersion (snd (nextTimer P w s)) = helloVersions (snd (nextTimer P w s)) ! currentHello (snd (nextTimer P w s)) \<and>
      50 \<le> tm_time (T1 (snd (nextTimer P w s)))" if "state (snd (nextTimer P w s)) \<in> {Detect, AckSent}"
    using v t time(1) that by (auto simp: version_ok_def timers_ok_def)
  show "150 \<le> tm_time (T2 (snd (nextTimer P w s)))"
    if "state (snd (nextTimer P w s)) \<in> {CommitSent, WaitConfirm1, WaitConfAck, WaitErrorAck}"
    using t time(2) that by (auto simp: timers_ok_def)
qed

lemma engine_ok_Initial: "core_ok s \<Longrightarrow> engine_ok (nextState Initial s)"
  by (rule engine_okI) (auto simp: stored_ok_def secrets_ok_def)

lemma engine_ok_sendFailed [simp, intro]: "core_ok s \<Longrightarrow> engine_ok (sendFailed s)"
  by (simp add: sendFailed_def engine_ok_Initial)

lemma engine_ok_timerFailed [simp, intro]: "core_ok s \<Longrightarrow> engine_ok (timerFailed c s)"
  by (simp add: timerFailed_def engine_ok_Initial)

lemma engine_ok_give_up [simp, intro]: "core_ok s \<Longrightarrow> engine_ok (give_up ev s)"
  by (simp add: give_up_def engine_ok_Initial Let_def timer_asked_def)

lemmas engine_unfold = Let_def split_beta snd_sendPacketZRTP snd_srtpSecretsReady

lemma engine_ok_sendErrorPacket [simp, intro]:
  assumes "core_ok s"
  shows "engine_ok (sendErrorPacket P c s)"
  unfolding sendErrorPacket_def engine_unfold
  using assms
  by (auto intro!: engine_ok_sendFailed engine_okI simp: stored_ok_def secrets_ok_def timer_asked_def core_okD
      split: if_splits)

lemma engine_ok_secrets_failed [simp, intro]: "core_ok s \<Longrightarrow> engine_ok (secrets_failed P s)"
  by (simp add: secrets_failed_def engine_ok_sendErrorPacket timer_asked_def)

lemma engine_ok_send_stored [simp, intro]: "engine_ok s \<Longrightarrow> engine_ok (send_stored P s)"
  unfolding send_stored_def engine_unfold
  by (auto intro!: engine_ok_sendFailed simp: core_okI timer_asked_def)

text \<open>Starting the timer establishes what the invariant says of it.\<close>

lemma engine_ok_send_and_start:
  assumes "core_ok s" "stored_ok s" "secrets_ok s"
    and "state s \<in> {Detect, AckSent} \<Longrightarrow> sentVersion s = helloVersions s ! currentHello s \<and> w = Timer1"
    and "state s \<in> {CommitSent, WaitConfirm1, WaitConfAck, WaitErrorAck} \<Longrightarrow> w = Timer2"
  shows "engine_ok (send_and_start P w s)"
proof -
  let ?a = "fst (sendPacketZRTP P (sentPacket s) s)"
  let ?s = "call (SendPacket (sentPacket s) ?a) s"
  have core: "core_ok ?s" using assms(1) by (simp add: timer_asked_def)
  have "engine_ok (snd (startTimer P w ?s))"
  proof (rule engine_okI)
    show "core_ok (snd (startTimer P w ?s))" using core by simp
    show "stored_ok (snd (startTimer P w ?s))"
      using assms(2) by (simp add: stored_ok_def cong: zrtpStates.case_cong)
    show "secrets_ok (snd (startTimer P w ?s))"
      using assms(3) by (simp add: secrets_ok_def srtp_on_call cong: zrtpStates.case_cong)
  qed (use assms core in \<open>auto simp: core_okD\<close>)
  then show ?thesis
    unfolding send_and_start_def engine_unfold using core by (auto simp: timer_asked_def)
qed

lemma engine_ok_restart:
  assumes "engine_ok s"
  shows "engine_ok (snd (startTimer P w s))"
proof (rule engine_okI)
  show "core_ok (snd (startTimer P w s))" using assms core_okI by simp
  show "stored_ok (snd (startTimer P w s))"
    using assms by (simp add: engine_ok_def stored_ok_def cong: zrtpStates.case_cong)
  show "secrets_ok (snd (startTimer P w s))"
    using assms by (simp add: engine_ok_def secrets_ok_def cong: zrtpStates.case_cong)
qed (use assms in \<open>auto simp: engine_ok_def version_ok_def timers_ok_def\<close>)

lemma engine_ok_resend:
  assumes ok: "engine_ok s"
    and w: "w = Timer1 \<and> 50 \<le> tm_time (T1 s) \<or> w = Timer2 \<and> 150 \<le> tm_time (T2 s)"
    and many: "\<And>s'. engine_ok s' \<Longrightarrow> state s' = state s \<Longrightarrow> sentPacket s' = sentPacket s \<Longrightarrow>
      currentHello s' = currentHello s \<Longrightarrow> engine_ok (too_many s')"
  shows "engine_ok (resend P w k too_many s)"
proof -
  let ?a = "fst (sendPacketZRTP P (sentPacket s) s)"
  let ?s = "call (SendPacket (sentPacket s) ?a) s"
  let ?r = "?s\<lparr>retryCounters := (retryCounters s)[k := retryCounters s ! k + 1]\<rparr>"
  have s: "engine_ok ?s" using ok by simp
  then have "engine_ok ?r"
    by (simp add: engine_ok_def stored_ok_def secrets_ok_def version_ok_def timers_ok_def relay_failed_def
        cong: zrtpStates.case_cong)
  then have r: "engine_ok (snd (nextTimer P w ?r))"
    using w by (intro engine_ok_nextTimer) (auto simp: get_timer_def)
  then have m: "engine_ok (too_many (snd (nextTimer P w ?r)))" by (intro many) auto
  show ?thesis
    unfolding resend_def engine_unfold
    using s r m core_okI[OF s] by auto
qed

section \<open>Every handler keeps the invariant\<close>

text \<open>The invariant, taken apart at a known state.\<close>

lemma engine_okD:
  assumes "engine_ok s"
  shows "core_ok s" "stored_ok s" "secrets_ok s"
    "state s \<in> {Detect, AckSent} \<Longrightarrow> sentVersion s = helloVersions s ! currentHello s"
    "state s \<in> {Detect, AckSent} \<Longrightarrow> 50 \<le> tm_time (T1 s)"
    "state s \<in> {CommitSent, WaitConfirm1, WaitConfAck, WaitErrorAck} \<Longrightarrow> 150 \<le> tm_time (T2 s)"
    "currentHello s < length (helloVersions s)"
  using assms core_okI[OF assms] by (auto simp: engine_ok_def version_ok_def timers_ok_def)

lemma hello_find_le: "i \<le> n \<Longrightarrow> cur < n \<Longrightarrow> i \<le> cur \<Longrightarrow> hello_find n cur i = cur"
  by (induction n cur i rule: hello_find.induct) (subst hello_find.simps, auto)

lemma hello_down_le: "hello_down vs v i = Some j \<Longrightarrow> j \<le> i"
  by (induction i) (auto split: if_splits)

lemma evInitial_ok:
  assumes ok: "engine_ok s" and st: "state s = Initial"
  shows "engine_ok (evInitial P ev s)"
proof -
  let ?h = "s\<lparr>sentVersion := helloVersions s ! currentHello s, sentPacket := Some (Hello (currentHello s))\<rparr>"
  let ?s = "call (SendPacket (sentPacket ?h) (fst (sendPacketZRTP P (sentPacket ?h) ?h))) ?h"
  note D = engine_okD[OF ok]
  have core: "core_ok ?s" using D(1) by (simp add: timer_asked_def)
  have "engine_ok (nextState Detect (snd (startTimer P Timer1 ?s)))"
  proof (rule engine_okI)
    show "core_ok (nextState Detect (snd (startTimer P Timer1 ?s)))" using core by simp
  qed (use D(1) in \<open>auto simp: stored_ok_def secrets_ok_def core_okD\<close>)
  moreover have "core_ok (snd (startTimer P Timer1 ?s))" using core by simp
  ultimately show ?thesis
    using ok core unfolding evInitial_def engine_unfold by (auto simp: core_okI)
qed

lemma detect_accept_ok:
  assumes ok: "engine_ok s" and st: "state s = Detect"
  shows "engine_ok (detect_accept P pkt s)"
proof -
  let ?s = "call (SendPacket (Some HelloAck) (fst (sendPacketZRTP P (Some HelloAck) s))) s"
  let ?a = "nextState AckSent (?s\<lparr>commitPkt := Some Commit\<rparr>)"
  let ?t = "snd (startTimer P Timer1 ?a)"
  have s: "engine_ok ?s" using ok by simp
  note D = engine_okD[OF s]
  have set_resend: "engine_ok (x\<lparr>T1 := t\<rparr>) = engine_ok x"
    if "tm_start t = tm_start (T1 x)" "tm_capping t = tm_capping (T1 x)" "tm_counter t = tm_counter (T1 x)"
      "tm_time t = tm_time (T1 x)" for x t
    using that by (simp add: engine_ok_def stored_ok_def secrets_ok_def version_ok_def timers_ok_def relay_failed_def
        cong: zrtpStates.case_cong)
  have core: "core_ok ?a" using D(1) by simp
  have "engine_ok ?t"
  proof (rule engine_okI)
    show "core_ok ?t" using core by simp
    show "stored_ok ?t" using st D(2) by (simp add: stored_ok_def)
    show "secrets_ok ?t" using st by (simp add: secrets_ok_def)
  qed (use D st core_okD[OF D(1)] in auto)
  then have "engine_ok (if fst (startTimer P Timer1 ?a) \<le> 0 then timerFailed SevereNoTimer ?t else ?t)"
    using core by auto
  then show ?thesis
    unfolding detect_accept_def engine_unfold
    using s core by (auto simp: set_resend timer_asked_def split: option.splits)
qed

lemma negotiate_version_ok:
  assumes ok: "engine_ok s" and st: "state s = Detect"
  shows "engine_ok (negotiate_version P v s)"
proof -
  note D = engine_okD[OF ok]
  show ?thesis
  proof (cases "hello_down (helloVersions s) v (hello_find (length (helloVersions s)) (currentHello s) 0)")
    case None
    then show ?thesis using D(1) by (auto simp: negotiate_version_def)
  next
    case (Some i)
    then have i: "i < length (helloVersions s)"
      using hello_down_le[OF Some] D(7) by (simp add: hello_find_le)
    let ?n = "s\<lparr>currentHello := i, sentVersion := helloVersions s ! i, sentPacket := Some (Hello i)\<rparr>"
    have "engine_ok (send_and_start P Timer1 ?n)"
      using D(1) i st
      by (intro engine_ok_send_and_start) (auto simp: core_ok_def relay_failed_def stored_ok_def secrets_ok_def)
    then show ?thesis using Some by (simp add: negotiate_version_def Let_def)
  qed
qed

lemma restart_ok:
  "engine_ok s \<Longrightarrow> engine_ok (let (rc, s) = startTimer P w s in if rc \<le> 0 then timerFailed c s else s)"
  unfolding engine_unfold using engine_ok_restart[of s P w] by (auto simp: core_okI)

lemma evDetect_ok:
  assumes ok: "engine_ok s" and st: "state s = Detect"
  shows "engine_ok (evDetect P ev s)"
proof -
  note D = engine_okD[OF ok]
  have c: "engine_ok (cancelTimer s)" "state (cancelTimer s) = Detect" using ok st by simp_all
  have ack: "engine_ok (nextState AckDetected ((cancelTimer s)\<lparr>sentPacket := None\<rparr>))"
    using D(1) by (intro engine_okI) (auto simp: stored_ok_def secrets_ok_def)
  have res: "engine_ok (resend P Timer1 0 (\<lambda>s. nextState Detect (call NotSuppOther (s\<lparr>commitPkt := None\<rparr>))) s)"
  proof (rule engine_ok_resend[OF ok])
    fix t assume t: "engine_ok t" "state t = state s" "sentPacket t = sentPacket s" "currentHello t = currentHello s"
    note E = engine_okD[OF t(1)]
    show "engine_ok (nextState Detect (call NotSuppOther (t\<lparr>commitPkt := None\<rparr>)))"
      using E D(2) t st by (intro engine_okI) (auto simp: timer_asked_def stored_ok_def secrets_ok_def)
  qed (use D st in auto)
  have init: "engine_ok (send_and_start P Timer1 (cancelTimer s))"
    using engine_okD[OF c(1)] st by (intro engine_ok_send_and_start) auto
  show ?thesis
    unfolding evDetect_def Let_def
    using ack res init restart_ok[OF c(1)] negotiate_version_ok[OF c] detect_accept_ok[OF c] D(1) ok
    by (auto simp: Let_def)
qed

lemma become_responder_ok:
  assumes ok: "engine_ok s" and forget: "\<And>t. core_ok t \<Longrightarrow> core_ok (forget t)"
  shows "engine_ok (become_responder P pkt forget s)"
proof -
  note D = engine_okD[OF ok]
  have dh: "engine_ok (nextState WaitDHPart2 ((forget s)\<lparr>sentPacket := Some DHPart1\<rparr>))"
    using forget[OF D(1)] by (intro engine_okI) (auto simp: stored_ok_def secrets_ok_def)
  have ms: "engine_ok (nextState WaitConfirm2 (s\<lparr>sentPacket := Some Confirm1\<rparr>))"
    using D(1) by (intro engine_okI) (auto simp: stored_ok_def secrets_ok_def)
  show ?thesis
    unfolding become_responder_def Let_def using dh ms D(1) ok by (auto split: option.splits)
qed

lemma evAckSent_ok:
  assumes ok: "engine_ok s" and st: "state s = AckSent"
  shows "engine_ok (evAckSent P ev s)"
proof -
  note D = engine_okD[OF ok]
  let ?s = "call (SendPacket (Some HelloAck) (fst (sendPacketZRTP P (Some HelloAck) s))) s"
  have sent: "engine_ok ?s" using ok by simp
  have det: "engine_ok (nextState Detect ?s)"
    using D st by (intro engine_okI) (auto simp: timer_asked_def stored_ok_def secrets_ok_def)
  have commit: "engine_ok (send_and_start P Timer2
      (nextState CommitSent (((cancelTimer s)\<lparr>sentPacket := commitPkt s\<rparr>)\<lparr>commitPkt := None\<rparr>)))"
    using D(1,2) st by (intro engine_ok_send_and_start) (auto simp: stored_ok_def secrets_ok_def)
  have res: "engine_ok (resend P Timer1 1 (\<lambda>s. nextState Detect ((call NotSuppOther s)\<lparr>commitPkt := None\<rparr>)) s)"
  proof (rule engine_ok_resend[OF ok])
    fix t assume t: "engine_ok t" "state t = state s" "sentPacket t = sentPacket s" "currentHello t = currentHello s"
    note E = engine_okD[OF t(1)]
    show "engine_ok (nextState Detect ((call NotSuppOther t)\<lparr>commitPkt := None\<rparr>))"
      using E D(2) t st by (intro engine_okI) (auto simp: timer_asked_def stored_ok_def secrets_ok_def)
  qed (use D st in auto)
  have gu: "engine_ok ((give_up ev s)\<lparr>commitPkt := None\<rparr>)"
    using D(1) by (intro engine_okI) (auto simp: give_up_def Let_def timer_asked_def nextState_def
        stored_ok_def secrets_ok_def)
  show ?thesis
    unfolding evAckSent_def engine_unfold
    using sent det commit res gu ok become_responder_ok[of "cancelTimer s" "\<lambda>s. s\<lparr>commitPkt := None\<rparr>" P] by auto
qed

lemma evAckDetected_ok:
  assumes ok: "engine_ok s"
  shows "engine_ok (evAckDetected P ev s)"
proof -
  note D = engine_okD[OF ok]
  have "engine_ok ((nextState WaitCommit s)\<lparr>sentPacket := Some HelloAck\<rparr>)"
    using D(1) by (intro engine_okI) (auto simp: stored_ok_def secrets_ok_def)
  then show ?thesis
    unfolding evAckDetected_def Let_def
    using ok D(1) by (auto simp: timer_asked_def engine_ok_Initial split: option.splits)
qed

lemma evWaitCommit_ok:
  assumes ok: "engine_ok s"
  shows "engine_ok (evWaitCommit P ev s)"
  unfolding evWaitCommit_def Let_def using ok become_responder_ok[of s id P] by (auto simp: core_okI)

lemma commit_clash_ok:
  assumes ok: "engine_ok s"
  shows "engine_ok (commit_clash P pkt s)"
proof -
  have c: "engine_ok (cancelTimer s)" using ok by simp
  show ?thesis
    unfolding commit_clash_def Let_def
    using ok restart_ok[OF c, of P Timer2] become_responder_ok[OF c, of id P] by (auto simp: core_okI Let_def)
qed

lemma commit_DHPart1_ok:
  assumes ok: "engine_ok s" and st: "state s = CommitSent"
  shows "engine_ok (commit_DHPart1 P pkt s)"
proof -
  let ?c = "(cancelTimer s)\<lparr>sentPacket := None\<rparr>"
  note D = engine_okD[OF ok]
  have c: "engine_ok ?c"
    using D st by (intro engine_okI) (auto simp: stored_ok_def secrets_ok_def)
  have dh: "engine_ok (send_and_start P Timer2 (nextState WaitConfirm1 (?c\<lparr>sentPacket := Some DHPart2\<rparr>)))"
    using D(1) by (intro engine_ok_send_and_start) (auto simp: stored_ok_def secrets_ok_def)
  show ?thesis
    unfolding commit_DHPart1_def using D(1) dh restart_ok[OF c, of P Timer2]
    by (auto simp: Let_def split: option.splits)
qed

text \<open>With Confirm2 stored and SRTP receiving, the engine waits for the last acknowledgement.\<close>

lemma enter_WaitConfAck:
  assumes "core_ok s" "sentPacket s = Some Confirm2" "state s = WaitConfAck"
    and "srtp_on ForReceiver s" "150 \<le> tm_time (T2 s)"
  shows "engine_ok s"
  using assms by (intro engine_okI) (auto simp: stored_ok_def secrets_ok_def)

lemma enter_SecureState:
  assumes "core_ok s" "sentPacket s \<in> {None, Some Conf2Ack, Some SASrelay}" "state s = SecureState"
    and "srtp_on ForReceiver s" "srtp_on ForSender s"
  shows "engine_ok s"
  using assms by (intro engine_okI) (auto simp: stored_ok_def secrets_ok_def)

lemma commit_Confirm1_ok:
  assumes ok: "engine_ok s"
  shows "engine_ok (commit_Confirm1 P pkt s)"
proof -
  let ?c = "(nextState WaitConfAck (cancelTimer s))\<lparr>sentPacket := Some Confirm2\<rparr>"
  let ?d = "call (SendPacket (Some Confirm2) (fst (sendPacketZRTP P (Some Confirm2) ?c))) ?c"
  let ?t = "snd (startTimer P Timer2 ?d)"
  let ?r = "fst (srtpSecretsReady P ForReceiver ?t)"
  have core: "core_ok ?d" using core_okI[OF ok] by (simp add: timer_asked_def)
  then have t: "core_ok ?t" by simp
  have "engine_ok (call (SecretsReady ForReceiver ?r) ?t)" if "?r"
    using t that core_okD[OF core]
    by (intro enter_WaitConfAck) (auto simp: timer_asked_def srtp_on_call)
  moreover have "core_ok (call (SecretsReady ForReceiver ?r) ?t)" using t by (simp add: timer_asked_def)
  ultimately show ?thesis
    unfolding commit_Confirm1_def engine_unfold using core t core_okI[OF ok]
    by (auto split: option.splits)
qed

lemma evCommitSent_ok:
  assumes ok: "engine_ok s" and st: "state s = CommitSent"
  shows "engine_ok (evCommitSent P ev s)"
proof -
  note D = engine_okD[OF ok]
  have "engine_ok (resend P Timer2 2 (timerFailed SevereTooMuchRetries) s)"
    using D st by (intro engine_ok_resend[OF ok]) (auto intro: core_okI)
  then show ?thesis
    unfolding evCommitSent_def Let_def
    using ok D(1) commit_clash_ok[OF ok] commit_DHPart1_ok[OF ok st] commit_Confirm1_ok[OF ok] by auto
qed

lemma evWaitDHPart2_ok:
  assumes ok: "engine_ok s"
  shows "engine_ok (evWaitDHPart2 P ev s)"
proof -
  have "engine_ok ((nextState WaitConfirm2 s)\<lparr>sentPacket := Some Confirm1\<rparr>)"
    using core_okI[OF ok] by (intro engine_okI) (auto simp: stored_ok_def secrets_ok_def)
  then show ?thesis
    unfolding evWaitDHPart2_def Let_def using ok by (auto simp: core_okI split: option.splits)
qed

lemma evWaitConfirm1_ok:
  assumes ok: "engine_ok s" and st: "state s = WaitConfirm1"
  shows "engine_ok (evWaitConfirm1 P ev s)"
proof -
  note D = engine_okD[OF ok]
  let ?r = "fst (srtpSecretsReady P ForReceiver (cancelTimer s))"
  let ?c = "call (SecretsReady ForReceiver ?r) (cancelTimer s)"
  have core: "core_ok ?c" using D(1) by (simp add: timer_asked_def)
  have "engine_ok (send_and_start P Timer2 ((nextState WaitConfAck ?c)\<lparr>sentPacket := Some Confirm2\<rparr>))" if "?r"
    using core that
    by (intro engine_ok_send_and_start) (auto simp: stored_ok_def secrets_ok_def srtp_on_call)
  moreover have "engine_ok (resend P Timer2 3 (timerFailed SevereTooMuchRetries) s)"
    using D st by (intro engine_ok_resend[OF ok]) (auto intro: core_okI)
  ultimately show ?thesis
    unfolding evWaitConfirm1_def engine_unfold using ok core D(1) by (auto split: option.splits)
qed

lemma evWaitConfirm2_ok:
  assumes ok: "engine_ok s"
  shows "engine_ok (evWaitConfirm2 P ev s)"
proof -
  let ?s = "s\<lparr>sentPacket := Some Conf2Ack\<rparr>"
  let ?d = "call (SendPacket (Some Conf2Ack) (fst (sendPacketZRTP P (Some Conf2Ack) ?s))) ?s"
  let ?r = "fst (srtpSecretsReady P ForReceiver ?d)"
  let ?e = "call (SecretsReady ForReceiver ?r) ?d"
  let ?q = "fst (srtpSecretsReady P ForSender ?e)"
  let ?f = "call (SecretsReady ForSender ?q) ?e"
  have core: "core_ok ?d" "core_ok ?e" "core_ok ?f" using core_okI[OF ok] by (simp_all add: timer_asked_def)
  have "engine_ok (call (SendInfo Info InfoSecureStateOn) (nextState SecureState ?f))" if "?r" "?q"
    using core that by (intro enter_SecureState) (auto simp: srtp_on_call timer_asked_def)
  then show ?thesis
    unfolding evWaitConfirm2_def engine_unfold using ok core core_okI[OF ok] by (auto split: option.splits)
qed

lemma evWaitConfAck_ok:
  assumes ok: "engine_ok s" and st: "state s = WaitConfAck"
  shows "engine_ok (evWaitConfAck P ev s)"
proof -
  note D = engine_okD[OF ok]
  have off: "engine_ok (call (SecretsOff ForReceiver) t)" if "core_ok t" "state t = Initial" for t
    using that by (intro engine_okI) (auto simp: stored_ok_def secrets_ok_def timer_asked_def)
  let ?c = "(cancelTimer s)\<lparr>sentPacket := None\<rparr>"
  let ?q = "fst (srtpSecretsReady P ForSender ?c)"
  let ?f = "call (SecretsReady ForSender ?q) ?c"
  have core: "core_ok ?f" using D(1) by (simp add: timer_asked_def)
  have secure: "engine_ok (call (SendInfo Info InfoSecureStateOn) (nextState SecureState ?f))" if "?q"
    using core that D(3) st by (intro enter_SecureState) (auto simp: srtp_on_call timer_asked_def secrets_ok_def)
  let ?d = "call (SendPacket (sentPacket s) (fst (sendPacketZRTP P (sentPacket s) s))) s"
  let ?u = "?d\<lparr>retryCounters := (retryCounters s)[4 := retryCounters s ! 4 + 1]\<rparr>"
  let ?n = "snd (nextTimer P Timer2 ?u)"
  have d: "engine_ok ?d" using ok by simp
  then have "engine_ok ?u"
    by (simp add: engine_ok_def stored_ok_def secrets_ok_def version_ok_def timers_ok_def relay_failed_def
        cong: zrtpStates.case_cong)
  then have n: "engine_ok ?n" using D st by (intro engine_ok_nextTimer) (auto simp: get_timer_def)
  have fails: "engine_ok (call (SecretsOff ForReceiver) (sendFailed ?d))"
    "engine_ok (call (SecretsOff ForReceiver) (timerFailed SevereTooMuchRetries ?n))"
    "engine_ok (call (SecretsOff ForReceiver) (give_up ev s))"
    using core_okI[OF d] core_okI[OF n] D(1)
    by (auto intro!: off simp: sendFailed_def timerFailed_def give_up_def Let_def timer_asked_def)
  show ?thesis
    unfolding evWaitConfAck_def engine_unfold using ok n core secure fails by auto
qed

lemma evWaitErrorAck_ok:
  assumes ok: "engine_ok s" and st: "state s = WaitErrorAck"
  shows "engine_ok (evWaitErrorAck P ev s)"
proof -
  note D = engine_okD[OF ok]
  have "engine_ok (resend P Timer2 5 (timerFailed SevereTooMuchRetries) s)"
    using D st by (intro engine_ok_resend[OF ok]) (auto intro: core_okI)
  then show ?thesis
    unfolding evWaitErrorAck_def Let_def using ok D(1) by (auto intro: engine_ok_Initial)
qed

lemma srtp_on_sendFailed [simp]: "srtp_on part (sendFailed s) = srtp_on part s"
  by (simp add: sendFailed_def srtp_on_call)

lemma secure_event_ok:
  assumes ok: "engine_ok s"
  shows "engine_ok (secure_event P ev s)"
proof -
  note D = engine_okD[OF ok]
  have down: "engine_ok t" if "core_ok t" "state t = Initial" for t
    using that by (intro engine_okI) (auto simp: stored_ok_def secrets_ok_def)
  have sent: "engine_ok (call (SendPacket (sentPacket s) (fst (sendPacketZRTP P (sentPacket s) s))) s)"
    using ok by simp
  show ?thesis
    unfolding secure_event_def engine_unfold
    using ok D(1) sent by (auto intro!: down simp: timer_asked_def)
qed

lemma secure_Timer: "ev_type ev = Timer \<Longrightarrow> secure_event P ev s = s"
  by (simp add: secure_event_def)

lemma evSecureState_ok:
  assumes ok: "engine_ok s" and st: "state s = SecureState"
  shows "engine_ok (evSecureState P ev s)"
proof (cases "secSubstate s = WaitSasRelayAck")
  case sub: True
  note D = engine_okD[OF ok]
  let ?d = "call (SendPacket (sentPacket s) (fst (sendPacketZRTP P (sentPacket s) s))) s"
  have d: "engine_ok ?d" using ok by simp
  have "relay_failed ?d \<or> 150 \<le> tm_time (T2 s)"
    using ok sub by (auto simp: engine_ok_def timers_ok_def relay_failed_def)
  then have n: "engine_ok (snd (nextTimer P Timer2 ?d))"
    using d by (intro engine_ok_nextTimer) (auto simp: get_timer_def)
  have ack: "engine_ok ((cancelTimer s)\<lparr>secSubstate := Normal, sentPacket := None\<rparr>)"
    using D st by (intro engine_okI) (auto simp: stored_ok_def secrets_ok_def core_ok_def timer_asked_def relay_failed_def)
  have failed: "engine_ok (sendFailed ?d)" using core_okI[OF d] by blast
  show ?thesis
    unfolding evSecureState_def subEvWaitRelayAck_def engine_unfold
    using sub ok n ack failed secure_event_ok by (auto simp: secure_Timer)
next
  case False
  then show ?thesis using secure_event_ok[OF ok] by (simp add: evSecureState_def)
qed

lemma engine_event_ok:
  assumes ok: "engine_ok s"
  shows "engine_ok (engine_event P ev s)"
proof (cases "state s")
  case WaitClearAck
  then show ?thesis using ok by (simp add: engine_ok_def stored_ok_def)
qed (use ok in \<open>simp_all add: engine_event_def handler_def evInitial_ok evDetect_ok evAckDetected_ok evAckSent_ok
    evWaitCommit_ok evCommitSent_ok evWaitDHPart2_ok evWaitConfirm1_ok evWaitConfirm2_ok evWaitConfAck_ok
    evSecureState_ok evWaitErrorAck_ok\<close>)

lemma processEvent_ok:
  assumes ok: "engine_ok s"
  shows "engine_ok (processEvent P ev s)"
proof -
  have enter: "engine_ok (call SynchEnter s)" using ok by simp
  show ?thesis
    unfolding processEvent_def engine_unfold
    using enter engine_event_ok core_okI[OF enter] by (auto simp: engine_ok_cancel)
qed

lemma set_timers_ok:
  assumes ok: "engine_ok s"
  shows "engine_ok (setT1Resend n s)" "engine_ok (setT2Resend n s)" "engine_ok (setT1ResendExtend n s)"
    "engine_ok (setT1Capping n s)" "engine_ok (setT2Capping n s)" "engine_ok (setMultiStream b s)"
  using ok
  by (simp_all add: setT1Resend_def setT2Resend_def setT1ResendExtend_def setT1Capping_def setT2Capping_def
      setMultiStream_def engine_ok_def stored_ok_def secrets_ok_def version_ok_def timers_ok_def relay_failed_def
      cong: zrtpStates.case_cong)

lemma sendSASRelay_ok:
  assumes ok: "engine_ok s" and st: "state s = SecureState"
  shows "engine_ok (sendSASRelay P s)"
proof -
  let ?r = "(cancelTimer s)\<lparr>sentPacket := Some SASrelay, secSubstate := WaitSasRelayAck\<rparr>"
  let ?b = "fst (sendPacketZRTP P (Some SASrelay) ?r)"
  let ?d = "call (SendPacket (Some SASrelay) ?b) ?r"
  note D = engine_okD[OF ok]
  have core: "core_ok (snd (startTimer P Timer2 ?d))"
    using D(1) by (auto simp: core_ok_def startTimer_def snd_activateTimer put_timer_def get_timer_def Let_def
        timer_asked_def relay_failed_def)
  have start: "engine_ok (snd (startTimer P Timer2 ?d))"
    using st D(3) core by (intro enter_SecureState) (auto simp: secrets_ok_def srtp_on_call)
  have "core_ok ?d" if "\<not> ?b"
    using D(1) that by (auto simp: core_ok_def relay_failed_def)
  then show ?thesis
    unfolding sendSASRelay_def engine_unfold using start core by auto
qed

lemma perform_ok: "engine_ok s \<Longrightarrow> op_ok op s \<Longrightarrow> engine_ok (perform P op s)"
  by (cases op) (auto simp: perform_def op_ok_def startZrtpEngine_def stopZrtp_def processTimeout_def
      processZrtpMessage_def conf2AckSecure_def processEvent_ok sendSASRelay_ok set_timers_ok)

lemma engine_start_ok: "engine_start s \<Longrightarrow> engine_ok s"
  by (auto simp: engine_start_def ZrtpStateClass_def engine_ok_def stored_ok_def secrets_ok_def version_ok_def
      timers_ok_def)

interpretation zrtp: guarded_machine engine_start op_ok "perform P" engine_ok for P
  by unfold_locales (auto simp: engine_start_ok perform_ok)

end
