(* ===== verification/Zrtp_Protocol.thy ===== *)
theory Zrtp_Protocol
  imports Zrtp_Safety
begin

text \<open>
  The abstract protocol: which state may follow which, with and without multi-stream mode, and the
  simulation of this relation by the engine.  From the abstract relation follows what a session has
  been through when it is secure.
\<close>

section \<open>Histories of the engine\<close>

text \<open>A history, the newest state first.\<close>

inductive zrtp_path :: "zrtp_parent \<Rightarrow> engine list \<Rightarrow> bool" for P where
  path_start: "engine_start s \<Longrightarrow> zrtp_path P [s]"
| path_step: "zrtp_path P (s # ss) \<Longrightarrow> op_ok op s \<Longrightarrow> zrtp_path P (perform P op s # s # ss)"

inductive_cases zrtp_path_nilE [elim!]: "zrtp_path P []"
inductive_cases zrtp_path_consE: "zrtp_path P (s # ss)"

lemma zrtp_path_engine_ok: "zrtp_path P ss \<Longrightarrow> list_all engine_ok ss"
  by (induction rule: zrtp_path.induct) (auto intro: zrtp.initial_ok zrtp.exec_ok)

section \<open>The abstract protocol\<close>

inductive proto_step :: "bool \<times> zrtpStates \<Rightarrow> bool \<times> zrtpStates \<Rightarrow> bool" where
  stutter: "proto_step (m, st) (m, st)"
| set_mode: "proto_step (m, st) (m', st)"
| abandon: "proto_step (m, st) (m, Initial)"
| report_error: "proto_step (m, st) (m, WaitErrorAck)"
| say_hello: "proto_step (m, Initial) (m, Detect)"
| hello_acked: "proto_step (m, Detect) (m, AckDetected)"
| hello_seen: "proto_step (m, Detect) (m, AckSent)"
| hello_again: "proto_step (m, AckSent) (m, Detect)"
| commit_sent: "proto_step (m, AckSent) (m, CommitSent)"
| await_commit: "proto_step (m, AckDetected) (m, WaitCommit)"
| respond: "st \<in> {AckSent, WaitCommit, CommitSent} \<Longrightarrow> proto_step (False, st) (False, WaitDHPart2)"
| respond_multi: "st \<in> {AckSent, WaitCommit, CommitSent} \<Longrightarrow> proto_step (True, st) (True, WaitConfirm2)"
| dh_part1: "proto_step (m, CommitSent) (m, WaitConfirm1)"
| confirm1_multi: "proto_step (True, CommitSent) (True, WaitConfAck)"
| dh_part2: "proto_step (m, WaitDHPart2) (m, WaitConfirm2)"
| confirm1: "proto_step (m, WaitConfirm1) (m, WaitConfAck)"
| confirm2: "proto_step (m, WaitConfirm2) (m, SecureState)"
| conf2_ack: "proto_step (m, WaitConfAck) (m, SecureState)"

inductive_cases step_to_Secure: "proto_step (m, st) (m', SecureState)"
inductive_cases step_to_WaitConfirm2: "proto_step (m, st) (m', WaitConfirm2)"
inductive_cases step_to_WaitConfAck: "proto_step (m, st) (m', WaitConfAck)"
inductive_cases step_to_WaitDHPart2: "proto_step (m, st) (m', WaitDHPart2)"
inductive_cases step_to_WaitConfirm1: "proto_step (m, st) (m', WaitConfirm1)"
inductive_cases step_to_CommitSent: "proto_step (m, st) (m', CommitSent)"
inductive_cases step_to_WaitCommit: "proto_step (m, st) (m', WaitCommit)"
inductive_cases step_to_AckSent: "proto_step (m, st) (m', AckSent)"
inductive_cases step_to_AckDetected: "proto_step (m, st) (m', AckDetected)"
inductive_cases step_to_Detect: "proto_step (m, st) (m', Detect)"

definition mode_of :: "engine \<Rightarrow> bool \<times> zrtpStates" where
  "mode_of s = (multiStream s, state s)"

section \<open>Where the building blocks lead\<close>

named_theorems leads

definition lead :: "engine \<Rightarrow> engine \<Rightarrow> bool" where
  "lead s t \<longleftrightarrow> proto_step (mode_of s) (mode_of t)"

lemma lead_sendFailed [leads]: "multiStream t = multiStream s \<Longrightarrow> lead s (sendFailed t)"
  by (auto simp: lead_def mode_of_def sendFailed_def intro: proto_step.intros)

lemma lead_timerFailed [leads]: "multiStream t = multiStream s \<Longrightarrow> lead s (timerFailed c t)"
  by (auto simp: lead_def mode_of_def timerFailed_def intro: proto_step.intros)

lemma lead_give_up [leads]: "multiStream t = multiStream s \<Longrightarrow> lead s (give_up ev t)"
  by (auto simp: lead_def mode_of_def give_up_def Let_def intro: proto_step.intros)

lemma lead_same [leads]: "multiStream t = multiStream s \<Longrightarrow> state t = state s \<Longrightarrow> lead s t"
  by (auto simp: lead_def mode_of_def intro: proto_step.intros)

lemma lead_Initial [leads]: "multiStream t = multiStream s \<Longrightarrow> state t = Initial \<Longrightarrow> lead s t"
  by (auto simp: lead_def mode_of_def intro: proto_step.intros)

lemma lead_sendErrorPacket [leads]: "multiStream t = multiStream s \<Longrightarrow> lead s (sendErrorPacket P c t)"
  unfolding sendErrorPacket_def engine_unfold
  by (auto simp: lead_def mode_of_def sendFailed_def intro: proto_step.intros)

lemma lead_secrets_failed [leads]: "multiStream t = multiStream s \<Longrightarrow> lead s (secrets_failed P t)"
  by (simp add: secrets_failed_def lead_sendErrorPacket)

lemma lead_send_stored [leads]:
  "lead s t \<Longrightarrow> multiStream t = multiStream s \<Longrightarrow> lead s (send_stored P t)"
  unfolding send_stored_def engine_unfold by (auto simp: lead_def mode_of_def sendFailed_def intro: proto_step.intros)

lemma lead_send_and_start [leads]:
  "lead s t \<Longrightarrow> multiStream t = multiStream s \<Longrightarrow> lead s (send_and_start P w t)"
  unfolding send_and_start_def engine_unfold
  by (auto simp: lead_def mode_of_def sendFailed_def timerFailed_def intro: proto_step.intros)

lemma lead_resend [leads]:
  assumes "\<And>t. multiStream t = multiStream s \<Longrightarrow> state t = state s \<Longrightarrow> lead s (too_many t)"
  shows "lead s (resend P w k too_many s)"
  unfolding resend_def engine_unfold using assms by (auto intro: lead_same lead_sendFailed)

lemma lead_become_responder [leads]:
  assumes "state s \<in> {AckSent, WaitCommit, CommitSent}" "state t = state s" "multiStream t = multiStream s"
    and "multiStream (forget t) = multiStream t"
  shows "lead s (become_responder P pkt forget t)"
proof -
  have "lead s (nextState WaitDHPart2 ((forget t)\<lparr>sentPacket := Some DHPart1\<rparr>))" if "\<not> multiStream t"
    using assms that by (auto simp: lead_def mode_of_def intro: proto_step.intros)
  moreover have "lead s (nextState WaitConfirm2 (t\<lparr>sentPacket := Some Confirm1\<rparr>))" if "multiStream t"
    using assms that by (auto simp: lead_def mode_of_def intro: proto_step.intros)
  ultimately show ?thesis
    unfolding become_responder_def Let_def using assms by (simp add: leads split: option.splits)
qed

section \<open>The handlers follow the protocol\<close>

lemmas proto_hops = proto_step.intros

lemma lead_hop [leads]:
  "multiStream t = multiStream s \<Longrightarrow> proto_step (multiStream s, state s) (multiStream s, state t) \<Longrightarrow> lead s t"
  by (simp add: lead_def mode_of_def)

lemma lead_evInitial: "state s = Initial \<Longrightarrow> lead s (evInitial P ev s)"
  unfolding evInitial_def engine_unfold
  by (simp add: leads proto_hops)

lemma lead_detect_accept: "state s = Detect \<Longrightarrow> lead s (detect_accept P pkt s)"
  unfolding detect_accept_def engine_unfold
  by (simp add: leads proto_hops timerFailed_def split: option.splits)

lemma lead_negotiate_version: "lead s t \<Longrightarrow> multiStream t = multiStream s \<Longrightarrow> state t = state s \<Longrightarrow>
    lead s (negotiate_version P v t)"
  unfolding negotiate_version_def Let_def by (simp add: leads split: option.splits)

lemma lead_evDetect:
  assumes "state s = Detect"
  shows "lead s (evDetect P ev s)"
proof -
  have ack: "lead s (nextState AckDetected ((cancelTimer s)\<lparr>sentPacket := None\<rparr>))"
    using assms by (simp add: leads proto_hops)
  have "lead s (detect_accept P (ev_packet ev) (cancelTimer s))"
    using lead_detect_accept[of "cancelTimer s"] assms by (simp add: lead_def mode_of_def)
  then show ?thesis
    unfolding evDetect_def engine_unfold using assms ack
    by (simp add: leads proto_hops lead_negotiate_version)
qed

lemma lead_evAckSent:
  assumes "state s = AckSent"
  shows "lead s (evAckSent P ev s)"
proof -
  have "lead s (nextState CommitSent (((cancelTimer s)\<lparr>sentPacket := commitPkt (cancelTimer s)\<rparr>)\<lparr>commitPkt := None\<rparr>))"
    using assms by (simp add: leads proto_hops)
  moreover have "lead s (call c (nextState Detect (call d s)))" for c d
    using assms by (simp add: leads proto_hops)
  moreover have "lead s (resend P Timer1 1 (\<lambda>s. nextState Detect ((call NotSuppOther s)\<lparr>commitPkt := None\<rparr>)) s)"
    using assms by (intro lead_resend) (simp add: leads proto_hops)
  moreover have "lead s ((give_up ev s)\<lparr>commitPkt := None\<rparr>)"
    by (rule lead_Initial) (auto simp: give_up_def Let_def)
  ultimately show ?thesis
    unfolding evAckSent_def engine_unfold using assms by (simp add: leads)
qed

lemma lead_evAckDetected: "state s = AckDetected \<Longrightarrow> lead s (evAckDetected P ev s)"
  unfolding evAckDetected_def Let_def
  by (simp add: leads proto_hops split: option.splits)

lemma lead_evWaitCommit: "state s = WaitCommit \<Longrightarrow> lead s (evWaitCommit P ev s)"
  unfolding evWaitCommit_def Let_def by (simp add: leads)

lemma lead_commit_clash: "state s = CommitSent \<Longrightarrow> lead s (commit_clash P pkt s)"
  unfolding commit_clash_def engine_unfold by (simp add: leads)

lemma lead_commit_DHPart1:
  assumes "state s = CommitSent"
  shows "lead s (commit_DHPart1 P pkt s)"
proof -
  have "lead s (nextState WaitConfirm1 ((cancelTimer s)\<lparr>sentPacket := None, sentPacket := Some DHPart2\<rparr>))"
    using assms by (simp add: leads proto_hops)
  then show ?thesis
    unfolding commit_DHPart1_def engine_unfold using assms by (simp add: leads split: option.splits)
qed

lemma lead_commit_Confirm1: "state s = CommitSent \<Longrightarrow> multiStream s \<Longrightarrow> lead s (commit_Confirm1 P pkt s)"
  unfolding commit_Confirm1_def engine_unfold
  by (simp add: leads proto_hops split: option.splits)

lemma lead_evCommitSent: "state s = CommitSent \<Longrightarrow> lead s (evCommitSent P ev s)"
  unfolding evCommitSent_def Let_def
  by (simp add: leads lead_commit_clash lead_commit_DHPart1 lead_commit_Confirm1)

lemma lead_evWaitDHPart2: "state s = WaitDHPart2 \<Longrightarrow> lead s (evWaitDHPart2 P ev s)"
  unfolding evWaitDHPart2_def Let_def
  by (simp add: leads proto_hops split: option.splits)

lemma lead_evWaitConfirm1:
  assumes "state s = WaitConfirm1"
  shows "lead s (evWaitConfirm1 P ev s)"
proof -
  have "lead s ((nextState WaitConfAck (call c (cancelTimer s)))\<lparr>sentPacket := Some Confirm2\<rparr>)" for c
    using assms by (simp add: leads proto_hops)
  then show ?thesis
    unfolding evWaitConfirm1_def engine_unfold using assms by (simp add: leads split: option.splits)
qed

lemma lead_evWaitConfirm2: "state s = WaitConfirm2 \<Longrightarrow> lead s (evWaitConfirm2 P ev s)"
  unfolding evWaitConfirm2_def engine_unfold
  by (simp add: leads proto_hops split: option.splits)

lemma lead_evWaitConfAck: "state s = WaitConfAck \<Longrightarrow> lead s (evWaitConfAck P ev s)"
  unfolding evWaitConfAck_def engine_unfold sendFailed_def timerFailed_def give_up_def
  by (simp add: leads proto_hops)

lemma lead_evSecureState: "state s = SecureState \<Longrightarrow> lead s (evSecureState P ev s)"
  unfolding evSecureState_def subEvWaitRelayAck_def secure_event_def engine_unfold sendFailed_def
  by (auto simp: leads)

lemma lead_evWaitErrorAck: "state s = WaitErrorAck \<Longrightarrow> lead s (evWaitErrorAck P ev s)"
  unfolding evWaitErrorAck_def Let_def by (simp add: leads)

lemma lead_engine_event: "lead s (engine_event P ev s)"
  by (cases "state s")
    (simp_all add: engine_event_def handler_def lead_evInitial lead_evDetect lead_evAckDetected lead_evAckSent
      lead_evWaitCommit lead_evCommitSent lead_evWaitDHPart2 lead_evWaitConfirm1 lead_evWaitConfirm2
      lead_evWaitConfAck evWaitClearAck_def lead_same lead_evSecureState lead_evWaitErrorAck)

lemma lead_call [simp]: "lead (call c s) t = lead s t" "lead s (call c t) = lead s t"
  by (simp_all add: lead_def mode_of_def)

lemma lead_cancelTimer [simp]: "lead (cancelTimer s) t = lead s t"
  by (simp add: lead_def mode_of_def)

lemma lead_processEvent: "lead s (processEvent P ev s)"
proof -
  have ev: "lead s (engine_event P ev' t)" if "mode_of t = mode_of s" for ev' t
    using lead_engine_event[of t P ev'] that by (simp add: lead_def)
  show ?thesis
    unfolding processEvent_def engine_unfold
    by (simp add: lead_sendErrorPacket lead_same ev mode_of_def)
qed

lemma lead_perform: "op_ok op s \<Longrightarrow> lead s (perform P op s)"
proof (cases op)
  case SasRelay
  then show ?thesis
    by (auto simp: perform_def sendSASRelay_def engine_unfold leads)
next
  case (MultiStream b)
  then show ?thesis by (simp add: perform_def setMultiStream_def lead_def mode_of_def set_mode)
qed (simp_all add: perform_def startZrtpEngine_def stopZrtp_def processTimeout_def processZrtpMessage_def
    conf2AckSecure_def lead_processEvent lead_same setT1Resend_def setT2Resend_def setT1ResendExtend_def
    setT1Capping_def setT2Capping_def)

section \<open>The simulation\<close>

inductive proto_path :: "(bool \<times> zrtpStates) list \<Rightarrow> bool" where
  proto_start: "proto_path [(m, Initial)]"
| proto_next: "proto_path (c # cs) \<Longrightarrow> proto_step c d \<Longrightarrow> proto_path (d # c # cs)"

lemma zrtp_path_simulated: "zrtp_path P ss \<Longrightarrow> proto_path (map mode_of ss)"
proof (induction rule: zrtp_path.induct)
  case (path_start s)
  then show ?case by (auto simp: engine_start_def ZrtpStateClass_def mode_of_def proto_start)
next
  case (path_step s ss op)
  then show ?case using lead_perform[of op s P] by (auto simp: lead_def intro: proto_next)
qed

section \<open>What lies behind a state\<close>

text \<open>A state other than \<open>Initial\<close> was entered from another one.\<close>

lemma proto_entered:
  assumes "proto_path (c # cs)" and "snd c \<noteq> Initial"
  shows "\<exists>d e. d \<in> set cs \<and> e \<in> set (c # cs) \<and> snd d \<noteq> snd c \<and> snd e = snd c \<and> proto_step d e"
  using assms
proof (induction "c # cs" arbitrary: c cs rule: proto_path.induct)
  case (proto_next c cs d)
  show ?case
  proof (cases "snd c = snd d")
    case True
    then obtain b e where "b \<in> set cs" "e \<in> set (c # cs)" "snd b \<noteq> snd c" "snd e = snd c" "proto_step b e"
      using proto_next.hyps(2) proto_next.prems by metis
    then show ?thesis using True by (intro exI[of _ b] exI[of _ e]) auto
  next
    case False
    then show ?thesis using proto_next.hyps(3) by (intro exI[of _ c] exI[of _ d]) auto
  qed
qed simp

lemma proto_behind:
  assumes "proto_path (c # cs)" and "\<not> fst c" and "\<forall>d \<in> set cs. \<not> fst d"
  shows "snd c = SecureState \<Longrightarrow> WaitConfirm2 \<in> snd ` set cs \<or> WaitConfAck \<in> snd ` set cs"
    and "snd c = WaitConfirm2 \<Longrightarrow> WaitDHPart2 \<in> snd ` set cs"
    and "snd c = WaitConfAck \<Longrightarrow> WaitConfirm1 \<in> snd ` set cs"
    and "snd c = WaitConfirm1 \<Longrightarrow> CommitSent \<in> snd ` set cs"
proof -
  have enter: "\<exists>d m. d \<in> set cs \<and> snd d \<noteq> X \<and> proto_step (False, snd d) (m, X) \<and> \<not> m" if "snd c = X" "X \<noteq> Initial" for X
  proof -
    obtain d e where "d \<in> set cs" "e \<in> set (c # cs)" "snd d \<noteq> X" "snd e = X" "proto_step d e"
      using proto_entered[OF assms(1)] \<open>snd c = X\<close> \<open>X \<noteq> Initial\<close> by metis
    moreover then have "\<not> fst d" "\<not> fst e" using assms(2,3) by auto
    ultimately show ?thesis by (metis prod.collapse)
  qed
  show "snd c = SecureState \<Longrightarrow> WaitConfirm2 \<in> snd ` set cs \<or> WaitConfAck \<in> snd ` set cs"
    using enter[of SecureState] by (auto elim!: step_to_Secure intro: rev_image_eqI)
  show "snd c = WaitConfirm2 \<Longrightarrow> WaitDHPart2 \<in> snd ` set cs"
    using enter[of WaitConfirm2] by (auto elim!: step_to_WaitConfirm2 intro: rev_image_eqI)
  show "snd c = WaitConfAck \<Longrightarrow> WaitConfirm1 \<in> snd ` set cs"
    using enter[of WaitConfAck] by (auto elim!: step_to_WaitConfAck intro: rev_image_eqI)
  show "snd c = WaitConfirm1 \<Longrightarrow> CommitSent \<in> snd ` set cs"
    using enter[of WaitConfirm1] by (auto elim!: step_to_WaitConfirm1 intro: rev_image_eqI)
qed

text \<open>The path up to an element is itself a path.\<close>

lemma proto_path_suffix: "proto_path (xs @ c # cs) \<Longrightarrow> proto_path (c # cs)"
proof (induction xs)
  case (Cons x xs)
  then show ?case by (cases xs) (auto elim: proto_path.cases)
qed simp

lemma proto_behind_in:
  assumes "proto_path cs" and "\<forall>d \<in> set cs. \<not> fst d"
  shows "WaitConfirm2 \<in> snd ` set cs \<Longrightarrow> WaitDHPart2 \<in> snd ` set cs"
    and "WaitConfAck \<in> snd ` set cs \<Longrightarrow> WaitConfirm1 \<in> snd ` set cs"
    and "WaitConfirm1 \<in> snd ` set cs \<Longrightarrow> CommitSent \<in> snd ` set cs"
proof -
  have split: "\<exists>xs d ys. cs = xs @ d # ys \<and> snd d = X \<and> proto_path (d # ys)" if "X \<in> snd ` set cs" for X
    using that assms(1) proto_path_suffix by (auto dest!: split_list) blast
  show "WaitDHPart2 \<in> snd ` set cs" if "WaitConfirm2 \<in> snd ` set cs"
    using split[OF that] assms(2) proto_behind(2) by fastforce
  show "WaitConfirm1 \<in> snd ` set cs" if "WaitConfAck \<in> snd ` set cs"
    using split[OF that] assms(2) proto_behind(3) by fastforce
  show "CommitSent \<in> snd ` set cs" if "WaitConfirm1 \<in> snd ` set cs"
    using split[OF that] assms(2) proto_behind(4) by fastforce
qed

lemma proto_secure_behind:
  assumes "proto_path (c # cs)" and "\<forall>d \<in> set (c # cs). \<not> fst d" and "snd c = SecureState"
  shows "{WaitDHPart2, WaitConfirm2} \<subseteq> snd ` set cs \<or> {CommitSent, WaitConfirm1, WaitConfAck} \<subseteq> snd ` set cs"
proof -
  have "cs \<noteq> []" using proto_behind(1)[OF assms(1)] assms(2,3) by auto
  then have path: "proto_path cs" using proto_path_suffix[of "[c]" "hd cs" "tl cs"] assms(1) by simp
  have "WaitConfirm2 \<in> snd ` set cs \<or> WaitConfAck \<in> snd ` set cs"
    using proto_behind(1)[OF assms(1)] assms(2,3) by simp
  then show ?thesis using proto_behind_in[OF path] assms(2) by auto
qed

section \<open>The stored Commit\<close>

text \<open>The Commit is lost: there is nothing to repeat in \<open>CommitSent\<close>.\<close>

definition commit_lost :: "engine \<Rightarrow> bool" where
  "commit_lost s \<longleftrightarrow> state s = CommitSent \<and> sentPacket s = None"

lemma lost_ends [simp]:
  "\<not> commit_lost (sendFailed s)" "\<not> commit_lost (timerFailed c s)" "\<not> commit_lost (give_up ev s)"
  "commit_lost (call d s) = commit_lost s" "commit_lost (cancelTimer s) = commit_lost s"
  "commit_lost (s\<lparr>retryCounters := r\<rparr>) = commit_lost s" "commit_lost (s\<lparr>commitPkt := p\<rparr>) = commit_lost s"
  "\<not> commit_lost (s\<lparr>sentPacket := Some m\<rparr>)"
  "commit_lost (nextState st s) \<longleftrightarrow> st = CommitSent \<and> sentPacket s = None"
  by (simp_all add: commit_lost_def sendFailed_def timerFailed_def give_up_def Let_def)

lemma lost_timers [simp]:
  "commit_lost (snd (startTimer P w s)) = commit_lost s" "commit_lost (snd (nextTimer P w s)) = commit_lost s"
  by (simp_all add: commit_lost_def)

lemma lost_error [simp]: "\<not> commit_lost (sendErrorPacket P c s)"
  unfolding sendErrorPacket_def engine_unfold by (auto simp: commit_lost_def sendFailed_def)

lemma lost_send:
  "commit_lost (send_stored P s) \<Longrightarrow> commit_lost s" "commit_lost (send_and_start P w s) \<Longrightarrow> commit_lost s"
  unfolding send_stored_def send_and_start_def engine_unfold by (auto split: if_splits)

lemma lost_resend:
  "commit_lost (resend P w k too_many s) \<Longrightarrow> (\<And>t. \<not> commit_lost (too_many t)) \<Longrightarrow> commit_lost s"
  unfolding resend_def engine_unfold by (auto split: if_splits)

lemma lost_become_responder: "commit_lost (become_responder P pkt forget s) \<Longrightarrow> commit_lost s"
  unfolding become_responder_def by (auto split: if_splits option.splits dest!: lost_send)

lemma lost_evCommitSent:
  assumes "commit_lost (evCommitSent P ev s)" "state s = CommitSent"
  shows "sentPacket s = None \<or> ev_type ev = ZrtpPacket \<and> is_DHPart1 (ev_packet ev) \<and>
    (\<exists>cs. p_prepareDHPart2 P cs (ev_packet ev) = Some IgnorePacket)"
proof -
  have clash: "commit_lost (commit_clash P pkt s) \<Longrightarrow> commit_lost s" for pkt
    unfolding commit_clash_def engine_unfold by (auto split: if_splits dest!: lost_become_responder)
  have c1: "\<not> commit_lost (commit_Confirm1 P pkt s)" for pkt
    unfolding commit_Confirm1_def engine_unfold secrets_failed_def by (auto split: option.splits)
  have dh: "\<exists>cs. p_prepareDHPart2 P cs pkt = Some IgnorePacket" if "commit_lost (commit_DHPart1 P pkt s)" for pkt
    using that unfolding commit_DHPart1_def Let_def by (auto split: option.splits if_splits dest!: lost_send)
  have "commit_lost (resend P Timer2 2 (timerFailed SevereTooMuchRetries) s) \<Longrightarrow> commit_lost s"
    by (erule lost_resend) simp
  moreover have "commit_lost s \<Longrightarrow> sentPacket s = None" by (simp add: commit_lost_def)
  ultimately show ?thesis
    using assms(1) clash c1 dh unfolding evCommitSent_def Let_def by (auto split: if_splits)
qed

lemma lost_evAckSent:
  assumes "engine_ok s" "state s = AckSent"
  shows "\<not> commit_lost (evAckSent P ev s)"
proof -
  have n: "\<not> commit_lost s" "commitPkt s = Some Commit" using assms by (simp_all add: commit_lost_def engine_ok_def stored_ok_def)
  have "commit_lost (resend P Timer1 1 (\<lambda>s. nextState Detect ((call NotSuppOther s)\<lparr>commitPkt := None\<rparr>)) s) \<Longrightarrow> commit_lost s"
    by (erule lost_resend) simp
  moreover have "\<not> commit_lost ((give_up ev s)\<lparr>commitPkt := None\<rparr>)" by (simp add: commit_lost_def give_up_def Let_def)
  ultimately show ?thesis
    using n unfolding evAckSent_def engine_unfold
    by (auto split: if_splits dest!: lost_send lost_become_responder)
qed

lemma lost_event:
  assumes "engine_ok s" "commit_lost (engine_event P ev s)"
  shows "state s = CommitSent \<and> (sentPacket s = None \<or> ev_type ev = ZrtpPacket \<and> is_DHPart1 (ev_packet ev) \<and>
    (\<exists>cs. p_prepareDHPart2 P cs (ev_packet ev) = Some IgnorePacket))"
proof -
  have "proto_step (multiStream s, state s) (multiStream (engine_event P ev s), CommitSent)"
    using lead_engine_event[of s P ev] assms(2) by (simp add: lead_def mode_of_def commit_lost_def)
  then have "state s = AckSent \<or> state s = CommitSent" by (auto elim: step_to_CommitSent)
  then show ?thesis
    using lost_evAckSent[OF assms(1)] lost_evCommitSent[of P ev s] assms(2)
    by (auto simp: engine_event_def handler_def)
qed

lemma lost_processEvent:
  assumes "engine_ok s" "commit_lost (processEvent P ev s)"
  shows "state s = CommitSent \<and> (sentPacket s = None \<or> ev_type ev = ZrtpPacket \<and> is_DHPart1 (ev_packet ev) \<and>
    (\<exists>cs. p_prepareDHPart2 P cs (ev_packet ev) = Some IgnorePacket))"
proof -
  have ev: "state s = CommitSent \<and> (sentPacket s = None \<or> ev_type ev' = ZrtpPacket \<and> is_DHPart1 (ev_packet ev') \<and>
      (\<exists>cs. p_prepareDHPart2 P cs (ev_packet ev') = Some IgnorePacket))"
    if "commit_lost (engine_event P ev' t)" "engine_ok t" "state t = state s" "sentPacket t = sentPacket s" for ev' t
    using lost_event[OF that(2,1)] that(3,4) by simp
  have stay: "commit_lost s \<Longrightarrow> state s = CommitSent \<and> sentPacket s = None" by (simp add: commit_lost_def)
  show ?thesis
    using assms(2) ev stay assms(1) unfolding processEvent_def engine_unfold
    by (auto split: if_splits dest!: ev)
qed

lemma lost_perform:
  assumes "engine_ok s" "op_ok op s" "commit_lost (perform P op s)"
  shows "state s = CommitSent \<and> (sentPacket s = None \<or> (\<exists>pkt len. op = Message pkt len \<and> is_DHPart1 pkt \<and>
    (\<exists>cs. p_prepareDHPart2 P cs pkt = Some IgnorePacket)))"
proof -
  have conf: "\<not> is_DHPart1 (zrtpConf2Ack crc)" for crc
    by (simp add: is_DHPart1_def zrtpConf2Ack_def msg_char_def)
  have p: "commit_lost (processEvent P ev s) \<Longrightarrow> state s = CommitSent \<and> (sentPacket s = None \<or> ev_type ev = ZrtpPacket \<and>
      is_DHPart1 (ev_packet ev) \<and> (\<exists>cs. p_prepareDHPart2 P cs (ev_packet ev) = Some IgnorePacket))" for ev
    using lost_processEvent[OF assms(1)] .
  have stay: "commit_lost s \<Longrightarrow> state s = CommitSent \<and> sentPacket s = None" by (simp add: commit_lost_def)
  have set: "commit_lost (setMultiStream b s) = commit_lost s" "commit_lost (setT1Resend n s) = commit_lost s"
    "commit_lost (setT1ResendExtend n s) = commit_lost s" "commit_lost (setT1Capping n s) = commit_lost s"
    "commit_lost (setT2Resend n s) = commit_lost s" "commit_lost (setT2Capping n s) = commit_lost s" for b n
    by (simp_all add: commit_lost_def setMultiStream_def setT1Resend_def setT1ResendExtend_def setT1Capping_def
        setT2Resend_def setT2Capping_def)
  have relay: "\<not> commit_lost (sendSASRelay P s)"
    unfolding sendSASRelay_def engine_unfold by (simp add: commit_lost_def sendFailed_def)
  show ?thesis
    using assms(2,3) conf stay relay
    by (cases op)
      (auto simp: perform_def startZrtpEngine_def stopZrtp_def processTimeout_def processZrtpMessage_def set
        conf2AckSecure_def plain_event_def packet_event_def split: if_splits dest!: p)
qed

text \<open>In every history, a Commit is lost only after a DHPart1 that was to be ignored.\<close>

lemma lost_history:
  assumes "zrtp_path P (s # ss)" "commit_lost s"
  shows "\<exists>t pkt len cs. t \<in> set ss \<and> state t = CommitSent \<and> sentPacket t = Some Commit \<and> is_DHPart1 pkt \<and>
    p_prepareDHPart2 P cs pkt = Some IgnorePacket \<and> perform P (Message pkt len) t \<in> set (s # ss)"
  using assms
proof (induction "s # ss" arbitrary: s ss rule: zrtp_path.induct)
  case (path_start s)
  then show ?case by (auto simp: engine_start_def ZrtpStateClass_def commit_lost_def)
next
  case (path_step s ss op)
  have ok: "engine_ok s" using zrtp_path_engine_ok[OF path_step(1)] by simp
  then have c: "state s = CommitSent \<Longrightarrow> sentPacket s \<in> {Some Commit, None}" by (simp add: engine_ok_def stored_ok_def)
  note l = lost_perform[OF ok path_step(3,4)]
  show ?case
  proof (cases "sentPacket s = None")
    case True
    then have "commit_lost s" using l by (simp add: commit_lost_def)
    then show ?thesis using path_step(2) by auto
  next
    case False
    then show ?thesis using l c by auto
  qed
qed

text \<open>The engine does not check the state for a SAS relay packet: in \<open>CommitSent\<close> it takes the place of the Commit.\<close>

lemma relay_unchecked:
  "state s = CommitSent \<Longrightarrow> fst (sendPacketZRTP P (Some SASrelay) ((cancelTimer s)\<lparr>sentPacket := Some SASrelay, secSubstate := WaitSasRelayAck\<rparr>)) \<Longrightarrow>
    state (perform P SasRelay s) = Initial \<or> state (perform P SasRelay s) = CommitSent \<and> sentPacket (perform P SasRelay s) = Some SASrelay"
  unfolding perform_def sendSASRelay_def engine_unfold by (simp add: sendFailed_def)

end
