(* ===== verification/Zrtp_Exchange.thy ===== *)
theory Zrtp_Exchange
  imports Zrtp_Live
begin

text \<open>
  The messages on the wire (\<open>ZrtpTextData.cpp\<close>), and two engines that hand each other the messages they
  send.
\<close>

section \<open>Message types on the wire\<close>

primrec message_type :: "zrtp_message \<Rightarrow> string" where
  "message_type (Hello i) = ''Hello   ''"
| "message_type HelloAck = ''HelloACK''"
| "message_type Commit = ''Commit  ''"
| "message_type DHPart1 = ''DHPart1 ''"
| "message_type DHPart2 = ''DHPart2 ''"
| "message_type Confirm1 = ''Confirm1''"
| "message_type Confirm2 = ''Confirm2''"
| "message_type Conf2Ack = ''Conf2ACK''"
| "message_type (ErrorMsg c) = ''Error   ''"
| "message_type ErrorAck = ''ErrorACK''"
| "message_type PingAck = ''PingACK ''"
| "message_type RelayAck = ''RelayACK''"
| "message_type SASrelay = ''SASrelay''"

definition wire_packet :: "zrtp_message \<Rightarrow> u8 list \<Rightarrow> bool" where
  "wire_packet m pkt \<longleftrightarrow> take 8 (drop 4 pkt) = map (\<lambda>c. of_nat (of_char c)) (message_type m)"

definition type_char :: "zrtp_message \<Rightarrow> nat \<Rightarrow> char" where
  "type_char m k = char_of (unat (tolower (of_nat (of_char (message_type m ! k)))))"

lemma length_message_type: "length (message_type m) = 8"
  by (cases m) simp_all

lemma msg_char_wire:
  assumes "wire_packet m pkt" "k < 8"
  shows "msg_char pkt k = type_char m k"
proof -
  have len: "8 \<le> length (drop 4 pkt)"
    using arg_cong[OF assms(1)[unfolded wire_packet_def], of length] by (simp add: length_message_type)
  then have "pkt ! (4 + k) = take 8 (drop 4 pkt) ! k" using assms(2) by simp
  also have "\<dots> = of_nat (of_char (message_type m ! k))"
    using assms by (simp add: wire_packet_def length_message_type)
  finally show ?thesis by (simp add: msg_char_def type_char_def)
qed

definition type_key :: "zrtp_message \<Rightarrow> string" where
  "type_key m =
    (case m of
       Hello i \<Rightarrow> ''ho  '' | HelloAck \<Rightarrow> ''hock'' | Commit \<Rightarrow> ''ci  '' | DHPart1 \<Rightarrow> ''dr1 ''
     | DHPart2 \<Rightarrow> ''dr2 '' | Confirm1 \<Rightarrow> ''cim1'' | Confirm2 \<Rightarrow> ''cim2'' | Conf2Ack \<Rightarrow> ''c2ck''
     | ErrorMsg c \<Rightarrow> ''er  '' | ErrorAck \<Rightarrow> ''erck'' | PingAck \<Rightarrow> ''pak '' | RelayAck \<Rightarrow> ''ryck''
     | SASrelay \<Rightarrow> ''seay'')"

lemma type_char_key: "[type_char m 0, type_char m 4, type_char m 6, type_char m 7] = type_key m"
  by (cases m) (simp_all add: type_key_def type_char_def tolower_def of_char_def char_of_def bit_0)

lemma type_chars:
  "type_char m 0 = hd (type_key m)" "type_char m 4 = type_key m ! 1"
  "type_char m 6 = type_key m ! 2" "type_char m 7 = type_key m ! 3"
  by (simp_all flip: type_char_key)

text \<open>On the messages of the protocol, every test accepts exactly its own kind.\<close>

lemma recognisers:
  assumes "wire_packet m pkt"
  shows "is_Hello pkt \<longleftrightarrow> (\<exists>i. m = Hello i)"
    and "is_HelloAck pkt \<longleftrightarrow> m = HelloAck"
    and "is_late_Hello pkt \<longleftrightarrow> m = HelloAck \<or> (\<exists>i. m = Hello i)"
    and "is_Commit pkt \<longleftrightarrow> m = Commit"
    and "is_DHPart1 pkt \<longleftrightarrow> m = DHPart1"
    and "is_DHPart2 pkt \<longleftrightarrow> m = DHPart2"
    and "is_Confirm1 pkt \<longleftrightarrow> m = Confirm1"
    and "is_Confirm2 pkt \<longleftrightarrow> m = Confirm2"
    and "is_ConfAck pkt \<longleftrightarrow> m = Conf2Ack"
    and "is_Error pkt \<longleftrightarrow> (\<exists>c. m = ErrorMsg c)"
    and "is_ErrorAck pkt \<longleftrightarrow> m = ErrorAck"
    and "is_Ping pkt \<longleftrightarrow> False"
    and "is_RelayAck pkt \<longleftrightarrow> m = RelayAck"
    and "is_SASrelay pkt \<longleftrightarrow> m = SASrelay"
  using msg_char_wire[OF assms]
  by (cases m; simp add: is_Hello_def is_HelloAck_def is_late_Hello_def is_Commit_def is_DHPart1_def
      is_DHPart2_def is_Confirm1_def is_Confirm2_def is_ConfAck_def is_Error_def is_ErrorAck_def is_Ping_def
      is_RelayAck_def is_SASrelay_def type_chars type_key_def)+

section \<open>Two engines\<close>

text \<open>A parent that can do all it is asked.\<close>

definition cooperative :: "zrtp_parent \<Rightarrow> bool" where
  "cooperative P \<longleftrightarrow>
    (\<forall>cs m. p_sendData P cs m) \<and> (\<forall>cs tm. 0 < p_activateTimer P cs tm) \<and>
    (\<forall>cs pkt. p_prepareCommit P cs pkt = None \<and> p_prepareDHPart1 P cs pkt = None \<and>
       p_prepareDHPart2 P cs pkt = None \<and> p_prepareConfirm1 P cs pkt = None \<and>
       p_prepareConfirm2 P cs pkt = None \<and> p_prepareConf2Ack P cs pkt = None) \<and>
    (\<forall>cs part. p_srtpSecretsReady P cs part)"

lemma coop_simps:
  assumes "cooperative P"
  shows "fst (sendPacketZRTP P (Some m) s)" "fst (srtpSecretsReady P part s)" "\<not> fst (startTimer P w s) \<le> 0"
    "p_prepareCommit P cs pkt = None" "p_prepareDHPart1 P cs pkt = None" "p_prepareDHPart2 P cs pkt = None"
    "p_prepareConfirm1 P cs pkt = None" "p_prepareConfirm2 P cs pkt = None" "p_prepareConf2Ack P cs pkt = None"
  using assms
  by (simp_all add: cooperative_def sendPacketZRTP_def srtpSecretsReady_def startTimer_def activateTimer_def
      Let_def not_le)

lemma coop_nextTimer:
  assumes "cooperative P" "tm_counter (get_timer w s) = 0"
  shows "\<not> fst (nextTimer P w s) \<le> 0"
  using assms by (simp add: cooperative_def nextTimer_def activateTimer_def Let_def not_le)

text \<open>The messages that an engine has sent.\<close>

definition sent_by :: "parent_call \<Rightarrow> zrtp_message list" where
  "sent_by c = (case c of SendPacket (Some m) True \<Rightarrow> [m] | _ \<Rightarrow> [])"

definition sent :: "engine \<Rightarrow> zrtp_message list" where
  "sent s = concat (map sent_by (calls s))"

lemma sent_simps [simp]:
  "sent (call (SendPacket (Some m) True) s) = sent s @ [m]"
  "sent (call SynchEnter s) = sent s" "sent (call SynchLeave s) = sent s"
  "sent (cancelTimer s) = sent s" "sent (call (SecretsReady part b) s) = sent s"
  "sent (call (SendInfo sv n) s) = sent s" "sent (nextState st s) = sent s"
  "sent (snd (startTimer P w s)) = sent s" "sent (snd (nextTimer P w s)) = sent s"
  "sent (s\<lparr>sentPacket := p\<rparr>) = sent s" "sent (s\<lparr>commitPkt := p\<rparr>) = sent s"
  "sent (s\<lparr>sentVersion := v\<rparr>) = sent s" "sent (s\<lparr>T1 := tt\<rparr>) = sent s" "sent (s\<lparr>retryCounters := r\<rparr>) = sent s"
  by (simp_all add: sent_def sent_by_def call_def cancelTimer_def nextState_def startTimer_def nextTimer_def
      put_timer_def activateTimer_def Let_def split: which_timer.splits)

text \<open>Deliver a message; its length is the one its length field announces.\<close>

definition deliver :: "(zrtp_message \<Rightarrow> u8 list) \<Rightarrow> zrtp_parent \<Rightarrow> zrtp_message \<Rightarrow> engine \<Rightarrow> engine" where
  "deliver wire P m s = processZrtpMessage P (wire m) (unat (totalLength (wire m))) s"

definition wire_format :: "(zrtp_message \<Rightarrow> u8 list) \<Rightarrow> bool" where
  "wire_format wire \<longleftrightarrow> (\<forall>m. wire_packet m (wire m))"

lemma deliver_event:
  assumes "wire_format wire" and "\<And>c. m \<noteq> ErrorMsg c" "m \<noteq> SASrelay"
  shows "deliver wire P m s =
    call SynchLeave (engine_event P (packet_event (wire m) (unat (totalLength (wire m)))) (call SynchEnter s))"
proof -
  have w: "wire_packet m (wire m)" using assms(1) by (simp add: wire_format_def)
  show ?thesis
    using recognisers(10,12,14)[OF w] assms(2,3)
    by (simp add: deliver_def processZrtpMessage_def processEvent_def packet_event_def Let_def)
qed

text \<open>What the exchange depends on and establishes.\<close>

definition at_stage ::
  "engine \<Rightarrow> zrtpStates \<Rightarrow> zrtp_message option \<Rightarrow> zrtp_message list \<Rightarrow> bool \<Rightarrow> bool \<Rightarrow> bool" where
  "at_stage s st p ms r q \<longleftrightarrow>
    state s = st \<and> sentPacket s = p \<and> sent s = ms \<and> (r \<longrightarrow> srtp_on ForReceiver s) \<and>
    (q \<longrightarrow> srtp_on ForSender s) \<and> \<not> multiStream s \<and>
    (st = AckSent \<longrightarrow> commitPkt s = Some Commit)"

lemmas stage_simps = deliver_event engine_event_def handler_def packet_event_def engine_unfold at_stage_def
  coop_simps srtp_on_call

lemma wire_of: "wire_format wire \<Longrightarrow> wire_packet m (wire m)"
  by (simp add: wire_format_def)

lemmas recognise = recognisers[OF wire_of]

lemma stage_start:
  assumes "cooperative P" "state s = Initial" "\<not> multiStream s"
  shows "at_stage (startZrtpEngine P s) Detect (Some (Hello (currentHello s))) (sent s @ [Hello (currentHello s)]) False False"
    and "sentVersion (startZrtpEngine P s) = helloVersions s ! currentHello s"
  using assms
  by (simp_all add: stage_simps startZrtpEngine_def processEvent_def plain_event_def evInitial_def)

lemma stage_hello:
  assumes "cooperative P" "wire_format wire"
    and "at_stage s Detect p ms False False" and "getVersionInt (wire (Hello i)) = sentVersion s"
  shows "at_stage (deliver wire P (Hello i) s) AckSent p (ms @ [HelloAck]) False False"
    and "tm_counter (T1 (deliver wire P (Hello i) s)) = 0"
  using assms by (simp_all add: stage_simps recognise[of wire] evDetect_def detect_accept_def)

lemma stage_hello_ack:
  assumes "cooperative P" "wire_format wire" "at_stage s Detect p ms False False"
  shows "at_stage (deliver wire P HelloAck s) AckDetected None ms False False"
  using assms by (simp add: stage_simps recognise[of wire] evDetect_def)

lemma stage_hello_again:
  assumes "cooperative P" "at_stage s AckSent (Some m) ms False False" "tm_counter (T1 s) = 0"
  shows "at_stage (processTimeout P s) AckSent (Some m) (ms @ [m]) False False"
proof -
  let ?t = "(call (SendPacket (Some m) True) (call SynchEnter s))
    \<lparr>retryCounters := (retryCounters s)[Suc 0 := Suc (retryCounters s ! Suc 0)]\<rparr>"
  have "\<not> fst (nextTimer P Timer1 ?t) \<le> 0"
    using assms by (intro coop_nextTimer) (simp_all add: get_timer_def)
  then show ?thesis
    using assms
    by (simp add: stage_simps processTimeout_def processEvent_def plain_event_def evAckSent_def resend_def)
qed

lemma stage_detected_hello:
  assumes "cooperative P" "wire_format wire" "at_stage s AckDetected p ms False False"
  shows "at_stage (deliver wire P (Hello i) s) WaitCommit (Some HelloAck) (ms @ [HelloAck]) False False"
  using assms by (simp add: stage_simps recognise[of wire] evAckDetected_def send_stored_def)

lemma stage_commit:
  assumes "cooperative P" "wire_format wire" "at_stage s AckSent p ms False False"
  shows "at_stage (deliver wire P HelloAck s) CommitSent (Some Commit) (ms @ [Commit]) False False"
  using assms by (simp add: stage_simps recognise[of wire] evAckSent_def send_and_start_def)

lemma stage_respond:
  assumes "cooperative P" "wire_format wire" "at_stage s WaitCommit p ms False False"
  shows "at_stage (deliver wire P Commit s) WaitDHPart2 (Some DHPart1) (ms @ [DHPart1]) False False"
  using assms
  by (simp add: stage_simps recognise[of wire] evWaitCommit_def become_responder_def send_stored_def)

lemma stage_dh_part1:
  assumes "cooperative P" "wire_format wire" "at_stage s CommitSent p ms False False"
  shows "at_stage (deliver wire P DHPart1 s) WaitConfirm1 (Some DHPart2) (ms @ [DHPart2]) False False"
  using assms
  by (simp add: stage_simps recognise[of wire] evCommitSent_def commit_DHPart1_def send_and_start_def)

lemma stage_dh_part2:
  assumes "cooperative P" "wire_format wire" "at_stage s WaitDHPart2 p ms False False"
  shows "at_stage (deliver wire P DHPart2 s) WaitConfirm2 (Some Confirm1) (ms @ [Confirm1]) False False"
  using assms by (simp add: stage_simps recognise[of wire] evWaitDHPart2_def send_stored_def)

lemma stage_confirm1:
  assumes "cooperative P" "wire_format wire" "at_stage s WaitConfirm1 p ms False False"
  shows "at_stage (deliver wire P Confirm1 s) WaitConfAck (Some Confirm2) (ms @ [Confirm2]) True False"
  using assms by (simp add: stage_simps recognise[of wire] evWaitConfirm1_def send_and_start_def)

lemma stage_confirm2:
  assumes "cooperative P" "wire_format wire" "at_stage s WaitConfirm2 p ms False False"
  shows "at_stage (deliver wire P Confirm2 s) SecureState (Some Conf2Ack) (ms @ [Conf2Ack]) True True"
  using assms by (simp add: stage_simps recognise[of wire] evWaitConfirm2_def)

lemma stage_conf2_ack:
  assumes "cooperative P" "wire_format wire" "at_stage s WaitConfAck p ms True False"
  shows "at_stage (deliver wire P Conf2Ack s) SecureState None ms True True"
  using assms by (simp add: stage_simps recognise[of wire] evWaitConfAck_def)

section \<open>The key exchange\<close>

text \<open>Hand the last message that one engine sent to the other.\<close>

definition hand_over :: "(zrtp_message \<Rightarrow> u8 list) \<Rightarrow> zrtp_parent \<Rightarrow> engine \<Rightarrow> engine \<Rightarrow> engine" where
  "hand_over wire P from s = deliver wire P (last (sent from)) s"

definition zrtp_exchange ::
  "(zrtp_message \<Rightarrow> u8 list) \<Rightarrow> (zrtp_message \<Rightarrow> u8 list) \<Rightarrow> zrtp_parent \<Rightarrow> zrtp_parent \<Rightarrow> engine \<Rightarrow> engine \<Rightarrow>
    engine \<times> engine" where
  "zrtp_exchange wa wb PA PB a b =
    (let a = startZrtpEngine PA a; b = startZrtpEngine PB b;
         a = hand_over wb PA b a;
         b = hand_over wa PB a b;
         a = processTimeout PA a;
         b = hand_over wa PB a b;
         a = hand_over wb PA b a;
         b = hand_over wa PB a b;
         a = hand_over wb PA b a;
         b = hand_over wa PB a b;
         a = hand_over wb PA b a;
         b = hand_over wa PB a b;
         a = hand_over wb PA b a
     in (a, b))"

lemma at_stage_sent: "at_stage s st p ms r q \<Longrightarrow> sent s = ms"
  by (simp add: at_stage_def)

lemma exchange_stages:
  assumes A: "cooperative PA" "wire_format wa" "state a = Initial" "\<not> multiStream a"
    and B: "cooperative PB" "wire_format wb" "state b = Initial" "\<not> multiStream b"
    and version: "getVersionInt (wb (Hello (currentHello b))) = helloVersions a ! currentHello a"
    and res: "zrtp_exchange wa wb PA PB a b = (a', b')"
  shows "at_stage a' SecureState None
      (sent a @ [Hello (currentHello a), HelloAck, Hello (currentHello a), Commit, DHPart2, Confirm2]) True True"
    and "at_stage b' SecureState (Some Conf2Ack)
      (sent b @ [Hello (currentHello b), HelloAck, DHPart1, Confirm1, Conf2Ack]) True True"
proof -
  note AB = A(1,2) B(1,2)
  define a1 where "a1 = startZrtpEngine PA a"
  define b1 where "b1 = startZrtpEngine PB b"
  define a2 where "a2 = hand_over wb PA b1 a1"
  define b2 where "b2 = hand_over wa PB a2 b1"
  define a3 where "a3 = processTimeout PA a2"
  define b3 where "b3 = hand_over wa PB a3 b2"
  define a4 where "a4 = hand_over wb PA b3 a3"
  define b4 where "b4 = hand_over wa PB a4 b3"
  define a5 where "a5 = hand_over wb PA b4 a4"
  define b5 where "b5 = hand_over wa PB a5 b4"
  define a6 where "a6 = hand_over wb PA b5 a5"
  define b6 where "b6 = hand_over wa PB a6 b5"
  define a7 where "a7 = hand_over wb PA b6 a6"
  have "zrtp_exchange wa wb PA PB a b = (a7, b6)"
    unfolding zrtp_exchange_def Let_def a7_def b6_def a6_def b5_def a5_def b4_def a4_def b3_def a3_def b2_def
      a2_def b1_def a1_def by (rule refl)
  then have fin: "a' = a7" "b' = b6" using res by simp_all
  note hand = hand_over_def
  have s1: "at_stage a1 Detect (Some (Hello (currentHello a))) (sent a @ [Hello (currentHello a)]) False False"
      "sentVersion a1 = helloVersions a ! currentHello a"
    unfolding a1_def using stage_start A by blast+
  have t1: "at_stage b1 Detect (Some (Hello (currentHello b))) (sent b @ [Hello (currentHello b)]) False False"
    unfolding b1_def using stage_start B by blast
  have s2: "at_stage a2 AckSent (Some (Hello (currentHello a))) (sent a @ [Hello (currentHello a), HelloAck]) False False"
      "tm_counter (T1 a2) = 0"
    using stage_hello[OF A(1) B(2) s1(1)] version s1(2) by (simp_all add: a2_def hand at_stage_sent[OF t1])
  have t2: "at_stage b2 AckDetected None (sent b @ [Hello (currentHello b)]) False False"
    using stage_hello_ack[OF B(1) A(2) t1] by (simp add: b2_def hand at_stage_sent[OF s2(1)])
  have s3: "at_stage a3 AckSent (Some (Hello (currentHello a)))
      (sent a @ [Hello (currentHello a), HelloAck, Hello (currentHello a)]) False False"
    using stage_hello_again[OF A(1) s2] by (simp add: a3_def)
  have t3: "at_stage b3 WaitCommit (Some HelloAck) (sent b @ [Hello (currentHello b), HelloAck]) False False"
    using stage_detected_hello[OF B(1) A(2) t2] by (simp add: b3_def hand at_stage_sent[OF s3])
  have s4: "at_stage a4 CommitSent (Some Commit)
      (sent a @ [Hello (currentHello a), HelloAck, Hello (currentHello a), Commit]) False False"
    using stage_commit[OF A(1) B(2) s3] by (simp add: a4_def hand at_stage_sent[OF t3])
  have t4: "at_stage b4 WaitDHPart2 (Some DHPart1) (sent b @ [Hello (currentHello b), HelloAck, DHPart1]) False False"
    using stage_respond[OF B(1) A(2) t3] by (simp add: b4_def hand at_stage_sent[OF s4])
  have s5: "at_stage a5 WaitConfirm1 (Some DHPart2)
      (sent a @ [Hello (currentHello a), HelloAck, Hello (currentHello a), Commit, DHPart2]) False False"
    using stage_dh_part1[OF A(1) B(2) s4] by (simp add: a5_def hand at_stage_sent[OF t4])
  have t5: "at_stage b5 WaitConfirm2 (Some Confirm1)
      (sent b @ [Hello (currentHello b), HelloAck, DHPart1, Confirm1]) False False"
    using stage_dh_part2[OF B(1) A(2) t4] by (simp add: b5_def hand at_stage_sent[OF s5])
  have s6: "at_stage a6 WaitConfAck (Some Confirm2)
      (sent a @ [Hello (currentHello a), HelloAck, Hello (currentHello a), Commit, DHPart2, Confirm2]) True False"
    using stage_confirm1[OF A(1) B(2) s5] by (simp add: a6_def hand at_stage_sent[OF t5])
  show t6: "at_stage b' SecureState (Some Conf2Ack)
      (sent b @ [Hello (currentHello b), HelloAck, DHPart1, Confirm1, Conf2Ack]) True True"
    unfolding fin using stage_confirm2[OF B(1) A(2) t5] by (simp add: b6_def hand at_stage_sent[OF s6])
  show "at_stage a' SecureState None
      (sent a @ [Hello (currentHello a), HelloAck, Hello (currentHello a), Commit, DHPart2, Confirm2]) True True"
    unfolding fin using stage_conf2_ack[OF A(1) B(2) s6] t6
    by (simp add: a7_def hand at_stage_sent fin)
qed

end
