(* ===== verification/Zrtp_Correct.thy ===== *)
theory Zrtp_Correct
  imports Zrtp_Protocol Zrtp_Exchange
begin

text \<open>
  The properties of the ZRTP engine, each with an application at a concrete run.
\<close>

section \<open>Concrete runs\<close>

text \<open>The history of a list of operations, the newest state first.\<close>

definition zrtp_history :: "zrtp_parent \<Rightarrow> engine_op list \<Rightarrow> engine \<Rightarrow> engine list" where
  "zrtp_history P ops s = fold (\<lambda>op ss. perform P op (hd ss) # ss) ops [s]"

lemma zrtp_history_path:
  assumes "engine_start s" "SasRelay \<notin> set ops"
  shows "zrtp_path P (zrtp_history P ops s)"
proof -
  have "zrtp_path P (fold (\<lambda>op ss. perform P op (hd ss) # ss) ops ss)" if "zrtp_path P ss" for ss
    using that assms(2)
  proof (induction ops arbitrary: ss)
    case (Cons op ops)
    obtain a as where ss: "ss = a # as" using Cons.prems(1) by (cases ss) auto
    have "op_ok op a" using Cons.prems(2) by (auto simp: op_ok_def)
    then have "zrtp_path P (perform P op a # a # as)" using Cons.prems(1) path_step unfolding ss by blast
    then show ?case using Cons.IH Cons.prems(2) by (simp add: ss)
  qed simp
  then show ?thesis unfolding zrtp_history_def using path_start[OF assms(1)] by blast
qed

definition willing :: zrtp_parent where
  "willing = \<lparr>p_sendData = \<lambda>cs m. True, p_activateTimer = \<lambda>cs tm. 1,
     p_prepareCommit = \<lambda>cs pkt. None, p_prepareDHPart1 = \<lambda>cs pkt. None, p_prepareDHPart2 = \<lambda>cs pkt. None,
     p_prepareConfirm1 = \<lambda>cs pkt. None, p_prepareConfirm1MultiStream = \<lambda>cs pkt. None,
     p_prepareConfirm2 = \<lambda>cs pkt. None, p_prepareConfirm2MultiStream = \<lambda>cs pkt. None,
     p_prepareConf2Ack = \<lambda>cs pkt. None, p_preparePingAck = \<lambda>cs pkt. True, p_verifyH2 = \<lambda>cs pkt. True,
     p_isLengthOk = \<lambda>b pkt. True, p_compareCommit = \<lambda>cs pkt. 0, p_srtpSecretsReady = \<lambda>cs part. True\<rparr>"

lemma cooperative_willing: "cooperative willing"
  by (simp add: cooperative_def willing_def)

definition short_wire :: "zrtp_message \<Rightarrow> u8 list" where
  "short_wire m = [0x50, 0x5a, 0, 3] @ map (\<lambda>c. of_nat (of_char c)) (message_type m) @ [49, 46, 50, 48]"

lemma wire_format_short: "wire_format short_wire"
  by (simp add: wire_format_def wire_packet_def short_wire_def length_message_type)

definition fresh :: engine where
  "fresh = ZrtpStateClass [11, 12] 1 None"

lemma engine_start_fresh: "engine_start fresh"
  unfolding engine_start_def fresh_def by (rule exI[of _ "[11, 12]"], rule exI[of _ 1], rule exI[of _ None]) simp

definition initiator_ops :: "engine_op list" where
  "initiator_ops = Start # map (\<lambda>m. Message (short_wire m) 28) [Hello 1, HelloAck, DHPart1, Confirm1, Conf2Ack]"

definition responder_ops :: "engine_op list" where
  "responder_ops = Start # map (\<lambda>m. Message (short_wire m) 28) [HelloAck, Hello 1, Commit, DHPart2, Confirm2]"

lemma runs_path:
  "zrtp_path P (zrtp_history P initiator_ops fresh)" "zrtp_path P (zrtp_history P responder_ops fresh)"
  by (auto intro!: zrtp_history_path engine_start_fresh simp: initiator_ops_def responder_ops_def)

lemma initiator_states:
  "map state (zrtp_history willing initiator_ops fresh) =
    [SecureState, WaitConfAck, WaitConfirm1, CommitSent, AckSent, Detect, Initial]"
  by code_simp

section \<open>Safety\<close>

lemma at_head: "zrtp_path P (s # ss) \<Longrightarrow> engine_ok s"
  using zrtp_path_engine_ok[of P "s # ss"] by simp

text \<open>
  C1. In every history of the engine: when it is in the secure state, SRTP is switched on in both directions,
  and while it waits for the last acknowledgement (as initiator) it is switched on for receiving.
\<close>
theorem zrtp_secure_means_srtp:
  assumes "zrtp_path P (s # ss)"
  shows "case state s of
      SecureState \<Rightarrow> srtp_on ForReceiver s \<and> srtp_on ForSender s
    | WaitConfAck \<Rightarrow> srtp_on ForReceiver s
    | _ \<Rightarrow> True"
  using at_head[OF assms] by (simp add: engine_ok_def secrets_ok_def)

theorem zrtp_secure_means_srtp_witness:
  "let h = zrtp_history willing initiator_ops fresh in
     state (hd h) = SecureState \<and> srtp_on ForReceiver (hd h) \<and> srtp_on ForSender (hd h)"
proof -
  let ?h = "zrtp_history willing initiator_ops fresh"
  have st: "state (hd ?h) = SecureState" by code_simp
  have "?h = hd ?h # tl ?h" using runs_path(1)[of willing] by (cases ?h) auto
  then show ?thesis
    using zrtp_secure_means_srtp[of willing "hd ?h" "tl ?h"] runs_path(1)[of willing] st by (simp add: Let_def)
qed

text \<open>
  C6. Without multi-stream mode the secure state is reached only through a Diffie-Hellman exchange: earlier in
  the history the engine was either in the responder's states \<open>WaitDHPart2\<close> and \<open>WaitConfirm2\<close>, or in the
  initiator's states \<open>CommitSent\<close>, \<open>WaitConfirm1\<close> and \<open>WaitConfAck\<close>.
\<close>
theorem zrtp_secure_after_dh:
  assumes "zrtp_path P (s # ss)" and "state s = SecureState" and "list_all (\<lambda>t. \<not> multiStream t) (s # ss)"
  shows "{WaitDHPart2, WaitConfirm2} \<subseteq> state ` set ss \<or>
    {CommitSent, WaitConfirm1, WaitConfAck} \<subseteq> state ` set ss"
proof -
  have "snd ` set (map mode_of ss) = state ` set ss" by (force simp: mode_of_def)
  then show ?thesis
    using proto_secure_behind[of "mode_of s" "map mode_of ss"] zrtp_path_simulated[OF assms(1)] assms(2,3)
    by (auto simp: list_all_iff mode_of_def)
qed

theorem zrtp_secure_after_dh_witness:
  "let h = zrtp_history willing responder_ops fresh in
     {WaitDHPart2, WaitConfirm2} \<subseteq> state ` set (tl h) \<or>
     {CommitSent, WaitConfirm1, WaitConfAck} \<subseteq> state ` set (tl h)"
proof -
  let ?h = "zrtp_history willing responder_ops fresh"
  have st: "state (hd ?h) = SecureState" by code_simp
  have ms: "list_all (\<lambda>t. \<not> multiStream t) ?h" by code_simp
  have "?h = hd ?h # tl ?h" using runs_path(2)[of willing] by (cases ?h) auto
  then show ?thesis
    using zrtp_secure_after_dh[of willing "hd ?h" "tl ?h"] runs_path(2)[of willing] st ms by (simp add: Let_def)
qed

text \<open>
  C4. The engine implements the abstract protocol: the history of modes and states of any run is a path of
  the relation \<open>proto_step\<close>, which lists the transitions of the protocol.
\<close>
theorem zrtp_refines_protocol:
  assumes "zrtp_path P ss"
  shows "proto_path (map mode_of ss)"
  using assms by (rule zrtp_path_simulated)

theorem zrtp_refines_protocol_witness:
  "proto_path (map mode_of (zrtp_history willing initiator_ops fresh)) \<and>
    map state (zrtp_history willing initiator_ops fresh) =
      [SecureState, WaitConfAck, WaitConfirm1, CommitSent, AckSent, Detect, Initial]"
  using zrtp_refines_protocol[OF runs_path(1)] initiator_states by blast



text \<open>
  C7. SRTP is switched on for sending by no other step than the one that enters the secure state, from
  \<open>WaitConfirm2\<close> or \<open>WaitConfAck\<close>: nothing is sent under the new keys before the peer has confirmed them.
\<close>
theorem zrtp_sender_only_when_secure:
  assumes "srtp_on ForSender (perform P op s)" and "\<not> srtp_on ForSender s"
  shows "state (perform P op s) = SecureState \<and> state s \<in> {WaitConfirm2, WaitConfAck}"
  using sender_quiet_perform[of s P op] assms by (simp add: sender_quiet_def)

theorem zrtp_sender_only_when_secure_witness:
  "let s = zrtp_history willing initiator_ops fresh ! 1 in
     state (perform willing (Message (short_wire Conf2Ack) 28) s) = SecureState"
proof -
  let ?s = "zrtp_history willing initiator_ops fresh ! 1"
  have on: "srtp_on ForSender (perform willing (Message (short_wire Conf2Ack) 28) ?s)" by code_simp
  have off: "\<not> srtp_on ForSender ?s" by code_simp
  show ?thesis using zrtp_sender_only_when_secure[OF on off] by (simp add: Let_def)
qed

section \<open>Progress\<close>

text \<open>
  C5. Two engines whose parents can do all they are asked, and of which the first announces the version that
  the other's Hello carries, complete the key exchange: when each is handed the messages that the other sends,
  both end in the secure state with SRTP on in both directions, and the messages sent are those of the
  protocol, in its order.
\<close>
theorem zrtp_exchange_secure:
  assumes "cooperative PA" "wire_format wa" "state a = Initial" "\<not> multiStream a"
    and "cooperative PB" "wire_format wb" "state b = Initial" "\<not> multiStream b"
    and "getVersionInt (wb (Hello (currentHello b))) = helloVersions a ! currentHello a"
  shows "case zrtp_exchange wa wb PA PB a b of (a', b') \<Rightarrow>
    state a' = SecureState \<and> srtp_on ForReceiver a' \<and> srtp_on ForSender a' \<and>
    state b' = SecureState \<and> srtp_on ForReceiver b' \<and> srtp_on ForSender b' \<and>
    sent a' = sent a @ [Hello (currentHello a), HelloAck, Hello (currentHello a), Commit, DHPart2, Confirm2] \<and>
    sent b' = sent b @ [Hello (currentHello b), HelloAck, DHPart1, Confirm1, Conf2Ack]"
proof -
  obtain a' b' where res: "zrtp_exchange wa wb PA PB a b = (a', b')" by (cases "zrtp_exchange wa wb PA PB a b")
  show ?thesis using exchange_stages[OF assms res] by (simp add: res at_stage_def)
qed

theorem zrtp_exchange_secure_witness:
  "state (fst (zrtp_exchange short_wire short_wire willing willing fresh fresh)) = SecureState \<and>
   sent (snd (zrtp_exchange short_wire short_wire willing willing fresh fresh)) =
     [Hello 1, HelloAck, DHPart1, Confirm1, Conf2Ack]"
proof -
  have f: "state fresh = Initial" "\<not> multiStream fresh" "currentHello fresh = 1" "sent fresh = []"
    by (simp_all add: fresh_def ZrtpStateClass_def sent_def)
  have v: "getVersionInt (short_wire (Hello (currentHello fresh))) = helloVersions fresh ! currentHello fresh"
    by code_simp
  show ?thesis
    using zrtp_exchange_secure[OF cooperative_willing wire_format_short f(1,2) cooperative_willing
        wire_format_short f(1,2) v] f(3,4)
    by (simp add: split_beta)
qed

text \<open>
  C9. The retransmissions of a Commit, a DHPart2, a Confirm2 or an Error end whatever the parent answers: once
  the timer has fired more often than the limit still allows, and nothing else has come in, the engine is back
  in \<open>Initial\<close>.
\<close>
theorem zrtp_retransmission_ends:
  assumes "state s \<in> {CommitSent, WaitConfirm1, WaitConfAck, WaitErrorAck}"
    and "0 < tm_maxResend (T2 s)" "tm_counter (T2 s) \<le> tm_maxResend (T2 s)"
    and "tm_maxResend (T2 s) < tm_counter (T2 s) + int n"
  shows "state ((processTimeout P ^^ n) s) = Initial"
  using assms by (intro timeouts_end)

theorem zrtp_retransmission_ends_witness:
  "let s = zrtp_history willing initiator_ops fresh ! 3 in
     state s = CommitSent \<and> state (processTimeout willing s) = CommitSent \<and>
     state ((processTimeout willing ^^ 11) s) = Initial"
proof -
  let ?s = "zrtp_history willing initiator_ops fresh ! 3"
  have s: "state ?s = CommitSent" "tm_maxResend (T2 ?s) = 10" "tm_counter (T2 ?s) = 0" by code_simp+
  have one: "state (processTimeout willing ?s) = CommitSent" by code_simp
  have "state ((processTimeout willing ^^ 11) ?s) = Initial"
    by (rule zrtp_retransmission_ends) (simp_all only: s, simp_all)
  then show ?thesis unfolding Let_def using s(1) one by (intro conjI)
qed

section \<open>Faults\<close>

text \<open>
  C16. One packet whose length does not fit ends an established session: the engine leaves the secure state
  (to report an error), and SRTP stays switched on in both directions, as no callback switches it off.
\<close>
theorem zrtp_malformed_ends_session:
  assumes "zrtp_path P (s # ss)" "state s = SecureState" "unat (totalLength pkt) \<noteq> len"
  shows "let t = processZrtpMessage P pkt len s in
    state t \<in> {WaitErrorAck, Initial} \<and> srtp_on ForReceiver t \<and> srtp_on ForSender t"
proof -
  have on: "srtp_on ForReceiver s" "srtp_on ForSender s"
    using at_head[OF assms(1)] assms(2) by (simp_all add: engine_ok_def secrets_ok_def)
  have "state (sendErrorPacket P MalformedPacket t) \<in> {WaitErrorAck, Initial}" for t
    unfolding sendErrorPacket_def engine_unfold by (simp add: sendFailed_def)
  then show ?thesis
    using assms(2,3) on
    by (simp add: processZrtpMessage_def processEvent_def packet_event_def Let_def srtp_on_call)
qed

theorem zrtp_malformed_ends_session_witness:
  "let t = processZrtpMessage willing (short_wire Conf2Ack) 27 (hd (zrtp_history willing initiator_ops fresh)) in
     state t \<in> {WaitErrorAck, Initial} \<and> srtp_on ForReceiver t \<and> srtp_on ForSender t"
proof -
  let ?h = "zrtp_history willing initiator_ops fresh"
  have "state (hd ?h) = SecureState" "unat (totalLength (short_wire Conf2Ack)) \<noteq> 27" by code_simp+
  moreover have "?h = hd ?h # tl ?h" using runs_path(1)[of willing] by (cases ?h) auto
  then have "zrtp_path willing (hd ?h # tl ?h)" using runs_path(1)[of willing] by simp
  ultimately show ?thesis using zrtp_malformed_ends_session by blast
qed

text \<open>
  C17. A DHPart1 that the parent tells the engine to ignore (its hash does not match) is not ignored: the stored
  Commit is gone, and although the repetition timer is set again, its next expiry finds nothing to send and
  ends the negotiation.
\<close>
theorem zrtp_ignored_dhpart1_aborts:
  assumes "state s = CommitSent" "is_DHPart1 pkt" "unat (totalLength pkt) = len"
    and "\<And>cs. p_prepareDHPart2 P cs pkt = Some IgnorePacket"
    and "\<And>cs tm. 0 < p_activateTimer P cs tm"
  shows "let t = processZrtpMessage P pkt len s in
    state t = CommitSent \<and> sentPacket t = None \<and> state (processTimeout P t) = Initial"
proof -
  let ?t = "processZrtpMessage P pkt len s"
  have c: "msg_char pkt 0 = CHR ''d''" using assms(2) by (simp add: is_DHPart1_def)
  have rc: "\<not> fst (startTimer P w u) \<le> 0" for w u
    using assms(5) by (simp add: startTimer_def activateTimer_def Let_def not_le)
  have t: "state ?t = CommitSent \<and> sentPacket ?t = None"
    using assms c rc
    by (simp add: processZrtpMessage_def processEvent_def packet_event_def engine_unfold is_Error_def is_Ping_def
        is_SASrelay_def engine_event_def handler_def evCommitSent_def is_late_Hello_def is_Commit_def
        commit_DHPart1_def)
  then have "state (processTimeout P ?t) = Initial"
    by (simp add: timeout_handler engine_event_def handler_def evCommitSent_def plain_event_def resend_def
        sendPacketZRTP_def sendFailed_def Let_def)
  then show ?thesis using t by (simp add: Let_def)
qed

theorem zrtp_ignored_dhpart1_aborts_witness:
  "let P = willing\<lparr>p_prepareDHPart2 := \<lambda>cs pkt. Some IgnorePacket\<rparr>;
       t = processZrtpMessage P (short_wire DHPart1) 28 (zrtp_history willing (take 3 initiator_ops) fresh ! 0)
   in state t = CommitSent \<and> state (processTimeout P t) = Initial"
proof -
  let ?P = "willing\<lparr>p_prepareDHPart2 := \<lambda>cs pkt. Some IgnorePacket\<rparr>"
  let ?s = "zrtp_history willing (take 3 initiator_ops) fresh ! 0"
  have s: "state ?s = CommitSent" "is_DHPart1 (short_wire DHPart1)" "unat (totalLength (short_wire DHPart1)) = 28"
    by code_simp+
  have P: "p_prepareDHPart2 ?P cs pkt = Some IgnorePacket" "0 < p_activateTimer ?P cs tm" for cs pkt tm
    by (simp_all add: willing_def)
  note res = zrtp_ignored_dhpart1_aborts[OF s P, unfolded Let_def]
  show ?thesis unfolding Let_def by (rule conjI[OF res[THEN conjunct1] res[THEN conjunct2, THEN conjunct2]])
qed

section \<open>The version\<close>

lemma hello_down_greatest:
  "sorted_wrt (<) vs \<Longrightarrow> i < length vs \<Longrightarrow>
    (case hello_down vs v i of
       None \<Rightarrow> \<forall>k \<le> i. v < vs ! k
     | Some j \<Rightarrow> j \<le> i \<and> vs ! j \<le> v \<and> (\<forall>k \<le> i. j < k \<longrightarrow> v < vs ! k))"
  by (induction i) (auto split: option.splits if_splits simp: le_Suc_eq)

text \<open>
  C15. A Hello of a lower version than the announced one: with the prepared versions in ascending order, the
  engine goes down to the greatest prepared version that is not above the peer's, and announces it; if there is
  none it reports an unsupported version.
\<close>
theorem zrtp_version_negotiation:
  assumes "sorted_wrt (<) (helloVersions s)" "currentHello s < length (helloVersions s)"
    and "state s = Detect" "ev_type ev = ZrtpPacket" "is_Hello (ev_packet ev)"
    and "getVersionInt (ev_packet ev) < sentVersion s" "cooperative P"
    and "t = evDetect P ev s"
  shows "(\<exists>j \<le> currentHello s. state t = Detect \<and> currentHello t = j \<and> sentVersion t = helloVersions s ! j \<and>
            sentPacket t = Some (Hello j) \<and> helloVersions s ! j \<le> getVersionInt (ev_packet ev) \<and>
            (\<forall>k \<le> currentHello s. j < k \<longrightarrow> getVersionInt (ev_packet ev) < helloVersions s ! k)) \<or>
         state t = WaitErrorAck \<and> sentPacket t = Some (ErrorMsg UnsuppZRTPVersion) \<and>
            (\<forall>k \<le> currentHello s. getVersionInt (ev_packet ev) < helloVersions s ! k)"
proof -
  let ?v = "getVersionInt (ev_packet ev)"
  have ack: "\<not> is_HelloAck (ev_packet ev)" using assms(5) by (auto simp: is_Hello_def is_HelloAck_def)
  have t: "t = negotiate_version P ?v (cancelTimer s)"
    unfolding assms(8) evDetect_def using assms(4-6) ack by (simp add: Let_def)
  have find: "hello_find (length (helloVersions s)) (currentHello s) 0 = currentHello s"
    using assms(2) by (simp add: hello_find_le)
  note down = hello_down_greatest[OF assms(1,2), of ?v]
  show ?thesis
  proof (cases "hello_down (helloVersions s) ?v (currentHello s)")
    case None
    then have "t = sendErrorPacket P UnsuppZRTPVersion (cancelTimer s)"
      by (simp add: t negotiate_version_def find)
    then show ?thesis
      using None down assms(7) by (simp add: sendErrorPacket_def engine_unfold coop_simps)
  next
    case (Some j)
    then show ?thesis
      using down assms(3,7)
      by (simp add: t negotiate_version_def find send_and_start_def engine_unfold coop_simps)
  qed
qed

theorem zrtp_version_negotiation_witness:
  "let s = hd (zrtp_history willing [Start] (ZrtpStateClass [11, 12] 1 None));
       ev = packet_event (short_wire (Hello 0) @ [0]) 0;
       ev' = ev\<lparr>ev_packet := (ev_packet ev)[14 := 49]\<rparr>
   in sentVersion s = 12 \<and> getVersionInt (ev_packet ev') = 11 \<and> sentVersion (evDetect willing ev' s) = 11"
proof -
  define s where "s = hd (zrtp_history willing [Start] (ZrtpStateClass [11, 12] 1 None))"
  define ev where "ev = (packet_event (short_wire (Hello 0) @ [0]) 0)
    \<lparr>ev_packet := (ev_packet (packet_event (short_wire (Hello 0) @ [0]) 0))[14 := 49]\<rparr>"
  have s: "helloVersions s = [11, 12]" "currentHello s = 1" "state s = Detect" "sentVersion s = 12"
    unfolding s_def by code_simp+
  have ev: "ev_type ev = ZrtpPacket" "is_Hello (ev_packet ev)" "getVersionInt (ev_packet ev) = 11"
    unfolding ev_def by code_simp+
  have "sorted_wrt (<) (helloVersions s)" "currentHello s < length (helloVersions s)"
    "getVersionInt (ev_packet ev) < sentVersion s" using s ev by simp_all
  from zrtp_version_negotiation[OF this(1,2) s(3) ev(1,2) this(3) cooperative_willing refl]
  have "sentVersion (evDetect willing ev s) = 11"
    using s ev by (auto simp: le_Suc_eq)
  then show ?thesis using s(4) ev(3) by (simp add: s_def ev_def Let_def)
qed

end
