(* ===== verification/Srtp_Cipher.thy ===== *)
theory Srtp_Cipher
  imports Prelude
begin

unbundle bit_operations_syntax

text \<open>
  The cipher modes of SRTP (\<open>srtp/crypto/SrtpSymCrypto.cpp\<close>): counter mode and F8 mode over a block
  cipher.  The block ciphers (AES and Twofish) are the parameter \<open>E\<close>, a function of the algorithm, the key
  and a block of 16 bytes.
\<close>

section \<open>The cipher object\<close>

abbreviation (input) "SrtpEncryptionNull \<equiv> 0 :: nat"
abbreviation (input) "SrtpEncryptionAESCM \<equiv> 1 :: nat"
abbreviation (input) "SrtpEncryptionAESF8 \<equiv> 2 :: nat"
abbreviation (input) "SrtpEncryptionTWOCM \<equiv> 3 :: nat"
abbreviation (input) "SrtpEncryptionTWOF8 \<equiv> 4 :: nat"

type_synonym block_cipher = "nat \<Rightarrow> u8 list \<Rightarrow> u8 list \<Rightarrow> u8 list"

record sym_crypto =
  algorithm :: nat
  skey :: "u8 list option"

definition SrtpSymCrypto :: "nat \<Rightarrow> sym_crypto" where
  "SrtpSymCrypto algo = \<lparr>algorithm = algo, skey = None\<rparr>"

text \<open>A key of 16 or 32 bytes for a known algorithm; any other key leaves the object without one.\<close>

definition setNewKey :: "u8 list \<Rightarrow> sym_crypto \<Rightarrow> bool \<times> sym_crypto" where
  "setNewKey k c =
    (let c = c\<lparr>skey := None\<rparr> in
     if \<not> (length k = 16 \<or> length k = 32) then (False, c)
     else if algorithm c \<in> {SrtpEncryptionAESCM, SrtpEncryptionAESF8, SrtpEncryptionTWOCM, SrtpEncryptionTWOF8}
     then (True, c\<lparr>skey := Some k\<rparr>)
     else (False, c))"

text \<open>A block function fills a buffer of 16 bytes.\<close>

definition fit :: "u8 list \<Rightarrow> u8 list" where
  "fit b = take 16 (b @ replicate 16 0)"

definition block_of :: "block_cipher \<Rightarrow> nat \<Rightarrow> u8 list \<Rightarrow> u8 list \<Rightarrow> u8 list" where
  "block_of E algo k b = fit (E algo k b)"

text \<open>Encrypting without a key dereferences a null pointer in the code (\<open>None\<close>).\<close>

definition sym_encrypt :: "block_cipher \<Rightarrow> sym_crypto \<Rightarrow> u8 list \<Rightarrow> u8 list option" where
  "sym_encrypt E c input = map_option (\<lambda>k. block_of E (algorithm c) k input) (skey c)"

section \<open>Counter mode\<close>

definition set_ctr :: "u8 list \<Rightarrow> u16 \<Rightarrow> u8 list" where
  "set_ctr iv ctr = iv[14 := ucast (drop_bit 8 (ctr AND 0xFF00)), 15 := ucast (ctr AND 0xFF)]"

text \<open>The loops over whole blocks: the counter is a 16-bit variable, so that it wraps after 65536 blocks.\<close>

primrec ctr_blocks :: "(u8 list \<Rightarrow> u8 list) \<Rightarrow> nat \<Rightarrow> u16 \<Rightarrow> u8 list \<Rightarrow> u8 list \<Rightarrow> u8 list \<times> u16 \<times> u8 list" where
  "ctr_blocks enc 0 ctr iv data = ([], ctr, iv)"
| "ctr_blocks enc (Suc n) ctr iv data =
    (let iv = set_ctr iv ctr;
         out = map2 (XOR) (enc iv) (take 16 data);
         (outs, ctr, iv) = ctr_blocks enc n (ctr + 1) iv (drop 16 data)
     in (out @ outs, ctr, iv))"

definition ctr_transform :: "(u8 list \<Rightarrow> u8 list) \<Rightarrow> u8 list \<Rightarrow> u8 list \<Rightarrow> u8 list" where
  "ctr_transform enc iv data =
    (let l = length data div 16;
         (out, ctr, iv) = ctr_blocks enc l 0 iv data;
         r = length data mod 16
     in if r > 0 then out @ map2 (XOR) (enc (set_ctr iv ctr)) (drop (16 * l) data) else out)"

text \<open>Both forms of \<open>ctr_encrypt\<close>: the data is unchanged when there is no key.  From 65536 blocks on the
  loop condition compares the 16-bit counter with a larger number and holds for ever (\<open>None\<close>).\<close>

definition ctr_encrypt :: "block_cipher \<Rightarrow> sym_crypto \<Rightarrow> u8 list \<Rightarrow> u8 list \<Rightarrow> u8 list option" where
  "ctr_encrypt E c data iv =
    (case skey c of
       None \<Rightarrow> Some data
     | Some k \<Rightarrow>
         if 65536 \<le> length data div 16 then None
         else Some (ctr_transform (block_of E (algorithm c) k) iv data))"

text \<open>The key stream itself, for key derivation; without a key the cipher is called all the same.\<close>

primrec stream_blocks :: "(u8 list \<Rightarrow> u8 list) \<Rightarrow> nat \<Rightarrow> u16 \<Rightarrow> u8 list \<Rightarrow> u8 list \<times> u16 \<times> u8 list" where
  "stream_blocks enc 0 ctr iv = ([], ctr, iv)"
| "stream_blocks enc (Suc n) ctr iv =
    (let iv = set_ctr iv ctr;
         (outs, ctr', iv') = stream_blocks enc n (ctr + 1) iv
     in (enc iv @ outs, ctr', iv'))"

definition get_ctr_cipher_stream :: "block_cipher \<Rightarrow> sym_crypto \<Rightarrow> nat \<Rightarrow> u8 list \<Rightarrow> u8 list option" where
  "get_ctr_cipher_stream E c len iv =
    (if len = 0 then Some []
     else
       (case skey c of
          None \<Rightarrow> None
        | Some k \<Rightarrow>
            if 65536 \<le> len div 16 then None
            else
              (let enc = block_of E (algorithm c) k;
                   (out, ctr, iv) = stream_blocks enc (len div 16) 0 iv
               in Some (if len mod 16 > 0 then out @ take (len mod 16) (enc (set_ctr iv ctr)) else out))))"

section \<open>F8 mode\<close>

record f8_ctx =
  f8_S :: "u8 list"
  f8_ivAccent :: "u8 list"
  f8_J :: u32

text \<open>The key for the second cipher: masked with the salt and 0x55.\<close>

definition f8_deriveForIV :: "u8 list \<Rightarrow> u8 list \<Rightarrow> sym_crypto \<Rightarrow> sym_crypto" where
  "f8_deriveForIV k salt f8Cipher =
    (if length k > 32 then f8Cipher
     else if length salt > length k then f8Cipher
     else
       (let saltMask = salt @ replicate (length k - length salt) 0x55
        in snd (setNewKey (map2 (XOR) k saltMask) f8Cipher)))"

definition processBlock :: "(u8 list \<Rightarrow> u8 list) \<Rightarrow> f8_ctx \<Rightarrow> u8 list \<Rightarrow> u8 list \<times> f8_ctx" where
  "processBlock enc f inp =
    (let S = map2 (XOR) (f8_S f) (f8_ivAccent f);
         S = take 12 S @ map2 (XOR) (drop 12 S) (be_bytes (f8_J f));
         S = enc S
     in (map2 (XOR) inp S, f\<lparr>f8_S := S, f8_J := f8_J f + 1\<rparr>))"

function f8_loop :: "(u8 list \<Rightarrow> u8 list) \<Rightarrow> f8_ctx \<Rightarrow> u8 list \<Rightarrow> u8 list" where
  "f8_loop enc f inp =
    (if length inp \<ge> 16 then
       (let (out, f) = processBlock enc f (take 16 inp) in out @ f8_loop enc f (drop 16 inp))
     else if length inp > 0 then fst (processBlock enc f inp)
     else [])"
  by pat_completeness auto
termination by (relation "measure (\<lambda>(enc, f, inp). length inp)") auto

declare f8_loop.simps [simp del]

definition f8_encrypt :: "block_cipher \<Rightarrow> sym_crypto \<Rightarrow> u8 list \<Rightarrow> u8 list \<Rightarrow> sym_crypto \<Rightarrow> u8 list option" where
  "f8_encrypt E c data iv f8Cipher =
    (case skey c of
       None \<Rightarrow> Some data
     | Some k \<Rightarrow>
         map_option
           (\<lambda>iv'. f8_loop (block_of E (algorithm c) k) \<lparr>f8_S = replicate 16 0, f8_ivAccent = iv', f8_J = 0\<rparr> data)
           (sym_encrypt E f8Cipher iv))"

section \<open>Specifications\<close>

text \<open>Counter mode: every byte is combined with the key stream byte of its place.\<close>

definition ctr_block :: "u8 list \<Rightarrow> nat \<Rightarrow> u8 list" where
  "ctr_block iv j = set_ctr iv (of_nat j)"

definition ctr_keystream :: "(u8 list \<Rightarrow> u8 list) \<Rightarrow> u8 list \<Rightarrow> nat \<Rightarrow> u8" where
  "ctr_keystream enc iv i = enc (ctr_block iv (i div 16)) ! (i mod 16)"

text \<open>F8 mode: the key stream block depends on the one before it, IV' and its number.\<close>

primrec f8_keyblock :: "(u8 list \<Rightarrow> u8 list) \<Rightarrow> u8 list \<Rightarrow> nat \<Rightarrow> u8 list" where
  "f8_keyblock enc iv' 0 = enc iv'"
| "f8_keyblock enc iv' (Suc j) =
    enc (map2 (XOR) (map2 (XOR) (f8_keyblock enc iv' j) iv') (replicate 12 0 @ be_bytes (of_nat (Suc j) :: u32)))"

definition f8_keystream :: "(u8 list \<Rightarrow> u8 list) \<Rightarrow> u8 list \<Rightarrow> nat \<Rightarrow> u8" where
  "f8_keystream enc iv' i = f8_keyblock enc iv' (i div 16) ! (i mod 16)"

section \<open>Stream ciphers\<close>

text \<open>A cipher that combines every byte with a key stream byte of its place.\<close>

locale keystream_cipher =
  fixes crypt :: "u8 list \<Rightarrow> u8 list" and ks :: "nat \<Rightarrow> u8"
  assumes crypt_length: "length (crypt data) = length data"
    and crypt_nth: "i < length data \<Longrightarrow> crypt data ! i = data ! i XOR ks i"
begin

lemma crypt_twice: "crypt (crypt data) = data"
  by (rule nth_equalityI) (simp_all add: crypt_length crypt_nth xor.assoc)

lemma crypt_prefix: "crypt (take n data) = take n (crypt data)"
  by (rule nth_equalityI) (simp_all add: crypt_length crypt_nth)

lemma crypt_inj: "crypt a = crypt b \<Longrightarrow> a = b"
  using crypt_twice by metis

text \<open>Two messages under the same key stream reveal their difference.\<close>

lemma crypt_difference:
  "i < length a \<Longrightarrow> i < length b \<Longrightarrow> crypt a ! i XOR crypt b ! i = a ! i XOR b ! i"
  by (rule bit_word_eqI) (auto simp: crypt_nth bit_xor_iff)

end

lemma length_fit [simp]: "length (fit b) = 16"
  by (simp add: fit_def)

lemma length_block_of [simp]: "length (block_of E a k b) = 16"
  by (simp add: block_of_def)

lemma set_ctr_twice [simp]: "set_ctr (set_ctr iv a) b = set_ctr iv b"
  by (simp add: set_ctr_def list_update_swap[of 14 15])

lemma length_set_ctr [simp]: "length (set_ctr iv c) = length iv"
  by (simp add: set_ctr_def)

lemma ctr_blocks_spec:
  assumes "\<And>b. length (enc b) = 16" "16 * n \<le> length data" "ctr_blocks enc n c iv data = (out, c', iv')"
  shows "length out = 16 * n \<and> c' = c + of_nat n \<and> (\<forall>x. set_ctr iv' x = set_ctr iv x) \<and>
    (\<forall>i < 16 * n. out ! i = data ! i XOR enc (set_ctr iv (c + of_nat (i div 16))) ! (i mod 16))"
  using assms(2,3)
proof (induction n arbitrary: c iv data out c' iv')
  case (Suc n)
  let ?iv = "set_ctr iv c"
  obtain outs d jv where rec: "ctr_blocks enc n (c + 1) ?iv (drop 16 data) = (outs, d, jv)"
    by (metis prod_cases3)
  have out: "out = map2 (XOR) (enc ?iv) (take 16 data) @ outs" "c' = d" "iv' = jv"
    using Suc.prems(2) rec by (simp_all add: Let_def)
  have ih: "length outs = 16 * n" "d = (c + 1) + of_nat n" "\<forall>x. set_ctr jv x = set_ctr iv x"
    "\<forall>i < 16 * n. outs ! i = drop 16 data ! i XOR enc (set_ctr iv ((c + 1) + of_nat (i div 16))) ! (i mod 16)"
    using Suc.IH[OF _ rec] Suc.prems(1) by auto
  have "out ! i = data ! i XOR enc (set_ctr iv (c + of_nat (i div 16))) ! (i mod 16)" if i: "i < 16 * Suc n" for i
  proof (cases "i < 16")
    case True
    then show ?thesis using Suc.prems(1) assms(1) by (simp add: out(1) nth_append xor.commute)
  next
    case False
    then have "i div 16 = Suc ((i - 16) div 16)" "i mod 16 = (i - 16) mod 16"
      by (simp_all add: le_div_geq le_mod_geq)
    then show ?thesis
      using False i ih(4) Suc.prems(1) assms(1) by (simp add: out(1) nth_append algebra_simps)
  qed
  then show ?case using ih Suc.prems(1) assms(1) by (simp add: out)
qed simp

lemma ctr_transform_spec:
  assumes enc: "\<And>b. length (enc b) = 16"
  shows "length (ctr_transform enc iv data) = length data"
    and "i < length data \<Longrightarrow> ctr_transform enc iv data ! i = data ! i XOR ctr_keystream enc iv i"
proof -
  let ?l = "length data div 16" and ?r = "length data mod 16"
  obtain out c jv where b: "ctr_blocks enc ?l 0 iv data = (out, c, jv)" by (metis prod_cases3)
  have s: "length out = 16 * ?l" "c = of_nat ?l" "\<And>x. set_ctr jv x = set_ctr iv x"
    "\<And>i. i < 16 * ?l \<Longrightarrow> out ! i = data ! i XOR enc (set_ctr iv (of_nat (i div 16))) ! (i mod 16)"
    using ctr_blocks_spec[OF enc _ b] by auto
  have len: "length data = 16 * ?l + ?r" by simp
  have eq: "ctr_transform enc iv data =
      (if ?r > 0 then out @ map2 (XOR) (enc (set_ctr iv (of_nat ?l))) (drop (16 * ?l) data) else out)"
    using b s(2,3) by (simp add: ctr_transform_def Let_def)
  have rest: "length (drop (16 * ?l) data) = ?r" by (simp add: minus_mult_div_eq_mod)
  have r16: "?r < 16" by simp
  show "length (ctr_transform enc iv data) = length data"
  proof (cases "?r = 0")
    case True
    then have "16 * ?l = length data" using len by linarith
    then show ?thesis unfolding eq using s(1) True by simp
  next
    case False
    then show ?thesis unfolding eq using s(1) enc rest r16 len by simp
  qed
  show "ctr_transform enc iv data ! i = data ! i XOR ctr_keystream enc iv i" if i: "i < length data"
  proof (cases "i < 16 * ?l")
    case True
    then show ?thesis unfolding eq using s(1,4) by (simp add: nth_append ctr_keystream_def ctr_block_def)
  next
    case False
    have "?l \<le> i div 16" using False by (simp add: less_eq_div_iff_mult_less_eq)
    moreover have "i div 16 \<le> ?l" using i by (intro div_le_mono) simp
    ultimately have l: "i div 16 = ?l" by simp
    have m: "16 * ?l + i mod 16 = i" unfolding l[symmetric] by simp
    have "16 * ?l + i mod 16 < 16 * ?l + ?r" by (subst m, subst mult_div_mod_eq, rule i)
    then have r: "i mod 16 < ?r" by (simp only: add_less_cancel_left)
    have s': "i - 16 * ?l = i mod 16" unfolding l[symmetric] by (rule minus_mult_div_eq_mod)
    note d = l s' r
    have "drop (16 * ?l) data ! (i mod 16) = data ! i"
      by (subst nth_drop, simp, simp only: m)
    then show ?thesis
      unfolding eq using s(1) False d enc rest
      by (simp add: nth_append ctr_keystream_def ctr_block_def xor.commute)
  qed
qed

interpretation ctr: keystream_cipher "ctr_transform (block_of E a k) iv" "ctr_keystream (block_of E a k) iv"
  for E a k iv
  by unfold_locales (simp_all add: ctr_transform_spec)

text \<open>The state of the F8 loop before block \<open>j\<close>.\<close>

definition f8_ready :: "(u8 list \<Rightarrow> u8 list) \<Rightarrow> u8 list \<Rightarrow> nat \<Rightarrow> f8_ctx \<Rightarrow> bool" where
  "f8_ready enc iv' j f \<longleftrightarrow>
    f8_S f = (case j of 0 \<Rightarrow> replicate 16 0 | Suc k \<Rightarrow> f8_keyblock enc iv' k) \<and>
    f8_ivAccent f = iv' \<and> f8_J f = of_nat j"

lemma length_f8_keyblock: "(\<And>b. length (enc b) = 16) \<Longrightarrow> length (f8_keyblock enc iv' j) = 16"
  by (cases j) simp_all

lemma xor_tail:
  fixes A :: "u8 list"
  assumes "length A = 16" "length b = 4"
  shows "take 12 A @ map2 (XOR) (drop 12 A) b = map2 (XOR) A (replicate 12 0 @ b)"
  using assms by (intro nth_equalityI) (auto simp: nth_append)

lemma map2_xor_zero: "length b = n \<Longrightarrow> map2 (XOR) (replicate n 0) b = (b :: u8 list)"
  by (intro nth_equalityI) auto

lemma map2_xor_zero_right: "length b = n \<Longrightarrow> map2 (XOR) b (replicate n 0) = (b :: u8 list)"
  by (intro nth_equalityI) auto

lemma be_bytes_0: "be_bytes (0 :: u32) = replicate 4 0"
  by (rule nth_equalityI) (auto simp: be_bytes_nth)

lemma processBlock_ready:
  assumes enc: "\<And>b. length (enc b) = 16" and iv: "length iv' = 16" and f: "f8_ready enc iv' j f"
  shows "fst (processBlock enc f inp) = map2 (XOR) inp (f8_keyblock enc iv' j)"
    and "f8_ready enc iv' (Suc j) (snd (processBlock enc f inp))"
proof -
  let ?A = "map2 (XOR) (f8_S f) (f8_ivAccent f)"
  have A: "length ?A = 16" using f iv length_f8_keyblock[of enc] enc by (cases j) (auto simp: f8_ready_def)
  have S: "enc (take 12 ?A @ map2 (XOR) (drop 12 ?A) (be_bytes (f8_J f))) = f8_keyblock enc iv' j"
  proof (cases j)
    case 0
    then have "?A = iv'" "f8_J f = 0" using f iv by (simp_all add: f8_ready_def map2_xor_zero)
    then show ?thesis
      using 0 iv A map2_xor_zero_right[OF iv] by (simp add: xor_tail be_bytes_0 flip: replicate_add)
  next
    case (Suc k)
    then show ?thesis using f A by (simp add: xor_tail) (simp add: f8_ready_def)
  qed
  show "fst (processBlock enc f inp) = map2 (XOR) inp (f8_keyblock enc iv' j)"
    using S by (simp add: processBlock_def Let_def)
  show "f8_ready enc iv' (Suc j) (snd (processBlock enc f inp))"
    using S f by (simp add: processBlock_def Let_def f8_ready_def add.commute)
qed

lemma f8_loop_spec:
  assumes enc: "\<And>b. length (enc b) = 16" and iv: "length iv' = 16" and f: "f8_ready enc iv' j f"
  shows "length (f8_loop enc f inp) = length inp \<and>
    (\<forall>i < length inp. f8_loop enc f inp ! i = inp ! i XOR f8_keyblock enc iv' (j + i div 16) ! (i mod 16))"
  using f
proof (induction "length inp" arbitrary: f j inp rule: less_induct)
  case less
  note pb = processBlock_ready[OF enc iv less.prems]
  have key: "length (f8_keyblock enc iv' j) = 16" using length_f8_keyblock[of enc] enc by simp
  show ?case
  proof (cases "16 \<le> length inp")
    case True
    let ?f = "snd (processBlock enc f (take 16 inp))"
    have step: "f8_loop enc f inp = map2 (XOR) (take 16 inp) (f8_keyblock enc iv' j) @ f8_loop enc ?f (drop 16 inp)"
      using True pb(1) by (subst f8_loop.simps) (simp add: split_beta)
    have ih: "length (f8_loop enc ?f (drop 16 inp)) = length inp - 16"
      "\<And>i. i < length inp - 16 \<Longrightarrow> f8_loop enc ?f (drop 16 inp) ! i =
        drop 16 inp ! i XOR f8_keyblock enc iv' (Suc j + i div 16) ! (i mod 16)"
      using less.hyps[OF _ pb(2), of "drop 16 inp" "take 16 inp"] True by auto
    have "f8_loop enc f inp ! i = inp ! i XOR f8_keyblock enc iv' (j + i div 16) ! (i mod 16)" if i: "i < length inp" for i
    proof (cases "i < 16")
      case True
      then show ?thesis using key i by (simp add: step nth_append)
    next
      case False
      then have "i div 16 = Suc ((i - 16) div 16)" "i mod 16 = (i - 16) mod 16"
        by (simp_all add: le_div_geq le_mod_geq)
      then show ?thesis using False i ih(2)[of "i - 16"] key \<open>16 \<le> length inp\<close> by (simp add: step nth_append)
    qed
    then show ?thesis using True key ih(1) by (simp add: step)
  next
    case False
    then show ?thesis using pb(1) key by (subst (1 2) f8_loop.simps) auto
  qed
qed

text \<open>F8 with the derived vector IV'.\<close>

definition f8_transform :: "(u8 list \<Rightarrow> u8 list) \<Rightarrow> u8 list \<Rightarrow> u8 list \<Rightarrow> u8 list" where
  "f8_transform enc iv' data = f8_loop enc \<lparr>f8_S = replicate 16 0, f8_ivAccent = iv', f8_J = 0\<rparr> data"

interpretation f8: keystream_cipher "f8_transform (block_of E a k) (fit iv')" "f8_keystream (block_of E a k) (fit iv')"
  for E a k iv'
proof (unfold_locales, goal_cases)
  case (1 data)
  then show ?case
    using f8_loop_spec[of "block_of E a k" "fit iv'" 0] by (simp add: f8_transform_def f8_ready_def)
next
  case (2 i data)
  then show ?case
    using f8_loop_spec[of "block_of E a k" "fit iv'" 0]
    by (simp add: f8_transform_def f8_ready_def f8_keystream_def)
qed

end
