(* ===== verification/Hmac.thy ===== *)
theory Hmac
  imports Sha1
begin

text \<open>
  HMAC-SHA1 (\<open>srtp/crypto/hmac.cpp\<close>): the context keeps the states of the inner and the outer hash after
  the padded key, and a third state to work in.  Shown: every form computes the HMAC of RFC 2104, and a
  context used for one message after another computes the HMAC of each.
\<close>

section \<open>The code\<close>

text \<open>The union of the three hash contexts as \<open>memset\<close> leaves it.\<close>

record hmacSha1Context =
  ctx :: sha1_ctx
  innerCtx :: sha1_ctx
  outerCtx :: sha1_ctx

definition zero_sha1 :: sha1_ctx where
  "zero_sha1 = \<lparr>cnt_lo = 0, cnt_hi = 0, hash = replicate 5 0, wbuf = replicate 16 0\<rparr>"

definition zero_hmac :: hmacSha1Context where
  "zero_hmac = \<lparr>ctx = zero_sha1, innerCtx = zero_sha1, outerCtx = zero_sha1\<rparr>"

text \<open>The key in a block of 64 bytes, hashed first when it is longer.  \<open>key\<close> is \<open>None\<close> for a null pointer,
  for which nothing happens.\<close>

definition hmac_localKey :: "u8 list \<Rightarrow> u8 list \<times> sha1_ctx" where
  "hmac_localKey key =
    (if length key > 64 then
       (let (d, c) = sha1_end (sha1_hash key (sha1_begin zero_sha1)) in (d @ replicate (64 - 20) 0, c))
     else (key @ replicate (64 - length key) 0, zero_sha1))"

definition hmacSha1Init :: "u8 list option \<Rightarrow> hmacSha1Context \<Rightarrow> hmacSha1Context" where
  "hmacSha1Init key c =
    (case key of
       None \<Rightarrow> c
     | Some k \<Rightarrow>
         (let (localKey, _) = hmac_localKey k;
              inner = sha1_hash (map (\<lambda>b. b XOR 0x36) localKey) (sha1_begin zero_sha1);
              outer = sha1_hash (map (\<lambda>b. b XOR 0x5c) localKey) (sha1_begin zero_sha1)
          in \<lparr>ctx = inner, innerCtx = inner, outerCtx = outer\<rparr>))"

definition hmacSha1Reset :: "hmacSha1Context \<Rightarrow> hmacSha1Context" where
  "hmacSha1Reset c = c\<lparr>ctx := innerCtx c\<rparr>"

definition hmacSha1Update :: "u8 list \<Rightarrow> hmacSha1Context \<Rightarrow> hmacSha1Context" where
  "hmacSha1Update data c = c\<lparr>ctx := sha1_hash data (ctx c)\<rparr>"

definition hmacSha1Final :: "hmacSha1Context \<Rightarrow> u8 list \<times> hmacSha1Context" where
  "hmacSha1Final c =
    (let (tmpDigest, _) = sha1_end (ctx c);
         (mac, w) = sha1_end (sha1_hash tmpDigest (outerCtx c))
     in (mac, c\<lparr>ctx := w\<rparr>))"

text \<open>The one-call forms, and those over a context; the data is one piece or a list of pieces.  The second
  result is the length that is reported, which is the block size where the MAC has 20 bytes.\<close>

definition hmac_sha1 :: "u8 list \<Rightarrow> u8 list \<Rightarrow> u8 list \<times> nat" where
  "hmac_sha1 key data =
    (let c = hmacSha1Init (Some key) zero_hmac;
         (mac, _) = hmacSha1Final (hmacSha1Update data c)
     in (mac, 64))"

definition hmac_sha1_chunks :: "u8 list \<Rightarrow> u8 list list \<Rightarrow> u8 list \<times> nat" where
  "hmac_sha1_chunks key dataChunks =
    (let c = hmacSha1Init (Some key) zero_hmac;
         (mac, _) = hmacSha1Final (foldl (\<lambda>c d. hmacSha1Update d c) c dataChunks)
     in (mac, 64))"

definition hmacSha1Ctx :: "u8 list \<Rightarrow> hmacSha1Context \<Rightarrow> (u8 list \<times> nat) \<times> hmacSha1Context" where
  "hmacSha1Ctx data c =
    (let (mac, c) = hmacSha1Final (hmacSha1Update data (hmacSha1Reset c)) in ((mac, 64), c))"

definition hmacSha1Ctx_chunks :: "u8 list list \<Rightarrow> hmacSha1Context \<Rightarrow> (u8 list \<times> nat) \<times> hmacSha1Context" where
  "hmacSha1Ctx_chunks dataChunks c =
    (let (mac, c) = hmacSha1Final (foldl (\<lambda>c d. hmacSha1Update d c) (hmacSha1Reset c) dataChunks)
     in ((mac, 64), c))"

section \<open>HMAC\<close>

text \<open>RFC 2104, over a hash function with blocks of \<open>B\<close> bytes.\<close>

definition hmac_block :: "nat \<Rightarrow> (u8 list \<Rightarrow> u8 list) \<Rightarrow> u8 list \<Rightarrow> u8 list" where
  "hmac_block B H key =
    (let k = (if B < length key then H key else key) in k @ replicate (B - length k) 0)"

definition hmac_spec :: "nat \<Rightarrow> (u8 list \<Rightarrow> u8 list) \<Rightarrow> u8 list \<Rightarrow> u8 list \<Rightarrow> u8 list" where
  "hmac_spec B H key data =
    (let k = hmac_block B H key in H (map (\<lambda>b. b XOR 0x5c) k @ H (map (\<lambda>b. b XOR 0x36) k @ data)))"

text \<open>A streaming hash: what a run of updates on a fresh context digests to.\<close>

locale streaming_hash =
  fixes fresh :: "'c \<Rightarrow> 'c" and feed :: "u8 list \<Rightarrow> 'c \<Rightarrow> 'c" and finish :: "'c \<Rightarrow> u8 list"
    and good :: "'c \<Rightarrow> bool" and H :: "u8 list \<Rightarrow> u8 list" and bound :: nat and B :: nat and dlen :: nat
  assumes stream: "good c \<Longrightarrow> list_all (\<lambda>d. length d < bound) ds \<Longrightarrow>
      finish (foldl (\<lambda>c d. feed d c) (fresh c) ds) = H (concat ds)"
    and digest_length: "length (H m) = dlen"
    and bound_large: "dlen \<le> B" "B < bound"
begin

lemma stream1: "good c \<Longrightarrow> length d < bound \<Longrightarrow> finish (feed d (fresh c)) = H d"
  using stream[of c "[d]"] by simp

lemma stream_after:
  "good c \<Longrightarrow> length p < bound \<Longrightarrow> list_all (\<lambda>d. length d < bound) ds \<Longrightarrow>
    finish (foldl (\<lambda>c d. feed d c) (feed p (fresh c)) ds) = H (p @ concat ds)"
  using stream[of c "p # ds"] by simp

lemma padded_key_length: "length (hmac_block B H key) = B"
  using bound_large by (simp add: hmac_block_def digest_length Let_def)

text \<open>The nested construction over prepared states.\<close>

lemma nested:
  assumes "good c" "good c'" "list_all (\<lambda>d. length d < bound) ds"
  shows "finish (feed (finish (foldl (\<lambda>c d. feed d c) (feed (map (\<lambda>b. b XOR 0x36) (hmac_block B H key)) (fresh c)) ds))
      (feed (map (\<lambda>b. b XOR 0x5c) (hmac_block B H key)) (fresh c'))) = hmac_spec B H key (concat ds)"
proof -
  have "finish (foldl (\<lambda>c d. feed d c) (feed (map (\<lambda>b. b XOR 0x36) (hmac_block B H key)) (fresh c)) ds) =
      H (map (\<lambda>b. b XOR 0x36) (hmac_block B H key) @ concat ds)"
    using assms bound_large by (intro stream_after) (simp_all add: padded_key_length)
  moreover have "finish (feed (H m) (feed (map (\<lambda>b. b XOR 0x5c) (hmac_block B H key)) (fresh c'))) =
      H (map (\<lambda>b. b XOR 0x5c) (hmac_block B H key) @ H m)" for m
    using stream_after[OF assms(2), of "map (\<lambda>b. b XOR 0x5c) (hmac_block B H key)" "[H m]"] bound_large
    by (simp add: padded_key_length digest_length)
  ultimately show ?thesis by (simp add: hmac_spec_def Let_def)
qed

end

lemma length_sha1_spec: "length (sha1_spec m) = 20"
proof -
  have "length (foldl sha1_compress sha1_IV bs) = 5" for bs
    by (induction bs rule: rev_induct) (simp_all add: length_sha1_IV length_sha1_compress)
  then show ?thesis by (simp add: sha1_spec_def)
qed

lemma sha1_stream:
  assumes "length (wbuf cx) = 16" and "list_all (\<lambda>d. length d < 2 ^ 32) ds"
  shows "fst (sha1_end (foldl (\<lambda>c d. sha1_hash d c) (sha1_begin cx) ds)) = sha1_spec (concat ds)"
proof -
  have "hash (md_finish sha1_compile bswap_32 0xffffff80
      (foldl (\<lambda>c d. sha1_hash d c) (sha1_begin cx) ds)) =
    foldl sha1_compress sha1_IV (chunks 64 (md_pad 4 (concat ds)))"
    using assms by (intro sha1.stream_digest) (simp_all add: sha1_begin_def sha1_IV_def list_all_iff)
  then show ?thesis
    by (simp add: sha1_end_digest sha1_end_eq sha1_spec_def sha1_digest_view length_sha1_IV)
qed

interpretation sha1_hmac: streaming_hash sha1_begin sha1_hash "\<lambda>c. fst (sha1_end c)"
  "\<lambda>c. length (wbuf c) = 16" sha1_spec "2 ^ 32" 64 20
  by unfold_locales (simp_all add: sha1_stream length_sha1_spec)

section \<open>The context\<close>

text \<open>A context prepared with a key.\<close>

definition keyed :: "u8 list \<Rightarrow> hmacSha1Context \<Rightarrow> bool" where
  "keyed key c \<longleftrightarrow>
    innerCtx c = sha1_hash (map (\<lambda>b. b XOR 0x36) (hmac_block 64 sha1_spec key)) (sha1_begin zero_sha1) \<and>
    outerCtx c = sha1_hash (map (\<lambda>b. b XOR 0x5c) (hmac_block 64 sha1_spec key)) (sha1_begin zero_sha1)"

lemma zero_sha1_good: "length (wbuf zero_sha1) = 16"
  by (simp add: zero_sha1_def)

lemma hmac_localKey: "length key < 2 ^ 32 \<Longrightarrow> fst (hmac_localKey key) = hmac_block 64 sha1_spec key"
  using sha1_hmac.stream1[OF zero_sha1_good, of key]
  by (simp add: hmac_localKey_def hmac_block_def Let_def split_beta length_sha1_spec)

lemma keyed_init: "length key < 2 ^ 32 \<Longrightarrow> keyed key (hmacSha1Init (Some key) c)"
  by (simp add: keyed_def hmacSha1Init_def Let_def split_beta hmac_localKey)

lemma init_reset: "hmacSha1Reset (hmacSha1Init (Some key) c) = hmacSha1Init (Some key) c"
  by (simp add: hmacSha1Reset_def hmacSha1Init_def Let_def split_beta)

lemma updates_ctx:
  "foldl (\<lambda>c d. hmacSha1Update d c) c ds = c\<lparr>ctx := foldl (\<lambda>c d. sha1_hash d c) (ctx c) ds\<rparr>"
  by (induction ds arbitrary: c) (simp_all add: hmacSha1Update_def)

lemma hmac_chunks:
  assumes "keyed key c" "list_all (\<lambda>d. length d < 2 ^ 32) ds"
  shows "fst (hmacSha1Ctx_chunks ds c) = (hmac_spec 64 sha1_spec key (concat ds), 64)"
    and "keyed key (snd (hmacSha1Ctx_chunks ds c))"
  using assms sha1_hmac.nested[OF zero_sha1_good zero_sha1_good, of ds key]
  by (simp_all add: hmacSha1Ctx_chunks_def hmacSha1Final_def hmacSha1Reset_def updates_ctx keyed_def Let_def
      split_beta)

lemma hmac_one: "hmacSha1Ctx data c = hmacSha1Ctx_chunks [data] c"
  by (simp add: hmacSha1Ctx_def hmacSha1Ctx_chunks_def)

lemma hmac_sha1_chunks_ctx:
  "hmac_sha1_chunks key ds = fst (hmacSha1Ctx_chunks ds (hmacSha1Init (Some key) zero_hmac))"
  by (simp add: hmac_sha1_chunks_def hmacSha1Ctx_chunks_def init_reset Let_def split_beta)

lemma hmac_sha1_ctx: "hmac_sha1 key data = fst (hmacSha1Ctx data (hmacSha1Init (Some key) zero_hmac))"
  by (simp add: hmac_sha1_def hmacSha1Ctx_def init_reset Let_def split_beta)

text \<open>A context used for one message after another, each given in one piece or as a list of pieces.\<close>

datatype hmac_input = OnePiece "u8 list" | Pieces "u8 list list"

primrec input_pieces :: "hmac_input \<Rightarrow> u8 list list" where
  "input_pieces (OnePiece d) = [d]"
| "input_pieces (Pieces ds) = ds"

primrec hmac_messages :: "hmac_input list \<Rightarrow> hmacSha1Context \<Rightarrow> (u8 list \<times> nat) list" where
  "hmac_messages [] c = []"
| "hmac_messages (m # ms) c =
    (let (mac, c) = (case m of OnePiece d \<Rightarrow> hmacSha1Ctx d c | Pieces ds \<Rightarrow> hmacSha1Ctx_chunks ds c)
     in mac # hmac_messages ms c)"

lemma hmac_messages_spec:
  assumes "keyed key c" "\<forall>m \<in> set ms. list_all (\<lambda>d. length d < 2 ^ 32) (input_pieces m)"
  shows "hmac_messages ms c = map (\<lambda>m. (hmac_spec 64 sha1_spec key (concat (input_pieces m)), 64)) ms"
  using assms
proof (induction ms arbitrary: c)
  case (Cons m ms)
  have "(case m of OnePiece d \<Rightarrow> hmacSha1Ctx d c | Pieces ds \<Rightarrow> hmacSha1Ctx_chunks ds c) = hmacSha1Ctx_chunks (input_pieces m) c"
    by (cases m) (simp_all add: hmac_one)
  then show ?case using Cons hmac_chunks[OF Cons.prems(1), of "input_pieces m"] by (simp add: split_beta)
qed simp

text \<open>
  C39. HMAC-SHA1: a context prepared with a key computes for each of any number of messages, one after another and
  each given in one piece or as a list of pieces, the HMAC of RFC 2104; the one-call forms compute the same.  The
  length they report is 64 for a MAC of 20 bytes.
\<close>

theorem hmac_sha1_correct:
  assumes "length key < 2 ^ 32" "\<forall>m \<in> set ms. list_all (\<lambda>d. length d < 2 ^ 32) (input_pieces m)"
    "length d < 2 ^ 32" "list_all (\<lambda>d. length d < 2 ^ 32) ds"
  shows "hmac_messages ms (hmacSha1Init (Some key) c) =
      map (\<lambda>m. (hmac_spec 64 sha1_spec key (concat (input_pieces m)), 64)) ms \<and>
    hmac_sha1_chunks key ds = (hmac_spec 64 sha1_spec key (concat ds), 64) \<and>
    hmac_sha1 key d = (hmac_spec 64 sha1_spec key d, 64) \<and> length (hmac_spec 64 sha1_spec key d) = 20"
proof -
  note k = keyed_init[OF assms(1)]
  have "hmac_sha1 key d = (hmac_spec 64 sha1_spec key d, 64)"
    using hmac_chunks(1)[OF k, of "[d]"] assms(3) by (simp add: hmac_sha1_ctx hmac_one)
  then show ?thesis
    using hmac_messages_spec[OF k assms(2)] hmac_chunks(1)[OF k assms(4)]
    by (simp add: hmac_sha1_chunks_ctx hmac_spec_def length_sha1_spec Let_def)
qed

theorem hmac_sha1_correct_witness:
  "hmac_messages [OnePiece [0x48], Pieces [[0x48], [0x69]], OnePiece [0x48]] (hmacSha1Init (Some (replicate 20 0x0b)) zero_hmac) =
    (let mac = \<lambda>m. (hmac_spec 64 sha1_spec (replicate 20 0x0b) m, 64) in [mac [0x48], mac [0x48, 0x69], mac [0x48]])"
  using hmac_sha1_correct[of "replicate 20 0x0b" "[OnePiece [0x48], Pieces [[0x48], [0x69]], OnePiece [0x48]]" "[]" "[]" zero_hmac]
  by simp

end
