(* ===== verification/Srtp_Context.thy ===== *)
theory Srtp_Context
  imports Srtp_Cipher Hmac
begin

text \<open>
  The SRTP cryptographic context (\<open>srtp/CryptoContext.cpp\<close>): construction, key derivation, encryption and
  authentication of a packet, the guess of the packet index and the replay window.  A result \<open>None\<close> is an
  access outside a buffer or through a null pointer.  The Skein MAC is the parameter \<open>K\<close>: a function of the
  key, the length of the MAC in bits, and the data.
\<close>

section \<open>State\<close>

abbreviation (input) "SrtpAuthenticationNull \<equiv> 0 :: nat"
abbreviation (input) "SrtpAuthenticationSha1Hmac \<equiv> 1 :: nat"
abbreviation (input) "SrtpAuthenticationSkeinHmac \<equiv> 2 :: nat"
abbreviation (input) "REPLAY_WINDOW_SIZE \<equiv> 128 :: int"

type_synonym skein_mac = "u8 list \<Rightarrow> nat \<Rightarrow> u8 list \<Rightarrow> u8 list"

datatype mac_ctx = NoMac | Sha1Mac hmacSha1Context | SkeinMac "u8 list" nat

text \<open>The lengths \<open>n_e\<close>, \<open>n_a\<close>, \<open>n_s\<close> are those of the key buffers.\<close>

record crypto_context =
  ssrcCtx :: u32
  mkiLength :: nat
  roc :: u32
  guessed_roc :: u32
  s_l :: u16
  key_deriv_rate :: u64
  window0 :: u64
  window1 :: u64
  master_key :: "u8 list"
  master_salt :: "u8 list"
  k_e :: "u8 list"
  k_a :: "u8 list"
  k_s :: "u8 list"
  ealg :: nat
  aalg :: nat
  ekeyl :: nat
  akeyl :: nat
  skeyl :: nat
  tagLength :: nat
  labelBase :: u64
  seqNumSet :: bool
  macCtx :: mac_ctx
  cipher :: "sym_crypto option"
  f8Cipher :: "sym_crypto option"

text \<open>The constructor.  Memory that it does not set is that of \<open>junk\<close>; a new buffer holds \<open>fill\<close>.\<close>

definition CryptoContext ::
  "crypto_context \<Rightarrow> (nat \<Rightarrow> u8 list) \<Rightarrow> u32 \<Rightarrow> u32 \<Rightarrow> u64 \<Rightarrow> nat \<Rightarrow> nat \<Rightarrow> u8 list \<Rightarrow> u8 list \<Rightarrow>
    nat \<Rightarrow> nat \<Rightarrow> nat \<Rightarrow> nat \<Rightarrow> crypto_context" where
  "CryptoContext junk fill ssrc roc0 rate ea aa mkey msalt ekl akl skl tag =
    (let c = junk\<lparr>ssrcCtx := ssrc, mkiLength := 0, roc := roc0, guessed_roc := 0, s_l := 0, key_deriv_rate := rate,
           labelBase := 0, seqNumSet := False, macCtx := NoMac, cipher := None, f8Cipher := None,
           window0 := 0, window1 := 0, ealg := ea, aalg := aa, ekeyl := ekl, akeyl := akl, skeyl := skl,
           master_key := mkey, master_salt := msalt\<rparr>;
         c = (if ea = SrtpEncryptionNull then c\<lparr>k_e := [], k_s := []\<rparr>
              else if ea \<in> {SrtpEncryptionTWOF8, SrtpEncryptionTWOCM} then
                c\<lparr>f8Cipher := (if ea = SrtpEncryptionTWOF8 then Some (SrtpSymCrypto SrtpEncryptionTWOF8) else None),
                  k_e := fill ekl, k_s := fill skl, cipher := Some (SrtpSymCrypto SrtpEncryptionTWOCM)\<rparr>
              else if ea \<in> {SrtpEncryptionAESF8, SrtpEncryptionAESCM} then
                c\<lparr>f8Cipher := (if ea = SrtpEncryptionAESF8 then Some (SrtpSymCrypto SrtpEncryptionAESF8) else None),
                  k_e := fill ekl, k_s := fill skl, cipher := Some (SrtpSymCrypto SrtpEncryptionAESCM)\<rparr>
              else c)
     in if aa = SrtpAuthenticationNull then c\<lparr>k_a := [], tagLength := 0\<rparr>
        else if aa \<in> {SrtpAuthenticationSha1Hmac, SrtpAuthenticationSkeinHmac} then
          c\<lparr>k_a := fill akl, tagLength := tag\<rparr>
        else c)"

definition newCryptoContextForSSRC ::
  "crypto_context \<Rightarrow> (nat \<Rightarrow> u8 list) \<Rightarrow> crypto_context \<Rightarrow> u32 \<Rightarrow> u32 \<Rightarrow> u64 \<Rightarrow> crypto_context" where
  "newCryptoContextForSSRC junk fill c ssrc roc0 rate =
    CryptoContext junk fill ssrc roc0 rate (ealg c) (aalg c) (master_key c) (master_salt c)
      (ekeyl c) (akeyl c) (skeyl c) (tagLength c)"

section \<open>Encryption and authentication\<close>

text \<open>The initial vector of counter mode: the session salt, the source and the packet index.\<close>

definition cm_iv :: "u8 list \<Rightarrow> u32 \<Rightarrow> u64 \<Rightarrow> u8 list" where
  "cm_iv ks ssrc index =
    take 4 ks @
    map (\<lambda>i. ucast (0xFF AND drop_bit ((7 - i) * 8) ssrc) XOR ks ! i) [4..<8] @
    map (\<lambda>i. (0xFF AND ucast (drop_bit ((13 - i) * 8) index)) XOR ks ! i) [8..<14] @ [0, 0]"

definition f8_iv :: "u8 list \<Rightarrow> u32 \<Rightarrow> u8 list" where
  "f8_iv pkt r = (take 12 pkt)[0 := 0] @ be_bytes r"

text \<open>The packet is \<open>buf\<close>, its payload the \<open>paylen\<close> bytes from \<open>off\<close>.\<close>

definition srtpEncrypt ::
  "block_cipher \<Rightarrow> crypto_context \<Rightarrow> u8 list \<Rightarrow> nat \<Rightarrow> nat \<Rightarrow> u64 \<Rightarrow> u32 \<Rightarrow> u8 list option" where
  "srtpEncrypt E c buf off paylen index ssrc =
    (if ealg c = SrtpEncryptionNull then Some buf
     else if length buf < off + paylen then None
     else if ealg c \<in> {SrtpEncryptionAESCM, SrtpEncryptionTWOCM} then
       (if length (k_s c) < 14 then None
        else
          (case cipher c of
             None \<Rightarrow> None
           | Some ci \<Rightarrow>
               map_option (\<lambda>out. poke off out buf)
                 (ctr_encrypt E ci (take paylen (drop off buf)) (cm_iv (k_s c) ssrc index))))
     else if ealg c \<in> {SrtpEncryptionAESF8, SrtpEncryptionTWOF8} then
       (if length buf < 12 then None
        else
          (case (cipher c, f8Cipher c) of
             (Some ci, Some f8) \<Rightarrow>
               map_option (\<lambda>out. poke off out buf)
                 (f8_encrypt E ci (take paylen (drop off buf)) (f8_iv buf (roc c)) f8)
           | _ \<Rightarrow> None))
     else Some buf)"

text \<open>The MAC of the packet and the rollover counter, cut to the tag; the buffer for it has 20 bytes.\<close>

definition srtpAuthenticate ::
  "skein_mac \<Rightarrow> crypto_context \<Rightarrow> u8 list \<Rightarrow> u32 \<Rightarrow> (u8 list \<times> crypto_context) option" where
  "srtpAuthenticate K c pkt r =
    (if aalg c = SrtpAuthenticationNull then Some ([], c)
     else if tagLength c > 20 then None
     else if aalg c = SrtpAuthenticationSha1Hmac then
       (case macCtx c of
          Sha1Mac h \<Rightarrow>
            (let ((mac, _), h) = hmacSha1Ctx_chunks [pkt, be_bytes r] h
             in Some (take (tagLength c) mac, c\<lparr>macCtx := Sha1Mac h\<rparr>))
        | _ \<Rightarrow> None)
     else if aalg c = SrtpAuthenticationSkeinHmac then
       (case macCtx c of
          SkeinMac k bits \<Rightarrow> Some (take (tagLength c) (K k bits (pkt @ be_bytes r)), c)
        | _ \<Rightarrow> None)
     else Some ([], c))"

section \<open>Key derivation\<close>

definition computeIv :: "u64 \<Rightarrow> u64 \<Rightarrow> u64 \<Rightarrow> u8 list \<Rightarrow> u8 list" where
  "computeIv label index kdv msalt =
    (let key_id = (if kdv = 0 then push_bit 48 label else push_bit 48 label OR (index div kdv))
     in take 7 msalt @
        map (\<lambda>i. ucast (0xFF AND drop_bit (8 * (13 - i)) key_id) XOR msalt ! i) [7..<14] @ [0, 0])"

definition wipe :: "u8 list \<Rightarrow> u8 list" where
  "wipe b = replicate (length b) 0"

definition deriveSrtpKeys :: "block_cipher \<Rightarrow> u64 \<Rightarrow> crypto_context \<Rightarrow> crypto_context option" where
  "deriveSrtpKeys E index c =
    (case cipher c of
       None \<Rightarrow> None
     | Some ci \<Rightarrow>
         if length (master_salt c) < 14 then None
         else
           (let (_, ci) = setNewKey (master_key c) ci;
                iv = (\<lambda>n. computeIv (labelBase c + n) index (key_deriv_rate c) (master_salt c))
            in case (get_ctr_cipher_stream E ci (length (k_e c)) (iv 0),
                     get_ctr_cipher_stream E ci (length (k_a c)) (iv 1),
                     get_ctr_cipher_stream E ci (length (k_s c)) (iv 2)) of
                 (Some ke, Some ka, Some ks) \<Rightarrow>
                   (let mac = (if aalg c = SrtpAuthenticationSha1Hmac then Sha1Mac (hmacSha1Init (Some ka) zero_hmac)
                               else if aalg c = SrtpAuthenticationSkeinHmac then SkeinMac ka (tagLength c * 8)
                               else macCtx c);
                        (_, ci) = setNewKey ke ci;
                        f8 = map_option (f8_deriveForIV ke ks) (f8Cipher c)
                    in Some (c\<lparr>master_key := wipe (master_key c), master_salt := wipe (master_salt c),
                               k_e := wipe ke, k_a := wipe ka, k_s := ks, macCtx := mac,
                               cipher := Some ci, f8Cipher := f8\<rparr>))
               | _ \<Rightarrow> None))"

section \<open>The packet index and the replay window\<close>

definition guessIndex :: "u16 \<Rightarrow> crypto_context \<Rightarrow> u64 \<times> crypto_context" where
  "guessIndex new_seq_nb c =
    (let c = (if \<not> seqNumSet c then c\<lparr>seqNumSet := True, s_l := new_seq_nb\<rparr> else c);
         c = (if uint (s_l c) < 32768 then
                (if uint new_seq_nb - uint (s_l c) > 32768 then c\<lparr>guessed_roc := roc c - 1\<rparr>
                 else c\<lparr>guessed_roc := roc c\<rparr>)
              else
                (if uint (s_l c) - 32768 > uint new_seq_nb then c\<lparr>guessed_roc := roc c + 1\<rparr>
                 else c\<lparr>guessed_roc := roc c\<rparr>))
     in (push_bit 16 (ucast (guessed_roc c)) OR ucast new_seq_nb, c))"

definition local_index :: "crypto_context \<Rightarrow> u64" where
  "local_index c = push_bit 16 (ucast (roc c)) OR ucast (s_l c)"

definition window_word :: "crypto_context \<Rightarrow> nat \<Rightarrow> u64" where
  "window_word c idx = (if idx = 0 then window0 c else window1 c)"

definition checkReplay :: "u16 \<Rightarrow> crypto_context \<Rightarrow> bool \<times> crypto_context" where
  "checkReplay newSeq c =
    (if aalg c = SrtpAuthenticationNull \<and> ealg c = SrtpEncryptionNull then (True, c)
     else
       (let c = (if \<not> seqNumSet c then c\<lparr>seqNumSet := True, s_l := newSeq\<rparr> else c);
            (guessed_index, c) = guessIndex newSeq c;
            delta = sint (guessed_index - local_index c)
        in if delta > 0 then (True, c)
           else if - delta \<ge> REPLAY_WINDOW_SIZE then (False, c)
           else
             (let delta = nat (- delta);
                  bit = push_bit (delta mod 64) 1
              in (window_word c (delta div 64) AND bit \<noteq> bit, c))))"

definition shift_window :: "nat \<Rightarrow> crypto_context \<Rightarrow> crypto_context" where
  "shift_window delta c =
    (if delta \<ge> 128 then c\<lparr>window0 := 1, window1 := 0\<rparr>
     else if delta < 64 then
       (let carry = drop_bit (64 - delta) (window0 c)
        in c\<lparr>window0 := push_bit delta (window0 c) OR 1, window1 := push_bit delta (window1 c) OR carry\<rparr>)
     else c\<lparr>window1 := push_bit (delta - 64) (window0 c), window0 := 1\<rparr>)"

text \<open>The caller has checked the number with \<open>checkReplay\<close>; an older packet lies in the window.\<close>

definition update :: "u16 \<Rightarrow> crypto_context \<Rightarrow> crypto_context" where
  "update newSeq c =
    (let (g, c) = guessIndex newSeq c;
         delta = sint (g - local_index c);
         c = (if delta > 0 then shift_window (nat delta) c
              else
                (let d = nat (- delta); bit = push_bit (d mod 64) 1
                 in if d div 64 = 0 then c\<lparr>window0 := window0 c OR bit\<rparr>
                    else c\<lparr>window1 := window1 c OR bit\<rparr>));
         c = (if delta > 0 \<and> newSeq > s_l c then c\<lparr>s_l := newSeq\<rparr> else c)
     in if guessed_roc c > roc c then c\<lparr>roc := guessed_roc c, s_l := newSeq\<rparr> else c)"

end
