(* ===== verification/Srtp_Replay.thy ===== *)
theory Srtp_Replay
  imports Srtp_Context
begin

text \<open>
  The replay protection of SRTP.  The locales state what a receiver needs of such a mechanism and derive
  that no packet index is delivered twice; the interpretation shows that \<open>checkReplay\<close> and \<open>update\<close> of the
  SRTP context provide it.
\<close>

section \<open>Replay protection\<close>

text \<open>A receiver gets packets one after the other and delivers some of them, each with its index; it stops
  where receiving a packet is undefined.\<close>

primrec deliveries :: "('p \<Rightarrow> 'c \<Rightarrow> (nat option \<times> 'c) option) \<Rightarrow> 'p list \<Rightarrow> 'c \<Rightarrow> nat list" where
  "deliveries receive [] c = []"
| "deliveries receive (p # ps) c =
    (case receive p c of
       None \<Rightarrow> []
     | Some (i, c') \<Rightarrow> (case i of None \<Rightarrow> deliveries receive ps c' | Some i \<Rightarrow> i # deliveries receive ps c'))"

text \<open>\<open>knows c A\<close>: the state \<open>c\<close> protects against the delivered indices \<open>A\<close>.\<close>

locale once_only =
  fixes knows :: "'c \<Rightarrow> nat set \<Rightarrow> bool" and receive :: "'p \<Rightarrow> 'c \<Rightarrow> (nat option \<times> 'c) option"
  assumes refused: "knows c A \<Longrightarrow> receive p c = Some (None, c') \<Longrightarrow> knows c' A"
    and delivered_new: "knows c A \<Longrightarrow> receive p c = Some (Some i, c') \<Longrightarrow> i \<notin> A"
    and delivered: "knows c A \<Longrightarrow> receive p c = Some (Some i, c') \<Longrightarrow> knows c' (insert i A)"
begin

lemma deliveries_distinct:
  "knows c A \<Longrightarrow> distinct (deliveries receive ps c) \<and> set (deliveries receive ps c) \<inter> A = {}"
proof (induction ps arbitrary: c A)
  case (Cons p ps)
  show ?case
  proof (cases "receive p c")
    case (Some r)
    obtain i c' where r: "r = (i, c')" by (cases r)
    show ?thesis
    proof (cases i)
      case None
      then show ?thesis using Cons.IH[OF refused[OF Cons.prems]] Some r by simp
    next
      case (Some j)
      then have "receive p c = Some (Some j, c')" using \<open>receive p c = Some r\<close> r by simp
      then show ?thesis
        using Cons.IH[OF delivered[OF Cons.prems]] delivered_new[OF Cons.prems] by auto
    qed
  qed simp
qed simp

end

text \<open>A check answers whether a packet may be new, in a state that it may change; an authenticated packet
  that passed is recorded.\<close>

locale replay_protection =
  fixes knows :: "'c \<Rightarrow> nat set \<Rightarrow> bool"
    and check :: "'p \<Rightarrow> 'c \<Rightarrow> bool \<times> 'c"
    and index :: "'p \<Rightarrow> 'c \<Rightarrow> nat"
    and commit :: "'p \<Rightarrow> 'c \<Rightarrow> 'c"
  assumes check_knows: "knows c A \<Longrightarrow> knows (snd (check p c)) A"
    and check_new: "knows c A \<Longrightarrow> fst (check p c) \<Longrightarrow> index p (snd (check p c)) \<notin> A"
    and commit_knows: "knows c A \<Longrightarrow> fst (check p c) \<Longrightarrow>
      knows (commit p (snd (check p c))) (insert (index p (snd (check p c))) A)"
begin

definition attempt :: "'p \<times> bool \<Rightarrow> 'c \<Rightarrow> (nat option \<times> 'c) option" where
  "attempt pa c =
    (let (ok, c') = check (fst pa) c
     in Some (if ok \<and> snd pa then (Some (index (fst pa) c'), commit (fst pa) c') else (None, c')))"

end

sublocale replay_protection \<subseteq> once_only knows attempt
  using check_knows check_new commit_knows
  by unfold_locales (auto simp: attempt_def split_beta split: if_splits)

section \<open>Indices as numbers\<close>

definition seq_index :: "u32 \<Rightarrow> u16 \<Rightarrow> nat" where
  "seq_index r s = unat r * 65536 + unat s"

lemma unat_u32: "unat (r :: u32) < 2 ^ 32" and unat_u16: "unat (s :: u16) < 2 ^ 16"
  using unsigned_less[of r] unsigned_less[of s] by simp_all

lemma uint_u16: "uint (s :: u16) < 65536"
  using unsigned_less[of s] by simp

lemma seq_index_word: "unat (push_bit 16 (ucast (r :: u32)) OR ucast (s :: u16) :: u64) = seq_index r s"
proof -
  have disj: "push_bit 16 (ucast r :: u64) AND ucast s = 0"
    by (rule bit_word_eqI) (auto simp: bit_simps dest: bit_imp_le_length)
  have r: "unat (push_bit 16 (ucast r :: u64)) = unat r * 65536"
  proof -
    have "unat r < 2 ^ 32" by (rule unat_u32)
    then show ?thesis
      by (simp add: push_bit_eq_mult unat_word_ariths unsigned_ucast_eq take_bit_nat_eq_self)
  qed
  have s: "unat (ucast s :: u64) = unat s" using unat_u16[of s] by (simp add: unsigned_ucast_eq take_bit_nat_eq_self)
  have "unat r < 2 ^ 32" "unat s < 2 ^ 16" using unat_u32[of r] unat_u16[of s] by simp_all
  then have "unat (push_bit 16 (ucast r :: u64)) + unat (ucast s :: u64) < 2 ^ 64" unfolding r s by simp
  moreover have "push_bit 16 (ucast r :: u64) OR ucast s = push_bit 16 (ucast r) + ucast s"
    using disj by (simp add: disjunctive_add_eq_or)
  ultimately show ?thesis by (simp add: unat_plus_simple r s seq_index_def unat_word_ariths)
qed

lemma seq_index_less: "seq_index r s < 2 ^ 48"
  using unat_u32[of r] unat_u16[of s] by (simp add: seq_index_def)

lemma diff_in_range:
  fixes x y :: int
  assumes "0 \<le> x" "x < 281474976710656" "0 \<le> y" "y < 281474976710656"
  shows "- 9223372036854775808 \<le> x - y \<and> x - y < 9223372036854775808"
  using assms by auto

lemma sint_diff:
  fixes a b :: u64
  assumes "unat a < 2 ^ 48" "unat b < 2 ^ 48"
  shows "sint (a - b) = int (unat a) - int (unat b)"
proof -
  have "uint (a - b) = take_bit 64 (uint a - uint b)"
    unfolding take_bit_eq_mod by (simp add: uint_word_ariths)
  then have "sint (a - b) = signed_take_bit 63 (uint a - uint b)"
    by (simp only: sint_uint) (simp add: signed_take_bit_take_bit)
  also have "\<dots> = uint a - uint b"
  proof (rule signed_take_bit_int_eq_self)
    have "int (unat a) < int (2 ^ 48)" "int (unat b) < int (2 ^ 48)"
      using assms by (simp_all only: of_nat_less_iff)
    then have "uint a < 281474976710656" "uint b < 281474976710656" by simp_all
    from diff_in_range[OF uint_nonnegative this(1) uint_nonnegative this(2)]
    have d: "- 9223372036854775808 \<le> uint a - uint b \<and> uint a - uint b < 9223372036854775808" .
    have p: "(2 :: int) ^ 63 = 9223372036854775808" by simp
    show "- (2 ^ 63) \<le> uint a - uint b" unfolding p by (rule d[THEN conjunct1])
    show "uint a - uint b < 2 ^ 63" unfolding p by (rule d[THEN conjunct2])
  qed
  finally show ?thesis by simp
qed

section \<open>The guess\<close>

definition start_seq :: "u16 \<Rightarrow> crypto_context \<Rightarrow> crypto_context" where
  "start_seq s c = (if \<not> seqNumSet c then c\<lparr>seqNumSet := True, s_l := s\<rparr> else c)"

definition guessed :: "u16 \<Rightarrow> crypto_context \<Rightarrow> u32" where
  "guessed s c =
    (if uint (s_l c) < 32768 then (if uint s - uint (s_l c) > 32768 then roc c - 1 else roc c)
     else (if uint (s_l c) - 32768 > uint s then roc c + 1 else roc c))"

lemma guessIndex_eq:
  "guessIndex s c =
    (push_bit 16 (ucast (guessed s (start_seq s c))) OR ucast s,
     (start_seq s c)\<lparr>guessed_roc := guessed s (start_seq s c)\<rparr>)"
  by (simp add: guessIndex_def start_seq_def guessed_def Let_def)

lemma start_seq_fields [simp]:
  "seqNumSet (start_seq s c)" "roc (start_seq s c) = roc c" "aalg (start_seq s c) = aalg c"
  "ealg (start_seq s c) = ealg c" "window0 (start_seq s c) = window0 c" "window1 (start_seq s c) = window1 c"
  "start_seq s (start_seq s c) = start_seq s c" "seqNumSet c \<Longrightarrow> start_seq s c = c"
  by (simp_all add: start_seq_def)

lemma guessed_roc_irrelevant [simp]: "guessed s (c\<lparr>guessed_roc := r\<rparr>) = guessed s c"
  by (simp add: guessed_def)

text \<open>The highest index received, as a number, and the index of a packet.\<close>

definition top_index :: "crypto_context \<Rightarrow> nat" where
  "top_index c = seq_index (roc c) (s_l c)"

definition packet_index :: "u16 \<Rightarrow> crypto_context \<Rightarrow> nat" where
  "packet_index s c = seq_index (guessed_roc c) s"

lemma top_index_less: "top_index c < 2 ^ 48"
  by (simp only: top_index_def seq_index_less)

lemma local_index_value: "unat (local_index c) = top_index c"
  by (simp only: local_index_def seq_index_word top_index_def)

lemma delta_value:
  "sint ((push_bit 16 (ucast r) OR ucast s) - local_index c) = int (seq_index r s) - int (top_index c)"
proof -
  have "unat (push_bit 16 (ucast r) OR ucast s :: u64) < 2 ^ 48" "unat (local_index c) < 2 ^ 48"
    by (simp_all only: seq_index_word local_index_value seq_index_less top_index_less)
  from sint_diff[OF this] show ?thesis by (simp only: seq_index_word local_index_value)
qed

text \<open>The guess is right for every packet less than 2^15 away from the highest index.\<close>

lemma guess_accurate:
  assumes "\<bar>int (seq_index r s) - int (top_index c)\<bar> < 32768"
  shows "guessed s c = r"
proof -
  define R S Q T where defs: "R = int (unat r)" "S = int (unat s)" "Q = int (unat (roc c))" "T = int (unat (s_l c))"
  have b: "0 \<le> S" "S < 65536" "0 \<le> T" "T < 65536" "0 \<le> R" "0 \<le> Q"
    using uint_u16[of s] uint_u16[of "s_l c"] by (simp_all add: defs)
  have d: "\<bar>(R * 65536 + S) - (Q * 65536 + T)\<bar> < 32768"
    using assms by (simp add: defs seq_index_def top_index_def)
  have u: "uint s = S" "uint (s_l c) = T" by (simp_all add: defs)
  consider "R = Q" | "R = Q + 1" | "R = Q - 1" using d b by arith
  then show ?thesis
  proof cases
    case 1
    then have "uint r = uint (roc c)" by (simp add: defs)
    then have "roc c = r" by (metis word_of_int_uint)
    moreover have "\<not> S - T > 32768" "\<not> T - 32768 > S" using d b 1 by arith+
    ultimately show ?thesis unfolding guessed_def u by simp
  next
    case 2
    then have "uint r = uint (roc c) + 1" by (simp add: defs)
    then have "roc c + 1 = r" by (metis wi_hom_add word_of_int_1 word_of_int_uint)
    moreover have "\<not> T < 32768" "T - 32768 > S" using d b 2 by arith+
    ultimately show ?thesis unfolding guessed_def u by simp
  next
    case 3
    then have "uint r = uint (roc c) - 1" by (simp add: defs)
    then have "roc c - 1 = r" by (metis wi_hom_sub word_of_int_1 word_of_int_uint)
    moreover have "T < 32768" "S - T > 32768" using d b 3 by arith+
    ultimately show ?thesis unfolding guessed_def u by simp
  qed
qed

section \<open>The window\<close>

definition wbit :: "crypto_context \<Rightarrow> nat \<Rightarrow> bool" where
  "wbit c d \<longleftrightarrow> (if d < 64 then bit (window0 c) d else d < 128 \<and> bit (window1 c) (d - 64))"

lemma wbit_fields [simp]:
  "wbit (c\<lparr>roc := r\<rparr>) d = wbit c d" "wbit (c\<lparr>s_l := s\<rparr>) d = wbit c d"
  "wbit (c\<lparr>guessed_roc := r\<rparr>) d = wbit c d" "wbit (start_seq s c) d = wbit c d"
  by (simp_all add: wbit_def)

lemma wbit_shift:
  assumes "0 < n"
  shows "wbit (shift_window n c) d \<longleftrightarrow> d = 0 \<or> n \<le> d \<and> d < 128 \<and> wbit c (d - n)"
  using assms
  by (auto simp: wbit_def shift_window_def Let_def bit_simps not_less less_diff_conv2 add.commute dest: bit_imp_le_length)

lemma wbit_test:
  assumes "d < 128"
  shows "window_word c (d div 64) AND push_bit (d mod 64) 1 \<noteq> push_bit (d mod 64) 1 \<longleftrightarrow> \<not> wbit c d"
proof -
  have "w AND push_bit k 1 \<noteq> push_bit k 1 \<longleftrightarrow> \<not> bit w k" if "k < 64" for w :: u64 and k
  proof -
    have "bit w k" if eq: "w AND push_bit k 1 = push_bit k 1"
      using arg_cong[OF eq, of "\<lambda>x. bit x k"] \<open>k < 64\<close> by (simp add: bit_simps)
    moreover have "w AND push_bit k 1 = push_bit k 1" if "bit w k"
      using that by (intro bit_word_eqI) (auto simp: bit_simps)
    ultimately show ?thesis by blast
  qed
  then have *: "window_word c (d div 64) AND push_bit (d mod 64) 1 \<noteq> push_bit (d mod 64) 1 \<longleftrightarrow>
      \<not> bit (window_word c (d div 64)) (d mod 64)" by simp
  show ?thesis
  proof (cases "d < 64")
    case True
    then show ?thesis unfolding * by (simp add: window_word_def wbit_def)
  next
    case False
    then have "d div 64 = 1" "d mod 64 = d - 64" using assms by (simp_all add: le_div_geq le_mod_geq)
    then show ?thesis unfolding * using False assms by (simp add: window_word_def wbit_def)
  qed
qed

section \<open>The code provides replay protection\<close>

text \<open>The window records the accepted indices exactly.\<close>

definition knows :: "crypto_context \<Rightarrow> nat set \<Rightarrow> bool" where
  "knows c A \<longleftrightarrow>
    \<not> (aalg c = SrtpAuthenticationNull \<and> ealg c = SrtpEncryptionNull) \<and>
    (seqNumSet c \<or> A = {}) \<and> (\<forall>a \<in> A. a \<le> top_index c) \<and>
    (\<forall>d < 128. wbit c d \<longleftrightarrow> d \<le> top_index c \<and> top_index c - d \<in> A)"

lemma knows_start: "knows c A \<Longrightarrow> knows ((start_seq s c)\<lparr>guessed_roc := r\<rparr>) A"
  by (cases "seqNumSet c") (auto simp: knows_def top_index_def)

text \<open>The check in terms of indices.\<close>

lemma checkReplay_eq:
  fixes s :: u16 and c :: crypto_context
  assumes "\<not> (aalg c = SrtpAuthenticationNull \<and> ealg c = SrtpEncryptionNull)"
  defines "c' \<equiv> (start_seq s c)\<lparr>guessed_roc := guessed s (start_seq s c)\<rparr>"
  shows "checkReplay s c =
    (top_index c' < packet_index s c' \<or>
     top_index c' - packet_index s c' < 128 \<and> \<not> wbit c' (top_index c' - packet_index s c'), c')"
proof -
  let ?d = "int (packet_index s c') - int (top_index c')"
  have delta: "sint ((push_bit 16 (ucast (guessed s (start_seq s c))) OR ucast s) - local_index c') = ?d"
    using delta_value[of "guessed s (start_seq s c)" s c'] by (simp add: c'_def packet_index_def)
  have "checkReplay s c =
      (if ?d > 0 then (True, c')
       else if - ?d \<ge> 128 then (False, c')
       else (let d = nat (- ?d); b = push_bit (d mod 64) 1 in (window_word c' (d div 64) AND b \<noteq> b, c')))"
    unfolding checkReplay_def if_not_P[OF assms(1)] Let_def start_seq_def[symmetric] guessIndex_eq
      start_seq_fields prod.case c'_def[symmetric] delta by (rule refl)
  also have "\<dots> = (top_index c' < packet_index s c' \<or>
     top_index c' - packet_index s c' < 128 \<and> \<not> wbit c' (top_index c' - packet_index s c'), c')"
  proof (cases "?d > 0")
    case False
    then have n: "nat (- ?d) = top_index c' - packet_index s c'" by simp
    show ?thesis
    proof (cases "- ?d \<ge> 128")
      case True
      then have "\<not> top_index c' - packet_index s c' < 128" using False by linarith
      then show ?thesis using True False by simp
    next
      case less: False
      then have "top_index c' - packet_index s c' < 128" using False by simp
      then show ?thesis using False less wbit_test[of "top_index c' - packet_index s c'" c'] n by (simp add: Let_def)
    qed
  qed simp
  finally show ?thesis .
qed

text \<open>What recording a packet does to the highest index and the window.\<close>

definition mark_window :: "nat \<Rightarrow> crypto_context \<Rightarrow> crypto_context" where
  "mark_window d c =
    (let bit = push_bit (d mod 64) 1
     in if d div 64 = 0 then c\<lparr>window0 := window0 c OR bit\<rparr> else c\<lparr>window1 := window1 c OR bit\<rparr>)"

lemma wbit_mark:
  assumes "d < 128"
  shows "wbit (mark_window d c) e \<longleftrightarrow> wbit c e \<or> e = d"
proof (cases "d < 64")
  case True
  then show ?thesis by (auto simp: mark_window_def wbit_def bit_simps Let_def)
next
  case False
  then have "d div 64 = 1" "d mod 64 = d - 64" using assms by (simp_all add: le_div_geq le_mod_geq)
  then show ?thesis using False assms by (auto simp: mark_window_def wbit_def bit_simps Let_def)
qed

lemma window_fields [simp]:
  "roc (shift_window n c) = roc c" "s_l (shift_window n c) = s_l c" "seqNumSet (shift_window n c) = seqNumSet c"
  "guessed_roc (shift_window n c) = guessed_roc c" "aalg (shift_window n c) = aalg c" "ealg (shift_window n c) = ealg c"
  "roc (mark_window n c) = roc c" "s_l (mark_window n c) = s_l c" "seqNumSet (mark_window n c) = seqNumSet c"
  "guessed_roc (mark_window n c) = guessed_roc c" "aalg (mark_window n c) = aalg c" "ealg (mark_window n c) = ealg c"
  by (simp_all add: shift_window_def mark_window_def Let_def)

lemma update_eq:
  fixes s :: u16 and c :: crypto_context
  assumes c: "seqNumSet c" "guessed_roc c = guessed s c"
  defines "new \<equiv> top_index c < packet_index s c"
  shows "update s c =
    (let c1 = (if new then shift_window (packet_index s c - top_index c) c
               else mark_window (top_index c - packet_index s c) c);
         c2 = (if new \<and> s > s_l c then c1\<lparr>s_l := s\<rparr> else c1)
     in if guessed_roc c > roc c then c2\<lparr>roc := guessed_roc c, s_l := s\<rparr> else c2)"
proof -
  let ?d = "int (packet_index s c) - int (top_index c)"
  have g: "guessIndex s c = (push_bit 16 (ucast (guessed s c)) OR ucast s, c)"
    using c by (simp add: guessIndex_eq)
  have delta: "sint ((push_bit 16 (ucast (guessed s c)) OR ucast s) - local_index c) = ?d"
    using delta_value[of "guessed s c" s c] c by (simp add: packet_index_def)
  have n: "nat ?d = packet_index s c - top_index c" "nat (- ?d) = top_index c - packet_index s c"
    "?d > 0 \<longleftrightarrow> new" by (simp_all add: new_def)
  show ?thesis
    unfolding update_def g prod.case Let_def delta n mark_window_def by (cases new) simp_all
qed

text \<open>A packet is newer than all received when its rollover counter is higher, or equal with a higher number.\<close>

lemma newer_iff:
  "top_index c < packet_index s c \<longleftrightarrow>
    guessed_roc c > roc c \<or> guessed_roc c = roc c \<and> s > s_l c"
proof -
  have "unat (s_l c) < 65536" "unat s < 65536" using unat_u16[of s] unat_u16[of "s_l c"] by simp_all
  moreover have "a * 65536 + x < b * 65536 + y \<longleftrightarrow> a < b \<or> a = b \<and> x < y"
    if "x < 65536" "y < 65536" for a b x y :: nat
    using that by (cases a b rule: linorder_cases) auto
  ultimately show ?thesis
    by (auto simp: top_index_def packet_index_def seq_index_def word_less_nat_alt word_unat_eq_iff)
qed

lemma update_top:
  assumes c: "seqNumSet c" "guessed_roc c = guessed s c"
  shows "top_index (update s c) = max (top_index c) (packet_index s c)"
    and "top_index c < packet_index s c \<Longrightarrow>
      wbit (update s c) d = wbit (shift_window (packet_index s c - top_index c) c) d"
    and "packet_index s c \<le> top_index c \<Longrightarrow> top_index c - packet_index s c < 128 \<Longrightarrow>
      wbit (update s c) d \<longleftrightarrow> wbit c d \<or> d = top_index c - packet_index s c"
    and "seqNumSet (update s c)" "aalg (update s c) = aalg c" "ealg (update s c) = ealg c"
proof -
  note eq = update_eq[OF c] and new = newer_iff[of c s]
  show "top_index (update s c) = max (top_index c) (packet_index s c)"
  proof (cases "top_index c < packet_index s c")
    case True
    then have "roc (update s c) = guessed_roc c" "s_l (update s c) = s"
      using new by (auto simp: eq Let_def)
    then show ?thesis using True by (simp add: top_index_def packet_index_def)
  next
    case False
    then have "roc (update s c) = roc c" "s_l (update s c) = s_l c"
      using new by (auto simp: eq Let_def)
    then show ?thesis using False by (simp add: top_index_def)
  qed
  show "top_index c < packet_index s c \<Longrightarrow>
      wbit (update s c) d = wbit (shift_window (packet_index s c - top_index c) c) d"
    by (simp add: eq Let_def)
  show "packet_index s c \<le> top_index c \<Longrightarrow> top_index c - packet_index s c < 128 \<Longrightarrow>
      wbit (update s c) d \<longleftrightarrow> wbit c d \<or> d = top_index c - packet_index s c"
    using wbit_mark by (simp add: eq Let_def not_less)
  show "seqNumSet (update s c)" "aalg (update s c) = aalg c" "ealg (update s c) = ealg c"
    using c(1) by (simp_all add: eq Let_def)
qed

lemma knows_update:
  assumes k: "knows c A" and c: "seqNumSet c" "guessed_roc c = guessed s c"
    and ok: "packet_index s c \<le> top_index c \<Longrightarrow> top_index c - packet_index s c < 128"
  shows "knows (update s c) (insert (packet_index s c) A)"
proof -
  note u = update_top[OF c]
  let ?t = "top_index c" and ?i = "packet_index s c"
  show ?thesis
  proof (cases "?t < ?i")
    case True
    have "wbit (update s c) d \<longleftrightarrow> d \<le> ?i \<and> ?i - d \<in> insert ?i A" if d: "d < 128" for d
    proof -
      have "wbit (update s c) d \<longleftrightarrow> d = 0 \<or> ?i - ?t \<le> d \<and> wbit c (d - (?i - ?t))"
        using u(2)[OF True] wbit_shift[of "?i - ?t" c d] True d by simp
      also have "\<dots> \<longleftrightarrow> d \<le> ?i \<and> ?i - d \<in> insert ?i A"
      proof (cases "?i - ?t \<le> d")
        case le: True
        then have "d - (?i - ?t) \<le> ?t \<longleftrightarrow> d \<le> ?i" "?t - (d - (?i - ?t)) = ?i - d" using True by arith+
        then show ?thesis using k d le True by (auto simp: knows_def)
      next
        case False
        then have "?i - d \<notin> A" using k True by (auto simp: knows_def)
        then show ?thesis using False True by auto
      qed
      finally show ?thesis .
    qed
    then show ?thesis using k u(1,4-6) True by (auto simp: knows_def max_def)
  next
    case False
    then have "?i \<le> ?t" "?t - ?i < 128" using ok by simp_all
    from u(3)[OF this]
    have "wbit (update s c) d \<longleftrightarrow> d \<le> ?t \<and> ?t - d \<in> insert ?i A" if "d < 128" for d
      using that k \<open>?i \<le> ?t\<close> by (auto simp: knows_def)
    then show ?thesis using k u(1,4-6) False by (auto simp: knows_def max_def)
  qed
qed

interpretation srtp: replay_protection knows checkReplay packet_index update
proof (unfold_locales, goal_cases)
  case (1 c A s)
  then show ?case using checkReplay_eq[of c s] knows_start[OF 1] by (simp add: knows_def)
next
  case (2 c A s)
  let ?c = "(start_seq s c)\<lparr>guessed_roc := guessed s (start_seq s c)\<rparr>"
  have p: "\<not> (aalg c = SrtpAuthenticationNull \<and> ealg c = SrtpEncryptionNull)" using 2(1) by (simp add: knows_def)
  have k: "knows ?c A" by (rule knows_start[OF 2(1)])
  have "packet_index s ?c \<notin> A"
    using 2(2) k unfolding checkReplay_eq[OF p] by (auto simp: knows_def)
  then show ?case unfolding checkReplay_eq[OF p] by simp
next
  case (3 c A s)
  let ?c = "(start_seq s c)\<lparr>guessed_roc := guessed s (start_seq s c)\<rparr>"
  have p: "\<not> (aalg c = SrtpAuthenticationNull \<and> ealg c = SrtpEncryptionNull)" using 3(1) by (simp add: knows_def)
  have k: "knows ?c A" by (rule knows_start[OF 3(1)])
  have "knows (update s ?c) (insert (packet_index s ?c) A)"
    using 3(2) by (intro knows_update[OF k]) (auto simp: checkReplay_eq[OF p])
  then show ?case unfolding checkReplay_eq[OF p] by simp
qed

end
