(* ===== verification/Srtp_Handler.thy ===== *)
theory Srtp_Handler
  imports Srtp_Replay
begin

text \<open>
  Protecting and unprotecting RTP packets (\<open>srtp/SrtpHandler.cpp\<close>).  A packet is the first \<open>len\<close> bytes
  of a buffer, which may be longer to take the authentication tag.  \<open>None\<close> is an access outside the buffer
  or through a null pointer.
\<close>

section \<open>The RTP header\<close>

record rtp_parts =
  p_ssrc :: u32
  p_seq :: u16
  p_offset :: nat
  p_length :: nat

definition decodeRtp :: "u8 list \<Rightarrow> nat \<Rightarrow> rtp_parts option option" where
  "decodeRtp buffer len =
    (if buffer = [] then None
     else if (buffer ! 0 AND 0xC0) \<noteq> 0x80 then Some None
     else if len < 12 then Some None
     else if length buffer < 12 then None
     else
       (let seq = be_word (take 2 (drop 2 buffer));
            ssrc = be_word (take 4 (drop 8 buffer));
            numCC = unat (buffer ! 0 AND 0x0f);
            offset = 12 + numCC * 4
        in if offset > len then Some None
           else if (buffer ! 0 AND 0x10) = 0x10 then
             (if length buffer < offset + 4 then None
              else
                (let offset = offset + (unat (be_word (take 2 (drop (offset + 2) buffer)) :: u16) + 1) * 4
                 in if offset > len then Some None
                    else Some (Some \<lparr>p_ssrc = ssrc, p_seq = seq, p_offset = offset, p_length = len - offset\<rparr>)))
           else Some (Some \<lparr>p_ssrc = ssrc, p_seq = seq, p_offset = offset, p_length = len - offset\<rparr>)))"

section \<open>Protecting\<close>

text \<open>The result, the buffer, the new length and the context.\<close>

definition protect ::
  "block_cipher \<Rightarrow> skein_mac \<Rightarrow> crypto_context option \<Rightarrow> u8 list \<Rightarrow> nat \<Rightarrow>
    (bool \<times> u8 list \<times> nat \<times> crypto_context option) option" where
  "protect E K pcc buffer len =
    (case pcc of
       None \<Rightarrow> Some (False, buffer, 0, None)
     | Some c \<Rightarrow>
         (case decodeRtp buffer len of
            None \<Rightarrow> None
          | Some None \<Rightarrow> Some (False, buffer, 0, Some c)
          | Some (Some p) \<Rightarrow>
              (let index = push_bit 16 (ucast (roc c)) OR ucast (p_seq p) in
               case srtpEncrypt E c buffer (p_offset p) (p_length p) index (p_ssrc p) of
                 None \<Rightarrow> None
               | Some buffer \<Rightarrow>
                   (case (if tagLength c > 0 then
                            (if length buffer < len + tagLength c then None
                             else map_option (\<lambda>(tag, c). (poke len tag buffer, c))
                                    (srtpAuthenticate K c (take len buffer) (roc c)))
                          else Some (buffer, c)) of
                      None \<Rightarrow> None
                    | Some (buffer, c) \<Rightarrow>
                        (let newLength = len + tagLength c;
                             c = (if p_seq p = 0xFFFF then c\<lparr>roc := roc c + 1\<rparr> else c)
                         in Some (True, buffer, newLength, Some c))))))"

section \<open>Unprotecting\<close>

datatype SrtpErrorType = DecodeError | ReplayError | AuthError

record SrtpErrorData =
  errorType :: SrtpErrorType
  rtpHeader :: "u8 list"
  e_length :: nat
  guessedIndex :: u64

definition fillErrorData :: "SrtpErrorType \<Rightarrow> u8 list \<Rightarrow> nat \<Rightarrow> u64 \<Rightarrow> SrtpErrorData option" where
  "fillErrorData ty buffer len g =
    (if length buffer < 12 then None
     else Some \<lparr>errorType = ty, rtpHeader = take 12 buffer, e_length = len, guessedIndex = g\<rparr>)"

text \<open>The outcome, the buffer, the new length, the context, and the error data when it is asked for.\<close>

type_synonym unprotected = "int \<times> u8 list \<times> nat \<times> crypto_context option \<times> SrtpErrorData option"

definition report ::
  "bool \<Rightarrow> int \<Rightarrow> SrtpErrorType \<Rightarrow> u8 list \<Rightarrow> nat \<Rightarrow> nat \<Rightarrow> u64 \<Rightarrow> crypto_context \<Rightarrow> unprotected option" where
  "report want rc ty buffer len newLength g c =
    (if want then map_option (\<lambda>e. (rc, buffer, newLength, Some c, Some e)) (fillErrorData ty buffer len g)
     else Some (rc, buffer, newLength, Some c, None))"

definition unprotect ::
  "block_cipher \<Rightarrow> skein_mac \<Rightarrow> crypto_context option \<Rightarrow> u8 list \<Rightarrow> nat \<Rightarrow> bool \<Rightarrow> unprotected option" where
  "unprotect E K pcc buffer len want =
    (case pcc of
       None \<Rightarrow> Some (0, buffer, 0, None, None)
     | Some c \<Rightarrow>
         (case decodeRtp buffer len of
            None \<Rightarrow> None
          | Some None \<Rightarrow> report want 0 DecodeError buffer len 0 0 c
          | Some (Some p) \<Rightarrow>
              if len < tagLength c + mkiLength c then None
              else
                (let srtpDataIndex = len - (tagLength c + mkiLength c);
                     len = srtpDataIndex;
                     tagPos = srtpDataIndex + mkiLength c;
                     (g, c) = guessIndex (p_seq p) c;
                     (fresh, c) = checkReplay (p_seq p) c
                 in if \<not> fresh then report want (- 2) ReplayError buffer len len g c
                    else
                      (case (if tagLength c > 0 then
                               map_option (\<lambda>(mac, c). (take (tagLength c) (drop tagPos buffer) = mac, c))
                                 (srtpAuthenticate K c (take len buffer) (ucast (drop_bit 16 g)))
                             else Some (True, c)) of
                         None \<Rightarrow> None
                       | Some (authentic, c) \<Rightarrow>
                           if \<not> authentic then report want (- 1) AuthError buffer len len g c
                           else if p_length p < tagLength c + mkiLength c then None
                           else
                             map_option
                               (\<lambda>buffer. (1, buffer, len, Some (update (p_seq p) c), None))
                               (srtpEncrypt E c buffer (p_offset p) (p_length p - (tagLength c + mkiLength c)) g
                                 (p_ssrc p))))))"

end
