(* ===== verification/Srtp_Correct.thy ===== *)
theory Srtp_Correct
  imports Srtp_Handler
begin

text \<open>
  The properties of SRTP: what is protected is unprotected to the same packet by a receiver with the same
  keys, no packet index is accepted twice, and the faults of the decoder.
\<close>

section \<open>Decoding\<close>

lemma decodeRtp_SomeD:
  assumes "decodeRtp buf len = Some (Some p)"
  shows "12 \<le> p_offset p" "p_offset p + p_length p = len"
  using assms by (auto simp: decodeRtp_def Let_def split: if_splits)

lemma take_eq_nth: "take n xs = take n ys \<Longrightarrow> i < n \<Longrightarrow> n \<le> length xs \<Longrightarrow> n \<le> length ys \<Longrightarrow> xs ! i = ys ! i"
  by (metis nth_take)

lemma take_drop_eq:
  "take n xs = take n ys \<Longrightarrow> a + k \<le> n \<Longrightarrow> take k (drop a xs) = take k (drop a ys)"
  by (metis drop_take min.absorb1 take_drop take_take le_add_diff_inverse2 add.commute)

text \<open>Decoding looks at the header only.\<close>

lemma decodeRtp_header:
  assumes dec: "decodeRtp buf len = Some (Some p)" and same: "take (p_offset p) buf' = take (p_offset p) buf"
    and len: "len \<le> length buf" "len' \<le> length buf'" "p_offset p \<le> len'"
  shows "decodeRtp buf' len' = Some (Some (p\<lparr>p_length := len' - p_offset p\<rparr>))"
proof -
  note off = decodeRtp_SomeD[OF dec]
  have b0: "buf' ! 0 = buf ! 0"
    using take_eq_nth[OF same, of 0] off len by simp
  have seq: "take 2 (drop 2 buf') = take 2 (drop 2 buf)" "take 4 (drop 8 buf') = take 4 (drop 8 buf)"
    using off(1) by (auto intro!: take_drop_eq[OF same])
  let ?o = "12 + unat (buf ! 0 AND 0x0f) * 4"
  have ne: "buf \<noteq> []" "buf' \<noteq> []" "12 \<le> len'" "12 \<le> length buf'" using off len by auto
  show ?thesis
  proof (cases "(buf ! 0 AND 0x10) = 0x10")
    case True
    then have ext: "?o + 4 \<le> p_offset p"
      using dec by (auto simp: decodeRtp_def Let_def split: if_splits)
    then have x: "take 2 (drop (?o + 2) buf') = take 2 (drop (?o + 2) buf)"
      by (intro take_drop_eq[OF same]) simp
    let ?e = "?o + (unat (be_word (take 2 (drop (?o + 2) buf)) :: u16) + 1) * 4"
    have p: "p = \<lparr>p_ssrc = be_word (take 4 (drop 8 buf)), p_seq = be_word (take 2 (drop 2 buf)),
        p_offset = ?e, p_length = len - ?e\<rparr>" and c: "(buf ! 0 AND 0xC0) = 0x80"
      using dec True by (simp_all add: decodeRtp_def Let_def split: if_splits)
    have "?o + 4 \<le> length buf'" "?e \<le> len'" using len p by simp_all
    then show ?thesis
      unfolding decodeRtp_def Let_def b0 seq x using True c ne by (simp add: p not_less)
  next
    case False
    have p: "p = \<lparr>p_ssrc = be_word (take 4 (drop 8 buf)), p_seq = be_word (take 2 (drop 2 buf)),
        p_offset = ?o, p_length = len - ?o\<rparr>" and c: "(buf ! 0 AND 0xC0) = 0x80"
      using dec False by (simp_all add: decodeRtp_def Let_def split: if_splits)
    have "?o \<le> len'" using len p by simp
    then show ?thesis
      unfolding decodeRtp_def Let_def b0 seq using False c ne by (simp add: p not_less)
  qed
qed

section \<open>Encrypting twice\<close>

text \<open>Sender and receiver hold the same keys.\<close>

definition same_keys :: "crypto_context \<Rightarrow> crypto_context \<Rightarrow> bool" where
  "same_keys c d \<longleftrightarrow>
    ealg d = ealg c \<and> aalg d = aalg c \<and> k_s d = k_s c \<and> cipher d = cipher c \<and> f8Cipher d = f8Cipher c \<and>
    tagLength d = tagLength c \<and> tagLength c \<le> 20 \<and> mkiLength d = 0 \<and>
    (aalg c = SrtpAuthenticationNull \<and> tagLength c = 0 \<or>
     aalg c = SrtpAuthenticationSha1Hmac \<and>
       (\<exists>key h h'. macCtx c = Sha1Mac h \<and> macCtx d = Sha1Mac h' \<and> keyed key h \<and> keyed key h') \<or>
     aalg c = SrtpAuthenticationSkeinHmac \<and> (\<exists>key. macCtx c = SkeinMac key (tagLength c * 8) \<and> macCtx d = SkeinMac key (tagLength c * 8)))"

lemma poke_self: "take n (drop i xs) = ys \<Longrightarrow> length ys = n \<Longrightarrow> poke i ys xs = xs"
  by (metis append_take_drop_id drop_drop add.commute poke_def)

lemma ctr_encrypt_SomeD:
  "ctr_encrypt E ci data iv = Some out \<Longrightarrow>
    (skey ci = None \<and> out = data \<or>
     (\<exists>k. skey ci = Some k \<and> length data div 16 < 65536 \<and> out = ctr_transform (block_of E (algorithm ci) k) iv data))"
  by (auto simp: ctr_encrypt_def split: option.splits if_splits)

lemma ctr_encrypt_twice:
  "ctr_encrypt E ci data iv = Some out \<Longrightarrow> length out = length data \<and> ctr_encrypt E ci out iv = Some data"
  using ctr.crypt_twice ctr.crypt_length
  by (fastforce dest!: ctr_encrypt_SomeD simp: ctr_encrypt_def split: option.splits)

lemma f8_encrypt_twice:
  "f8_encrypt E ci data iv f = Some out \<Longrightarrow> length out = length data \<and> f8_encrypt E ci out iv f = Some data"
  using f8.crypt_twice f8.crypt_length
  by (auto simp: f8_encrypt_def sym_encrypt_def block_of_def f8_transform_def split: option.splits)

definition f8_mode :: "crypto_context \<Rightarrow> bool" where
  "f8_mode c \<longleftrightarrow> ealg c \<in> {SrtpEncryptionAESF8, SrtpEncryptionTWOF8}"

lemma ealg_cases [case_names 1 2 3]:
  obtains "ealg c \<in> {SrtpEncryptionAESCM, SrtpEncryptionTWOCM}" | "f8_mode c"
    | "ealg c = SrtpEncryptionNull \<or> ealg c > 4"
proof -
  have "ealg c = 0 \<or> ealg c = 1 \<or> ealg c = 2 \<or> ealg c = 3 \<or> ealg c = 4 \<or> ealg c > 4" by arith
  then show ?thesis using that by (auto simp: f8_mode_def)
qed

text \<open>The two encrypting branches.\<close>

lemma srtpEncrypt_cmD:
  assumes "srtpEncrypt E c buf off n g ssrc = Some b" "ealg c \<in> {SrtpEncryptionAESCM, SrtpEncryptionTWOCM}"
  shows "\<exists>ci out. cipher c = Some ci \<and> 14 \<le> length (k_s c) \<and>
    ctr_encrypt E ci (take n (drop off buf)) (cm_iv (k_s c) ssrc g) = Some out \<and> b = poke off out buf"
proof -
  have "ealg c \<noteq> SrtpEncryptionNull" using assms(2) by auto
  then show ?thesis
    using assms unfolding srtpEncrypt_def
    by (cases "length buf < off + n"; cases "length (k_s c) < 14"; cases "cipher c") (simp_all add: eq_commute[of b])
qed

lemma srtpEncrypt_f8D:
  assumes "srtpEncrypt E c buf off n g ssrc = Some b" "f8_mode c"
  shows "\<exists>ci f8 out. cipher c = Some ci \<and> f8Cipher c = Some f8 \<and>
    f8_encrypt E ci (take n (drop off buf)) (f8_iv buf (roc c)) f8 = Some out \<and> b = poke off out buf"
proof -
  have m: "ealg c \<noteq> SrtpEncryptionNull" "ealg c \<notin> {SrtpEncryptionAESCM, SrtpEncryptionTWOCM}"
    "ealg c \<in> {SrtpEncryptionAESF8, SrtpEncryptionTWOF8}" using assms(2) by (auto simp: f8_mode_def)
  show ?thesis
    using assms(1) unfolding srtpEncrypt_def if_not_P[OF m(1)] if_not_P[OF m(2)] if_P[OF m(3)]
    by (cases "length buf < off + n"; cases "length buf < 12"; cases "cipher c"; cases "f8Cipher c")
      (simp_all add: eq_commute[of b])
qed

lemma srtpEncrypt_nullD:
  assumes "srtpEncrypt E c buf off n g ssrc = Some b" "ealg c = SrtpEncryptionNull \<or> ealg c > 4"
  shows "b = buf"
  using assms unfolding srtpEncrypt_def
  by (cases "ealg c = SrtpEncryptionNull"; cases "length buf < off + n") auto

lemma srtpEncrypt_shape:
  assumes "srtpEncrypt E c buf off n g ssrc = Some b" "off + n \<le> length buf"
  shows "length b = length buf" "take off b = take off buf" "drop (off + n) b = drop (off + n) buf"
proof -
  have pay: "length (take n (drop off buf)) = n" using assms(2) by simp
  have "\<exists>out. length out = n \<and> b = poke off out buf"
  proof (cases c rule: ealg_cases)
    case 1
    then show ?thesis using srtpEncrypt_cmD[OF assms(1)] ctr_encrypt_twice pay by metis
  next
    case 2
    then show ?thesis using srtpEncrypt_f8D[OF assms(1)] f8_encrypt_twice pay by metis
  next
    case 3
    then show ?thesis using srtpEncrypt_nullD[OF assms(1)] pay poke_self[OF refl pay] by metis
  qed
  then obtain out where "length out = n" "b = poke off out buf" by blast
  then show "length b = length buf" "take off b = take off buf" "drop (off + n) b = drop (off + n) buf"
    using assms(2) by (simp_all add: poke_def)
qed

lemma poke_payload: "length out = n \<Longrightarrow> off + n \<le> length buf \<Longrightarrow> take n (drop off (poke off out buf)) = out"
  by (simp add: poke_def)

lemma srtpEncrypt_twice:
  assumes enc: "srtpEncrypt E c buf off n g ssrc = Some b"
    and keys: "ealg d = ealg c" "k_s d = k_s c" "cipher d = cipher c" "f8Cipher d = f8Cipher c"
    and roc: "f8_mode c \<Longrightarrow> roc d = roc c"
    and len: "12 \<le> off" "off + n \<le> length buf" "off + n \<le> length b2"
    and head: "take 12 b2 = take 12 buf" and pay: "take n (drop off b2) = take n (drop off b)"
  shows "srtpEncrypt E d b2 off n g ssrc = Some (poke off (take n (drop off buf)) b2)"
proof (cases c rule: ealg_cases)
  case 1
  then obtain ci out where ci: "cipher c = Some ci" "14 \<le> length (k_s c)"
    and out: "ctr_encrypt E ci (take n (drop off buf)) (cm_iv (k_s c) ssrc g) = Some out" "b = poke off out buf"
    using srtpEncrypt_cmD[OF enc] by blast
  note tw = ctr_encrypt_twice[OF out(1)]
  have "length out = n" using tw len by simp
  then have "take n (drop off b2) = out" using pay len by (simp add: out(2) poke_payload)
  then show ?thesis using 1 ci tw keys len by (auto simp: srtpEncrypt_def)
next
  case 2
  then obtain ci f8 out where ci: "cipher c = Some ci" "f8Cipher c = Some f8"
    and out: "f8_encrypt E ci (take n (drop off buf)) (f8_iv buf (roc c)) f8 = Some out" "b = poke off out buf"
    using srtpEncrypt_f8D[OF enc] by blast
  note tw = f8_encrypt_twice[OF out(1)]
  have "length out = n" using tw len by simp
  then have "take n (drop off b2) = out" using pay len by (simp add: out(2) poke_payload)
  moreover have "f8_iv b2 (roc d) = f8_iv buf (roc c)" using head roc[OF 2] by (simp add: f8_iv_def)
  ultimately show ?thesis using 2 ci tw keys len by (auto simp: srtpEncrypt_def f8_mode_def)
next
  case 3
  then have "b = buf" using srtpEncrypt_nullD[OF enc] by blast
  moreover have "length (take n (drop off buf)) = n" using len by simp
  ultimately have "poke off (take n (drop off buf)) b2 = b2" using pay by (intro poke_self) simp_all
  then show ?thesis using 3 keys len by (auto simp: srtpEncrypt_def)
qed

section \<open>Authentication\<close>

text \<open>Skein writes as many bits as it is asked for.\<close>

definition skein_length :: "skein_mac \<Rightarrow> bool" where
  "skein_length K \<longleftrightarrow> (\<forall>key bits data. length (K key bits data) = bits div 8)"

lemma mac_keyed:
  assumes "keyed key h" "length pkt < 2 ^ 32"
  shows "fst (hmacSha1Ctx_chunks [pkt, be_bytes (r :: u32)] h) = (hmac_spec 64 sha1_spec key (pkt @ be_bytes r), 64)"
    and "keyed key (snd (hmacSha1Ctx_chunks [pkt, be_bytes (r :: u32)] h))"
  using hmac_chunks[OF assms(1), of "[pkt, be_bytes r]"] assms(2) by simp_all

lemma authenticate_same:
  assumes K: "skein_length K" and same: "same_keys c d" and len: "length pkt < 2 ^ 32"
  shows "\<exists>tag m m'. srtpAuthenticate K c pkt r = Some (tag, c\<lparr>macCtx := m\<rparr>) \<and>
    srtpAuthenticate K d pkt r = Some (tag, d\<lparr>macCtx := m'\<rparr>) \<and> length tag = tagLength c \<and>
    same_keys (c\<lparr>macCtx := m\<rparr>) (d\<lparr>macCtx := m'\<rparr>)"
proof -
  consider "aalg c = SrtpAuthenticationNull" "tagLength c = 0"
    | key h h' where "aalg c = SrtpAuthenticationSha1Hmac" "macCtx c = Sha1Mac h" "macCtx d = Sha1Mac h'" "keyed key h"
      "keyed key h'"
    | key where "aalg c = SrtpAuthenticationSkeinHmac" "macCtx c = SkeinMac key (tagLength c * 8)"
      "macCtx d = SkeinMac key (tagLength c * 8)"
    using same unfolding same_keys_def by (elim conjE disjE exE) simp_all
  then show ?thesis
  proof cases
    case 1
    then show ?thesis using same
      by (intro exI[of _ "[]"] exI[of _ "macCtx c"] exI[of _ "macCtx d"]) (simp add: srtpAuthenticate_def same_keys_def)
  next
    case (2 key h h')
    let ?m = "Sha1Mac (snd (hmacSha1Ctx_chunks [pkt, be_bytes r] h))"
      and ?m' = "Sha1Mac (snd (hmacSha1Ctx_chunks [pkt, be_bytes r] h'))"
    have "length (hmac_spec 64 sha1_spec key x) = 20" for x by (simp add: hmac_spec_def Let_def length_sha1_spec)
    then show ?thesis
      using same 2 mac_keyed[OF 2(4) len, of r] mac_keyed[OF 2(5) len, of r]
      by (intro exI[of _ "take (tagLength c) (hmac_spec 64 sha1_spec key (pkt @ be_bytes r))"] exI[of _ ?m] exI[of _ ?m'])
        (auto simp: srtpAuthenticate_def same_keys_def Let_def split_beta)
  next
    case (3 key)
    then show ?thesis
      using same K
      by (intro exI[of _ "K key (tagLength c * 8) (pkt @ be_bytes r)"] exI[of _ "macCtx c"] exI[of _ "macCtx d"])
        (auto simp: srtpAuthenticate_def same_keys_def skein_length_def)
  qed
qed

section \<open>What is protected is unprotected\<close>

lemma same_keys_fields:
  assumes "same_keys c d"
  shows "same_keys c (d\<lparr>seqNumSet := a, s_l := b, guessed_roc := r\<rparr>)" "same_keys (c\<lparr>roc := r\<rparr>) d"
    "same_keys c (start_seq s d)" "same_keys c (d\<lparr>guessed_roc := r\<rparr>)"
  using assms by (simp_all add: same_keys_def start_seq_def)

text \<open>What the two ends share and the window does not touch.\<close>

definition key_part :: "crypto_context \<Rightarrow> nat \<times> nat \<times> u8 list \<times> sym_crypto option \<times> sym_crypto option \<times> nat \<times> nat \<times> mac_ctx" where
  "key_part c = (ealg c, aalg c, k_s c, cipher c, f8Cipher c, tagLength c, mkiLength c, macCtx c)"

lemma key_part_fields [simp]:
  "key_part (c\<lparr>roc := r\<rparr>) = key_part c" "key_part (c\<lparr>s_l := s\<rparr>) = key_part c"
  "key_part (c\<lparr>guessed_roc := r\<rparr>) = key_part c" "key_part (c\<lparr>window0 := w\<rparr>) = key_part c"
  "key_part (c\<lparr>window1 := w\<rparr>) = key_part c" "key_part (c\<lparr>seqNumSet := b\<rparr>) = key_part c"
  by (simp_all add: key_part_def)

lemma key_part_if: "key_part (if b then x else y) = (if b then key_part x else key_part y)"
  by simp

lemma key_part_shift [simp]: "key_part (shift_window n c) = key_part c"
  by (simp add: shift_window_def Let_def)

lemma key_part_start [simp]: "key_part (start_seq s c) = key_part c"
  by (simp add: start_seq_def)

lemma key_part_update: "key_part (update s c) = key_part c"
  unfolding update_def guessIndex_eq Let_def prod.case key_part_if key_part_fields key_part_shift key_part_start
  by (simp only: if_cancel)

lemma update_keys:
  "ealg (update s c) = ealg c" "aalg (update s c) = aalg c" "k_s (update s c) = k_s c" "cipher (update s c) = cipher c"
  "f8Cipher (update s c) = f8Cipher c" "tagLength (update s c) = tagLength c" "mkiLength (update s c) = mkiLength c"
  "macCtx (update s c) = macCtx c"
  using key_part_update[of s c] by (simp_all add: key_part_def)

lemma same_keys_update: "same_keys c d \<Longrightarrow> same_keys c (update s d)"
  by (simp add: same_keys_def update_keys)

lemma macCtx_irrelevant [simp]:
  "knows (c\<lparr>macCtx := m\<rparr>) A = knows c A" "top_index (c\<lparr>macCtx := m\<rparr>) = top_index c"
  "packet_index s (c\<lparr>macCtx := m\<rparr>) = packet_index s c" "guessed s (c\<lparr>macCtx := m\<rparr>) = guessed s c"
  by (simp_all add: knows_def top_index_def packet_index_def guessed_def wbit_def)

text \<open>A successful \<open>protect\<close>: the packet is encrypted in place and the tag is put behind it.\<close>

lemma protect_SomeD:
  assumes prot: "protect E K (Some c) buf len = Some (True, buf', n, Some c')"
    and dec: "decodeRtp buf len = Some (Some p)"
    and K: "skein_length K" and same: "same_keys c d" and len: "len \<le> length buf" "len < 2 ^ 32"
  obtains b tag m m' where
    "srtpEncrypt E c buf (p_offset p) (p_length p) (push_bit 16 (ucast (roc c)) OR ucast (p_seq p)) (p_ssrc p) = Some b"
    "n = len + tagLength c" "length tag = tagLength c" "buf' = (if tagLength c > 0 then poke len tag b else b)"
    "length buf' = length buf" "take len buf' = take len b" "take (tagLength c) (drop len buf') = tag"
    "tagLength c > 0 \<longrightarrow> len + tagLength c \<le> length buf"
    "c' = (c\<lparr>macCtx := m\<rparr>)\<lparr>roc := roc c'\<rparr>" "same_keys (c\<lparr>macCtx := m\<rparr>) (d\<lparr>macCtx := m'\<rparr>)"
    "tagLength c > 0 \<longrightarrow> srtpAuthenticate K d (take len b) (roc c) = Some (tag, d\<lparr>macCtx := m'\<rparr>)"
    "tagLength c = 0 \<longrightarrow> m' = macCtx d"
proof -
  note off = decodeRtp_SomeD[OF dec]
  obtain b where b: "srtpEncrypt E c buf (p_offset p) (p_length p) (push_bit 16 (ucast (roc c)) OR ucast (p_seq p)) (p_ssrc p) = Some b"
    using prot dec by (auto simp: protect_def split: option.splits)
  have lb: "length b = length buf" using srtpEncrypt_shape[OF b] off len by simp
  show ?thesis
  proof (cases "tagLength c = 0")
    case True
    then have "c' = (if p_seq p = 0xFFFF then c\<lparr>roc := roc c + 1\<rparr> else c)" "buf' = b" "n = len"
      using prot dec b by (simp_all add: protect_def Let_def)
    then show ?thesis
      using that[OF b, of "[]" "macCtx c" "macCtx d"] lb same True by auto
  next
    case False
    obtain tag m m' where a: "srtpAuthenticate K c (take len b) (roc c) = Some (tag, c\<lparr>macCtx := m\<rparr>)"
      "srtpAuthenticate K d (take len b) (roc c) = Some (tag, d\<lparr>macCtx := m'\<rparr>)"
      "length tag = tagLength c" "same_keys (c\<lparr>macCtx := m\<rparr>) (d\<lparr>macCtx := m'\<rparr>)"
      using authenticate_same[OF K same, of "take len b" "roc c"] len lb by auto
    have fit: "len + tagLength c \<le> length buf"
      using prot dec b lb False by (auto simp: protect_def Let_def split: if_splits)
    then have "buf' = poke len tag b" "n = len + tagLength c"
      and "c' = (if p_seq p = 0xFFFF then (c\<lparr>macCtx := m\<rparr>)\<lparr>roc := roc c + 1\<rparr> else c\<lparr>macCtx := m\<rparr>)"
      using prot dec b lb False a(1) by (auto simp: protect_def Let_def)
    then show ?thesis
      using that[OF b, of tag m m'] a lb fit False by (auto simp: poke_def)
  qed
qed

lemma unprotect_intro:
  assumes dec: "decodeRtp buf len = Some (Some \<lparr>p_ssrc = ss, p_seq = s, p_offset = off, p_length = pl\<rparr>)"
    and tag: "tagLength d \<le> len" "mkiLength d = 0" "tagLength d \<le> pl"
    and g: "guessIndex s d = (g, d1)" and fresh: "checkReplay s d1 = (True, d2)"
    and same: "tagLength d2 = tagLength d" "mkiLength d2 = 0"
    and auth: "0 < tagLength d \<Longrightarrow>
      srtpAuthenticate K d2 (take (len - tagLength d) buf) (ucast (drop_bit 16 g)) =
        Some (take (tagLength d) (drop (len - tagLength d) buf), d3)"
    "tagLength d = 0 \<Longrightarrow> d3 = d2" "tagLength d3 = tagLength d" "mkiLength d3 = 0"
    and enc: "srtpEncrypt E d3 buf off (pl - tagLength d) g ss = Some b"
  shows "unprotect E K (Some d) buf len want = Some (1, b, len - tagLength d, Some (update s d3), None)"
proof -
  have "\<not> len < tagLength d" using tag by simp
  then show ?thesis
    using assms by (cases "tagLength d = 0") (simp_all add: unprotect_def Let_def)
qed

lemma unprotect_cases:
  assumes dec: "decodeRtp buf len = Some (Some p)"
    and g: "guessIndex (p_seq p) c = (g, c1)" and ch: "checkReplay (p_seq p) c1 = (fresh, c1)"
    and u: "unprotect E K (Some c) buf len False = Some (rc, b, n, cc', e)"
  shows "rc \<noteq> 1 \<and> cc' = Some c1 \<or>
    (\<exists>pkt r tag c2. srtpAuthenticate K c1 pkt r = Some (tag, c2) \<and>
      (rc \<noteq> 1 \<and> cc' = Some c2 \<or> fresh \<and> rc = 1 \<and> cc' = Some (update (p_seq p) c2))) \<or>
    fresh \<and> rc = 1 \<and> cc' = Some (update (p_seq p) c1)"
proof (cases fresh)
  case False
  then show ?thesis
    using u dec g ch by (auto simp: unprotect_def Let_def report_def split: if_splits)
next
  case True
  note un = u[unfolded unprotect_def option.case dec Let_def g ch prod.case]
  show ?thesis
  proof (cases "tagLength c1 > 0")
    case tagged: True
    show ?thesis
      using un True tagged by (auto simp: report_def split: if_splits option.splits) blast+
  next
    case False
    then show ?thesis using un True by (auto simp: report_def split: if_splits option.splits)
  qed
qed

lemma drop_index: "ucast (drop_bit 16 (push_bit 16 (ucast (r :: u32)) OR ucast (s :: u16) :: u64)) = r"
  by (rule bit_word_eqI) (auto simp: bit_simps dest: bit_imp_le_length)

text \<open>The receiver's state when it has guessed the index of a packet.\<close>

definition guess_state :: "u16 \<Rightarrow> crypto_context \<Rightarrow> crypto_context" where
  "guess_state s d = (start_seq s d)\<lparr>guessed_roc := guessed s (start_seq s d)\<rparr>"

lemma guess_state_idem [simp]: "guess_state s (guess_state s d) = guess_state s d"
  by (simp add: guess_state_def start_seq_def guessed_def)

lemma guess_state_fields [simp]:
  "tagLength (guess_state s d) = tagLength d" "mkiLength (guess_state s d) = mkiLength d"
  "seqNumSet (guess_state s d)" "roc (guess_state s d) = roc d" "macCtx (guess_state s d) = macCtx d"
  "guessed_roc (guess_state s d) = guessed s (guess_state s d)"
  "top_index (guess_state s d) = top_index (start_seq s d)"
  by (simp_all add: guess_state_def start_seq_def guessed_def top_index_def)

lemma same_keys_guess: "same_keys c d \<Longrightarrow> same_keys c (guess_state s d)"
  by (simp add: guess_state_def same_keys_def start_seq_def)

text \<open>The check accepts exactly the indices that the window can tell to be new.\<close>

lemma checkReplay_exact:
  assumes "knows c A"
  shows "checkReplay s c =
    (top_index (guess_state s c) < packet_index s (guess_state s c) + 128 \<and> packet_index s (guess_state s c) \<notin> A,
     guess_state s c)"
proof -
  let ?c = "guess_state s c" let ?t = "top_index ?c" and ?i = "packet_index s ?c"
  have k: "knows ?c A" unfolding guess_state_def by (rule knows_start[OF assms])
  have eq: "checkReplay s c = (?t < ?i \<or> ?t - ?i < 128 \<and> \<not> wbit ?c (?t - ?i), ?c)"
    using checkReplay_eq[of c s, folded guess_state_def] assms by (simp add: knows_def)
  have "?i \<notin> A" if "?t < ?i" using k that by (auto simp: knows_def)
  moreover have "wbit ?c (?t - ?i) \<longleftrightarrow> ?i \<in> A" if "?i \<le> ?t" "?t - ?i < 128"
    using k that by (simp add: knows_def)
  moreover have "?t < ?i + 128 \<longleftrightarrow> ?t < ?i \<or> ?t - ?i < 128" by arith
  ultimately show ?thesis unfolding eq by (cases "?t < ?i"; cases "?t - ?i < 128") simp_all
qed

lemma payload_restored:
  assumes "off + n = len" "len \<le> length buf" "length buf' = length buf" "take off buf' = take off buf"
  shows "take len (poke off (take n (drop off buf)) buf') = take len buf"
proof -
  have "take len buf = take off buf @ take n (drop off buf)" using assms(1) take_add[of off n buf] by simp
  moreover have "len - off = n" using assms(1) by simp
  ultimately show ?thesis using assms by (simp add: poke_def)
qed

lemma srtp_transport:
  assumes prot: "protect E K (Some c) buf len = Some (True, buf', n, Some c')"
    and dec: "decodeRtp buf len = Some (Some p)"
    and K: "skein_length K" and same: "same_keys c d" and len: "len \<le> length buf" "len < 2 ^ 32"
    and known: "knows d A" and new: "seq_index (roc c) (p_seq p) \<notin> A"
    and near: "\<bar>int (seq_index (roc c) (p_seq p)) - int (top_index (start_seq (p_seq p) d))\<bar> < 32768"
    and window: "top_index (start_seq (p_seq p) d) < seq_index (roc c) (p_seq p) + 128"
    and f8: "f8_mode c \<Longrightarrow> roc d = roc c"
  shows "\<exists>b d'. unprotect E K (Some d) buf' n want = Some (1, b, len, Some d', None) \<and>
    take len b = take len buf \<and> length b = length buf \<and>
    knows d' (insert (seq_index (roc c) (p_seq p)) A) \<and> same_keys c' d'"
proof -
  let ?s = "p_seq p" let ?g = "push_bit 16 (ucast (roc c)) OR ucast ?s :: u64"
  let ?d = "guess_state ?s d"
  note off = decodeRtp_SomeD[OF dec]
  have same': "same_keys c ?d" by (rule same_keys_guess[OF same])
  obtain b tag m m' where b: "srtpEncrypt E c buf (p_offset p) (p_length p) ?g (p_ssrc p) = Some b"
    and n: "n = len + tagLength c" and tag: "length tag = tagLength c"
    and poked: "buf' = (if tagLength c > 0 then poke len tag b else b)"
    and buf': "length buf' = length buf" "take len buf' = take len b" "take (tagLength c) (drop len buf') = tag"
      "tagLength c > 0 \<longrightarrow> len + tagLength c \<le> length buf"
    and c': "c' = (c\<lparr>macCtx := m\<rparr>)\<lparr>roc := roc c'\<rparr>"
    and same3: "same_keys (c\<lparr>macCtx := m\<rparr>) (?d\<lparr>macCtx := m'\<rparr>)"
    and auth: "tagLength c > 0 \<longrightarrow> srtpAuthenticate K ?d (take len b) (roc c) = Some (tag, ?d\<lparr>macCtx := m'\<rparr>)"
      "tagLength c = 0 \<longrightarrow> m' = macCtx ?d"
    by (rule protect_SomeD[OF prot dec K same' len]) (rule that, assumption+)
  let ?d3 = "?d\<lparr>macCtx := m'\<rparr>"
  note sh = srtpEncrypt_shape[OF b]
  have keys: "tagLength d = tagLength c" "mkiLength d = 0" using same by (simp_all add: same_keys_def)
  have guess: "guessed ?s ?d = roc c"
    using guess_accurate[OF near] by (simp add: guess_state_def)
  then have g: "guessIndex ?s d = (?g, ?d)"
    by (simp add: guessIndex_eq guess_state_def)
  have idx: "packet_index ?s ?d = seq_index (roc c) ?s"
    using guess by (simp add: packet_index_def)
  have k: "knows ?d A" unfolding guess_state_def by (rule knows_start[OF known])
  have ok: "checkReplay ?s ?d = (True, ?d)"
    unfolding checkReplay_exact[OF k] guess_state_idem idx using new window by simp
  have dec': "decodeRtp buf' n = Some (Some (p\<lparr>p_length := n - p_offset p\<rparr>))"
  proof (rule decodeRtp_header[OF dec])
    have "p_offset p \<le> len" using off by simp
    then have "take (p_offset p) buf' = take (p_offset p) b"
      using buf'(2) by (metis min.absorb1 take_take)
    then show "take (p_offset p) buf' = take (p_offset p) buf" using sh(2) off len by simp
    show "n \<le> length buf'" using n buf'(1,4) len by (cases "tagLength c = 0") auto
  qed (use len off n in auto)
  have head: "take 12 buf' = take 12 buf"
  proof -
    have "12 \<le> len" "12 \<le> p_offset p" using off by simp_all
    then have "take 12 buf' = take 12 b" "take 12 b = take 12 buf"
      using buf'(2) sh(2) off len by (metis min.absorb1 take_take order_trans)+
    then show ?thesis by simp
  qed
  have pay: "take (p_length p) (drop (p_offset p) buf') = take (p_length p) (drop (p_offset p) b)"
    using buf'(2) off by (intro take_drop_eq) auto
  have "srtpEncrypt E ?d3 buf' (p_offset p) (p_length p) ?g (p_ssrc p) =
      Some (poke (p_offset p) (take (p_length p) (drop (p_offset p) buf)) buf')"
    using same' f8 off len buf'(1) by (intro srtpEncrypt_twice[OF b _ _ _ _ _ _ _ _ head pay]) (simp_all add: same_keys_def)
  then have enc2: "srtpEncrypt E ?d3 buf' (p_offset p) (n - p_offset p - tagLength d) ?g (p_ssrc p) =
      Some (poke (p_offset p) (take (p_length p) (drop (p_offset p) buf)) buf')"
    using n off(2)[symmetric] keys by simp
  have auth': "srtpAuthenticate K ?d (take (n - tagLength d) buf') (ucast (drop_bit 16 ?g)) =
      Some (take (tagLength d) (drop (n - tagLength d) buf'), ?d3)" if "0 < tagLength d"
    unfolding drop_index using auth that buf' n keys by simp
  have d3: "?d3 = ?d" if "tagLength d = 0" using auth(2) that keys by simp
  have dec3: "decodeRtp buf' n = Some (Some \<lparr>p_ssrc = p_ssrc p, p_seq = ?s, p_offset = p_offset p, p_length = n - p_offset p\<rparr>)"
    unfolding dec' by (cases p) simp
  have tl: "tagLength ?d = tagLength d" "mkiLength ?d = 0" "tagLength ?d3 = tagLength d" "mkiLength ?d3 = 0"
    using keys(2) by simp_all
  have fits: "tagLength d \<le> n" "tagLength d \<le> n - p_offset p" using n off keys by simp_all
  have "unprotect E K (Some d) buf' n want =
      Some (1, poke (p_offset p) (take (p_length p) (drop (p_offset p) buf)) buf', n - tagLength d,
        Some (update ?s ?d3), None)"
    by (rule unprotect_intro[OF dec3 fits(1) keys(2) fits(2) g ok tl(1,2) auth' d3 tl(3,4) enc2])
  moreover have "take len (poke (p_offset p) (take (p_length p) (drop (p_offset p) buf)) buf') = take len buf"
    using payload_restored[OF off(2) len(1) buf'(1)] buf'(2) sh(2) off len
    by (metis le_add1 min.absorb1 take_take)
  moreover have "knows (update ?s ?d3) (insert (seq_index (roc c) ?s) A)"
    using knows_update[of ?d3 A ?s] k window by (simp add: idx)
  moreover have "same_keys c' (update ?s ?d3)"
    using same_keys_update[OF same_keys_fields(2)[OF same3]] c' by metis
  ultimately show ?thesis using n keys off len buf'(1) by (auto simp: poke_def)
qed

section \<open>A receiver\<close>

text \<open>Receiving with \<open>unprotect\<close>: the index is that of the guess.\<close>

definition rtp_receive ::
  "block_cipher \<Rightarrow> skein_mac \<Rightarrow> u8 list \<times> nat \<Rightarrow> crypto_context \<Rightarrow> (nat option \<times> crypto_context) option" where
  "rtp_receive E K pkt c =
    (case unprotect E K (Some c) (fst pkt) (snd pkt) False of
       Some (rc, _, _, Some c', _) \<Rightarrow>
         Some (if rc = 1 then
                 (case decodeRtp (fst pkt) (snd pkt) of
                    Some (Some p) \<Rightarrow> Some (packet_index (p_seq p) c')
                  | _ \<Rightarrow> None)
               else None, c')
     | _ \<Rightarrow> None)"

lemma authenticate_macCtx:
  "srtpAuthenticate K c pkt r = Some (tag, c') \<Longrightarrow> c' = c\<lparr>macCtx := macCtx c'\<rparr>"
  by (auto simp: srtpAuthenticate_def Let_def split_beta split: if_splits mac_ctx.splits)

text \<open>What becomes of the context: the guess is made, a MAC may be computed, and a delivered packet is recorded.\<close>

lemma unprotect_outcome:
  assumes u: "unprotect E K (Some c) buf len False = Some (rc, b, n, cc', e)" and k: "knows c A"
  shows "decodeRtp buf len = Some None \<and> rc \<noteq> 1 \<and> cc' = Some c \<or>
    (\<exists>p m. decodeRtp buf len = Some (Some p) \<and>
      (rc \<noteq> 1 \<and> cc' = Some ((guess_state (p_seq p) c)\<lparr>macCtx := m\<rparr>) \<or>
       rc = 1 \<and> fst (checkReplay (p_seq p) (guess_state (p_seq p) c)) \<and>
         cc' = Some (update (p_seq p) ((guess_state (p_seq p) c)\<lparr>macCtx := m\<rparr>))))"
proof (cases "decodeRtp buf len")
  case None
  then show ?thesis using u by (simp add: unprotect_def)
next
  case (Some op)
  show ?thesis
  proof (cases op)
    case None
    then show ?thesis using u \<open>decodeRtp buf len = Some op\<close> by (simp add: unprotect_def report_def)
  next
    case (Some p)
    let ?s = "p_seq p" let ?c = "guess_state ?s c"
    have dec: "decodeRtp buf len = Some (Some p)" using Some \<open>decodeRtp buf len = Some op\<close> by simp
    have g: "guessIndex ?s c = (fst (guessIndex ?s c), ?c)" by (simp add: guessIndex_eq guess_state_def)
    have k': "knows ?c A" unfolding guess_state_def by (rule knows_start[OF k])
    have ch: "checkReplay ?s ?c = (fst (checkReplay ?s ?c), ?c)"
      unfolding checkReplay_exact[OF k'] by simp
    from unprotect_cases[OF dec g ch u]
    obtain c2 where c2: "c2 = ?c\<lparr>macCtx := macCtx c2\<rparr>"
      and out: "rc \<noteq> 1 \<and> cc' = Some c2 \<or> rc = 1 \<and> fst (checkReplay ?s ?c) \<and> cc' = Some (update ?s c2)"
    proof (elim disjE exE conjE, goal_cases)
      case 1
      then show ?case by (intro 1(1)[of ?c]) simp_all
    next
      case (2 pkt r tag c2)
      then show ?case by (intro 2(1)[of c2] authenticate_macCtx[OF 2(2)]) simp_all
    next
      case (3 pkt r tag c2)
      then show ?case by (intro 3(1)[of c2] authenticate_macCtx[OF 3(2)]) simp_all
    next
      case 4
      then show ?case by (intro 4(1)[of ?c]) simp_all
    qed
    then show ?thesis using dec by metis
  qed
qed

lemma update_guessed: "seqNumSet c \<Longrightarrow> guessed_roc (update s c) = guessed s c"
  by (simp add: update_def guessIndex_eq shift_window_def Let_def)

lemma rtp_receive_cases:
  assumes r: "rtp_receive E K pkt c = Some (oi, c')" and k: "knows c A"
  shows "case oi of None \<Rightarrow> knows c' A | Some i \<Rightarrow> i \<notin> A \<and> knows c' (insert i A)"
proof -
  obtain rc b n e where u: "unprotect E K (Some c) (fst pkt) (snd pkt) False = Some (rc, b, n, Some c', e)"
    and oi: "oi = (if rc = 1 then
                 (case decodeRtp (fst pkt) (snd pkt) of
                    Some (Some p) \<Rightarrow> Some (packet_index (p_seq p) c')
                  | _ \<Rightarrow> None)
               else None)"
    using r by (auto simp: rtp_receive_def split: option.splits)
  from unprotect_outcome[OF u k] show ?thesis
  proof (elim disjE exE conjE, goal_cases)
    case 1
    then show ?case using k oi by simp
  next
    case (2 p m)
    have "knows (guess_state (p_seq p) c) A" unfolding guess_state_def by (rule knows_start[OF k])
    then show ?case using 2 oi by simp
  next
    case (3 p m)
    let ?s = "p_seq p" let ?c = "guess_state ?s c"
    have k': "knows ?c A" unfolding guess_state_def by (rule knows_start[OF k])
    have idx: "packet_index ?s c' = packet_index ?s ?c"
      using 3 by (simp add: packet_index_def update_guessed)
    have "top_index ?c < packet_index ?s ?c + 128" "packet_index ?s ?c \<notin> A"
      using 3(3) unfolding checkReplay_exact[OF k'] by simp_all
    moreover have "knows (update ?s (?c\<lparr>macCtx := m\<rparr>)) (insert (packet_index ?s ?c) A)"
      using knows_update[of "?c\<lparr>macCtx := m\<rparr>" A ?s] k' calculation by simp
    ultimately show ?case using 3 oi idx by simp
  qed
qed

interpretation rtp: once_only knows "rtp_receive E K" for E K
  by unfold_locales (auto dest: rtp_receive_cases)

section \<open>A new context\<close>

text \<open>A context that the constructor made and \<open>deriveSrtpKeys\<close> keyed.\<close>

definition srtp_context ::
  "block_cipher \<Rightarrow> crypto_context \<Rightarrow> u32 \<Rightarrow> u8 list \<Rightarrow> u8 list \<Rightarrow>
    nat \<Rightarrow> nat \<Rightarrow> nat \<Rightarrow> nat \<Rightarrow> nat \<Rightarrow> nat \<Rightarrow> crypto_context option" where
  "srtp_context E junk ssrc mkey msalt ea aa ekl akl skl tag =
    deriveSrtpKeys E 0
      (CryptoContext junk (\<lambda>n. replicate n 0) ssrc 0 0 ea aa mkey msalt ekl akl skl tag)"

lemma stream_blocks_length:
  "(\<And>b. length (enc b) = 16) \<Longrightarrow> length (fst (stream_blocks enc n c iv)) = 16 * n"
  by (induction n arbitrary: c iv) (simp_all add: Let_def split_beta)

lemma cipher_stream_length:
  assumes "get_ctr_cipher_stream E ci len iv = Some out"
  shows "length out = len" "len < 2 ^ 32"
proof -
  have sb: "length (fst (stream_blocks (block_of E a k) n c iv)) = 16 * n" for a k n c iv
    by (rule stream_blocks_length) simp
  show "length out = len"
    using assms sb[of _ _ "len div 16" 0 iv] mult_div_mod_eq[of 16 len]
    by (auto simp: get_ctr_cipher_stream_def Let_def split_beta min_def split: if_splits option.splits)
  show "len < 2 ^ 32"
    using assms by (auto simp: get_ctr_cipher_stream_def split: if_splits option.splits)
qed

lemma CryptoContext_fields:
  assumes "c = CryptoContext junk fill ssrc r0 rate ea aa mkey msalt ekl akl skl tag"
  shows "ealg c = ea" "aalg c = aa" "mkiLength c = 0" "roc c = r0"
    "master_key c = mkey" "master_salt c = msalt" "labelBase c = 0"
    "key_deriv_rate c = rate" "window0 c = 0" "window1 c = 0" "\<not> seqNumSet c"
    "cipher c = (if ea \<in> {3, 4} then Some (SrtpSymCrypto 3) else if ea \<in> {1, 2} then Some (SrtpSymCrypto 1) else None)"
    "f8Cipher c = (if ea \<in> {2, 4} then Some (SrtpSymCrypto ea) else None)"
    "ea \<in> {1, 2, 3, 4} \<Longrightarrow> k_e c = fill ekl \<and> k_s c = fill skl"
    "aa \<in> {1, 2} \<Longrightarrow> k_a c = fill akl \<and> tagLength c = tag"
    "aa = 0 \<Longrightarrow> k_a c = [] \<and> tagLength c = 0"
  unfolding assms CryptoContext_def Let_def by auto

lemma derived_fields:
  assumes "deriveSrtpKeys E index c = Some d"
  shows "ealg d = ealg c" "aalg d = aalg c" "mkiLength d = mkiLength c" "roc d = roc c" "tagLength d = tagLength c"
    "window0 d = window0 c" "window1 d = window1 c" "seqNumSet d = seqNumSet c"
  using assms unfolding deriveSrtpKeys_def
  by (auto simp: Let_def split_beta split: if_splits option.splits)

lemma new_context_knows:
  assumes "srtp_context E junk ssrc mkey msalt ea aa ekl akl skl tag = Some c" "aa \<noteq> 0 \<or> ea \<noteq> 0"
  shows "knows c {}"
  using derived_fields[OF assms(1)[unfolded srtp_context_def]] assms(2)
  by (simp add: knows_def CryptoContext_fields[OF refl] wbit_def)

lemma deriveSrtpKeys_SomeD:
  assumes "deriveSrtpKeys E index c = Some d"
  shows "\<exists>ci ke ka ks. cipher c = Some ci \<and>
    get_ctr_cipher_stream E (snd (setNewKey (master_key c) ci)) (length (k_e c))
      (computeIv (labelBase c + 0) index (key_deriv_rate c) (master_salt c)) = Some ke \<and>
    get_ctr_cipher_stream E (snd (setNewKey (master_key c) ci)) (length (k_a c))
      (computeIv (labelBase c + 1) index (key_deriv_rate c) (master_salt c)) = Some ka \<and>
    get_ctr_cipher_stream E (snd (setNewKey (master_key c) ci)) (length (k_s c))
      (computeIv (labelBase c + 2) index (key_deriv_rate c) (master_salt c)) = Some ks \<and>
    k_s d = ks \<and> cipher d = Some (snd (setNewKey ke (snd (setNewKey (master_key c) ci)))) \<and>
    f8Cipher d = map_option (f8_deriveForIV ke ks) (f8Cipher c) \<and>
    macCtx d = (if aalg c = SrtpAuthenticationSha1Hmac then Sha1Mac (hmacSha1Init (Some ka) zero_hmac)
      else if aalg c = SrtpAuthenticationSkeinHmac then SkeinMac ka (tagLength c * 8) else macCtx c)"
  using assms unfolding deriveSrtpKeys_def Let_def split_beta
  by (cases "cipher c"; cases "length (master_salt c) < 14") (auto split: option.splits)

lemma same_keys_derived:
  assumes c: "deriveSrtpKeys E index c = Some c'" and d: "deriveSrtpKeys E index d = Some d'"
    and eq: "ealg d = ealg c" "aalg d = aalg c" "cipher d = cipher c" "f8Cipher d = f8Cipher c"
      "master_key d = master_key c" "master_salt d = master_salt c" "labelBase d = labelBase c"
      "key_deriv_rate d = key_deriv_rate c" "length (k_e d) = length (k_e c)" "length (k_a d) = length (k_a c)"
      "length (k_s d) = length (k_s c)" "tagLength d = tagLength c" "mkiLength d = 0"
    and alg: "aalg c = 0 \<and> tagLength c = 0 \<or> aalg c \<in> {1, 2}" "tagLength c \<le> 20"
  shows "same_keys c' d'"
proof -
  from deriveSrtpKeys_SomeD[OF c] obtain ci ke ka ks where
    ci: "cipher c = Some ci"
    and st: "get_ctr_cipher_stream E (snd (setNewKey (master_key c) ci)) (length (k_e c))
        (computeIv (labelBase c + 0) index (key_deriv_rate c) (master_salt c)) = Some ke"
      "get_ctr_cipher_stream E (snd (setNewKey (master_key c) ci)) (length (k_a c))
        (computeIv (labelBase c + 1) index (key_deriv_rate c) (master_salt c)) = Some ka"
      "get_ctr_cipher_stream E (snd (setNewKey (master_key c) ci)) (length (k_s c))
        (computeIv (labelBase c + 2) index (key_deriv_rate c) (master_salt c)) = Some ks"
    and res: "k_s c' = ks" "cipher c' = Some (snd (setNewKey ke (snd (setNewKey (master_key c) ci))))"
      "f8Cipher c' = map_option (f8_deriveForIV ke ks) (f8Cipher c)"
      "macCtx c' = (if aalg c = SrtpAuthenticationSha1Hmac then Sha1Mac (hmacSha1Init (Some ka) zero_hmac)
        else if aalg c = SrtpAuthenticationSkeinHmac then SkeinMac ka (tagLength c * 8) else macCtx c)"
    by blast
  have res': "k_s d' = ks" "cipher d' = Some (snd (setNewKey ke (snd (setNewKey (master_key c) ci))))"
      "f8Cipher d' = map_option (f8_deriveForIV ke ks) (f8Cipher c)"
      "macCtx d' = (if aalg c = SrtpAuthenticationSha1Hmac then Sha1Mac (hmacSha1Init (Some ka) zero_hmac)
        else if aalg c = SrtpAuthenticationSkeinHmac then SkeinMac ka (tagLength c * 8) else macCtx d)"
    using deriveSrtpKeys_SomeD[OF d] unfolding eq ci option.inject
    by (elim exE conjE, use st in simp)+
  have "keyed ka (hmacSha1Init (Some ka) zero_hmac)"
    using cipher_stream_length[OF st(2)] by (intro keyed_init) simp
  then show ?thesis
    using derived_fields[OF c] derived_fields[OF d] eq alg res res' unfolding same_keys_def by auto
qed

text \<open>Two ends that start from the same master key and the same algorithms.\<close>

lemma srtp_contexts_agree:
  assumes "srtp_context E junk ssrc mkey msalt ea aa ekl akl skl tag = Some c"
    and "srtp_context E junk' ssrc' mkey msalt ea aa ekl akl skl tag = Some d"
    and "aa \<le> 2" "tag \<le> 20"
  shows "same_keys c d"
proof -
  have ea: "ea \<in> {1, 2, 3, 4}"
    using deriveSrtpKeys_SomeD[OF assms(1)[unfolded srtp_context_def]] by (auto simp: CryptoContext_fields[OF refl] split: if_splits)
  have "aa \<in> {0, 1, 2}" using assms(3) by auto
  then show ?thesis
    using ea assms(4)
    by (intro same_keys_derived[OF assms(1,2)[unfolded srtp_context_def]])
      (auto simp: CryptoContext_fields[OF refl])
qed

section \<open>Sending does not fail\<close>

text \<open>A context with the ciphers of its algorithm.\<close>

definition usable :: "crypto_context \<Rightarrow> bool" where
  "usable c \<longleftrightarrow>
    ealg c = SrtpEncryptionNull \<or> ealg c > 4 \<or>
    ealg c \<in> {SrtpEncryptionAESCM, SrtpEncryptionTWOCM} \<and> cipher c \<noteq> None \<and> 14 \<le> length (k_s c) \<or>
    f8_mode c \<and> cipher c \<noteq> None \<and> (\<exists>f8. f8Cipher c = Some f8 \<and> skey f8 \<noteq> None)"

lemma srtpEncrypt_succeeds:
  assumes "usable c" "off + n \<le> length buf" "12 \<le> length buf" "n < 2 ^ 20"
  shows "\<exists>b. srtpEncrypt E c buf off n g ssrc = Some b"
proof -
  have blocks: "\<not> 65536 \<le> n div 16" using assms(4) by auto
  have pay: "length (take n (drop off buf)) = n" using assms(2) by simp
  have ctr: "\<exists>out. ctr_encrypt E ci (take n (drop off buf)) iv = Some out" for ci iv
    unfolding ctr_encrypt_def pay using blocks by (cases "skey ci") simp_all
  have f8: "\<exists>out. f8_encrypt E ci data iv f = Some out" if "skey f \<noteq> None" for ci data iv f
    using that by (cases "skey ci") (auto simp: f8_encrypt_def sym_encrypt_def)
  show ?thesis
  proof (cases c rule: ealg_cases)
    case 1
    then obtain ci where "cipher c = Some ci" "14 \<le> length (k_s c)" using assms(1) by (auto simp: usable_def f8_mode_def)
    then show ?thesis using 1 assms(2) ctr[of ci "cm_iv (k_s c) ssrc g"] by (auto simp: srtpEncrypt_def)
  next
    case 2
    then obtain ci f where "cipher c = Some ci" "f8Cipher c = Some f" "skey f \<noteq> None"
      using assms(1) by (auto simp: usable_def f8_mode_def)
    then show ?thesis
      using 2 assms(2,3) f8[of f ci "take n (drop off buf)" "f8_iv buf (roc c)"]
      by (auto simp: srtpEncrypt_def f8_mode_def)
  next
    case 3
    then show ?thesis using assms(2) by (auto simp: srtpEncrypt_def)
  qed
qed

lemma protect_succeeds:
  assumes dec: "decodeRtp buf len = Some (Some p)" and us: "usable c" and K: "skein_length K"
    and same: "same_keys c d" and len: "len + tagLength c \<le> length buf" "len < 2 ^ 20"
  shows "\<exists>buf' c'. protect E K (Some c) buf len = Some (True, buf', len + tagLength c, Some c')"
proof -
  note off = decodeRtp_SomeD[OF dec]
  let ?g = "push_bit 16 (ucast (roc c)) OR ucast (p_seq p) :: u64"
  have "p_offset p + p_length p \<le> length buf" "12 \<le> length buf" "p_length p < 2 ^ 20" using off len by simp_all
  from srtpEncrypt_succeeds[OF us this, of E ?g "p_ssrc p"]
  obtain b where b: "srtpEncrypt E c buf (p_offset p) (p_length p) ?g (p_ssrc p) = Some b" by blast
  have "length b = length buf" using srtpEncrypt_shape[OF b] off len by simp
  moreover obtain tag m where "srtpAuthenticate K c (take len b) (roc c) = Some (tag, c\<lparr>macCtx := m\<rparr>)"
    using authenticate_same[OF K same, of "take len b" "roc c"] len calculation by auto
  ultimately show ?thesis using dec b len by (simp add: protect_def Let_def)
qed

lemma f8_key_set:
  assumes "algorithm f \<in> {1, 2, 3, 4}" "length ke \<in> {16, 32}" "length ks \<le> length ke"
  shows "skey (f8_deriveForIV ke ks f) \<noteq> None"
  using assms by (auto simp: f8_deriveForIV_def setNewKey_def Let_def)

lemma derived_usable:
  assumes d: "deriveSrtpKeys E index c = Some d" and ea: "ealg c \<in> {1, 2, 3, 4}" and lens: "14 \<le> length (k_s c)"
    and f8: "f8_mode c \<Longrightarrow> \<exists>f. f8Cipher c = Some f \<and> algorithm f \<in> {1, 2, 3, 4} \<and>
      length (k_e c) \<in> {16, 32} \<and> length (k_s c) \<le> length (k_e c)"
  shows "usable d"
proof -
  from deriveSrtpKeys_SomeD[OF d] obtain ci ke ka ks where
    st: "get_ctr_cipher_stream E (snd (setNewKey (master_key c) ci)) (length (k_e c))
        (computeIv (labelBase c + 0) index (key_deriv_rate c) (master_salt c)) = Some ke"
      "get_ctr_cipher_stream E (snd (setNewKey (master_key c) ci)) (length (k_s c))
        (computeIv (labelBase c + 2) index (key_deriv_rate c) (master_salt c)) = Some ks"
    and res: "k_s d = ks" "cipher d \<noteq> None" "f8Cipher d = map_option (f8_deriveForIV ke ks) (f8Cipher c)"
    by blast
  have l: "length ke = length (k_e c)" "length ks = length (k_s c)"
    by (rule cipher_stream_length[OF st(1)], rule cipher_stream_length[OF st(2)])
  have "\<exists>f. f8Cipher d = Some f \<and> skey f \<noteq> None" if m: "f8_mode c"
  proof -
    obtain f where f: "f8Cipher c = Some f" "algorithm f \<in> {1, 2, 3, 4}" "length (k_e c) \<in> {16, 32}"
      "length (k_s c) \<le> length (k_e c)" using f8[OF m] by blast
    then have "skey (f8_deriveForIV ke ks f) \<noteq> None" using l by (intro f8_key_set) simp_all
    then show ?thesis using f(1) res(3) by simp
  qed
  moreover have "ealg d = ealg c" by (rule derived_fields[OF d])
  ultimately show ?thesis using ea lens res l by (auto simp: usable_def f8_mode_def)
qed

lemma srtp_context_usable:
  assumes "srtp_context E junk ssrc mkey msalt ea aa ekl akl skl tag = Some c" "ekl \<in> {16, 32}" "14 \<le> skl" "skl \<le> ekl"
  shows "usable c"
proof -
  have "ea \<in> {1, 2, 3, 4}"
    using deriveSrtpKeys_SomeD[OF assms(1)[unfolded srtp_context_def]]
    by (auto simp: CryptoContext_fields[OF refl] split: if_splits)
  then show ?thesis
    using assms(2-)
    by (intro derived_usable[OF assms(1)[unfolded srtp_context_def]])
      (auto simp: CryptoContext_fields[OF refl] f8_mode_def SrtpSymCrypto_def)
qed

lemma cipher_stream_succeeds:
  "skey ci = Some k \<Longrightarrow> len < 2 ^ 20 \<Longrightarrow> \<exists>out. get_ctr_cipher_stream E ci len iv = Some out"
proof -
  assume a: "skey ci = Some k" "len < 2 ^ 20"
  then have "\<not> 65536 \<le> len div 16" by auto
  then show ?thesis using a(1) by (simp add: get_ctr_cipher_stream_def Let_def split_beta)
qed

lemma srtp_context_exists:
  assumes "ea \<in> {1, 2, 3, 4}" "aa \<le> 2" "length mkey \<in> {16, 32}" "14 \<le> length msalt" "ekl \<le> 64" "akl \<le> 64" "skl \<le> 64"
  shows "\<exists>c. srtp_context E junk ssrc mkey msalt ea aa ekl akl skl tag = Some c"
proof -
  define c0 where "c0 = CryptoContext junk (\<lambda>n. replicate n 0) ssrc 0 0 ea aa mkey msalt ekl akl skl tag"
  note f = CryptoContext_fields[OF c0_def]
  obtain ci where ci: "cipher c0 = Some ci" "algorithm ci \<in> {1, 3}"
    using f(12) assms(1) by (auto simp: SrtpSymCrypto_def)
  let ?ci = "snd (setNewKey (master_key c0) ci)"
  have key: "skey ?ci = Some mkey" using ci(2) assms(3) f(5) by (auto simp: setNewKey_def Let_def)
  have "aa \<in> {0, 1, 2}" using assms(2) by auto
  then have len: "length (k_e c0) < 2 ^ 20" "length (k_a c0) < 2 ^ 20" "length (k_s c0) < 2 ^ 20"
    using f(14-16) assms(1,5-7) by auto
  note st = cipher_stream_succeeds[OF key len(1)] cipher_stream_succeeds[OF key len(2)]
    cipher_stream_succeeds[OF key len(3)]
  from st[of E "computeIv (labelBase c0 + _) 0 (key_deriv_rate c0) (master_salt c0)"] obtain ke ka ks where
    "get_ctr_cipher_stream E ?ci (length (k_e c0)) (computeIv (labelBase c0 + 0) 0 (key_deriv_rate c0) (master_salt c0)) = Some ke"
    "get_ctr_cipher_stream E ?ci (length (k_a c0)) (computeIv (labelBase c0 + 1) 0 (key_deriv_rate c0) (master_salt c0)) = Some ka"
    "get_ctr_cipher_stream E ?ci (length (k_s c0)) (computeIv (labelBase c0 + 2) 0 (key_deriv_rate c0) (master_salt c0)) = Some ks"
    by metis
  then show ?thesis
    using ci f(6) assms(4) unfolding srtp_context_def c0_def[symmetric]
    by (simp add: deriveSrtpKeys_def Let_def split_beta)
qed

section \<open>Properties\<close>

text \<open>C2. Whatever a context that has its ciphers protects, a receiver with the same keys unprotects to the
  same packet: for every packet that decodes and fits with its tag, every algorithm and both cipher modes,
  \<open>protect\<close> succeeds and makes the packet longer by the tag; if the packet index has not been delivered yet,
  lies less than 2^15 from the highest one received and less than 128 below it, \<open>unprotect\<close> returns 1 with the
  original packet, the receiver then knows the index, and both ends still agree.  In F8 mode the rollover counters
  of the two ends must be equal as well, because the initial vector uses the receiver's own.\<close>

theorem srtp_packet_delivered:
  assumes "skein_length K" "same_keys c d" "usable c"
    and "decodeRtp buf len = Some (Some p)" "len + tagLength c \<le> length buf" "len < 2 ^ 20"
    and "knows d A" "seq_index (roc c) (p_seq p) \<notin> A"
    and "\<bar>int (seq_index (roc c) (p_seq p)) - int (top_index (start_seq (p_seq p) d))\<bar> < 32768"
    and "top_index (start_seq (p_seq p) d) < seq_index (roc c) (p_seq p) + 128"
    and "f8_mode c \<Longrightarrow> roc d = roc c"
  shows "\<exists>buf' c' b d'. protect E K (Some c) buf len = Some (True, buf', len + tagLength c, Some c') \<and>
    unprotect E K (Some d) buf' (len + tagLength c) want = Some (1, b, len, Some d', None) \<and>
    take len b = take len buf \<and> knows d' (insert (seq_index (roc c) (p_seq p)) A) \<and> same_keys c' d'"
proof -
  obtain buf' c' where "protect E K (Some c) buf len = Some (True, buf', len + tagLength c, Some c')"
    using protect_succeeds[OF assms(4,3,1,2,5,6)] by blast
  moreover from srtp_transport[OF this assms(4,1,2) _ _ assms(7-11), of want] assms(5,6)
  obtain b d' where "unprotect E K (Some d) buf' (len + tagLength c) want = Some (1, b, len, Some d', None)"
    "take len b = take len buf" "knows d' (insert (seq_index (roc c) (p_seq p)) A)" "same_keys c' d'" by auto
  ultimately show ?thesis by blast
qed

definition sample_context :: "u32 \<Rightarrow> crypto_context" where
  "sample_context r =
    \<lparr>ssrcCtx = 0, mkiLength = 0, roc = r, guessed_roc = 0, s_l = 0, key_deriv_rate = 0, window0 = 0, window1 = 0,
     master_key = [], master_salt = [], k_e = [], k_a = [], k_s = replicate 14 7, ealg = 1, aalg = 1,
     ekeyl = 16, akeyl = 20, skeyl = 14, tagLength = 4, labelBase = 0, seqNumSet = False,
     macCtx = Sha1Mac (hmacSha1Init (Some (replicate 20 3)) zero_hmac),
     cipher = Some \<lparr>algorithm = 1, skey = Some (replicate 16 1)\<rparr>, f8Cipher = None\<rparr>"

lemma sample_keys: "same_keys (sample_context r) (sample_context r')" "usable (sample_context r)"
    "knows (sample_context r) {}"
  using keyed_init[of "replicate 20 3" zero_hmac]
  by (auto simp: same_keys_def sample_context_def usable_def knows_def wbit_def)

definition sample_packet :: "u8 list" where
  "sample_packet = [0x80, 0, 0, 7, 0, 0, 0, 0, 0, 0, 0, 9, 1, 2, 3, 4, 5] @ replicate 4 0"

lemma sample_decode: "decodeRtp sample_packet 17 = Some (Some \<lparr>p_ssrc = 9, p_seq = 7, p_offset = 12, p_length = 5\<rparr>)"
  by code_simp

theorem srtp_packet_delivered_witness:
  "\<exists>buf' c' b d'.
    protect (\<lambda>_ k. map2 (XOR) k) (\<lambda>_ n _. replicate (n div 8) 0) (Some (sample_context 0)) sample_packet 17 =
      Some (True, buf', 21, Some c') \<and>
    unprotect (\<lambda>_ k. map2 (XOR) k) (\<lambda>_ n _. replicate (n div 8) 0) (Some (sample_context 0)) buf' 21 False =
      Some (1, b, 17, Some d', None) \<and>
    take 17 b = take 17 sample_packet \<and> knows d' {7} \<and> same_keys c' d'"
  using srtp_packet_delivered[OF _ sample_keys(1,2) sample_decode _ _ sample_keys(3),
      of "\<lambda>_ n _. replicate (n div 8) 0" 0 0 "\<lambda>_ k. map2 (XOR) k" False]
  by (simp add: skein_length_def sample_packet_def seq_index_def start_seq_def top_index_def)
    (simp add: sample_context_def f8_mode_def)

text \<open>C11. Two ends with the same master key, salt and algorithms: the constructor and \<open>deriveSrtpKeys\<close> succeed at
  both, and whatever the uninitialised memory and the sources were, the two contexts agree on their keys, have
  the ciphers that sending needs, and have delivered nothing.\<close>

theorem srtp_contexts_ready:
  assumes "ea \<in> {1, 2, 3, 4}" "aa \<le> 2" "length mkey \<in> {16, 32}" "14 \<le> length msalt"
    and "ekl \<in> {16, 32}" "akl \<le> 64" "14 \<le> skl" "skl \<le> ekl" "tag \<le> 20"
  shows "\<exists>c d. srtp_context E junk ssrc mkey msalt ea aa ekl akl skl tag = Some c \<and>
    srtp_context E junk' ssrc' mkey msalt ea aa ekl akl skl tag = Some d \<and>
    same_keys c d \<and> usable c \<and> usable d \<and> knows c {} \<and> knows d {}"
proof -
  have "ekl \<le> 64" "skl \<le> 64" "ea \<noteq> 0" using assms(1,5,8) by auto
  note ex = srtp_context_exists[OF assms(1-4) this(1) assms(6) this(2)]
  obtain c where c: "srtp_context E junk ssrc mkey msalt ea aa ekl akl skl tag = Some c" using ex by blast
  obtain d where d: "srtp_context E junk' ssrc' mkey msalt ea aa ekl akl skl tag = Some d" using ex by blast
  show ?thesis
    using c d srtp_contexts_agree[OF c d assms(2,9)] srtp_context_usable[OF c assms(5,7,8)]
      srtp_context_usable[OF d assms(5,7,8)] new_context_knows[OF c] new_context_knows[OF d] \<open>ea \<noteq> 0\<close> by blast
qed

theorem srtp_contexts_ready_witness:
  "\<exists>c d. srtp_context (\<lambda>_ k. map2 (XOR) k) (sample_context 0) 1 (replicate 16 5) (replicate 14 6) 1 1 16 20 14 4 = Some c \<and>
    srtp_context (\<lambda>_ k. map2 (XOR) k) (sample_context 3) 2 (replicate 16 5) (replicate 14 6) 1 1 16 20 14 4 = Some d \<and>
    same_keys c d \<and> usable c \<and> usable d \<and> knows c {} \<and> knows d {}"
  using srtp_contexts_ready[of 1 1 "replicate 16 5" "replicate 14 6" 16 20 14 4 "\<lambda>_ k. map2 (XOR) k"
      "sample_context 0" 1 "sample_context 3" 2] by simp

text \<open>C3. A receiver never delivers two packets with the same index: from a context that
  \<open>deriveSrtpKeys\<close> has keyed, for every sequence of buffers and lengths, forged, repeated or reordered ones
  included, the indices of the packets that \<open>unprotect\<close> accepts are distinct.\<close>

theorem srtp_no_replay:
  assumes "srtp_context E junk ssrc mkey msalt ea aa ekl akl skl tag = Some c" "aa \<noteq> 0 \<or> ea \<noteq> 0"
  shows "distinct (deliveries (rtp_receive E K) pkts c)"
  using rtp.deliveries_distinct[OF new_context_knows[OF assms]] by blast

theorem srtp_no_replay_witness:
  "\<exists>c. srtp_context (\<lambda>_ k. map2 (XOR) k) (sample_context 0) 1 (replicate 16 5) (replicate 14 6) 1 1 16 20 14 4 = Some c \<and>
    distinct (deliveries (rtp_receive (\<lambda>_ k. map2 (XOR) k) (\<lambda>_ n _. replicate (n div 8) 0))
      [(sample_packet, 21), (sample_packet, 21)] c)"
  using srtp_context_exists[of 1 1 "replicate 16 5" "replicate 14 6" 16 20 14 "\<lambda>_ k. map2 (XOR) k" "sample_context 0" 1 4]
    srtp_no_replay[of "\<lambda>_ k. map2 (XOR) k" "sample_context 0" 1 "replicate 16 5" "replicate 14 6" 1 1 16 20 14 4]
  by (auto simp del: deliveries.simps)

text \<open>C10. The replay check is exact: for a packet with rollover counter \<open>r\<close> and number \<open>s\<close> less than 2^15
  away from the highest index received, \<open>guessIndex\<close> yields its true 48-bit index, and \<open>checkReplay\<close> accepts it
  exactly if it has not been delivered and is not 128 or more below the highest one.\<close>

theorem srtp_window_exact:
  assumes "knows c A" "\<bar>int (seq_index r s) - int (top_index (start_seq s c))\<bar> < 32768"
  shows "unat (fst (guessIndex s c)) = seq_index r s \<and>
    (fst (checkReplay s c) \<longleftrightarrow> top_index (start_seq s c) < seq_index r s + 128 \<and> seq_index r s \<notin> A)"
proof -
  have "guessed s (guess_state s c) = r"
    using guess_accurate[OF assms(2)] by (simp add: guess_state_def)
  then show ?thesis
    unfolding checkReplay_exact[OF assms(1)]
    using guess_accurate[OF assms(2)] by (simp add: packet_index_def guessIndex_eq seq_index_word)
qed

theorem srtp_window_exact_witness:
  "unat (fst (guessIndex 9 (sample_context 1))) = 65545 \<and> fst (checkReplay 9 (sample_context 1))"
  using srtp_window_exact[OF sample_keys(3), of 1 9 1]
  by (simp add: seq_index_def start_seq_def top_index_def) (simp add: sample_context_def)

end
