(* ===== verification/Srtp_Ctrl.thy ===== *)
theory Srtp_Ctrl
  imports Srtp_Correct
begin

text \<open>
  SRTCP: the context (\<open>srtp/CryptoContextCtrl.cpp\<close>) and the protection of RTCP packets
  (\<open>protectCtrl\<close> and \<open>unprotectCtrl\<close> in \<open>srtp/SrtpHandler.cpp\<close>).  Shown: the packets of one end are
  unprotected by the other, and the replay protection is broken: the index difference is unsigned, so that every
  index but the highest one received is taken for a new one.  A shift by 64 or more is the parameter \<open>big\<close>.
\<close>

section \<open>State\<close>

record ctrl_context =
  c_ssrcCtx :: u32
  c_mkiLength :: nat
  c_s_l :: u32
  c_replay_window :: u64
  c_master_key :: "u8 list"
  c_master_salt :: "u8 list"
  c_k_e :: "u8 list"
  c_k_a :: "u8 list"
  c_k_s :: "u8 list"
  c_ealg :: nat
  c_aalg :: nat
  c_ekeyl :: nat
  c_akeyl :: nat
  c_skeyl :: nat
  c_tagLength :: nat
  c_srtcpIndex :: u32
  c_labelBase :: u8
  c_macCtx :: mac_ctx
  c_cipher :: "sym_crypto option"
  c_f8Cipher :: "sym_crypto option"

text \<open>The constructor.  The highest index \<open>s_l\<close> is not set: it stays that of \<open>junk\<close>.\<close>

definition CryptoContextCtrl ::
  "ctrl_context \<Rightarrow> (nat \<Rightarrow> u8 list) \<Rightarrow> u32 \<Rightarrow> nat \<Rightarrow> nat \<Rightarrow> u8 list \<Rightarrow> u8 list \<Rightarrow>
    nat \<Rightarrow> nat \<Rightarrow> nat \<Rightarrow> nat \<Rightarrow> ctrl_context" where
  "CryptoContextCtrl junk fill ssrc ea aa mkey msalt ekl akl skl tag =
    (let c = junk\<lparr>c_ssrcCtx := ssrc, c_mkiLength := 0, c_replay_window := 0, c_srtcpIndex := 0, c_labelBase := 3,
           c_macCtx := NoMac, c_cipher := None, c_f8Cipher := None, c_ealg := ea, c_aalg := aa,
           c_ekeyl := ekl, c_akeyl := akl, c_skeyl := skl, c_master_key := mkey, c_master_salt := msalt\<rparr>;
         c = (if ea = SrtpEncryptionNull then c\<lparr>c_k_e := [], c_k_s := []\<rparr>
              else if ea \<in> {SrtpEncryptionTWOF8, SrtpEncryptionTWOCM} then
                c\<lparr>c_f8Cipher := (if ea = SrtpEncryptionTWOF8 then Some (SrtpSymCrypto SrtpEncryptionTWOF8) else None),
                  c_k_e := fill ekl, c_k_s := fill skl, c_cipher := Some (SrtpSymCrypto SrtpEncryptionTWOCM)\<rparr>
              else if ea \<in> {SrtpEncryptionAESF8, SrtpEncryptionAESCM} then
                c\<lparr>c_f8Cipher := (if ea = SrtpEncryptionAESF8 then Some (SrtpSymCrypto SrtpEncryptionAESF8) else None),
                  c_k_e := fill ekl, c_k_s := fill skl, c_cipher := Some (SrtpSymCrypto SrtpEncryptionAESCM)\<rparr>
              else c)
     in if aa = SrtpAuthenticationNull then c\<lparr>c_k_a := [], c_tagLength := 0\<rparr>
        else if aa \<in> {SrtpAuthenticationSha1Hmac, SrtpAuthenticationSkeinHmac} then
          c\<lparr>c_k_a := fill akl, c_tagLength := tag\<rparr>
        else c)"

definition newCtrlContextForSSRC ::
  "ctrl_context \<Rightarrow> (nat \<Rightarrow> u8 list) \<Rightarrow> ctrl_context \<Rightarrow> u32 \<Rightarrow> ctrl_context" where
  "newCtrlContextForSSRC junk fill c ssrc =
    CryptoContextCtrl junk fill ssrc (c_ealg c) (c_aalg c) (c_master_key c) (c_master_salt c)
      (c_ekeyl c) (c_akeyl c) (c_skeyl c) (c_tagLength c)"

section \<open>Encryption, authentication and keys\<close>

definition cm_iv_ctrl :: "u8 list \<Rightarrow> u32 \<Rightarrow> u32 \<Rightarrow> u8 list" where
  "cm_iv_ctrl ks ssrc index =
    take 4 ks @ map2 (XOR) (be_bytes ssrc) (take 4 (drop 4 ks)) @ take 2 (drop 8 ks) @
    map2 (XOR) (be_bytes index) (take 4 (drop 10 ks)) @ [0, 0]"

definition f8_iv_ctrl :: "u32 \<Rightarrow> u8 list \<Rightarrow> u8 list" where
  "f8_iv_ctrl index rtp = [0, 0, 0, 0] @ be_bytes (index OR 0x80000000) @ take 8 rtp"

text \<open>Encrypts the \<open>len\<close> bytes from \<open>off\<close> in place; the F8 vector takes its last 8 bytes from there.\<close>

definition srtcpEncrypt ::
  "block_cipher \<Rightarrow> ctrl_context \<Rightarrow> u8 list \<Rightarrow> nat \<Rightarrow> nat \<Rightarrow> u32 \<Rightarrow> u32 \<Rightarrow> u8 list option" where
  "srtcpEncrypt E c buf off len index ssrc =
    (if c_ealg c = SrtpEncryptionNull then Some buf
     else if length buf < off + len then None
     else if c_ealg c \<in> {SrtpEncryptionAESCM, SrtpEncryptionTWOCM} then
       (if length (c_k_s c) < 14 then None
        else
          (case c_cipher c of
             None \<Rightarrow> None
           | Some ci \<Rightarrow>
               map_option (\<lambda>out. poke off out buf)
                 (ctr_encrypt E ci (take len (drop off buf)) (cm_iv_ctrl (c_k_s c) ssrc index))))
     else if c_ealg c \<in> {SrtpEncryptionAESF8, SrtpEncryptionTWOF8} then
       (if length buf < off + 8 then None
        else
          (case (c_cipher c, c_f8Cipher c) of
             (Some ci, Some f8) \<Rightarrow>
               map_option (\<lambda>out. poke off out buf)
                 (f8_encrypt E ci (take len (drop off buf)) (f8_iv_ctrl index (drop off buf)) f8)
           | _ \<Rightarrow> None))
     else Some buf)"

definition srtcpAuthenticate ::
  "skein_mac \<Rightarrow> ctrl_context \<Rightarrow> u8 list \<Rightarrow> u32 \<Rightarrow> (u8 list \<times> ctrl_context) option" where
  "srtcpAuthenticate K c pkt index =
    (if c_aalg c = SrtpAuthenticationNull then Some ([], c)
     else if c_tagLength c > 20 then None
     else if c_aalg c = SrtpAuthenticationSha1Hmac then
       (case c_macCtx c of
          Sha1Mac h \<Rightarrow>
            (let ((mac, _), h) = hmacSha1Ctx_chunks [pkt, be_bytes index] h
             in Some (take (c_tagLength c) mac, c\<lparr>c_macCtx := Sha1Mac h\<rparr>))
        | _ \<Rightarrow> None)
     else if c_aalg c = SrtpAuthenticationSkeinHmac then
       (case c_macCtx c of
          SkeinMac k bits \<Rightarrow> Some (take (c_tagLength c) (K k bits (pkt @ be_bytes index)), c)
        | _ \<Rightarrow> None)
     else Some ([], c))"

definition computeIvCtrl :: "u8 \<Rightarrow> u8 list \<Rightarrow> u8 list" where
  "computeIvCtrl label msalt = (take 14 msalt)[7 := msalt ! 7 XOR label] @ [0, 0]"

definition deriveSrtcpKeys :: "block_cipher \<Rightarrow> ctrl_context \<Rightarrow> ctrl_context option" where
  "deriveSrtcpKeys E c =
    (case c_cipher c of
       None \<Rightarrow> None
     | Some ci \<Rightarrow>
         if length (c_master_salt c) < 14 then None
         else
           (let (_, ci) = setNewKey (c_master_key c) ci;
                iv = (\<lambda>n. computeIvCtrl (c_labelBase c + n) (c_master_salt c))
            in case (get_ctr_cipher_stream E ci (length (c_k_e c)) (iv 0),
                     get_ctr_cipher_stream E ci (length (c_k_a c)) (iv 1),
                     get_ctr_cipher_stream E ci (length (c_k_s c)) (iv 2)) of
                 (Some ke, Some ka, Some ks) \<Rightarrow>
                   (let mac = (if c_aalg c = SrtpAuthenticationSha1Hmac then Sha1Mac (hmacSha1Init (Some ka) zero_hmac)
                               else if c_aalg c = SrtpAuthenticationSkeinHmac then SkeinMac ka (c_tagLength c * 8)
                               else c_macCtx c);
                        (_, ci) = setNewKey ke ci;
                        f8 = map_option (f8_deriveForIV ke ks) (c_f8Cipher c)
                    in Some (c\<lparr>c_master_key := wipe (c_master_key c), c_master_salt := wipe (c_master_salt c),
                               c_k_e := wipe ke, c_k_a := wipe ka, c_k_s := ks, c_macCtx := mac,
                               c_cipher := Some ci, c_f8Cipher := f8\<rparr>))
               | _ \<Rightarrow> None))"

section \<open>The replay check\<close>

text \<open>The difference of two 32-bit indices is unsigned before it becomes the signed 64-bit \<open>delta\<close>.\<close>

definition checkReplayCtrl :: "u32 \<Rightarrow> ctrl_context \<Rightarrow> bool" where
  "checkReplayCtrl index c =
    (if c_aalg c = SrtpAuthenticationNull \<and> c_ealg c = SrtpEncryptionNull then True
     else
       (let delta = uint (index - c_s_l c) in
        if delta > 0 then True
        else if - delta \<ge> REPLAY_WINDOW_SIZE then False
        else if drop_bit (nat (- delta)) (c_replay_window c) AND 1 = 1 then False
        else True))"

definition shift64 :: "(u64 \<Rightarrow> nat \<Rightarrow> u64) \<Rightarrow> u64 \<Rightarrow> nat \<Rightarrow> u64" where
  "shift64 big w n = (if n < 64 then push_bit n w else big w n)"

definition updateCtrl :: "(u64 \<Rightarrow> nat \<Rightarrow> u64) \<Rightarrow> u32 \<Rightarrow> ctrl_context \<Rightarrow> ctrl_context" where
  "updateCtrl big index c =
    (let delta = uint (index - c_s_l c);
         c = (if delta > 0 then
                (let w = shift64 big (c_replay_window c) (nat delta) in c\<lparr>c_replay_window := w OR 1\<rparr>)
              else c\<lparr>c_replay_window := c_replay_window c OR shift64 big 1 (nat (- delta))\<rparr>)
     in if index > c_s_l c then c\<lparr>c_s_l := index\<rparr> else c)"

section \<open>Protecting and unprotecting\<close>

text \<open>The first 8 bytes of a packet stay plain; a shorter packet makes the length of the rest negative.\<close>

definition encrypt_after_header ::
  "block_cipher \<Rightarrow> ctrl_context \<Rightarrow> u8 list \<Rightarrow> nat \<Rightarrow> u32 \<Rightarrow> u32 \<Rightarrow> u8 list option" where
  "encrypt_after_header E c buffer len index ssrc =
    (if len < 8 \<and> c_ealg c \<noteq> SrtpEncryptionNull then None else srtcpEncrypt E c buffer 8 (len - 8) index ssrc)"

definition protectCtrl ::
  "block_cipher \<Rightarrow> skein_mac \<Rightarrow> ctrl_context option \<Rightarrow> u8 list \<Rightarrow> nat \<Rightarrow>
    (bool \<times> u8 list \<times> nat \<times> ctrl_context option) option" where
  "protectCtrl E K pcc buffer len =
    (case pcc of
       None \<Rightarrow> Some (False, buffer, 0, None)
     | Some c \<Rightarrow>
         if length buffer < 8 \<or> length buffer < len + 4 + c_tagLength c then None
         else
           (let ssrc = be_word (take 4 (drop 4 buffer));
                encIndex = c_srtcpIndex c
            in case encrypt_after_header E c buffer len encIndex ssrc of
                 None \<Rightarrow> None
               | Some buffer \<Rightarrow>
                   (let encIndex = encIndex OR 0x80000000;
                        buffer = poke len (be_bytes encIndex) buffer
                    in case srtcpAuthenticate K c (take len buffer) encIndex of
                         None \<Rightarrow> None
                       | Some (tag, c) \<Rightarrow>
                           (let buffer = poke (len + 4) tag buffer;
                                encIndex = (encIndex + 1) AND NOT 0x80000000
                            in Some (True, buffer, len + c_tagLength c + 4, Some (c\<lparr>c_srtcpIndex := encIndex\<rparr>))))))"

definition unprotectCtrl ::
  "(u64 \<Rightarrow> nat \<Rightarrow> u64) \<Rightarrow> block_cipher \<Rightarrow> skein_mac \<Rightarrow> ctrl_context option \<Rightarrow> u8 list \<Rightarrow> nat \<Rightarrow>
    (int \<times> u8 list \<times> nat \<times> ctrl_context option) option" where
  "unprotectCtrl big E K pcc buffer len =
    (case pcc of
       None \<Rightarrow> Some (0, buffer, 0, None)
     | Some c \<Rightarrow>
         if len < c_tagLength c + c_mkiLength c + 4 \<or> length buffer < len then None
         else
           (let payloadLen = len - (c_tagLength c + c_mkiLength c + 4);
                encIndex = be_word (take 4 (drop payloadLen buffer));
                remoteIndex = encIndex AND NOT 0x80000000
            in if \<not> checkReplayCtrl remoteIndex c then Some (- 2, buffer, payloadLen, Some c)
               else
                 (case srtcpAuthenticate K c (take payloadLen buffer) encIndex of
                    None \<Rightarrow> None
                  | Some (mac, c) \<Rightarrow>
                      if take (c_tagLength c) (drop (len - c_tagLength c) buffer) \<noteq> mac
                      then Some (- 1, buffer, payloadLen, Some c)
                      else if length buffer < 8 then None
                      else
                        (let ssrc = be_word (take 4 (drop 4 buffer)) in
                         case (if encIndex AND 0x80000000 \<noteq> 0 then
                                 encrypt_after_header E c buffer payloadLen remoteIndex ssrc
                               else Some buffer) of
                           None \<Rightarrow> None
                         | Some buffer \<Rightarrow> Some (1, buffer, payloadLen, Some (updateCtrl big remoteIndex c))))))"

section \<open>The two ends\<close>

text \<open>What encryption and authentication of a control context have in common with those of an RTP context.\<close>

definition as_rtp :: "ctrl_context \<Rightarrow> crypto_context" where
  "as_rtp c =
    \<lparr>ssrcCtx = c_ssrcCtx c, mkiLength = c_mkiLength c, roc = 0, guessed_roc = 0, s_l = 0, key_deriv_rate = 0,
     window0 = 0, window1 = 0, master_key = c_master_key c, master_salt = c_master_salt c, k_e = c_k_e c,
     k_a = c_k_a c, k_s = c_k_s c, ealg = c_ealg c, aalg = c_aalg c, ekeyl = c_ekeyl c, akeyl = c_akeyl c,
     skeyl = c_skeyl c, tagLength = c_tagLength c, labelBase = 0, seqNumSet = False, macCtx = c_macCtx c,
     cipher = c_cipher c, f8Cipher = c_f8Cipher c\<rparr>"

lemma as_rtp_fields [simp]:
  "mkiLength (as_rtp c) = c_mkiLength c" "k_s (as_rtp c) = c_k_s c" "ealg (as_rtp c) = c_ealg c"
  "aalg (as_rtp c) = c_aalg c" "tagLength (as_rtp c) = c_tagLength c" "macCtx (as_rtp c) = c_macCtx c"
  "cipher (as_rtp c) = c_cipher c" "f8Cipher (as_rtp c) = c_f8Cipher c"
  "as_rtp (c\<lparr>c_macCtx := m\<rparr>) = (as_rtp c)\<lparr>macCtx := m\<rparr>"
  by (simp_all add: as_rtp_def)

lemma srtcpAuthenticate_rtp:
  "srtcpAuthenticate K c pkt i =
    map_option (\<lambda>(tag, x). (tag, c\<lparr>c_macCtx := macCtx x\<rparr>)) (srtpAuthenticate K (as_rtp c) pkt i)"
  by (auto simp: srtcpAuthenticate_def srtpAuthenticate_def Let_def split_beta split: mac_ctx.split)

definition same_ctrl :: "ctrl_context \<Rightarrow> ctrl_context \<Rightarrow> bool" where
  "same_ctrl c d \<longleftrightarrow> same_keys (as_rtp c) (as_rtp d)"

lemma same_ctrl_fields:
  assumes "same_ctrl c d"
  shows "c_ealg d = c_ealg c" "c_k_s d = c_k_s c" "c_cipher d = c_cipher c" "c_f8Cipher d = c_f8Cipher c"
    "c_tagLength d = c_tagLength c" "c_mkiLength d = 0" "c_tagLength c \<le> 20"
  using assms by (simp_all add: same_ctrl_def same_keys_def)

lemma ctrl_authenticate_same:
  assumes "skein_length K" "same_ctrl c d" "length pkt < 2 ^ 32"
  shows "\<exists>tag m m'. srtcpAuthenticate K c pkt i = Some (tag, c\<lparr>c_macCtx := m\<rparr>) \<and>
    srtcpAuthenticate K d pkt i = Some (tag, d\<lparr>c_macCtx := m'\<rparr>) \<and> length tag = c_tagLength c \<and>
    same_ctrl (c\<lparr>c_macCtx := m\<rparr>) (d\<lparr>c_macCtx := m'\<rparr>)"
proof -
  from authenticate_same[OF assms(1) assms(2)[unfolded same_ctrl_def] assms(3), of i]
  obtain tag m m' where
    "srtpAuthenticate K (as_rtp c) pkt i = Some (tag, (as_rtp c)\<lparr>macCtx := m\<rparr>)"
    "srtpAuthenticate K (as_rtp d) pkt i = Some (tag, (as_rtp d)\<lparr>macCtx := m'\<rparr>)"
    "length tag = tagLength (as_rtp c)" "same_keys ((as_rtp c)\<lparr>macCtx := m\<rparr>) ((as_rtp d)\<lparr>macCtx := m'\<rparr>)" by blast
  then show ?thesis by (auto simp: srtcpAuthenticate_rtp same_ctrl_def)
qed

text \<open>A context in counter mode, or without encryption.\<close>

definition counter_mode :: "ctrl_context \<Rightarrow> bool" where
  "counter_mode c \<longleftrightarrow> c_ealg c = SrtpEncryptionNull \<or>
    c_ealg c \<in> {SrtpEncryptionAESCM, SrtpEncryptionTWOCM} \<and> c_cipher c \<noteq> None \<and> 14 \<le> length (c_k_s c)"

lemma srtcpEncrypt_counter:
  assumes "counter_mode c" "off + n \<le> length buf" "n < 2 ^ 20"
  shows "\<exists>out. length out = n \<and> srtcpEncrypt E c buf off n i ssrc = Some (poke off out buf) \<and>
    (\<forall>d b2. c_ealg d = c_ealg c \<and> c_k_s d = c_k_s c \<and> c_cipher d = c_cipher c \<and> length b2 = length buf \<and>
      take n (drop off b2) = out \<longrightarrow>
      srtcpEncrypt E d b2 off n i ssrc = Some (poke off (take n (drop off buf)) b2))"
proof -
  have pay: "length (take n (drop off buf)) = n" using assms(2) by simp
  show ?thesis
  proof (cases "c_ealg c = SrtpEncryptionNull")
    case True
    then show ?thesis
      using pay poke_self[OF refl pay] poke_self[of n off _ "take n (drop off buf)"]
      by (intro exI[of _ "take n (drop off buf)"]) (auto simp: srtcpEncrypt_def)
  next
    case False
    then obtain ci where ci: "c_ealg c \<in> {SrtpEncryptionAESCM, SrtpEncryptionTWOCM}" "c_cipher c = Some ci"
      "14 \<le> length (c_k_s c)" using assms(1) by (auto simp: counter_mode_def)
    have "\<not> 65536 \<le> n div 16" using assms(3) by auto
    then obtain out where out: "ctr_encrypt E ci (take n (drop off buf)) (cm_iv_ctrl (c_k_s c) ssrc i) = Some out"
      unfolding ctr_encrypt_def pay by (cases "skey ci") auto
    from ctr_encrypt_twice[OF out] have tw: "length out = n"
      "ctr_encrypt E ci out (cm_iv_ctrl (c_k_s c) ssrc i) = Some (take n (drop off buf))" using pay by auto
    show ?thesis
      using ci out tw assms(2) False
      by (intro exI[of _ out]) (auto simp: srtcpEncrypt_def)
  qed
qed

lemma bit_flag: "bit (0x80000000 :: u32) n \<longleftrightarrow> n = 31"
proof -
  have "(0x80000000 :: u32) = push_bit 31 1" by simp
  then show ?thesis by (simp only: bit_push_bit_iff) (auto simp: bit_1_iff)
qed

lemma flag_bits:
  fixes i f :: u32
  assumes f: "\<And>n. bit f n \<longleftrightarrow> n = 31" and i: "\<not> bit i 31"
  shows "(i OR f) AND NOT f = i" "(i OR f) AND f \<noteq> 0"
proof -
  show "(i OR f) AND NOT f = i"
    using i by (intro bit_word_eqI) (auto simp: bit_and_iff bit_or_iff bit_not_iff f)
  have "bit ((i OR f) AND f) 31" by (simp add: bit_and_iff bit_or_iff f)
  then show "(i OR f) AND f \<noteq> 0" by auto
qed

lemmas E_flag = flag_bits[OF bit_flag]

lemma flag_cleared: "\<not> bit ((x :: u32) AND NOT 0x80000000) 31"
  by (simp add: bit_simps bit_flag)

lemma take4_header: "take 8 a = take 8 b \<Longrightarrow> take 4 (drop 4 a) = take 4 (drop 4 b)"
  by (rule take_drop_eq[where n = 8]) simp_all

lemma srtcp_transport:
  assumes K: "skein_length K" and same: "same_ctrl c d" and mode: "counter_mode c"
    and len: "8 \<le> len" "len + 4 + c_tagLength c \<le> length buf" "len < 2 ^ 20"
    and flag: "\<not> bit (c_srtcpIndex c) 31" and fresh: "checkReplayCtrl (c_srtcpIndex c) d"
  shows "\<exists>buf' c' b d'. protectCtrl E K (Some c) buf len = Some (True, buf', len + c_tagLength c + 4, Some c') \<and>
    unprotectCtrl big E K (Some d) buf' (len + c_tagLength c + 4) = Some (1, b, len, Some d') \<and>
    take len b = take len buf \<and> same_ctrl c' d' \<and> \<not> bit (c_srtcpIndex c') 31 \<and>
    c_srtcpIndex c' = (c_srtcpIndex c OR 0x80000000) + 1 AND NOT 0x80000000"
proof -
  let ?i = "c_srtcpIndex c" let ?e = "?i OR 0x80000000" let ?ssrc = "be_word (take 4 (drop 4 buf)) :: u32"
  let ?t = "c_tagLength c"
  note sf = same_ctrl_fields[OF same]
  have "8 + (len - 8) \<le> length buf" "len - 8 < 2 ^ 20" using len by simp_all
  from srtcpEncrypt_counter[OF mode this, of E ?i ?ssrc]
  obtain out where out: "length out = len - 8"
    and enc: "srtcpEncrypt E c buf 8 (len - 8) ?i ?ssrc = Some (poke 8 out buf)"
    and dec: "\<And>d b2. c_ealg d = c_ealg c \<Longrightarrow> c_k_s d = c_k_s c \<Longrightarrow> c_cipher d = c_cipher c \<Longrightarrow>
      length b2 = length buf \<Longrightarrow> take (len - 8) (drop 8 b2) = out \<Longrightarrow>
      srtcpEncrypt E d b2 8 (len - 8) ?i ?ssrc = Some (poke 8 (take (len - 8) (drop 8 buf)) b2)" by blast
  define b1 where "b1 = poke 8 out buf"
  have b1: "length b1 = length buf" "take 8 b1 = take 8 buf" "take (len - 8) (drop 8 b1) = out"
    using out len by (simp_all add: b1_def poke_def)
  define b2 where "b2 = poke len (be_bytes ?e) b1"
  have b2: "length b2 = length buf" "take len b2 = take len b1" "take 4 (drop len b2) = be_bytes ?e"
    using len b1(1) by (simp_all add: b2_def poke_def)
  have "length (take len b2) < 2 ^ 32" using len by simp
  from ctrl_authenticate_same[OF K same this, of ?e]
  obtain tag m m' where auth: "srtcpAuthenticate K c (take len b2) ?e = Some (tag, c\<lparr>c_macCtx := m\<rparr>)"
    "srtcpAuthenticate K d (take len b2) ?e = Some (tag, d\<lparr>c_macCtx := m'\<rparr>)" "length tag = ?t"
    "same_ctrl (c\<lparr>c_macCtx := m\<rparr>) (d\<lparr>c_macCtx := m'\<rparr>)" by blast
  define b3 where "b3 = poke (len + 4) tag b2"
  have b3: "length b3 = length buf" "take len b3 = take len b2" "take 4 (drop len b3) = be_bytes ?e"
    "take ?t (drop (len + 4) b3) = tag"
    using len b2(1) auth(3) b2(3) by (simp_all add: b3_def poke_def take_drop)
  let ?c' = "c\<lparr>c_macCtx := m, c_srtcpIndex := ?e + 1 AND NOT 0x80000000\<rparr>"
  have prot: "protectCtrl E K (Some c) buf len = Some (True, b3, len + ?t + 4, Some ?c')"
    using len enc auth(1)
    by (simp add: protectCtrl_def encrypt_after_header_def b1_def[symmetric] b2_def[symmetric] b3_def[symmetric] Let_def)
  have head: "take 8 b3 = take 8 buf"
    using b3(2) b2(2) b1(2) len(1) by (metis min.absorb1 take_take)
  have body: "take (len - 8) (drop 8 b3) = out"
    using take_drop_eq[of len b3 b1 8 "len - 8"] b3(2) b2(2) b1(3) len(1) by simp
  let ?d = "d\<lparr>c_macCtx := m'\<rparr>" let ?b = "poke 8 (take (len - 8) (drop 8 buf)) b3"
  have denc: "srtcpEncrypt E ?d b3 8 (len - 8) ?i ?ssrc = Some ?b"
    using sf b3(1) body by (intro dec) simp_all
  have ssrc: "be_word (take 4 (drop 4 b3)) = ?ssrc" by (simp only: take4_header[OF head])
  have idx: "be_word (take 4 (drop len b3)) = ?e" using b3(3) by simp
  have tag: "take ?t (drop (len + ?t + 4 - ?t) b3) = tag" using b3(4) by (simp add: add.commute add.left_commute)
  have auth': "srtcpAuthenticate K d (take len b3) ?e = Some (tag, ?d)" using auth(2) b3(2) by simp
  have fields: "c_tagLength d = ?t" "c_mkiLength d = 0" "c_tagLength ?d = ?t" using sf by simp_all
  have fits: "\<not> (len + ?t + 4 < ?t + 0 + 4 \<or> length b3 < len + ?t + 4)" "len + ?t + 4 - (?t + 0 + 4) = len"
    "\<not> length b3 < 8" "\<not> len < 8" using len b3(1) by simp_all
  have un: "unprotectCtrl big E K (Some d) b3 (len + ?t + 4) = Some (1, ?b, len, Some (updateCtrl big ?i ?d))"
    unfolding unprotectCtrl_def encrypt_after_header_def option.case fields Let_def fits(2) idx E_flag[OF flag]
      if_not_P[OF fits(1)] if_not_P[OF fits(3)] auth' prod.case tag ssrc
    using fresh fits(4) E_flag(2)[OF flag] denc by simp
  have "take len ?b = take len buf"
    using len b3(1) head by (intro payload_restored) simp_all
  moreover have "same_ctrl ?c' (updateCtrl big ?i ?d)"
    using auth(4) by (simp add: same_ctrl_def same_keys_def updateCtrl_def Let_def)
  ultimately show ?thesis using prot un flag_cleared by fastforce
qed

section \<open>Replayed packets\<close>

lemma encrypt_after_header_keys:
  assumes "c_ealg d = c_ealg c" "c_k_s d = c_k_s c" "c_cipher d = c_cipher c" "c_f8Cipher d = c_f8Cipher c"
  shows "encrypt_after_header E d buf len i ssrc = encrypt_after_header E c buf len i ssrc"
  by (simp only: encrypt_after_header_def srtcpEncrypt_def assms)

lemma checkReplayCtrl_eq:
  "checkReplayCtrl i c \<longleftrightarrow>
    c_aalg c = SrtpAuthenticationNull \<and> c_ealg c = SrtpEncryptionNull \<or> i \<noteq> c_s_l c \<or> \<not> bit (c_replay_window c) 0"
proof (cases "i = c_s_l c")
  case True
  then show ?thesis by (simp add: checkReplayCtrl_def Let_def and_one_eq odd_iff_mod_2_eq_one[symmetric] bit_0)
next
  case False
  then have "uint (i - c_s_l c) \<noteq> 0" by (simp add: uint_0_iff)
  then have "0 < uint (i - c_s_l c)" using uint_nonnegative[of "i - c_s_l c"] by linarith
  then show ?thesis using False by (simp add: checkReplayCtrl_def Let_def)
qed

text \<open>The index that a packet carries.\<close>

definition ctrl_index :: "nat \<Rightarrow> u8 list \<Rightarrow> nat \<Rightarrow> u32" where
  "ctrl_index tag buf len = be_word (take 4 (drop (len - (tag + 4)) buf)) AND NOT 0x80000000"

lemma srtcp_replay:
  assumes K: "skein_length K" and same: "same_ctrl c d" and mki: "c_mkiLength c = 0" and len: "length buf < 2 ^ 32"
    and first: "unprotectCtrl big E K (Some c) buf len = Some (1, b, n, cc)"
    and old: "ctrl_index (c_tagLength c) buf len \<noteq> c_s_l d"
  shows "\<exists>d'. unprotectCtrl big E K (Some d) buf len = Some (1, b, n, Some d')"
proof -
  note sf = same_ctrl_fields[OF same]
  let ?p = "len - (c_tagLength c + 4)" let ?e = "be_word (take 4 (drop ?p buf)) :: u32"
  have "length (take ?p buf) < 2 ^ 32" using len by simp
  from ctrl_authenticate_same[OF K same this, of ?e]
  obtain tag m m' where auth: "srtcpAuthenticate K c (take ?p buf) ?e = Some (tag, c\<lparr>c_macCtx := m\<rparr>)"
    "srtcpAuthenticate K d (take ?p buf) ?e = Some (tag, d\<lparr>c_macCtx := m'\<rparr>)" by blast
  have fits: "\<not> (len < c_tagLength c + 4 \<or> length buf < len)"
    using first mki by (auto simp: unprotectCtrl_def split: if_splits)
  have tag: "take (c_tagLength c) (drop (len - c_tagLength c) buf) = tag"
    and wide: "\<not> length buf < 8"
    and enc: "(if ?e AND 0x80000000 \<noteq> 0
        then encrypt_after_header E (c\<lparr>c_macCtx := m\<rparr>) buf ?p (?e AND NOT 0x80000000) (be_word (take 4 (drop 4 buf)))
        else Some buf) = Some b" and n: "n = ?p"
    using first auth(1) mki fits
    by (auto simp: unprotectCtrl_def Let_def split: if_splits option.splits)
  have keys: "encrypt_after_header E (d\<lparr>c_macCtx := m'\<rparr>) buf ?p i s =
      encrypt_after_header E (c\<lparr>c_macCtx := m\<rparr>) buf ?p i s" for i s
    by (rule encrypt_after_header_keys) (use sf in simp_all)
  have enc': "(if ?e AND 0x80000000 \<noteq> 0
        then encrypt_after_header E (d\<lparr>c_macCtx := m'\<rparr>) buf ?p (?e AND NOT 0x80000000) (be_word (take 4 (drop 4 buf)))
        else Some buf) = Some b"
    using enc unfolding keys .
  have ok: "checkReplayCtrl (?e AND NOT 0x80000000) d"
    using old by (simp only: checkReplayCtrl_eq ctrl_index_def) simp
  have fields: "c_tagLength d = c_tagLength c" "c_mkiLength d = 0" "c_tagLength (d\<lparr>c_macCtx := m'\<rparr>) = c_tagLength c"
    using sf by simp_all
  show ?thesis
    unfolding unprotectCtrl_def option.case fields Let_def add_0_right if_not_P[OF fits] auth(2) prod.case tag
      if_not_P[OF wide] enc' n
    using ok by simp
qed

section \<open>Properties\<close>

text \<open>C12. SRTCP in counter mode, or without encryption: what one end protects, the other unprotects to the same
  packet with its length; both ends still agree, and the sender's index counts on modulo 2^31.  (In F8 mode the
  code takes 8 payload bytes into the initial vector, which differ between the plain and the encrypted packet.)\<close>

theorem srtcp_packet_delivered:
  assumes "skein_length K" "same_ctrl c d" "counter_mode c"
    and "8 \<le> len" "len + 4 + c_tagLength c \<le> length buf" "len < 2 ^ 20"
    and "\<not> bit (c_srtcpIndex c) 31" "checkReplayCtrl (c_srtcpIndex c) d"
  shows "\<exists>buf' c' b d'. protectCtrl E K (Some c) buf len = Some (True, buf', len + c_tagLength c + 4, Some c') \<and>
    unprotectCtrl big E K (Some d) buf' (len + c_tagLength c + 4) = Some (1, b, len, Some d') \<and>
    take len b = take len buf \<and> same_ctrl c' d' \<and> \<not> bit (c_srtcpIndex c') 31 \<and>
    c_srtcpIndex c' = (c_srtcpIndex c OR 0x80000000) + 1 AND NOT 0x80000000"
  by (rule srtcp_transport[OF assms])

definition sample_ctrl :: "u32 \<Rightarrow> ctrl_context" where
  "sample_ctrl highest =
    \<lparr>c_ssrcCtx = 0, c_mkiLength = 0, c_s_l = highest, c_replay_window = 1, c_master_key = [], c_master_salt = [],
     c_k_e = [], c_k_a = [], c_k_s = replicate 14 7, c_ealg = 1, c_aalg = 0, c_ekeyl = 16, c_akeyl = 20, c_skeyl = 14,
     c_tagLength = 0, c_srtcpIndex = 5, c_labelBase = 3, c_macCtx = NoMac,
     c_cipher = Some \<lparr>algorithm = 1, skey = Some (replicate 16 1)\<rparr>, c_f8Cipher = None\<rparr>"

lemma sample_ctrl_keys: "same_ctrl (sample_ctrl a) (sample_ctrl b)" "counter_mode (sample_ctrl a)"
  by (simp_all add: same_ctrl_def same_keys_def sample_ctrl_def counter_mode_def)

theorem srtcp_packet_delivered_witness:
  "\<exists>buf' c' b d'.
    protectCtrl (\<lambda>_ k. map2 (XOR) k) (\<lambda>_ n _. replicate (n div 8) 0) (Some (sample_ctrl 0)) (replicate 16 9) 12 =
      Some (True, buf', 16, Some c') \<and>
    unprotectCtrl (\<lambda>w n. w) (\<lambda>_ k. map2 (XOR) k) (\<lambda>_ n _. replicate (n div 8) 0) (Some (sample_ctrl 4)) buf' 16 =
      Some (1, b, 12, Some d') \<and> take 12 b = replicate 12 9 \<and> same_ctrl c' d'"
proof -
  have "skein_length (\<lambda>_ n _. replicate (n div 8) 0)" "checkReplayCtrl (c_srtcpIndex (sample_ctrl 0)) (sample_ctrl 4)"
    "\<not> bit (c_srtcpIndex (sample_ctrl 0)) 31" "c_tagLength (sample_ctrl 0) = 0"
    by (simp_all add: skein_length_def checkReplayCtrl_eq sample_ctrl_def)
  then show ?thesis
    using srtcp_packet_delivered[OF _ sample_ctrl_keys(1)[of 0 4] sample_ctrl_keys(2),
      where len = 12 and buf = "replicate 16 9" and E = "\<lambda>_ k. map2 (XOR) k" and big = "\<lambda>w n. w"] by fastforce
qed

text \<open>C13. The replay check of SRTCP refuses nothing but the highest index itself: a packet that was accepted once
  is accepted again, with the same result, in every later state with the same keys whose highest index is not
  that of the packet.\<close>

theorem srtcp_replay_accepted:
  assumes "skein_length K" "same_ctrl c d" "c_mkiLength c = 0" "length buf < 2 ^ 32"
    and "unprotectCtrl big E K (Some c) buf len = Some (1, b, n, cc)"
    and "ctrl_index (c_tagLength c) buf len \<noteq> c_s_l d"
  shows "\<exists>d'. unprotectCtrl big E K (Some d) buf len = Some (1, b, n, Some d')"
  by (rule srtcp_replay[OF assms])

definition sample_ctrl_packet :: "u8 list" where
  "sample_ctrl_packet = replicate 8 9 @ [1, 2, 3, 4] @ [0x80, 0, 0, 5]"

lemma sample_ctrl_accepted:
  "map_option (\<lambda>(rc, b, n, _). (rc, n))
      (unprotectCtrl (\<lambda>w n. w) (\<lambda>_ k. map2 (XOR) k) (\<lambda>_ n _. replicate (n div 8) 0) (Some (sample_ctrl 4)) sample_ctrl_packet 16) = Some (1, 12)"
  by code_simp

lemma sample_ctrl_index: "ctrl_index (c_tagLength (sample_ctrl 4)) sample_ctrl_packet 16 = 5"
  by code_simp

theorem srtcp_replay_accepted_witness:
  "\<exists>b d'. unprotectCtrl (\<lambda>w n. w) (\<lambda>_ k. map2 (XOR) k) (\<lambda>_ n _. replicate (n div 8) 0) (Some (sample_ctrl 9))
      sample_ctrl_packet 16 = Some (1, b, 12, Some d')"
proof -
  have K: "skein_length (\<lambda>_ n _. replicate (n div 8) 0)" by (simp add: skein_length_def)
  obtain b cc where "unprotectCtrl (\<lambda>w n. w) (\<lambda>_ k. map2 (XOR) k) (\<lambda>_ n _. replicate (n div 8) 0)
      (Some (sample_ctrl 4)) sample_ctrl_packet 16 = Some (1, b, 12, cc)"
    using sample_ctrl_accepted by (auto split: prod.splits)
  from srtcp_replay_accepted[OF K sample_ctrl_keys(1) _ _ this, of 9] show ?thesis
    unfolding sample_ctrl_index by (auto simp: sample_ctrl_def sample_ctrl_packet_def)
qed

end
