(* ===== verification/Zrtp_Config.thy ===== *)
theory Zrtp_Config
  imports Prelude
begin

text \<open>
  The algorithms of ZRTP: the enumerations and the configuration (\<open>zrtp/ZrtpConfigure.cpp\<close>), the offer in a
  Hello packet (\<open>zrtp/ZrtpPacketHello.cpp\<close>), and the selection of the algorithms from the peer's offer
  (\<open>findBest...\<close> and \<open>get...Offered\<close> of \<open>zrtp/ZRtp.cpp\<close>).  An algorithm name has four characters and
  is compared as a 32-bit number in the code, as a list of bytes here.
\<close>

section \<open>Names\<close>

type_synonym algo_name = "u8 list"

definition ascii :: "string \<Rightarrow> algo_name" where
  "ascii s = map of_char s"

definition s256 :: algo_name where "s256 = ascii ''S256''"

definition s384 :: algo_name where "s384 = ascii ''S384''"

definition skn2 :: algo_name where "skn2 = ascii ''SKN2''"

definition skn3 :: algo_name where "skn3 = ascii ''SKN3''"

definition aes3 :: algo_name where "aes3 = ascii ''AES3''"

definition aes1 :: algo_name where "aes1 = ascii ''AES1''"

definition two3 :: algo_name where "two3 = ascii ''2FS3''"

definition two2 :: algo_name where "two2 = ascii ''2FS2''"

definition two1 :: algo_name where "two1 = ascii ''2FS1''"

definition dh2k :: algo_name where "dh2k = ascii ''DH2k''"

definition ec25 :: algo_name where "ec25 = ascii ''EC25''"

definition dh3k :: algo_name where "dh3k = ascii ''DH3k''"

definition ec38 :: algo_name where "ec38 = ascii ''EC38''"

definition e255 :: algo_name where "e255 = ascii ''E255''"

definition e414 :: algo_name where "e414 = ascii ''E414''"

definition mult :: algo_name where "mult = ascii ''Mult''"

definition b32 :: algo_name where "b32 = ascii ''B32 ''"

definition b256 :: algo_name where "b256 = ascii ''B256''"

definition b32e :: algo_name where "b32e = ascii ''B32E''"

definition hs32 :: algo_name where "hs32 = ascii ''HS32''"

definition hs80 :: algo_name where "hs80 = ascii ''HS80''"

definition sk32 :: algo_name where "sk32 = ascii ''SK32''"

definition sk64 :: algo_name where "sk64 = ascii ''SK64''"

lemmas name_defs = s256_def s384_def skn2_def skn3_def aes3_def aes1_def two3_def two2_def two1_def dh2k_def ec25_def
  dh3k_def ec38_def e255_def e414_def mult_def b32_def b256_def b32e_def hs32_def hs80_def sk32_def sk64_def ascii_def

abbreviation (input) "mandatoryHash \<equiv> s256"
abbreviation (input) "mandatoryCipher \<equiv> aes1"
abbreviation (input) "mandatoryPubKey \<equiv> dh3k"
abbreviation (input) "mandatorySasType \<equiv> b32"
abbreviation (input) "mandatoryAuthLen_1 \<equiv> hs32"

section \<open>The enumerations\<close>

datatype AlgoTypes = Invalid | HashAlgorithm | CipherAlgorithm | PubKeyAlgorithm | SasType | AuthLength

datatype SrtpAlgorithms = NoSrtpAlgorithm | Aes | TwoFish | Sha1 | Skein

record AlgorithmEnum =
  algoType :: AlgoTypes
  algoName :: algo_name
  keyLen :: int
  readable :: string
  algoId :: SrtpAlgorithms

definition isValid :: "AlgorithmEnum \<Rightarrow> bool" where
  "isValid a \<longleftrightarrow> algoType a \<noteq> Invalid"

definition invalidAlgo :: AlgorithmEnum where
  "invalidAlgo = \<lparr>algoType = Invalid, algoName = [], keyLen = 0, readable = [], algoId = NoSrtpAlgorithm\<rparr>"

record EnumBase =
  enumType :: AlgoTypes
  algos :: "AlgorithmEnum list"

text \<open>The two forms of \<open>insert\<close>.\<close>

definition insert_name :: "algo_name \<Rightarrow> EnumBase \<Rightarrow> EnumBase" where
  "insert_name name e =
    e\<lparr>algos := algos e @ [\<lparr>algoType = enumType e, algoName = name, keyLen = 0, readable = [], algoId = NoSrtpAlgorithm\<rparr>]\<rparr>"

definition insert_algo :: "algo_name \<Rightarrow> int \<Rightarrow> string \<Rightarrow> SrtpAlgorithms \<Rightarrow> EnumBase \<Rightarrow> EnumBase" where
  "insert_algo name klen ra alId e =
    e\<lparr>algos := algos e @ [\<lparr>algoType = enumType e, algoName = name, keyLen = klen, readable = ra, algoId = alId\<rparr>]\<rparr>"

text \<open>\<open>strncmp\<close> over the first four characters; the names of the enumerations have four.\<close>

primrec find_name :: "AlgorithmEnum list \<Rightarrow> algo_name \<Rightarrow> AlgorithmEnum" where
  "find_name [] name = invalidAlgo"
| "find_name (a # as) name = (if take 4 (algoName a) = take 4 name then a else find_name as name)"

definition getByName :: "algo_name \<Rightarrow> EnumBase \<Rightarrow> AlgorithmEnum" where
  "getByName name e = find_name (algos e) name"

definition getByOrdinal :: "int \<Rightarrow> EnumBase \<Rightarrow> AlgorithmEnum" where
  "getByOrdinal ord e = (if 0 \<le> ord \<and> ord < int (length (algos e)) then algos e ! nat ord else invalidAlgo)"

primrec find_ordinal :: "AlgorithmEnum list \<Rightarrow> algo_name \<Rightarrow> int \<Rightarrow> int" where
  "find_ordinal [] name i = - 1"
| "find_ordinal (a # as) name i = (if take 4 (algoName a) = take 4 name then i else find_ordinal as name (i + 1))"

definition getOrdinal :: "AlgorithmEnum \<Rightarrow> EnumBase \<Rightarrow> int" where
  "getOrdinal a e = find_ordinal (algos e) (algoName a) 0"

definition getSize :: "EnumBase \<Rightarrow> int" where
  "getSize e = int (length (algos e))"

definition getAllNames :: "EnumBase \<Rightarrow> algo_name list" where
  "getAllNames e = map algoName (algos e)"

definition zrtpHashes :: EnumBase where
  "zrtpHashes =
    (insert_algo skn3 0 ''Skein-384'' NoSrtpAlgorithm \<circ> insert_algo skn2 0 ''Skein-256'' NoSrtpAlgorithm \<circ>
     insert_algo s384 0 ''SHA-384'' NoSrtpAlgorithm \<circ> insert_algo s256 0 ''SHA-256'' NoSrtpAlgorithm)
    \<lparr>enumType = HashAlgorithm, algos = []\<rparr>"

definition zrtpSymCiphers :: EnumBase where
  "zrtpSymCiphers =
    (insert_algo two1 16 ''TwoFish-128'' TwoFish \<circ> insert_algo two3 32 ''Twofish-256'' TwoFish \<circ>
     insert_algo aes1 16 ''AES-128'' Aes \<circ> insert_algo aes3 32 ''AES-256'' Aes)
    \<lparr>enumType = CipherAlgorithm, algos = []\<rparr>"

definition zrtpPubKeys :: EnumBase where
  "zrtpPubKeys =
    (insert_algo e414 0 ''ECDH-414'' NoSrtpAlgorithm \<circ> insert_algo e255 0 ''ECDH-255'' NoSrtpAlgorithm \<circ>
     insert_algo mult 0 ''Multi-stream'' NoSrtpAlgorithm \<circ> insert_algo ec38 0 ''NIST ECDH-384'' NoSrtpAlgorithm \<circ>
     insert_algo dh3k 0 ''DH-3072'' NoSrtpAlgorithm \<circ> insert_algo ec25 0 ''NIST ECDH-256'' NoSrtpAlgorithm \<circ>
     insert_algo dh2k 0 ''DH-2048'' NoSrtpAlgorithm)
    \<lparr>enumType = PubKeyAlgorithm, algos = []\<rparr>"

definition zrtpSasTypes :: EnumBase where
  "zrtpSasTypes = (insert_name b32e \<circ> insert_name b256 \<circ> insert_name b32) \<lparr>enumType = SasType, algos = []\<rparr>"

definition zrtpAuthLengths :: EnumBase where
  "zrtpAuthLengths =
    (insert_algo sk64 64 ''Skein-MAC 64 bit'' Skein \<circ> insert_algo sk32 32 ''Skein-MAC 32 bit'' Skein \<circ>
     insert_algo hs80 80 ''HMAC-SHA1 80 bit'' Sha1 \<circ> insert_algo hs32 32 ''HMAC-SHA1 32 bit'' Sha1)
    \<lparr>enumType = AuthLength, algos = []\<rparr>"

section \<open>The configuration\<close>

datatype Policy = Standard | PreferNonNist

record ZrtpConfigure =
  hashes :: "AlgorithmEnum list"
  symCiphers :: "AlgorithmEnum list"
  publicKeyAlgos :: "AlgorithmEnum list"
  sasTypes :: "AlgorithmEnum list"
  authLengths :: "AlgorithmEnum list"
  enableTrustedMitM :: bool
  enableSasSignature :: bool
  enableParanoidMode :: bool
  enableDisclosureFlag :: bool
  selectionPolicy :: Policy

abbreviation (input) "maxNoOfAlgos \<equiv> 7 :: int"

text \<open>The constructor does not set the disclosure flag.\<close>

definition newZrtpConfigure :: "bool \<Rightarrow> ZrtpConfigure" where
  "newZrtpConfigure junk =
    \<lparr>hashes = [], symCiphers = [], publicKeyAlgos = [], sasTypes = [], authLengths = [], enableTrustedMitM = False,
     enableSasSignature = False, enableParanoidMode = False, enableDisclosureFlag = junk, selectionPolicy = Standard\<rparr>"

definition setTrustedMitM :: "bool \<Rightarrow> ZrtpConfigure \<Rightarrow> ZrtpConfigure" where
  "setTrustedMitM yesNo c = c\<lparr>enableTrustedMitM := yesNo\<rparr>"

definition setSasSignature :: "bool \<Rightarrow> ZrtpConfigure \<Rightarrow> ZrtpConfigure" where
  "setSasSignature yesNo c = c\<lparr>enableSasSignature := yesNo\<rparr>"

definition setParanoidMode :: "bool \<Rightarrow> ZrtpConfigure \<Rightarrow> ZrtpConfigure" where
  "setParanoidMode yesNo c = c\<lparr>enableParanoidMode := yesNo\<rparr>"

definition setDisclosureFlag :: "bool \<Rightarrow> ZrtpConfigure \<Rightarrow> ZrtpConfigure" where
  "setDisclosureFlag yesNo c = c\<lparr>enableDisclosureFlag := yesNo\<rparr>"

definition setSelectionPolicy :: "Policy \<Rightarrow> ZrtpConfigure \<Rightarrow> ZrtpConfigure" where
  "setSelectionPolicy pol c = c\<lparr>selectionPolicy := pol\<rparr>"

definition getEnum :: "AlgoTypes \<Rightarrow> ZrtpConfigure \<Rightarrow> AlgorithmEnum list" where
  "getEnum ty c =
    (case ty of
       CipherAlgorithm \<Rightarrow> symCiphers c
     | PubKeyAlgorithm \<Rightarrow> publicKeyAlgos c
     | SasType \<Rightarrow> sasTypes c
     | AuthLength \<Rightarrow> authLengths c
     | _ \<Rightarrow> hashes c)"

definition putEnum :: "AlgoTypes \<Rightarrow> AlgorithmEnum list \<Rightarrow> ZrtpConfigure \<Rightarrow> ZrtpConfigure" where
  "putEnum ty a c =
    (case ty of
       CipherAlgorithm \<Rightarrow> c\<lparr>symCiphers := a\<rparr>
     | PubKeyAlgorithm \<Rightarrow> c\<lparr>publicKeyAlgos := a\<rparr>
     | SasType \<Rightarrow> c\<lparr>sasTypes := a\<rparr>
     | AuthLength \<Rightarrow> c\<lparr>authLengths := a\<rparr>
     | _ \<Rightarrow> c\<lparr>hashes := a\<rparr>)"

definition containsAlgo :: "AlgorithmEnum list \<Rightarrow> AlgorithmEnum \<Rightarrow> bool" where
  "containsAlgo a algo = (if a = [] \<or> \<not> isValid algo then False else \<exists>b \<in> set a. algoName b = algoName algo)"

definition addAlgo :: "AlgoTypes \<Rightarrow> AlgorithmEnum \<Rightarrow> ZrtpConfigure \<Rightarrow> int \<times> ZrtpConfigure" where
  "addAlgo ty algo c =
    (let a = getEnum ty c; size = int (length a) in
     if size \<ge> maxNoOfAlgos then (- 1, c)
     else if \<not> isValid algo then (- 1, c)
     else if containsAlgo a algo then (maxNoOfAlgos - size, c)
     else (maxNoOfAlgos - (size + 1), putEnum ty (a @ [algo]) c))"

definition addAlgoAt :: "AlgoTypes \<Rightarrow> AlgorithmEnum \<Rightarrow> int \<Rightarrow> ZrtpConfigure \<Rightarrow> int \<times> ZrtpConfigure" where
  "addAlgoAt ty algo index c =
    (let a = getEnum ty c; size = int (length a) in
     if index \<ge> maxNoOfAlgos then (- 1, c)
     else if \<not> isValid algo then (- 1, c)
     else if index \<ge> size then (maxNoOfAlgos - (size + 1), putEnum ty (a @ [algo]) c)
     else if 0 \<le> index then
       (maxNoOfAlgos - (size + 1), putEnum ty (take (nat index) a @ algo # drop (nat index) a) c)
     else (maxNoOfAlgos - size, c))"

definition getAlgoAt :: "AlgoTypes \<Rightarrow> int \<Rightarrow> ZrtpConfigure \<Rightarrow> AlgorithmEnum" where
  "getAlgoAt ty index c =
    (let a = getEnum ty c in
     if index \<ge> int (length a) then invalidAlgo else if 0 \<le> index then a ! nat index else invalidAlgo)"

primrec erase_name :: "algo_name \<Rightarrow> AlgorithmEnum list \<Rightarrow> AlgorithmEnum list" where
  "erase_name name [] = []"
| "erase_name name (b # bs) = (if algoName b = name then bs else b # erase_name name bs)"

definition removeAlgo :: "AlgoTypes \<Rightarrow> AlgorithmEnum \<Rightarrow> ZrtpConfigure \<Rightarrow> int \<times> ZrtpConfigure" where
  "removeAlgo ty algo c =
    (let a = getEnum ty c in
     if a = [] \<or> \<not> isValid algo then (maxNoOfAlgos, c)
     else (let a = erase_name (algoName algo) a in (maxNoOfAlgos - int (length a), putEnum ty a c)))"

definition getNumConfiguredAlgos :: "AlgoTypes \<Rightarrow> ZrtpConfigure \<Rightarrow> int" where
  "getNumConfiguredAlgos ty c = int (length (getEnum ty c))"

definition clear :: "ZrtpConfigure \<Rightarrow> ZrtpConfigure" where
  "clear c = c\<lparr>hashes := [], symCiphers := [], publicKeyAlgos := [], sasTypes := [], authLengths := []\<rparr>"

definition add_named :: "AlgoTypes \<Rightarrow> EnumBase \<Rightarrow> algo_name \<Rightarrow> ZrtpConfigure \<Rightarrow> ZrtpConfigure" where
  "add_named ty e name c = snd (addAlgo ty (getByName name e) c)"

definition setStandardConfig :: "ZrtpConfigure \<Rightarrow> ZrtpConfigure" where
  "setStandardConfig c =
    (let c = clear c;
         c = fold (add_named HashAlgorithm zrtpHashes) [s384, s256] c;
         c = fold (add_named CipherAlgorithm zrtpSymCiphers) [two3, aes3, two1, aes1] c;
         c = fold (add_named PubKeyAlgorithm zrtpPubKeys) [ec25, dh3k, ec38, dh2k, mult] c;
         c = fold (add_named SasType zrtpSasTypes) [b32] c
     in fold (add_named AuthLength zrtpAuthLengths) [sk32, sk64, hs32, hs80] c)"

definition setMandatoryOnly :: "ZrtpConfigure \<Rightarrow> ZrtpConfigure" where
  "setMandatoryOnly c =
    (let c = clear c;
         c = fold (add_named HashAlgorithm zrtpHashes) [s256] c;
         c = fold (add_named CipherAlgorithm zrtpSymCiphers) [aes1] c;
         c = fold (add_named PubKeyAlgorithm zrtpPubKeys) [dh3k, mult] c;
         c = fold (add_named SasType zrtpSasTypes) [b32] c
     in fold (add_named AuthLength zrtpAuthLengths) [hs32, hs80] c)"

end
