(* ===== verification/Zrtp_Select.thy ===== *)
theory Zrtp_Select
  imports Zrtp_Config
begin

unbundle bit_operations_syntax

text \<open>
  The offer of algorithms in a Hello packet (\<open>zrtp/ZrtpPacketHello.cpp\<close>) and the selection from the peer's
  offer (\<open>zrtp/ZRtp.cpp\<close>).
\<close>

section \<open>The Hello packet\<close>

abbreviation (input) "HELLO_FIXED_PART_LEN \<equiv> 22 :: nat"

text \<open>A packet that is built: its buffer has 256 bytes, \<open>None\<close> is a write behind it.  The fixed part has 80
  bytes, followed by the names of the algorithms, 4 bytes each, and the MAC of 8 bytes.\<close>

definition algo_words :: "AlgorithmEnum list \<Rightarrow> u8 list" where
  "algo_words a = concat (map (\<lambda>x. take 4 (algoName x)) a)"

definition lenField :: "nat \<Rightarrow> nat \<Rightarrow> nat \<Rightarrow> nat \<Rightarrow> nat \<Rightarrow> u32" where
  "lenField nHash nCipher nAuth nPubkey nSas =
    push_bit 16 (of_nat nHash) OR push_bit 12 (of_nat nCipher) OR push_bit 8 (of_nat nAuth) OR
    push_bit 4 (of_nat nPubkey) OR of_nat nSas"

definition configureHello :: "ZrtpConfigure \<Rightarrow> u8 list option" where
  "configureHello c =
    (let len = 80 + 8 + 4 * (length (hashes c) + length (symCiphers c) + length (publicKeyAlgos c) +
           length (sasTypes c) + length (authLengths c));
         field = lenField (length (hashes c)) (length (symCiphers c)) (length (authLengths c))
           (length (publicKeyAlgos c)) (length (sasTypes c))
     in if len > 256 then None
        else Some ([0x50, 0x5a] @ be_bytes (of_nat (len div 4) :: u16) @ ascii ''Hello   '' @ replicate 64 0 @
          be_bytes field @ algo_words (hashes c) @ algo_words (symCiphers c) @ algo_words (authLengths c) @
          algo_words (publicKeyAlgos c) @ algo_words (sasTypes c) @ replicate 8 0))"

text \<open>A packet that is read: its bytes and the numbers of algorithms.\<close>

record hello_packet =
  h_bytes :: "u8 list"
  nHash :: nat
  nCipher :: nat
  nAuth :: nat
  nPubkey :: nat
  nSas :: nat
  computedLength :: nat

definition packet_words :: "u8 list \<Rightarrow> nat" where
  "packet_words data = unat (be_word (take 2 (drop 2 data)) :: u16)"

text \<open>A shorter packet leaves the numbers as they are in the memory of the object.\<close>

definition ZrtpPacketHello :: "hello_packet \<Rightarrow> u8 list \<Rightarrow> hello_packet" where
  "ZrtpPacketHello junk data =
    (let h = junk\<lparr>h_bytes := data\<rparr> in
     if packet_words data < HELLO_FIXED_PART_LEN then h\<lparr>computedLength := 0\<rparr>
     else
       (let temp = be_word (take 4 (drop 76 data)) :: u32;
            n = (\<lambda>k. unat (drop_bit k (temp AND push_bit k 0xf) AND 7))
        in h\<lparr>nHash := n 16, nCipher := n 12, nAuth := n 8, nPubkey := n 4, nSas := n 0,
             computedLength := n 16 + n 12 + n 8 + n 4 + n 0 + 20 + 2\<rparr>))"

definition isLengthOk :: "hello_packet \<Rightarrow> bool" where
  "isLengthOk h \<longleftrightarrow> computedLength h = packet_words (h_bytes h)"

text \<open>The names offered, from their places in the packet.\<close>

definition offers :: "nat \<Rightarrow> nat \<Rightarrow> hello_packet \<Rightarrow> algo_name list" where
  "offers off n h = map (\<lambda>i. take 4 (drop (off + i * 4) (h_bytes h))) [0..<n]"

definition hashOffers :: "hello_packet \<Rightarrow> algo_name list" where
  "hashOffers h = offers 80 (nHash h) h"

definition cipherOffers :: "hello_packet \<Rightarrow> algo_name list" where
  "cipherOffers h = offers (80 + nHash h * 4) (nCipher h) h"

definition authOffers :: "hello_packet \<Rightarrow> algo_name list" where
  "authOffers h = offers (80 + nHash h * 4 + nCipher h * 4) (nAuth h) h"

definition pubKeyOffers :: "hello_packet \<Rightarrow> algo_name list" where
  "pubKeyOffers h = offers (80 + nHash h * 4 + nCipher h * 4 + nAuth h * 4) (nPubkey h) h"

definition sasOffers :: "hello_packet \<Rightarrow> algo_name list" where
  "sasOffers h = offers (80 + nHash h * 4 + nCipher h * 4 + nAuth h * 4 + nPubkey h * 4) (nSas h) h"

section \<open>The selection\<close>

text \<open>The arrays of the code take 8 configured algorithms of a kind; the definitions are for such configurations.\<close>

primrec find_offered :: "AlgorithmEnum list \<Rightarrow> AlgorithmEnum list \<Rightarrow> AlgorithmEnum option" where
  "find_offered conf [] = None"
| "find_offered conf (x # xs) =
    (case List.find (\<lambda>c. algoName x = algoName c) conf of Some c \<Rightarrow> Some c | None \<Rightarrow> find_offered conf xs)"

text \<open>The common part of the four functions: the first known algorithm of the offer that is configured.\<close>

definition findBest :: "AlgorithmEnum list \<Rightarrow> EnumBase \<Rightarrow> algo_name \<Rightarrow> algo_name list \<Rightarrow> AlgorithmEnum" where
  "findBest conf known mandatory offered =
    (case find_offered conf (filter isValid (map (\<lambda>n. getByName n known) offered)) of
       Some a \<Rightarrow> a
     | None \<Rightarrow> getByName mandatory known)"

definition findBestHash :: "ZrtpConfigure \<Rightarrow> hello_packet \<Rightarrow> AlgorithmEnum" where
  "findBestHash c h =
    (if nHash h = 0 then getByName mandatoryHash zrtpHashes
     else findBest (hashes c) zrtpHashes mandatoryHash (hashOffers h))"

definition findBestCipher :: "ZrtpConfigure \<Rightarrow> hello_packet \<Rightarrow> AlgorithmEnum \<Rightarrow> AlgorithmEnum" where
  "findBestCipher c h pk =
    (if nCipher h = 0 \<or> algoName pk = dh2k then getByName aes1 zrtpSymCiphers
     else findBest (symCiphers c) zrtpSymCiphers mandatoryCipher (cipherOffers h))"

definition findBestSASType :: "ZrtpConfigure \<Rightarrow> hello_packet \<Rightarrow> AlgorithmEnum" where
  "findBestSASType c h =
    (if nSas h = 0 then getByName mandatorySasType zrtpSasTypes
     else findBest (sasTypes c) zrtpSasTypes mandatorySasType (sasOffers h))"

definition findBestAuthLen :: "ZrtpConfigure \<Rightarrow> hello_packet \<Rightarrow> AlgorithmEnum" where
  "findBestAuthLen c h =
    (if nAuth h = 0 then getByName mandatoryAuthLen_1 zrtpAuthLengths
     else findBest (authLengths c) zrtpAuthLengths mandatoryAuthLen_1 (authOffers h))"

definition nonNist :: "ZrtpConfigure \<Rightarrow> algo_name \<Rightarrow> bool" where
  "nonNist c name \<longleftrightarrow> (name = e414 \<or> name = e255) \<and> selectionPolicy c = PreferNonNist"

text \<open>The first offered name among \<open>special\<close>, when these are preferred.\<close>

definition preferred :: "bool \<Rightarrow> algo_name list \<Rightarrow> EnumBase \<Rightarrow> algo_name list \<Rightarrow> AlgorithmEnum option" where
  "preferred p special known offered =
    (if p then map_option (\<lambda>n. getByName n known) (List.find (\<lambda>n. n \<in> set special) offered) else None)"

definition getStrongHashOffered :: "ZrtpConfigure \<Rightarrow> hello_packet \<Rightarrow> algo_name \<Rightarrow> AlgorithmEnum option" where
  "getStrongHashOffered c h name =
    (case preferred (nonNist c name) [skn3] zrtpHashes (hashOffers h) of
       Some a \<Rightarrow> Some a
     | None \<Rightarrow> preferred True [s384, skn3] zrtpHashes (hashOffers h))"

definition getStrongCipherOffered :: "ZrtpConfigure \<Rightarrow> hello_packet \<Rightarrow> algo_name \<Rightarrow> AlgorithmEnum option" where
  "getStrongCipherOffered c h name =
    (case preferred (nonNist c name) [two3] zrtpSymCiphers (cipherOffers h) of
       Some a \<Rightarrow> Some a
     | None \<Rightarrow> preferred True [aes3, two3] zrtpSymCiphers (cipherOffers h))"

definition getHashOffered :: "ZrtpConfigure \<Rightarrow> hello_packet \<Rightarrow> algo_name \<Rightarrow> AlgorithmEnum" where
  "getHashOffered c h name =
    (case preferred (nonNist c name) [skn2, skn3] zrtpHashes (hashOffers h) of
       Some a \<Rightarrow> a
     | None \<Rightarrow> findBestHash c h)"

definition getCipherOffered :: "ZrtpConfigure \<Rightarrow> hello_packet \<Rightarrow> algo_name \<Rightarrow> AlgorithmEnum option" where
  "getCipherOffered c h name = preferred (nonNist c name) [two2, two3] zrtpSymCiphers (cipherOffers h)"

definition getAuthLenOffered :: "ZrtpConfigure \<Rightarrow> hello_packet \<Rightarrow> algo_name \<Rightarrow> AlgorithmEnum" where
  "getAuthLenOffered c h name =
    (case preferred (nonNist c name) [sk32, sk64] zrtpAuthLengths (authOffers h) of
       Some a \<Rightarrow> a
     | None \<Rightarrow> findBestAuthLen c h)"

text \<open>The members of the session that the selection sets; \<open>None\<close> is a null pointer.\<close>

record selection =
  sel_hash :: "AlgorithmEnum option"
  sel_cipher :: "AlgorithmEnum option"
  sel_authLength :: "AlgorithmEnum option"

definition orderedAlgos :: "algo_name list" where
  "orderedAlgos = [dh2k, e255, ec25, dh3k, e414, ec38]"

primrec rank :: "algo_name list \<Rightarrow> algo_name \<Rightarrow> nat" where
  "rank [] name = 0"
| "rank (x # xs) name = (if name = x then 0 else Suc (rank xs name))"

definition ownIntersect :: "AlgorithmEnum list \<Rightarrow> algo_name list \<Rightarrow> AlgorithmEnum list" where
  "ownIntersect own offered =
    filter (\<lambda>a. algoName a \<noteq> mult \<and> (\<exists>n \<in> set offered. algoName a = algoName (getByName n zrtpPubKeys))) own"

definition peerIntersect :: "AlgorithmEnum list \<Rightarrow> algo_name list \<Rightarrow> AlgorithmEnum list" where
  "peerIntersect own offered =
    filter (\<lambda>p. \<exists>a \<in> set (ownIntersect own offered). algoName a = algoName p) (map (\<lambda>n. getByName n zrtpPubKeys) offered)"

definition choosePubkey :: "AlgorithmEnum list \<Rightarrow> AlgorithmEnum list \<Rightarrow> AlgorithmEnum" where
  "choosePubkey own peer =
    (if length peer > 1 \<and> algoName (own ! 0) \<noteq> algoName (peer ! 0) then
       (if rank orderedAlgos (algoName (own ! 0)) < rank orderedAlgos (algoName (peer ! 0)) then own ! 0 else peer ! 0)
     else peer ! 0)"

definition findBestPubkey :: "ZrtpConfigure \<Rightarrow> hello_packet \<Rightarrow> selection \<Rightarrow> AlgorithmEnum \<times> selection" where
  "findBestPubkey c h s =
    (let offered = pubKeyOffers h;
         own = ownIntersect (publicKeyAlgos c) offered;
         peer = peerIntersect (publicKeyAlgos c) offered
     in if nPubkey h = 0 \<or> peer = [] then
          (getByName mandatoryPubKey zrtpPubKeys, s\<lparr>sel_hash := Some (findBestHash c h)\<rparr>)
        else
          (let useAlgo = choosePubkey own peer; name = algoName useAlgo;
               s = (if name = ec38 \<or> name = e414 then
                      s\<lparr>sel_hash := getStrongHashOffered c h name, sel_cipher := getStrongCipherOffered c h name\<rparr>
                    else s\<lparr>sel_hash := Some (getHashOffered c h name), sel_cipher := getCipherOffered c h name\<rparr>)
           in (useAlgo, s\<lparr>sel_authLength := Some (getAuthLenOffered c h name)\<rparr>)))"

definition checkMultiStream :: "hello_packet \<Rightarrow> bool" where
  "checkMultiStream h \<longleftrightarrow> nPubkey h = 0 \<or> mult \<in> set (pubKeyOffers h)"

text \<open>The selection of \<open>prepareCommit\<close> outside multi-stream mode: SAS type, public key algorithm, hash, cipher,
  length of the authentication tag, and whether multi-stream mode is available.  Without a hash the answer is the
  error \<open>UnsuppHashType\<close> (\<open>None\<close>).\<close>

definition selectAlgorithms ::
  "ZrtpConfigure \<Rightarrow> hello_packet \<Rightarrow> selection \<Rightarrow>
    (AlgorithmEnum \<times> AlgorithmEnum \<times> AlgorithmEnum \<times> AlgorithmEnum \<times> AlgorithmEnum \<times> bool) option" where
  "selectAlgorithms c h s =
    (let sas = findBestSASType c h; (pk, s) = findBestPubkey c h s in
     case sel_hash s of
       None \<Rightarrow> None
     | Some hash \<Rightarrow>
         (let cipher = (case sel_cipher s of None \<Rightarrow> findBestCipher c h pk | Some a \<Rightarrow> a);
              auth = (case sel_authLength s of None \<Rightarrow> findBestAuthLen c h | Some a \<Rightarrow> a)
          in Some (sas, pk, hash, cipher, auth, checkMultiStream h)))"

section \<open>The enumerations\<close>

text \<open>Four characters to a name, no name twice, all algorithms valid.\<close>

definition enum_ok :: "EnumBase \<Rightarrow> bool" where
  "enum_ok e \<longleftrightarrow>
    list_all (\<lambda>a. length (algoName a) = 4 \<and> algoType a \<noteq> Invalid) (algos e) \<and> distinct (map algoName (algos e))"

lemma enums_ok: "enum_ok zrtpHashes" "enum_ok zrtpSymCiphers" "enum_ok zrtpPubKeys" "enum_ok zrtpSasTypes"
    "enum_ok zrtpAuthLengths"
  by code_simp+

lemma find_name_cases: "find_name as n = invalidAlgo \<or> find_name as n \<in> set as \<and> take 4 (algoName (find_name as n)) = take 4 n"
  by (induction as) auto

lemma find_name_self:
  "list_all (\<lambda>a. length (algoName a) = 4 \<and> P a) as \<Longrightarrow> distinct (map algoName as) \<Longrightarrow> a \<in> set as \<Longrightarrow>
    find_name as (algoName a) = a"
  by (induction as) (auto simp: list_all_iff)

lemma getByName_self: "enum_ok e \<Longrightarrow> a \<in> set (algos e) \<Longrightarrow> getByName (algoName a) e = a"
  unfolding getByName_def enum_ok_def by (rule find_name_self) auto

lemma getByName_cases:
  "enum_ok e \<Longrightarrow> getByName n e = invalidAlgo \<or>
    getByName n e \<in> set (algos e) \<and> algoName (getByName n e) = take 4 n \<and> isValid (getByName n e)"
  using find_name_cases[of "algos e" n] by (auto simp: getByName_def enum_ok_def list_all_iff isValid_def)

section \<open>What is offered is read\<close>

lemma take4_algo_words:
  "\<forall>a \<in> set as. length (algoName a) = 4 \<Longrightarrow> i < length as \<Longrightarrow>
    take 4 (drop (i * 4) (algo_words as @ rest)) = algoName (as ! i)"
proof (induction as arbitrary: i)
  case (Cons a as)
  then show ?case by (cases i) (simp_all add: algo_words_def add.commute)
qed simp

lemma length_algo_words: "\<forall>a \<in> set as. length (algoName a) = 4 \<Longrightarrow> length (algo_words as) = 4 * length as"
  by (induction as) (simp_all add: algo_words_def)

lemma offers_block:
  assumes "h_bytes h = pre @ algo_words as @ post" "length pre = off" "\<forall>a \<in> set as. length (algoName a) = 4"
  shows "offers off (length as) h = map algoName as"
  using assms take4_algo_words[OF assms(3)] by (intro nth_equalityI) (simp_all add: offers_def)

lemma small_bits: "n < 8 \<Longrightarrow> bit (of_nat n :: u32) i \<Longrightarrow> i < 3"
proof (rule ccontr)
  assume n: "n < 8" and b: "bit (of_nat n :: u32) i" "\<not> i < 3"
  then have "bit n i" by (simp add: bit_of_nat_iff_bit bit_simps)
  moreover have "n < 2 ^ i" using n b(2) power_increasing[of 3 i "2 :: nat"] by simp
  ultimately show False by (simp add: bit_iff_odd)
qed

lemma lenField_read:
  assumes "a < 8" "b < 8" "c < 8" "d < 8" "e < 8"
  defines "f \<equiv> lenField a b c d e"
  shows "drop_bit 16 (f AND push_bit 16 0xf) AND 7 = of_nat a" "drop_bit 12 (f AND push_bit 12 0xf) AND 7 = of_nat b"
    "drop_bit 8 (f AND push_bit 8 0xf) AND 7 = of_nat c" "drop_bit 4 (f AND push_bit 4 0xf) AND 7 = of_nat d"
    "drop_bit 0 (f AND push_bit 0 0xf) AND 7 = of_nat e"
proof -
  have m: "bit (7 :: u32) i \<longleftrightarrow> i < 3" "bit (0xf :: u32) i \<longleftrightarrow> i < 4" for i
    using bit_mask_iff[of 3 i, where 'a = u32] bit_mask_iff[of 4 i, where 'a = u32] by (auto simp: mask_eq_exp_minus_1)
  have nb: "\<not> bit (of_nat n :: u32) i" if "n < 8" "3 \<le> i" for n i using small_bits[OF that(1), of i] that(2) by auto
  note sm = small_bits[OF assms(1)] small_bits[OF assms(2)] small_bits[OF assms(3)] small_bits[OF assms(4)]
    small_bits[OF assms(5)]
  have f: "bit f i \<longleftrightarrow> i < 32 \<and> (16 \<le> i \<and> bit (of_nat a :: u32) (i - 16) \<or> 12 \<le> i \<and> bit (of_nat b :: u32) (i - 12) \<or>
      8 \<le> i \<and> bit (of_nat c :: u32) (i - 8) \<or> 4 \<le> i \<and> bit (of_nat d :: u32) (i - 4) \<or> bit (of_nat e :: u32) i)" for i
    unfolding f_def lenField_def by (auto simp: bit_or_iff bit_push_bit_iff dest: bit_imp_le_length)
  have piece: "drop_bit k (f AND push_bit k 0xf) AND 7 = of_nat n"
    if n: "n < 8" and k: "k \<le> 16" and b: "\<And>j. j < 3 \<Longrightarrow> bit f (k + j) = bit (of_nat n :: u32) j" for k n
  proof (rule bit_word_eqI)
    fix j assume "j < LENGTH(32)"
    show "bit (drop_bit k (f AND push_bit k 0xf) AND 7) j = bit (of_nat n :: u32) j"
      using n k b[of j] nb[OF n, of j]
      by (cases "j < 3") (simp_all only: bit_and_iff bit_drop_bit_eq bit_push_bit_iff m o_apply, auto)
  qed
  show "drop_bit 16 (f AND push_bit 16 0xf) AND 7 = of_nat a"
    by (rule piece[OF assms(1)]) (use assms(1-5) nb in \<open>auto simp: f\<close>)
  show "drop_bit 12 (f AND push_bit 12 0xf) AND 7 = of_nat b"
    by (rule piece[OF assms(2)]) (use assms(1-5) nb in \<open>auto simp: f\<close>)
  show "drop_bit 8 (f AND push_bit 8 0xf) AND 7 = of_nat c"
    by (rule piece[OF assms(3)]) (use assms(1-5) nb in \<open>auto simp: f\<close>)
  show "drop_bit 4 (f AND push_bit 4 0xf) AND 7 = of_nat d"
    by (rule piece[OF assms(4)]) (use assms(1-5) nb in \<open>auto simp: f\<close>)
  show "drop_bit 0 (f AND push_bit 0 0xf) AND 7 = of_nat e"
    by (rule piece[OF assms(5)]) (use assms(1-5) nb in \<open>auto simp: f\<close>)
qed

text \<open>A configuration that a Hello packet can carry: at most 7 algorithms of a kind, names of 4 bytes.\<close>

definition small_list :: "AlgorithmEnum list \<Rightarrow> bool" where
  "small_list a \<longleftrightarrow> length a \<le> 7 \<and> (\<forall>x \<in> set a. length (algoName x) = 4)"

definition offerable :: "ZrtpConfigure \<Rightarrow> bool" where
  "offerable c \<longleftrightarrow> small_list (hashes c) \<and> small_list (symCiphers c) \<and> small_list (authLengths c) \<and>
    small_list (publicKeyAlgos c) \<and> small_list (sasTypes c)"

lemma hello_read:
  assumes "offerable c"
  shows "\<exists>b. configureHello c = Some b \<and> length b \<le> 228 \<and>
    (let h = ZrtpPacketHello junk b in
     isLengthOk h \<and> hashOffers h = map algoName (hashes c) \<and> cipherOffers h = map algoName (symCiphers c) \<and>
     authOffers h = map algoName (authLengths c) \<and> pubKeyOffers h = map algoName (publicKeyAlgos c) \<and>
     sasOffers h = map algoName (sasTypes c) \<and> nHash h = length (hashes c) \<and> nCipher h = length (symCiphers c) \<and>
     nAuth h = length (authLengths c) \<and> nPubkey h = length (publicKeyAlgos c) \<and> nSas h = length (sasTypes c))"
proof -
  let ?nh = "length (hashes c)" and ?nc = "length (symCiphers c)" and ?na = "length (authLengths c)"
    and ?np = "length (publicKeyAlgos c)" and ?ns = "length (sasTypes c)"
  let ?H = "algo_words (hashes c)" and ?C = "algo_words (symCiphers c)" and ?A = "algo_words (authLengths c)"
    and ?P = "algo_words (publicKeyAlgos c)" and ?S = "algo_words (sasTypes c)"
  let ?T = "?nh + ?nc + ?np + ?ns + ?na"
  have n4: "\<forall>a \<in> set (hashes c). length (algoName a) = 4" "\<forall>a \<in> set (symCiphers c). length (algoName a) = 4"
    "\<forall>a \<in> set (authLengths c). length (algoName a) = 4" "\<forall>a \<in> set (publicKeyAlgos c). length (algoName a) = 4"
    "\<forall>a \<in> set (sasTypes c). length (algoName a) = 4" using assms by (simp_all add: offerable_def small_list_def)
  have lt: "?nh < 8" "?nc < 8" "?na < 8" "?np < 8" "?ns < 8" using assms by (simp_all add: offerable_def small_list_def)
  note len = length_algo_words[OF n4(1)] length_algo_words[OF n4(2)] length_algo_words[OF n4(3)]
    length_algo_words[OF n4(4)] length_algo_words[OF n4(5)]
  let ?w = "of_nat (22 + ?T) :: u16" and ?f = "lenField ?nh ?nc ?na ?np ?ns"
  define b where "b = [0x50, 0x5a] @ be_bytes ?w @ ascii ''Hello   '' @ replicate 64 0 @ be_bytes ?f @
    ?H @ ?C @ ?A @ ?P @ ?S @ replicate 8 0"
  have conf: "configureHello c = Some b"
    using lt by (simp add: configureHello_def Let_def b_def algebra_simps)
  have asc: "length (ascii ''Hello   '') = 8" by (simp add: ascii_def)
  have "22 + ?T < 2 ^ 16" using lt by simp
  then have "unat ?w = 22 + ?T" by (simp only: unat_of_nat) simp
  moreover have "take 2 (drop 2 b) = be_bytes ?w" by (simp add: b_def)
  moreover have "be_word (be_bytes ?w) = ?w" by (rule be_word_be_bytes) simp_all
  ultimately have words: "packet_words b = 22 + ?T" by (simp only: packet_words_def)
  have field: "be_word (take 4 (drop 76 b)) = ?f" by (simp add: b_def asc)
  note rd = lenField_read[OF lt]
  have un: "unat (of_nat n :: u32) = n" if "n < 8" for n using that by (simp add: unat_of_nat)
  define h where "h = ZrtpPacketHello junk b"
  have h: "h_bytes h = b" "nHash h = ?nh" "nCipher h = ?nc" "nAuth h = ?na" "nPubkey h = ?np" "nSas h = ?ns"
    "computedLength h = ?nh + ?nc + ?na + ?np + ?ns + 22"
    by (simp_all only: h_def ZrtpPacketHello_def Let_def words field rd un lt) (simp_all add: un lt)
  define pre0 where "pre0 = [0x50, 0x5a] @ be_bytes ?w @ ascii ''Hello   '' @ replicate 64 0 @ be_bytes ?f"
  have pre: "length pre0 = 80" by (simp add: pre0_def asc)
  have hb: "h_bytes h = pre0 @ ?H @ ?C @ ?A @ ?P @ ?S @ replicate 8 0" by (simp add: h(1) b_def pre0_def)
  have o: "hashOffers h = map algoName (hashes c)" "cipherOffers h = map algoName (symCiphers c)"
    "authOffers h = map algoName (authLengths c)" "pubKeyOffers h = map algoName (publicKeyAlgos c)"
    "sasOffers h = map algoName (sasTypes c)"
    unfolding hashOffers_def cipherOffers_def authOffers_def pubKeyOffers_def sasOffers_def h(2-6)
    subgoal by (rule offers_block[OF _ pre n4(1)]) (simp add: hb)
    subgoal by (rule offers_block[OF _ _ n4(2), of _ "pre0 @ ?H"]) (simp add: hb, simp add: pre len)
    subgoal by (rule offers_block[OF _ _ n4(3), of _ "pre0 @ ?H @ ?C"]) (simp add: hb, simp add: pre len)
    subgoal by (rule offers_block[OF _ _ n4(4), of _ "pre0 @ ?H @ ?C @ ?A"]) (simp add: hb, simp add: pre len)
    subgoal by (rule offers_block[OF _ _ n4(5), of _ "pre0 @ ?H @ ?C @ ?A @ ?P"]) (simp add: hb, simp add: pre len)
    done
  have "isLengthOk h" using h words by (simp add: isLengthOk_def)
  moreover have "length b \<le> 228" using lt len asc by (simp add: b_def)
  ultimately show ?thesis using conf o h(2-6) by (simp add: Let_def h_def)
qed

end
