(* ===== verification/Zrtp_Select_Correct.thy ===== *)
theory Zrtp_Select_Correct
  imports Zrtp_Select
begin

text \<open>
  The properties of the configuration, of the Hello packet and of the selection of algorithms.
\<close>

section \<open>The public key algorithm\<close>

lemma rank_inj: "n \<in> set xs \<Longrightarrow> rank xs n = rank xs m \<Longrightarrow> n = m"
proof (induction xs)
  case (Cons x xs)
  then show ?case by (auto split: if_splits)
qed simp

lemma pubkeys_ordered:
  assumes "a \<in> set (algos zrtpPubKeys)" "algoName a \<noteq> mult"
  shows "algoName a \<in> set orderedAlgos"
proof -
  have "list_all (\<lambda>a. algoName a = mult \<or> algoName a \<in> set orderedAlgos) (algos zrtpPubKeys)" by code_simp
  then show ?thesis using assms by (auto simp: list_all_iff)
qed

lemma name_inj: "enum_ok e \<Longrightarrow> a \<in> set (algos e) \<Longrightarrow> b \<in> set (algos e) \<Longrightarrow> algoName a = algoName b \<longleftrightarrow> a = b"
  using getByName_self[of e a] getByName_self[of e b] by metis

text \<open>What two lists of known algorithms have in common, in the order of the first.\<close>

definition common :: "AlgorithmEnum list \<Rightarrow> AlgorithmEnum list \<Rightarrow> AlgorithmEnum list" where
  "common A B = filter (\<lambda>a. algoName a \<noteq> mult \<and> a \<in> set B) A"

lemma intersections:
  assumes A: "set A \<subseteq> set (algos zrtpPubKeys)" and B: "set B \<subseteq> set (algos zrtpPubKeys)"
  shows "ownIntersect A (map algoName B) = common A B" "peerIntersect A (map algoName B) = common B A"
proof -
  have self: "getByName (algoName b) zrtpPubKeys = b" if "b \<in> set B" for b
    using that B getByName_self[OF enums_ok(3)] by blast
  have own: "algoName a \<noteq> mult \<and> (\<exists>n \<in> set (map algoName B). algoName a = algoName (getByName n zrtpPubKeys)) \<longleftrightarrow>
      algoName a \<noteq> mult \<and> a \<in> set B" if a: "a \<in> set A" for a
  proof -
    have "algoName a = algoName b \<longleftrightarrow> a = b" if "b \<in> set B" for b
      using name_inj[OF enums_ok(3), of a b] a that A B by blast
    then show ?thesis using self by auto
  qed
  show o: "ownIntersect A (map algoName B) = common A B"
    unfolding ownIntersect_def common_def by (rule filter_cong[OF refl own])
  have "map (\<lambda>n. getByName n zrtpPubKeys) (map algoName B) = B"
    using self by (simp add: map_idI)
  moreover have "(\<exists>a \<in> set (common A B). algoName a = algoName b) \<longleftrightarrow> algoName b \<noteq> mult \<and> b \<in> set A" if "b \<in> set B" for b
  proof -
    have "algoName a = algoName b \<longleftrightarrow> a = b" if "a \<in> set A" for a
      using name_inj[OF enums_ok(3), of a b] that \<open>b \<in> set B\<close> A B by blast
    then show ?thesis using that by (auto simp: common_def)
  qed
  ultimately show "peerIntersect A (map algoName B) = common B A"
    unfolding peerIntersect_def o by (simp add: common_def cong: filter_cong)
qed

lemma common_sym:
  assumes "distinct A" "distinct B"
  shows "set (common A B) = set (common B A)" "length (common A B) = length (common B A)" "distinct (common A B)"
proof -
  show s: "set (common A B) = set (common B A)" by (auto simp: common_def)
  show "distinct (common A B)" using assms by (simp add: common_def)
  then show "length (common A B) = length (common B A)"
    using s assms distinct_card[of "common A B"] distinct_card[of "common B A"] by (simp add: common_def)
qed

lemma choosePubkey_sym:
  assumes A: "set A \<subseteq> set (algos zrtpPubKeys)" "distinct A" and B: "set B \<subseteq> set (algos zrtpPubKeys)" "distinct B"
    and ne: "common A B \<noteq> []"
  shows "choosePubkey (common A B) (common B A) = choosePubkey (common B A) (common A B)"
proof -
  let ?X = "common A B" and ?Y = "common B A"
  note sym = common_sym[OF A(2) B(2)]
  have ney: "?Y \<noteq> []" using ne sym(2) by auto
  have el: "?X ! 0 \<in> set ?X" "?Y ! 0 \<in> set ?X" using ne ney sym(1) nth_mem[of 0 ?X] nth_mem[of 0 ?Y] by auto
  have known: "a \<in> set (algos zrtpPubKeys)" "algoName a \<in> set orderedAlgos" if "a \<in> set ?X" for a
    using that A(1) pubkeys_ordered[of a] by (auto simp: common_def)
  show ?thesis
  proof (cases "algoName (?X ! 0) = algoName (?Y ! 0)")
    case True
    then have "?X ! 0 = ?Y ! 0" using name_inj[OF enums_ok(3)] known(1)[OF el(1)] known(1)[OF el(2)] by blast
    then show ?thesis using True by (simp add: choosePubkey_def)
  next
    case False
    have "length ?X \<noteq> 1"
    proof
      assume "length ?X = 1"
      then obtain x where "?X = [x]" by (cases ?X) auto
      then show False using False el by simp
    qed
    then have "1 < length ?X" using ne by (cases ?X) auto
    moreover have "rank orderedAlgos (algoName (?X ! 0)) \<noteq> rank orderedAlgos (algoName (?Y ! 0))"
      using rank_inj[OF known(2)[OF el(1)]] False by blast
    ultimately show ?thesis using False sym(2) by (auto simp: choosePubkey_def)
  qed
qed

definition pubkeys_ok :: "ZrtpConfigure \<Rightarrow> bool" where
  "pubkeys_ok c \<longleftrightarrow> set (publicKeyAlgos c) \<subseteq> set (algos zrtpPubKeys) \<and> distinct (publicKeyAlgos c)"

lemma pubkey_selection:
  assumes a: "pubkeys_ok a" and b: "pubkeys_ok b"
    and ha: "pubKeyOffers ha = map algoName (publicKeyAlgos a)" "nPubkey ha = length (publicKeyAlgos a)"
    and hb: "pubKeyOffers hb = map algoName (publicKeyAlgos b)" "nPubkey hb = length (publicKeyAlgos b)"
  shows "fst (findBestPubkey a hb s) = fst (findBestPubkey b ha s')"
proof -
  let ?A = "publicKeyAlgos a" and ?B = "publicKeyAlgos b"
  have A: "set ?A \<subseteq> set (algos zrtpPubKeys)" "distinct ?A" and B: "set ?B \<subseteq> set (algos zrtpPubKeys)" "distinct ?B"
    using a b by (simp_all add: pubkeys_ok_def)
  note ia = intersections[OF A(1) B(1)] and ib = intersections[OF B(1) A(1)]
  have empty: "common ?A ?B = [] \<longleftrightarrow> common ?B ?A = []" using common_sym(2)[OF A(2) B(2)] by auto
  have nil: "?A = [] \<Longrightarrow> common ?A ?B = []" "?B = [] \<Longrightarrow> common ?B ?A = []" by (simp_all add: common_def)
  show ?thesis
  proof (cases "common ?A ?B = []")
    case True
    then show ?thesis
      using empty by (simp add: findBestPubkey_def Let_def ia ib ha hb)
  next
    case False
    then have "?A \<noteq> []" "?B \<noteq> []" using nil empty by auto
    then show ?thesis
      using False empty choosePubkey_sym[OF A B False]
      by (simp add: findBestPubkey_def Let_def ia ib ha hb)
  qed
qed

section \<open>The configuration\<close>

definition list_ok :: "AlgorithmEnum list \<Rightarrow> bool" where
  "list_ok a \<longleftrightarrow> length a \<le> 7 \<and> distinct (map algoName a) \<and> (\<forall>x \<in> set a. isValid x)"

definition config_ok :: "ZrtpConfigure \<Rightarrow> bool" where
  "config_ok c \<longleftrightarrow> list_ok (hashes c) \<and> list_ok (symCiphers c) \<and> list_ok (publicKeyAlgos c) \<and>
    list_ok (sasTypes c) \<and> list_ok (authLengths c)"

lemma config_ok_getEnum: "config_ok c \<Longrightarrow> list_ok (getEnum ty c)"
  by (cases ty) (simp_all add: getEnum_def config_ok_def)

lemma config_ok_putEnum: "config_ok c \<Longrightarrow> config_ok (putEnum ty a c) \<longleftrightarrow> list_ok a"
  by (cases ty) (auto simp: putEnum_def config_ok_def)

lemma config_ok_addAlgo: "config_ok c \<Longrightarrow> config_ok (snd (addAlgo ty al c))"
  using config_ok_getEnum[of c ty]
  by (auto simp: addAlgo_def Let_def config_ok_putEnum list_ok_def containsAlgo_def)

lemma erase_name_sub: "set (erase_name n as) \<subseteq> set as" "length (erase_name n as) \<le> length as"
  "distinct (map algoName as) \<Longrightarrow> distinct (map algoName (erase_name n as))"
proof -
  show sub: "set (erase_name n as) \<subseteq> set as" for as by (induction as) auto
  show "length (erase_name n as) \<le> length as" by (induction as) auto
  show "distinct (map algoName as) \<Longrightarrow> distinct (map algoName (erase_name n as))"
    by (induction as) (use sub in auto)
qed

lemma list_ok_erase: "list_ok a \<Longrightarrow> list_ok (erase_name n a)"
  using erase_name_sub[where n = n and as = a] by (auto simp: list_ok_def)

lemma config_ok_removeAlgo: "config_ok c \<Longrightarrow> config_ok (snd (removeAlgo ty al c))"
  using config_ok_getEnum[of c ty] by (simp add: removeAlgo_def Let_def config_ok_putEnum list_ok_erase)

lemma config_ok_clear: "config_ok (clear c)"
  by (simp add: clear_def config_ok_def list_ok_def)

lemma config_ok_named: "config_ok c \<Longrightarrow> config_ok (fold (add_named ty e) ns c)"
  by (induction ns arbitrary: c) (simp_all add: add_named_def config_ok_addAlgo)

lemma config_ok_presets: "config_ok (setStandardConfig c)" "config_ok (setMandatoryOnly c)"
  by (simp_all add: setStandardConfig_def setMandatoryOnly_def Let_def config_ok_named config_ok_clear
      del: fold_simps fold.simps)

section \<open>The other algorithms\<close>

lemma find_offered_conf: "find_offered conf xs = Some a \<Longrightarrow> a \<in> set conf"
proof (induction xs)
  case (Cons x xs)
  then show ?case by (auto split: option.splits simp: find_Some_iff)
qed simp

lemma findBest_valid:
  assumes "\<forall>x \<in> set conf. isValid x" "isValid (getByName m known)"
  shows "isValid (findBest conf known m offered)"
  using assms find_offered_conf by (auto simp: findBest_def split: option.split)

lemma mandatory_valid:
  "isValid (getByName mandatoryHash zrtpHashes)" "isValid (getByName mandatoryCipher zrtpSymCiphers)"
  "isValid (getByName mandatoryPubKey zrtpPubKeys)" "isValid (getByName mandatorySasType zrtpSasTypes)"
  "isValid (getByName mandatoryAuthLen_1 zrtpAuthLengths)"
  unfolding isValid_def by code_simp+

lemma findBest_all_valid:
  assumes "config_ok c"
  shows "isValid (findBestHash c h)" "isValid (findBestCipher c h pk)" "isValid (findBestSASType c h)"
    "isValid (findBestAuthLen c h)"
  using assms findBest_valid mandatory_valid
  by (simp_all add: findBestHash_def findBestCipher_def findBestSASType_def findBestAuthLen_def config_ok_def list_ok_def)

lemma preferred_cases:
  assumes "preferred p special known offered = Some a"
  shows "\<exists>n \<in> set special. a = getByName n known \<and> n \<in> set offered"
  using assms by (auto simp: preferred_def find_Some_iff split: if_splits)

lemma special_valid:
  "\<forall>n \<in> set [skn3, s384, skn2]. isValid (getByName n zrtpHashes)"
  "\<forall>n \<in> set [two3, aes3]. isValid (getByName n zrtpSymCiphers)"
  "\<forall>n \<in> set [sk32, sk64]. isValid (getByName n zrtpAuthLengths)"
  "\<forall>n \<in> set [s384, skn3]. algoName (getByName n zrtpHashes) = n"
  unfolding isValid_def by code_simp+

lemma strong_hash:
  assumes "getStrongHashOffered c h name = Some a"
  shows "isValid a \<and> algoName a \<in> {s384, skn3}"
proof -
  have "\<exists>n \<in> {s384, skn3}. a = getByName n zrtpHashes"
    using assms by (auto simp: getStrongHashOffered_def split: option.splits dest!: preferred_cases)
  then show ?thesis using special_valid(1,4) by auto
qed

lemma strong_cipher:
  assumes "getStrongCipherOffered c h name = Some a"
  shows "isValid a"
proof -
  have "\<exists>n \<in> {two3, aes3}. a = getByName n zrtpSymCiphers"
    using assms by (auto simp: getStrongCipherOffered_def split: option.splits dest!: preferred_cases)
  then show ?thesis using special_valid(2) by auto
qed

text \<open>The first Twofish name that is offered; the one for 2FS2 is in no enumeration.\<close>

definition first_twofish :: "hello_packet \<Rightarrow> algo_name option" where
  "first_twofish h = List.find (\<lambda>n. n \<in> {two2, two3}) (cipherOffers h)"

lemma two2_unknown: "getByName two2 zrtpSymCiphers = invalidAlgo"
  by code_simp

lemma offered_valid:
  assumes "config_ok c"
  shows "isValid (getHashOffered c h name)" "isValid (getAuthLenOffered c h name)"
    "getCipherOffered c h name = Some a \<Longrightarrow> isValid a \<longleftrightarrow> \<not> (nonNist c name \<and> first_twofish h = Some two2)"
proof -
  show "isValid (getHashOffered c h name)"
    using findBest_all_valid(1)[OF assms] special_valid(1)
    by (auto simp: getHashOffered_def split: option.splits dest!: preferred_cases)
  show "isValid (getAuthLenOffered c h name)"
    using findBest_all_valid(4)[OF assms] special_valid(3)
    by (auto simp: getAuthLenOffered_def split: option.splits dest!: preferred_cases)
  assume "getCipherOffered c h name = Some a"
  then obtain n where n: "nonNist c name" "first_twofish h = Some n" "a = getByName n zrtpSymCiphers"
    by (auto simp: getCipherOffered_def preferred_def first_twofish_def split: if_splits)
  then have "n = two2 \<or> n = two3" by (auto simp: first_twofish_def find_Some_iff)
  moreover have "two2 \<noteq> two3" by code_simp
  ultimately show "isValid a \<longleftrightarrow> \<not> (nonNist c name \<and> first_twofish h = Some two2)"
    using n special_valid(2) two2_unknown by (auto simp: isValid_def invalidAlgo_def)
qed

lemma pubkey_valid:
  assumes "config_ok c" "\<forall>x \<in> set (publicKeyAlgos c). length (algoName x) = 4"
  shows "isValid (fst (findBestPubkey c h s))"
proof -
  let ?own = "ownIntersect (publicKeyAlgos c) (pubKeyOffers h)" and ?peer = "peerIntersect (publicKeyAlgos c) (pubKeyOffers h)"
  have own: "isValid a \<and> length (algoName a) = 4" if "a \<in> set ?own" for a
    using that assms by (auto simp: ownIntersect_def config_ok_def list_ok_def)
  have peer: "isValid p \<and> ?own \<noteq> []" if "p \<in> set ?peer" for p
  proof -
    from that obtain a n where a: "a \<in> set ?own" "algoName a = algoName p" "p = getByName n zrtpPubKeys"
      by (auto simp: peerIntersect_def)
    then have "p \<noteq> invalidAlgo" using own[OF a(1)] by (auto simp: invalidAlgo_def)
    then show ?thesis using getByName_cases[OF enums_ok(3), of n] a by auto
  qed
  have "isValid (choosePubkey ?own ?peer)" if "?peer \<noteq> []"
  proof -
    have "?peer ! 0 \<in> set ?peer" using that by simp
    then have "isValid (?peer ! 0)" "?own ! 0 \<in> set ?own" using peer by simp_all
    then show ?thesis using own by (simp add: choosePubkey_def)
  qed
  then show ?thesis using mandatory_valid(3) by (simp add: findBestPubkey_def Let_def)
qed

section \<open>Properties\<close>

text \<open>C14. Two ends that put their configurations into their Hello packets select the same public key algorithm,
  whichever of them becomes the initiator, and whatever the uninitialised memory and the algorithms selected before
  were.\<close>

theorem zrtp_pubkey_agreement:
  assumes "offerable a" "offerable b" "pubkeys_ok a" "pubkeys_ok b"
    and "configureHello a = Some pa" "configureHello b = Some pb"
  shows "fst (findBestPubkey a (ZrtpPacketHello j pb) s) = fst (findBestPubkey b (ZrtpPacketHello j' pa) s')"
  using hello_read[OF assms(1), of j'] hello_read[OF assms(2), of j] assms(5,6)
  by (intro pubkey_selection[OF assms(3,4)]) (simp_all add: Let_def)

lemma presets_offerable:
  "offerable (setStandardConfig (newZrtpConfigure False))" "pubkeys_ok (setStandardConfig (newZrtpConfigure False))"
  "offerable (setMandatoryOnly (newZrtpConfigure False))" "pubkeys_ok (setMandatoryOnly (newZrtpConfigure False))"
  unfolding pubkeys_ok_def by code_simp+

theorem zrtp_pubkey_agreement_witness:
  "let j = \<lparr>h_bytes = [], nHash = 9, nCipher = 9, nAuth = 9, nPubkey = 9, nSas = 9, computedLength = 9\<rparr>;
      s = \<lparr>sel_hash = None, sel_cipher = None, sel_authLength = None\<rparr> in
    \<exists>pa pb. configureHello (setStandardConfig (newZrtpConfigure False)) = Some pa \<and>
    configureHello (setMandatoryOnly (newZrtpConfigure False)) = Some pb \<and>
    fst (findBestPubkey (setStandardConfig (newZrtpConfigure False)) (ZrtpPacketHello j pb) s) =
    fst (findBestPubkey (setMandatoryOnly (newZrtpConfigure False)) (ZrtpPacketHello j pa) s)"
  unfolding Let_def
  using zrtp_pubkey_agreement[OF presets_offerable(1,3,2,4)] hello_read[OF presets_offerable(1)]
    hello_read[OF presets_offerable(3)] by blast

text \<open>C31. What a configuration with at most 7 algorithms of a kind offers in a Hello packet is what the receiver
  reads: the packet fits its buffer, its length is accepted, and the five lists of names come back in order.\<close>

theorem zrtp_hello_roundtrip:
  assumes "offerable c"
  shows "\<exists>b. configureHello c = Some b \<and> isLengthOk (ZrtpPacketHello junk b) \<and>
    hashOffers (ZrtpPacketHello junk b) = map algoName (hashes c) \<and>
    cipherOffers (ZrtpPacketHello junk b) = map algoName (symCiphers c) \<and>
    authOffers (ZrtpPacketHello junk b) = map algoName (authLengths c) \<and>
    pubKeyOffers (ZrtpPacketHello junk b) = map algoName (publicKeyAlgos c) \<and>
    sasOffers (ZrtpPacketHello junk b) = map algoName (sasTypes c)"
  using hello_read[OF assms, of junk] by (auto simp: Let_def)

theorem zrtp_hello_roundtrip_witness:
  "\<exists>b. configureHello (setStandardConfig (newZrtpConfigure False)) = Some b \<and>
    isLengthOk (ZrtpPacketHello \<lparr>h_bytes = [], nHash = 9, nCipher = 9, nAuth = 9, nPubkey = 9, nSas = 9, computedLength = 9\<rparr> b)"
  using zrtp_hello_roundtrip[OF presets_offerable(1)] by blast

text \<open>A Hello packet whose length field is 0 passes the length check, although the constructor means to
  force it to fail: the numbers of algorithms are then those of uninitialised memory.\<close>

theorem zrtp_hello_zero_length:
  "packet_words data = 0 \<longleftrightarrow>
    packet_words data < HELLO_FIXED_PART_LEN \<and> isLengthOk (ZrtpPacketHello junk data) \<and>
    ZrtpPacketHello junk data = junk\<lparr>h_bytes := data, computedLength := 0\<rparr>"
  by (auto simp: ZrtpPacketHello_def isLengthOk_def Let_def)

text \<open>What \<open>addAlgoAt\<close> makes of a list is correct exactly when there was room and the algorithm is new.\<close>

lemma list_ok_insert:
  assumes "list_ok (xs @ ys)" "isValid al"
  shows "list_ok (xs @ al # ys) \<longleftrightarrow> \<not> containsAlgo (xs @ ys) al \<and> length (xs @ ys) < 7"
  using assms by (auto simp: list_ok_def containsAlgo_def image_iff)

lemma config_ok_addAlgoAt:
  assumes "config_ok c" "isValid al" "0 \<le> index" "index < 7"
  shows "config_ok (snd (addAlgoAt ty al index c)) \<longleftrightarrow>
    \<not> containsAlgo (getEnum ty c) al \<and> getNumConfiguredAlgos ty c < 7"
proof -
  have ok: "list_ok (getEnum ty c)" using config_ok_getEnum[OF assms(1)] .
  have "list_ok (take n (getEnum ty c) @ al # drop n (getEnum ty c)) \<longleftrightarrow>
      \<not> containsAlgo (getEnum ty c) al \<and> length (getEnum ty c) < 7" for n
    using list_ok_insert[of "take n (getEnum ty c)" "drop n (getEnum ty c)"] ok assms(2)
    unfolding append_take_drop_id by blast
  moreover have "list_ok (getEnum ty c @ [al]) \<longleftrightarrow> \<not> containsAlgo (getEnum ty c) al \<and> length (getEnum ty c) < 7"
    using list_ok_insert[of "getEnum ty c" "[]"] ok assms(2) by simp
  moreover have "\<exists>a. snd (addAlgoAt ty al index c) = putEnum ty a c \<and>
      (a = getEnum ty c @ [al] \<or> a = take (nat index) (getEnum ty c) @ al # drop (nat index) (getEnum ty c))"
    using assms(2-4) by (auto simp: addAlgoAt_def Let_def)
  ultimately show ?thesis
    using config_ok_putEnum[OF assms(1)] unfolding getNumConfiguredAlgos_def by fastforce
qed

text \<open>C30. A configuration has at most 7 algorithms of a kind, all valid, none twice; the new configuration is such
  a one and \<open>addAlgo\<close>, \<open>removeAlgo\<close>, \<open>clear\<close> and the presets keep it so.  \<open>addAlgoAt\<close> does exactly when
  the algorithm is not there yet and there is room for it: it checks neither.\<close>

theorem zrtp_config_invariant:
  assumes "config_ok c"
  shows "config_ok (newZrtpConfigure j) \<and> config_ok (snd (addAlgo ty al c)) \<and> config_ok (snd (removeAlgo ty al c)) \<and>
    config_ok (clear c) \<and> config_ok (setStandardConfig c) \<and> config_ok (setMandatoryOnly c) \<and>
    (isValid al \<and> 0 \<le> index \<and> index < 7 \<longrightarrow>
      (config_ok (snd (addAlgoAt ty al index c)) \<longleftrightarrow>
        \<not> containsAlgo (getEnum ty c) al \<and> getNumConfiguredAlgos ty c < 7))"
proof -
  have "config_ok (newZrtpConfigure j)" by (simp add: newZrtpConfigure_def config_ok_def list_ok_def)
  then show ?thesis
    using assms config_ok_addAlgo config_ok_removeAlgo config_ok_clear config_ok_presets config_ok_addAlgoAt by blast
qed

theorem zrtp_config_invariant_witness:
  "\<not> config_ok (snd (addAlgoAt HashAlgorithm (getByName s256 zrtpHashes) 0 (setStandardConfig (newZrtpConfigure False))))"
proof -
  have "isValid (getByName s256 zrtpHashes)"
    "containsAlgo (getEnum HashAlgorithm (setStandardConfig (newZrtpConfigure False))) (getByName s256 zrtpHashes)"
    by code_simp+
  with zrtp_config_invariant[OF config_ok_presets(1), of False HashAlgorithm "getByName s256 zrtpHashes" "newZrtpConfigure False" 0]
  show ?thesis by simp
qed

text \<open>What the selection of the public key algorithm leaves for the others.\<close>

lemma pubkey_sets:
  assumes "config_ok c"
    and "findBestPubkey c h \<lparr>sel_hash = None, sel_cipher = None, sel_authLength = None\<rparr> = (pk, s)"
  shows "pred_option isValid (sel_hash s)" "pred_option isValid (sel_authLength s)"
    "algoName pk \<in> {ec38, e414} \<longrightarrow> pred_option (\<lambda>a. algoName a \<in> {s384, skn3}) (sel_hash s)"
    "pred_option isValid (sel_cipher s) \<longleftrightarrow>
      \<not> (algoName pk = e255 \<and> selectionPolicy c = PreferNonNist \<and> first_twofish h = Some two2)"
proof -
  have dh3k: "algoName (getByName mandatoryPubKey zrtpPubKeys) \<notin> {ec38, e414, e255}" by code_simp
  have names: "ec38 \<noteq> e255" "e414 \<noteq> e255" by code_simp+
  have sh: "pred_option isValid (getStrongHashOffered c h n)"
    "pred_option (\<lambda>a. algoName a \<in> {s384, skn3}) (getStrongHashOffered c h n)"
    "pred_option isValid (getStrongCipherOffered c h n)" for n
    using strong_hash[of c h n] strong_cipher[of c h n]
    by (cases "getStrongHashOffered c h n"; cases "getStrongCipherOffered c h n"; simp)+
  have ci: "pred_option isValid (getCipherOffered c h n) \<longleftrightarrow> \<not> (nonNist c n \<and> first_twofish h = Some two2)" for n
    using offered_valid(3)[OF assms(1), of h n]
    by (cases "getCipherOffered c h n") (auto simp: getCipherOffered_def preferred_def first_twofish_def)
  have "pred_option isValid (sel_hash s) \<and> pred_option isValid (sel_authLength s) \<and>
    (algoName pk \<in> {ec38, e414} \<longrightarrow> pred_option (\<lambda>a. algoName a \<in> {s384, skn3}) (sel_hash s)) \<and>
    (pred_option isValid (sel_cipher s) \<longleftrightarrow>
      \<not> (algoName pk = e255 \<and> selectionPolicy c = PreferNonNist \<and> first_twofish h = Some two2))"
  proof (cases "nPubkey h = 0 \<or> peerIntersect (publicKeyAlgos c) (pubKeyOffers h) = []")
    case True
    then show ?thesis
      using assms(2) dh3k findBest_all_valid(1)[OF assms(1), of h] by (auto simp: findBestPubkey_def Let_def)
  next
    case False
    then show ?thesis
      using assms(2) sh ci offered_valid(1,2)[OF assms(1)] names
      by (cases "algoName pk = ec38 \<or> algoName pk = e414") (auto simp: findBestPubkey_def Let_def nonNist_def)
  qed
  then show "pred_option isValid (sel_hash s)" "pred_option isValid (sel_authLength s)"
    "algoName pk \<in> {ec38, e414} \<longrightarrow> pred_option (\<lambda>a. algoName a \<in> {s384, skn3}) (sel_hash s)"
    "pred_option isValid (sel_cipher s) \<longleftrightarrow>
      \<not> (algoName pk = e255 \<and> selectionPolicy c = PreferNonNist \<and> first_twofish h = Some two2)" by blast+
qed

text \<open>C29. What a correct configuration selects is valid, with a strong hash for EC38 and E414, but for one case of
  the cipher: with E255 under the policy for other than NIST algorithms, and 2FS2, which no enumeration knows, as
  the first Twofish name in the peer's Hello, the cipher is the invalid algorithm.\<close>

theorem zrtp_selection_valid:
  assumes "config_ok c" "offerable c"
    and "selectAlgorithms c h \<lparr>sel_hash = None, sel_cipher = None, sel_authLength = None\<rparr> =
      Some (sas, pk, hash, cipher, auth, ms)"
  shows "isValid sas \<and> isValid pk \<and> isValid hash \<and> isValid auth \<and>
    (algoName pk \<in> {ec38, e414} \<longrightarrow> algoName hash \<in> {s384, skn3}) \<and>
    (isValid cipher \<longleftrightarrow> \<not> (algoName pk = e255 \<and> selectionPolicy c = PreferNonNist \<and>
      List.find (\<lambda>n. n \<in> {two2, two3}) (cipherOffers h) = Some two2))"
proof -
  obtain pk' s where p: "findBestPubkey c h \<lparr>sel_hash = None, sel_cipher = None, sel_authLength = None\<rparr> = (pk', s)"
    by (metis surj_pair)
  have names: "\<forall>x \<in> set (publicKeyAlgos c). length (algoName x) = 4"
    using assms(2) by (simp add: offerable_def small_list_def)
  have "isValid pk'" using pubkey_valid[OF assms(1) names, of h] p by (metis fst_conv)
  then show ?thesis
    using assms(3) p pubkey_sets[OF assms(1) p] findBest_all_valid[OF assms(1)]
    unfolding first_twofish_def
    by (auto simp: selectAlgorithms_def Let_def split: option.splits)
qed

definition sample_hello :: hello_packet where
  "sample_hello =
    ZrtpPacketHello \<lparr>h_bytes = [], nHash = 0, nCipher = 0, nAuth = 0, nPubkey = 0, nSas = 0, computedLength = 0\<rparr>
      (the (configureHello (setMandatoryOnly (newZrtpConfigure False))))"

lemma sample_selection:
  "map_option (\<lambda>(sas, pk, hash, cipher, auth, ms). map algoName [sas, pk, hash, cipher, auth])
      (selectAlgorithms (setStandardConfig (newZrtpConfigure False)) sample_hello
        \<lparr>sel_hash = None, sel_cipher = None, sel_authLength = None\<rparr>) = Some [b32, dh3k, s256, aes1, hs32]"
  by code_simp

theorem zrtp_selection_valid_witness:
  "\<exists>sas pk hash cipher auth ms. selectAlgorithms (setStandardConfig (newZrtpConfigure False)) sample_hello
      \<lparr>sel_hash = None, sel_cipher = None, sel_authLength = None\<rparr> = Some (sas, pk, hash, cipher, auth, ms) \<and>
    isValid hash \<and> isValid cipher \<and> algoName cipher = aes1"
proof -
  obtain sas pk hash cipher auth ms where sel: "selectAlgorithms (setStandardConfig (newZrtpConfigure False)) sample_hello
      \<lparr>sel_hash = None, sel_cipher = None, sel_authLength = None\<rparr> = Some (sas, pk, hash, cipher, auth, ms)"
    and aes: "algoName cipher = aes1"
    using sample_selection by (auto split: prod.splits)
  have "selectionPolicy (setStandardConfig (newZrtpConfigure False)) = Standard" by code_simp
  then show ?thesis
    using zrtp_selection_valid[OF config_ok_presets(1) presets_offerable(1) sel] sel aes by auto
qed

end
