(* ===== verification/Base32.thy ===== *)
theory Base32
  imports Prelude "HOL-Library.Signed_Division"
begin

unbundle bit_operations_syntax

text \<open>
  The base 32 coders of the short authentication string: \<open>zrtp/Base32.cpp\<close> (letters) and
  \<open>zrtp/EmojiBase32.cpp\<close> (emojis, and their UTF-8 form).  Both work from the last byte to the first in a
  loop that is entered at a case that depends on the length.  Shown: the characters are the digits to the
  base 32 of the bytes as one number, and decoding gives back the bytes.
\<close>

section \<open>The code\<close>

text \<open>The division of C truncates.\<close>

definition divceil :: "int \<Rightarrow> int \<Rightarrow> int" where
  "divceil a b =
    (let c = (if a > 0 then (if b > 0 then a + b - 1 else a) else (if b > 0 then a else a + b + 1)) in c sdiv b)"

definition chars :: string where
  "chars = ''ybndrfg8ejkmcpqxot1uwisza345h769''"

definition revchars :: "nat list" where
  "revchars =
    replicate 48 255 @
    [255,  18, 255,  25,  26,  27,  30,  29,
       7,  31, 255, 255, 255, 255, 255, 255] @
    replicate 32 255 @
    [255,  24,   1,  12,   3,   8,   5,   6,
      28,  21,   9,  10, 255,  11,   2,  16,
      13,  14,   4,  22,  17,  19, 255,  20,
      15,   0,  23, 255, 255, 255, 255, 255] @
    replicate 128 255"

text \<open>The loop of \<open>b2a_l\<close>, entered at a case.  The bytes still to read come last one first, the characters
  already written are \<open>acc\<close>, the last one at its end.  \<open>None\<close>: a read in front of the bytes, or behind the
  table.\<close>

definition put :: "'a list \<Rightarrow> nat \<Rightarrow> 'a list \<Rightarrow> 'a list" where
  "put tab i acc = tab ! i # acc"

fun b2a_case :: "'a list \<Rightarrow> nat \<Rightarrow> nat \<Rightarrow> u8 list \<Rightarrow> 'a list \<Rightarrow> 'a list option" where
  "b2a_case tab k x [] acc = None"
| "b2a_case tab k x (b # bs) acc =
    (if k = 0 then
       (let x = unat b in b2a_case tab 4 (x div 32) bs (put tab (x mod 32) acc))
     else if k = 4 then
       (let x = x OR push_bit 3 (unat b); acc = put tab (x mod 32) acc; x = x div 32
        in b2a_case tab 3 (x div 32) bs (put tab (x mod 32) acc))
     else if k = 3 then
       (let x = x OR push_bit 1 (unat b) in b2a_case tab 2 (x div 32) bs (put tab (x mod 32) acc))
     else if k = 2 then
       (let x = x OR push_bit 4 (unat b); acc = put tab (x mod 32) acc; x = x div 32
        in b2a_case tab 1 (x div 32) bs (put tab (x mod 32) acc))
     else
       (let x = x OR push_bit 2 (unat b); acc = put tab (x mod 32) acc; x = x div 32
        in if x < length tab then
             (if bs = [] then Some (put tab x acc) else b2a_case tab 0 x bs (put tab x acc))
           else None))"

text \<open>\<open>Base32(data, noOfBits)\<close>: the number of bytes is that of the bits, rounded up.  The result string has
  \<open>divceil(len*8, 5)\<close> characters, which is how many the loop writes.\<close>

definition b2a_l :: "u8 list \<Rightarrow> nat \<Rightarrow> string option" where
  "b2a_l os lengthinbits =
    (case b2a_case chars (length os mod 5) 0 (rev os) [] of
       None \<Rightarrow> None
     | Some result \<Rightarrow> Some (take (nat (divceil (int lengthinbits) 5)) result))"

definition Base32_encode :: "u8 list \<Rightarrow> nat \<Rightarrow> string option" where
  "Base32_encode data noOfBits = b2a_l (take ((noOfBits + 7) div 8) data) noOfBits"

fun a2b_case :: "nat \<Rightarrow> nat \<Rightarrow> char list \<Rightarrow> u8 list \<Rightarrow> u8 list option" where
  "a2b_case k x [] acc = None"
| "a2b_case k x (c # cs) acc =
    (let r = revchars ! of_char c; out = (\<lambda>x. word_of_nat (x mod 256) # acc) in
     if k = 0 then a2b_case 7 r cs acc
     else if k = 7 then (let x = x OR push_bit 5 r in a2b_case 6 (x div 256) cs (out x))
     else if k = 6 then (let x = x OR push_bit 2 r in a2b_case 5 x cs acc)
     else if k = 5 then (let x = x OR push_bit 7 r in a2b_case 4 (x div 256) cs (out x))
     else if k = 4 then (let x = x OR push_bit 4 r in a2b_case 3 (x div 256) cs (out x))
     else if k = 3 then (let x = x OR push_bit 1 r in a2b_case 2 x cs acc)
     else if k = 2 then (let x = x OR push_bit 6 r in a2b_case 1 (x div 256) cs (out x))
     else (let x = x OR push_bit 3 r in if cs = [] then Some (out x) else a2b_case 0 x cs (out x)))"

text \<open>The bytes of the result, and how many of them are reported.\<close>

definition a2b_l :: "string \<Rightarrow> nat \<Rightarrow> nat \<Rightarrow> (u8 list \<times> int) option" where
  "a2b_l cs n lengthinbits =
    (case a2b_case (n mod 8) 0 (rev (take n cs)) [] of
       None \<Rightarrow> None
     | Some result \<Rightarrow> Some (result, divceil (int lengthinbits) 8))"

definition Base32_decode :: "string \<Rightarrow> (u8 list \<times> int) option" where
  "Base32_decode encoded = a2b_l encoded (length encoded) (length encoded * 5 div 8 * 8)"

definition Base32_decode_bits :: "string \<Rightarrow> nat \<Rightarrow> (u8 list \<times> int) option" where
  "Base32_decode_bits encoded noOfBits = a2b_l encoded (nat (divceil (int noOfBits) 5)) noOfBits"

text \<open>The emojis.\<close>

definition emojis :: "u32 list" where
  "emojis =
    [0x1f601, 0x1f63a, 0x1f465, 0x1f332, 0x1f45f, 0x270b, 0x1f44d, 0x1f435,
     0x1f434, 0x1f40d, 0x1f41f, 0x1f338, 0x1f310, 0x1f3e0, 0x1f31e, 0x1f698,
     0x1f535, 0x1f6a2, 0x1f53a, 0x1f42a, 0x1f525, 0x1f388, 0x1f426, 0x1f50d,
     0x1f4d7, 0x1f4a1, 0x1f536, 0x1f528, 0x1f55B, 0x1f31f, 0x274e, 0x1f6a9]"

definition emoji_b2a_l :: "u8 list \<Rightarrow> nat \<Rightarrow> u32 list option" where
  "emoji_b2a_l os lengthinbits =
    (case b2a_case emojis (length os mod 5) 0 (rev os) [] of
       None \<Rightarrow> None
     | Some result \<Rightarrow> Some (take (nat (divceil (int lengthinbits) 5)) result))"

definition EmojiBase32_encode :: "u8 list \<Rightarrow> nat \<Rightarrow> u32 list option" where
  "EmojiBase32_encode data noOfBits = emoji_b2a_l (take ((noOfBits + 7) div 8) data) noOfBits"

text \<open>One code point in UTF-8.\<close>

definition U8_APPEND_UNSAFE :: "u32 \<Rightarrow> u8 list" where
  "U8_APPEND_UNSAFE c =
    (if c \<le> 0x7f then [ucast c]
     else if c \<le> 0x7ff then [ucast (drop_bit 6 c OR 0xc0), ucast ((c AND 0x3f) OR 0x80)]
     else if c \<le> 0xffff then
       [ucast (drop_bit 12 c OR 0xe0), ucast ((drop_bit 6 c AND 0x3f) OR 0x80), ucast ((c AND 0x3f) OR 0x80)]
     else [ucast (drop_bit 18 c OR 0xf0), ucast ((drop_bit 12 c AND 0x3f) OR 0x80),
           ucast ((drop_bit 6 c AND 0x3f) OR 0x80), ucast ((c AND 0x3f) OR 0x80)])"

definition u32StringToUtf8 :: "u32 list \<Rightarrow> u8 list" where
  "u32StringToUtf8 s = concat (map U8_APPEND_UNSAFE s)"

section \<open>Digits\<close>

text \<open>Bytes, last one first, as a number; and the digits of a number, written from the last to the first.\<close>

primrec le_num :: "u8 list \<Rightarrow> nat" where
  "le_num [] = 0"
| "le_num (b # bs) = unat b + 256 * le_num bs"

primrec emit :: "(nat \<Rightarrow> 'a) \<Rightarrow> nat \<Rightarrow> nat \<Rightarrow> nat \<Rightarrow> 'a list \<Rightarrow> 'a list" where
  "emit f B 0 N acc = acc"
| "emit f B (Suc n) N acc = emit f B n (N div B) (f (N mod B) # acc)"

lemma disjoint_or:
  fixes x y :: nat
  assumes "x < 2 ^ s"
  shows "x OR push_bit s y = x + 2 ^ s * y"
proof -
  have "int (x OR push_bit s y) = concat_bit s (int x) (int y)"
    using assms by (simp add: concat_bit_def of_nat_or_eq of_nat_push_bit take_bit_int_eq_self)
  also have "\<dots> = int (x + 2 ^ s * y)"
    using assms by (simp add: concat_bit_eq push_bit_eq_mult take_bit_int_eq_self_iff)
  finally show ?thesis by linarith
qed

lemma or_shifted:
  fixes x :: nat
  shows "x < 8 \<Longrightarrow> x OR push_bit 3 y = x + 8 * y" "x < 2 \<Longrightarrow> x OR push_bit 1 y = x + 2 * y"
    "x < 16 \<Longrightarrow> x OR push_bit 4 y = x + 16 * y" "x < 4 \<Longrightarrow> x OR push_bit 2 y = x + 4 * y"
    "x < 32 \<Longrightarrow> x OR push_bit 5 y = x + 32 * y" "x < 128 \<Longrightarrow> x OR push_bit 7 y = x + 128 * y"
    "x < 64 \<Longrightarrow> x OR push_bit 6 y = x + 64 * y" "x < 2 \<Longrightarrow> x OR y * 2 = x + 2 * y" "x < 2 \<Longrightarrow> x OR 2 * y = x + 2 * y"
  using disjoint_or[of x 3 y] disjoint_or[of x 1 y] disjoint_or[of x 4 y] disjoint_or[of x 2 y]
    disjoint_or[of x 5 y] disjoint_or[of x 7 y] disjoint_or[of x 6 y] by (simp_all add: push_bit_eq_mult mult.commute)

declare emit.simps(2) [simp del]

lemma emit_digit:
  "n' = Suc n \<Longrightarrow> N = a + 32 * m \<Longrightarrow> emit f 32 n' N acc = emit f 32 n (m + a div 32) (f (a mod 32) # acc)"
  "n' = Suc n \<Longrightarrow> N = a + 256 * m \<Longrightarrow> emit f 256 n' N acc = emit f 256 n (m + a div 256) (f (a mod 256) # acc)"
  by (simp_all add: emit.simps(2) add.commute)

lemma emit_digits:
  "n' = Suc (Suc n) \<Longrightarrow> N = a + 1024 * m \<Longrightarrow>
    emit f 32 n' N acc = emit f 32 n (m + a div 32 div 32) (f (a div 32 mod 32) # f (a mod 32) # acc)"
proof -
  assume n: "n' = Suc (Suc n)" "N = a + 1024 * m"
  have "(a + 1024 * m) div 32 = a div 32 + 32 * m" by simp
  then show ?thesis using n
    by (simp add: emit_digit(1)[of _ "Suc n" _ a "32 * m"] emit_digit(1)[of _ n _ "a div 32" m] add.commute)
qed

text \<open>The number of bits that \<open>x\<close> holds on entry at a case.\<close>

definition held :: "nat \<Rightarrow> nat" where
  "held k = (if k = 0 then 0 else if k = 4 then 3 else if k = 3 then 1 else if k = 2 then 4 else 2)"

lemma byte_bound: "unat (b :: u8) < 256"
  using unsigned_less[of b] by simp

lemma digit_step: "(a + 32 * m) mod 32 = a mod 32" "(a + 32 * m) div 32 = a div 32 + (m :: nat)"
  by simp_all

lemma b2a_emit:
  assumes "length bs mod 5 = k" "bs \<noteq> []" "k \<noteq> 0 \<Longrightarrow> x < 2 ^ held k" "32 \<le> length tab"
  shows "b2a_case tab k x bs acc =
    Some (emit ((!) tab) 32 ((8 * length bs + held k) div 5) (le_num bs * 2 ^ held k + (if k = 0 then 0 else x)) acc)"
  using assms
proof (induction tab k x bs acc rule: b2a_case.induct)
  case (2 tab k x b bs acc)
  let ?b = "unat b" and ?n = "le_num bs"
  have b: "?b < 256" by (rule byte_bound)
  note ih = 2(1-5) and prems = 2(6-9)
  have "k < 5" using prems by auto
  then consider "k = 0" | "k = 4" | "k = 3" | "k = 2" | "k = 1" by linarith
  then show ?case
  proof cases
    case 1
    have l: "length bs mod 5 = 4" "bs \<noteq> []" using prems(1) 1 by (auto simp: mod_Suc split: if_splits)
    then obtain m where m: "length bs = 5 * m + 4" by (metis mult_div_mod_eq)
    have e: "emit ((!) tab) 32 ((8 * length (b # bs) + held 0) div 5) (le_num (b # bs)) acc =
        emit ((!) tab) 32 ((8 * length bs + held 4) div 5) (8 * ?n + ?b div 32) (tab ! (?b mod 32) # acc)"
      by (rule emit_digit) (simp_all add: m held_def)
    have "?b div 32 < 8" using b by simp
    then show ?thesis
      using ih(1)[OF 1 refl l] prems(4) 1 e by (simp add: Let_def put_def held_def mult.commute)
  next
    case 2
    have l: "length bs mod 5 = 3" "bs \<noteq> []" using prems(1) 2 by (auto simp: mod_Suc split: if_splits)
    then obtain m where m: "length bs = 5 * m + 3" by (metis mult_div_mod_eq)
    let ?y = "x + 8 * ?b"
    have x: "x < 8" using prems(3) 2 by (simp add: held_def)
    have e: "emit ((!) tab) 32 ((8 * length (b # bs) + held 4) div 5) (le_num (b # bs) * 8 + x) acc =
        emit ((!) tab) 32 ((8 * length bs + held 3) div 5) (2 * ?n + ?y div 32 div 32) (tab ! (?y div 32 mod 32) # tab ! (?y mod 32) # acc)"
      by (rule emit_digits) (simp_all add: m held_def)
    have y: "?y div 32 div 32 < 2" using b x by simp
    then show ?thesis
      using ih(2)[OF _ 2 refl refl refl l] prems(4) 2 e x by (simp add: Let_def put_def held_def or_shifted mult.commute)
  next
    case 3
    have l: "length bs mod 5 = 2" "bs \<noteq> []" using prems(1) 3 by (auto simp: mod_Suc split: if_splits)
    then obtain m where m: "length bs = 5 * m + 2" by (metis mult_div_mod_eq)
    let ?y = "x + 2 * ?b"
    have x: "x < 2" using prems(3) 3 by (simp add: held_def)
    have e: "emit ((!) tab) 32 ((8 * length (b # bs) + held 3) div 5) (le_num (b # bs) * 2 + x) acc =
        emit ((!) tab) 32 ((8 * length bs + held 2) div 5) (16 * ?n + ?y div 32) (tab ! (?y mod 32) # acc)"
      by (rule emit_digit) (simp_all add: m held_def)
    have y: "?y div 32 < 16" using b x by simp
    then show ?thesis
      using ih(3)[OF _ _ 3 refl l] prems(4) 3 e x by (simp add: Let_def put_def held_def or_shifted mult.commute)
  next
    case 4
    have l: "length bs mod 5 = 1" "bs \<noteq> []" using prems(1) 4 by (auto simp: mod_Suc split: if_splits)
    then obtain m where m: "length bs = 5 * m + 1" by (metis mult_div_mod_eq)
    let ?y = "x + 16 * ?b"
    have x: "x < 16" using prems(3) 4 by (simp add: held_def)
    have e: "emit ((!) tab) 32 ((8 * length (b # bs) + held 2) div 5) (le_num (b # bs) * 16 + x) acc =
        emit ((!) tab) 32 ((8 * length bs + held 1) div 5) (4 * ?n + ?y div 32 div 32) (tab ! (?y div 32 mod 32) # tab ! (?y mod 32) # acc)"
      by (rule emit_digits) (simp_all add: m held_def)
    have y: "?y div 32 div 32 < 4" using b x by simp
    then show ?thesis
      using ih(4)[OF _ _ _ 4 refl refl refl l] prems(4) 4 e x by (simp add: Let_def put_def held_def or_shifted mult.commute)
  next
    case 5
    let ?y = "x + 4 * ?b"
    have x: "x < 4" using prems(3) 5 by (simp add: held_def)
    have y: "?y div 32 < 32" using b x by simp
    then have y': "?y div 32 div 32 = 0" "?y div 32 mod 32 = ?y div 32" by simp_all
    obtain m where m: "length bs = 5 * m" using prems(1) 5 by (auto simp: mod_Suc split: if_splits)
    have e: "emit ((!) tab) 32 ((8 * length (b # bs) + held 1) div 5) (le_num (b # bs) * 4 + x) acc =
        emit ((!) tab) 32 ((8 * length bs + held 0) div 5) (?n + ?y div 32 div 32) (tab ! (?y div 32 mod 32) # tab ! (?y mod 32) # acc)"
      by (rule emit_digits) (simp_all add: m held_def)
    show ?thesis
    proof (cases "bs = []")
      case True
      then have "le_num (b # bs) * 4 + x = ?y" "(8 * length (b # bs) + held 1) div 5 = 2" by (simp_all add: held_def)
      then show ?thesis
        using True 5 e y y' prems(4) x m by (simp add: Let_def put_def held_def or_shifted)
    next
      case False
      then have l: "length bs mod 5 = 0" using m by simp
      show ?thesis
        using ih(5)[OF _ _ _ _ refl refl refl _ False l False] False prems(4) 5 e y y' x
        by (simp add: Let_def put_def held_def or_shifted)
    qed
  qed
qed simp

text \<open>Characters, last one first, as a number.\<close>

primrec char_num :: "char list \<Rightarrow> nat" where
  "char_num [] = 0"
| "char_num (c # cs) = revchars ! of_char c + 32 * char_num cs"

definition kept :: "nat \<Rightarrow> nat" where
  "kept k = (if k = 0 then 0 else if k = 7 then 5 else if k = 6 then 2 else if k = 5 then 7
    else if k = 4 then 4 else if k = 3 then 1 else if k = 2 then 6 else 3)"

lemma a2b_emit:
  assumes "length cs mod 8 = k" "cs \<noteq> []" "k \<noteq> 0 \<Longrightarrow> x < 2 ^ kept k" "\<forall>c \<in> set cs. revchars ! of_char c < 32"
  shows "a2b_case k x cs acc =
    Some (emit word_of_nat 256 ((5 * length cs + kept k) div 8) (char_num cs * 2 ^ kept k + (if k = 0 then 0 else x)) acc)"
  using assms
proof (induction k x cs acc rule: a2b_case.induct)
  case (2 k x c cs acc)
  let ?r = "revchars ! of_char c" and ?n = "char_num cs"
  note ih = 2(1-8) and prems = 2(9-12)
  have r: "?r < 32" and R: "\<forall>c \<in> set cs. revchars ! of_char c < 32" using prems(4) by simp_all
  have "k < 8" using prems by auto
  then consider "k = 0" | "k = 7" | "k = 6" | "k = 5" | "k = 4" | "k = 3" | "k = 2" | "k = 1" by linarith
  then show ?case
  proof cases
    case 1
    have l: "length cs mod 8 = 7" "cs \<noteq> []" using prems(1) 1 by (auto simp: mod_Suc split: if_splits)
    then obtain m where m: "length cs = 8 * m + 7" by (metis mult_div_mod_eq)
    show ?thesis
      using ih(1)[OF refl refl 1 l] R r 1 m by (simp add: Let_def kept_def ac_simps)
  next
    case 2
    have l: "length cs mod 8 = 6" "cs \<noteq> []" using prems(1) 2 by (auto simp: mod_Suc split: if_splits)
    then obtain m where m: "length cs = 8 * m + 6" by (metis mult_div_mod_eq)
    let ?y = "x + 32 * ?r"
    have x: "x < 32" using prems(3) 2 by (simp add: kept_def)
    have e: "emit word_of_nat 256 ((5 * length (c # cs) + kept 7) div 8) (char_num (c # cs) * 32 + x) acc =
        emit word_of_nat 256 ((5 * length cs + kept 6) div 8) (4 * ?n + ?y div 256) ((word_of_nat (?y mod 256) :: u8) # acc)"
      by (rule emit_digit) (simp_all add: m kept_def)
    have y: "?y div 256 < 4" using r x by simp
    then show ?thesis
      using ih(2)[OF refl refl _ 2 refl l] R 2 e x by (simp add: Let_def kept_def or_shifted mult.commute)
  next
    case 3
    have l: "length cs mod 8 = 5" "cs \<noteq> []" using prems(1) 3 by (auto simp: mod_Suc split: if_splits)
    then obtain m where m: "length cs = 8 * m + 5" by (metis mult_div_mod_eq)
    let ?y = "x + 4 * ?r"
    have x: "x < 4" using prems(3) 3 by (simp add: kept_def)
    have y: "?y < 128" using r x by simp
    then show ?thesis
      using ih(3)[OF refl refl _ _ 3 refl l] R 3 x m by (simp add: Let_def kept_def or_shifted ac_simps)
  next
    case 4
    have l: "length cs mod 8 = 4" "cs \<noteq> []" using prems(1) 4 by (auto simp: mod_Suc split: if_splits)
    then obtain m where m: "length cs = 8 * m + 4" by (metis mult_div_mod_eq)
    let ?y = "x + 128 * ?r"
    have x: "x < 128" using prems(3) 4 by (simp add: kept_def)
    have e: "emit word_of_nat 256 ((5 * length (c # cs) + kept 5) div 8) (char_num (c # cs) * 128 + x) acc =
        emit word_of_nat 256 ((5 * length cs + kept 4) div 8) (16 * ?n + ?y div 256) ((word_of_nat (?y mod 256) :: u8) # acc)"
      by (rule emit_digit) (simp_all add: m kept_def)
    have y: "?y div 256 < 16" using r x by simp
    then show ?thesis
      using ih(4)[OF refl refl _ _ _ 4 refl l] R 4 e x by (simp add: Let_def kept_def or_shifted mult.commute)
  next
    case 5
    have l: "length cs mod 8 = 3" "cs \<noteq> []" using prems(1) 5 by (auto simp: mod_Suc split: if_splits)
    then obtain m where m: "length cs = 8 * m + 3" by (metis mult_div_mod_eq)
    let ?y = "x + 16 * ?r"
    have x: "x < 16" using prems(3) 5 by (simp add: kept_def)
    have e: "emit word_of_nat 256 ((5 * length (c # cs) + kept 4) div 8) (char_num (c # cs) * 16 + x) acc =
        emit word_of_nat 256 ((5 * length cs + kept 3) div 8) (2 * ?n + ?y div 256) ((word_of_nat (?y mod 256) :: u8) # acc)"
      by (rule emit_digit) (simp_all add: m kept_def)
    have y: "?y div 256 < 2" using r x by simp
    then show ?thesis
      using ih(5)[OF refl refl _ _ _ _ 5 refl l] R 5 e x by (simp add: Let_def kept_def or_shifted mult.commute)
  next
    case 6
    have l: "length cs mod 8 = 2" "cs \<noteq> []" using prems(1) 6 by (auto simp: mod_Suc split: if_splits)
    then obtain m where m: "length cs = 8 * m + 2" by (metis mult_div_mod_eq)
    let ?y = "x + 2 * ?r"
    have x: "x < 2" using prems(3) 6 by (simp add: kept_def)
    have y: "?y < 64" using r x by simp
    then show ?thesis
      using ih(6)[OF refl refl _ _ _ _ _ 6 refl l] R 6 x m by (simp add: Let_def kept_def or_shifted ac_simps)
  next
    case 7
    have l: "length cs mod 8 = 1" "cs \<noteq> []" using prems(1) 7 by (auto simp: mod_Suc split: if_splits)
    then obtain m where m: "length cs = 8 * m + 1" by (metis mult_div_mod_eq)
    let ?y = "x + 64 * ?r"
    have x: "x < 64" using prems(3) 7 by (simp add: kept_def)
    have e: "emit word_of_nat 256 ((5 * length (c # cs) + kept 2) div 8) (char_num (c # cs) * 64 + x) acc =
        emit word_of_nat 256 ((5 * length cs + kept 1) div 8) (8 * ?n + ?y div 256) ((word_of_nat (?y mod 256) :: u8) # acc)"
      by (rule emit_digit) (simp_all add: m kept_def)
    have y: "?y div 256 < 8" using r x by simp
    then show ?thesis
      using ih(7)[OF refl refl _ _ _ _ _ _ 7 refl l] R 7 e x by (simp add: Let_def kept_def or_shifted mult.commute)
  next
    case 8
    let ?y = "x + 8 * ?r"
    have x: "x < 8" using prems(3) 8 by (simp add: kept_def)
    have y: "?y < 256" using r x by simp
    obtain m where m: "length cs = 8 * m" using prems(1) 8 by (auto simp: mod_Suc split: if_splits)
    have e: "emit word_of_nat 256 ((5 * length (c # cs) + kept 1) div 8) (char_num (c # cs) * 8 + x) acc =
        emit word_of_nat 256 ((5 * length cs + kept 0) div 8) (?n + ?y div 256) ((word_of_nat (?y mod 256) :: u8) # acc)"
      by (rule emit_digit) (simp_all add: m kept_def)
    show ?thesis
    proof (cases "cs = []")
      case True
      then show ?thesis
        using 8 e y x m by (simp add: Let_def kept_def or_shifted)
    next
      case False
      then have l: "length cs mod 8 = 0" using m by simp
      show ?thesis
        using ih(8)[OF refl refl _ _ _ _ _ _ _ refl False l False] False R 8 e y x
        by (simp add: Let_def kept_def or_shifted)
    qed
  qed
qed simp

section \<open>The characters are the digits\<close>

lemma divceil_pos: "0 < b \<Longrightarrow> divceil (int a) (int b) = int ((a + b - 1) div b)"
proof (cases a)
  case (Suc n)
  assume b: "0 < b"
  have "divceil (int a) (int b) = (int a + int b - 1) sdiv int b" using b Suc by (simp add: divceil_def)
  also have "int a + int b - 1 = int (a + b - 1)" using b Suc by simp
  also have "int m sdiv int b = int (m div b)" for m
    using b by (cases "m = 0") (simp_all add: signed_divide_int_def zdiv_int sgn_if)
  finally show ?thesis .
qed (simp add: divceil_def signed_divide_int_def)

lemma emit_map: "emit f B n N acc = map (\<lambda>i. f (N div B ^ (n - 1 - i) mod B)) [0..<n] @ acc"
proof (induction n arbitrary: N acc)
  case (Suc n)
  have "map (\<lambda>i. f (N div B div B ^ (n - 1 - i) mod B)) [0..<n] = map (\<lambda>i. f (N div B ^ (n - i) mod B)) [0..<n]"
  proof (intro map_cong refl)
    fix i assume "i \<in> set [0..<n]"
    then have "n - i = Suc (n - 1 - i)" by auto
    then show "f (N div B div B ^ (n - 1 - i) mod B) = f (N div B ^ (n - i) mod B)" by (simp add: div_mult2_eq)
  qed
  then show ?case by (simp add: emit.simps(2) Suc)
qed simp

lemma length_emit: "length (emit f B n N acc) = n + length acc"
  by (simp add: emit_map)

text \<open>The number of characters, and the number they are the digits of.\<close>

definition quintets :: "nat \<Rightarrow> nat" where
  "quintets len = (8 * len + 4) div 5"

definition padded_num :: "u8 list \<Rightarrow> nat" where
  "padded_num os = le_num (rev os) * 2 ^ (5 * quintets (length os) - 8 * length os)"

lemma mod_5_cases: "n mod 5 = 0 \<or> n mod 5 = 1 \<or> n mod 5 = 2 \<or> n mod 5 = 3 \<or> n mod 5 = (4 :: nat)"
  by linarith

lemma quintets_held: "5 * quintets n = 8 * n + held (n mod 5)" "(8 * n + held (n mod 5)) div 5 = quintets n"
proof -
  obtain m r where n: "n = 5 * m + r" "r < 5" by (metis mult_div_mod_eq mod_less_divisor zero_less_numeral)
  have r: "n mod 5 = r" using n by simp
  consider "r = 0" | "r = 1" | "r = 2" | "r = 3" | "r = 4" using n(2) by linarith
  then show e: "5 * quintets n = 8 * n + held (n mod 5)"
    unfolding r unfolding n(1) by cases (simp_all add: quintets_def held_def, presburger+)
  show "(8 * n + held (n mod 5)) div 5 = quintets n" using arg_cong[OF e, of "\<lambda>x. x div 5"] by simp
qed

lemma b2a_digits:
  assumes "os \<noteq> []" "32 \<le> length tab"
  shows "b2a_case tab (length os mod 5) 0 (rev os) [] = Some (emit ((!) tab) 32 (quintets (length os)) (padded_num os) [])"
proof -
  have "5 * quintets (length os) - 8 * length os = held (length os mod 5)" using quintets_held(1)[of "length os"] by simp
  then show ?thesis
    using b2a_emit[of "rev os" "length os mod 5" 0 tab "[]"] assms quintets_held(2)[of "length os"]
    by (simp add: padded_num_def)
qed

lemma length_alphabets: "length chars = 32" "length emojis = 32"
  by (simp_all add: chars_def emojis_def)

section \<open>Decoding\<close>

lemma char_num_append: "char_num (xs @ ys) = char_num xs + 32 ^ length xs * char_num ys"
  by (induction xs) (simp_all add: algebra_simps)

lemma le_num_append: "le_num (xs @ ys) = le_num xs + 256 ^ length xs * le_num ys"
  by (induction xs) (simp_all add: algebra_simps)

lemma le_num_bound: "le_num xs < 256 ^ length xs"
proof (induction xs)
  case (Cons x xs)
  then show ?case using byte_bound[of x] by simp
qed simp

lemma le_num_inj: "length xs = length ys \<Longrightarrow> le_num xs = le_num ys \<Longrightarrow> xs = ys"
proof (induction xs ys rule: list_induct2)
  case (Cons x xs y ys)
  have e: "unat x + 256 * le_num xs = unat y + 256 * le_num ys" using Cons.prems by simp
  have "unat x = unat y" "le_num xs = le_num ys"
    using arg_cong[OF e, of "\<lambda>n. n mod 256"] arg_cong[OF e, of "\<lambda>n. n div 256"] byte_bound[of x] byte_bound[of y]
    by simp_all
  then show ?case using Cons.IH by (simp add: word_unat_eq_iff)
qed simp

lemma revchars_chars: "\<forall>i < 32. revchars ! of_char (chars ! i) = i"
proof -
  have "list_all (\<lambda>i. revchars ! of_char (chars ! i) = i) [0..<32]" by code_simp
  then show ?thesis by (simp add: list_all_iff)
qed

lemma digit_sum: "N mod (B * B ^ n) = N mod B + B * (N div B mod B ^ (n :: nat))" for N B :: nat
  by (simp add: mod_mult2_eq)

lemma char_num_emit:
  "char_num (rev (emit ((!) chars) 32 n N acc)) = char_num (rev acc) + 32 ^ length acc * (N mod 32 ^ n)"
proof (induction n arbitrary: N acc)
  case (Suc n)
  then show ?case
    using revchars_chars digit_sum[of N 32 n] by (simp add: emit.simps(2) char_num_append algebra_simps)
qed simp

lemma le_num_emit:
  "le_num (rev (emit word_of_nat 256 n N acc)) = le_num (rev acc) + 256 ^ length acc * (N mod 256 ^ n)"
proof (induction n arbitrary: N acc)
  case (Suc n)
  have "unat (word_of_nat (N mod 256) :: u8) = N mod 256" by (simp add: unat_of_nat)
  then show ?case
    using Suc digit_sum[of N 256 n] by (simp add: emit.simps(2) le_num_append algebra_simps)
qed simp

lemma kept_bits: "5 * n + kept (n mod 8) = 8 * ((5 * n + 7) div 8)" "(5 * n + kept (n mod 8)) div 8 = (5 * n + 7) div 8"
proof -
  obtain m r where n: "n = 8 * m + r" "r < 8" by (metis mult_div_mod_eq mod_less_divisor zero_less_numeral)
  have r: "n mod 8 = r" using n by simp
  consider "r = 0" | "r = 1" | "r = 2" | "r = 3" | "r = 4" | "r = 5" | "r = 6" | "r = 7" using n(2) by linarith
  then show e: "5 * n + kept (n mod 8) = 8 * ((5 * n + 7) div 8)"
    unfolding r unfolding n(1) by cases (simp_all add: kept_def, presburger+)
  show "(5 * n + kept (n mod 8)) div 8 = (5 * n + 7) div 8" using arg_cong[OF e, of "\<lambda>x. x div 8"] by simp
qed

lemma set_emit_chars: "set (emit ((!) chars) 32 n N []) \<subseteq> set chars"
  by (auto simp: emit_map length_alphabets)

lemma chars_valid: "\<forall>c \<in> set chars. revchars ! of_char c < 32"
  unfolding chars_def by code_simp

lemma padded_bound: "padded_num os < 32 ^ quintets (length os)"
proof -
  have "padded_num os < 256 ^ length os * 2 ^ (5 * quintets (length os) - 8 * length os)"
    using le_num_bound[of "rev os"] by (simp add: padded_num_def)
  also have "\<dots> = 2 ^ (8 * length os + (5 * quintets (length os) - 8 * length os))"
    by (simp add: power_add power_mult)
  also have "8 * length os + (5 * quintets (length os) - 8 * length os) = 5 * quintets (length os)"
    using quintets_held(1)[of "length os"] by simp
  finally show ?thesis by (simp add: power_mult)
qed

lemma same_quotient: "a + B * x = y * B \<Longrightarrow> a < B \<Longrightarrow> x = (y :: nat)"
proof -
  assume e: "a + B * x = y * B" and a: "a < B"
  have "(a + B * x) div B = x" using a by simp
  moreover have "y * B div B = y" using a by simp
  ultimately show "x = y" using e by metis
qed

text \<open>What is decoded: the number of the characters, shifted to full bytes.\<close>

lemma decoded:
  assumes "os \<noteq> []"
  defines "e \<equiv> emit ((!) chars) 32 (quintets (length os)) (padded_num os) []"
  shows "\<exists>r. a2b_l e (length e) bits = Some (r, divceil (int bits) 8) \<and> take (length os) r = os"
proof -
  let ?q = "quintets (length os)"
  let ?L = "(5 * ?q + 7) div 8"
  let ?s = "kept (?q mod 8)"
  have q: "length e = ?q" "0 < ?q" using assms(1) by (simp_all add: e_def length_emit quintets_def div_greater_zero_iff Suc_le_eq)
  then have ne: "rev e \<noteq> []" by auto
  have valid: "\<forall>c \<in> set (rev e). revchars ! of_char c < 32"
    using chars_valid set_emit_chars unfolding e_def set_rev by blast
  have num: "char_num (rev e) = padded_num os"
    using padded_bound[of os] by (simp add: e_def char_num_emit)
  define N where "N = padded_num os * 2 ^ ?s"
  define r where "r = (emit word_of_nat 256 ?L N [] :: u8 list)"
  have a2b: "a2b_case (length e mod 8) 0 (rev e) [] = Some r"
    using a2b_emit[OF _ ne _ valid, of "?q mod 8" 0 "[]"] q num kept_bits(2)[of ?q] by (simp add: r_def N_def)
  define k where "k = ?L - length os"
  have bits8: "8 * length os \<le> 5 * ?q" "5 * ?q + ?s = 8 * ?L"
    using quintets_held(1)[of "length os"] kept_bits(1)[of ?q] by simp_all
  then have L: "?L = length os + k" unfolding k_def by linarith
  have lr: "length r = length os + k" unfolding r_def length_emit L by simp
  have "N = le_num (rev os) * 2 ^ (5 * ?q - 8 * length os + ?s)" by (simp add: N_def padded_num_def power_add)
  also have "5 * ?q - 8 * length os + ?s = 8 * k" using bits8 L by linarith
  finally have N: "N = le_num (rev os) * 256 ^ k" by (simp add: power_mult)
  have "N < 256 ^ length os * 256 ^ k" unfolding N using le_num_bound[of "rev os"] by simp
  then have "N mod 256 ^ ?L = N" unfolding L power_add by simp
  then have val: "le_num (rev r) = le_num (rev os) * 256 ^ k" unfolding r_def le_num_emit using N by simp
  obtain hd tl where parts: "r = hd @ tl" "length hd = length os" "length tl = k"
    using lr append_take_drop_id[of "length os" r] by (metis length_take length_drop min.absorb2 le_add1 add_diff_cancel_left')
  have "le_num (rev tl) + 256 ^ k * le_num (rev hd) = le_num (rev os) * 256 ^ k"
    using val parts by (simp add: le_num_append)
  moreover have "le_num (rev tl) < 256 ^ k" using le_num_bound[of "rev tl"] parts by simp
  ultimately have "le_num (rev hd) = le_num (rev os)" by (rule same_quotient)
  then have "rev hd = rev os" using parts by (intro le_num_inj) simp_all
  then show ?thesis using a2b parts by (simp add: a2b_l_def)
qed

section \<open>Part of the bits\<close>

text \<open>The number that the first \<open>n\<close> bits form.\<close>

definition first_bits :: "nat \<Rightarrow> u8 list \<Rightarrow> nat" where
  "first_bits n bs = le_num (rev bs) div 2 ^ (8 * length bs - n)"

lemma first_bits_take:
  assumes "n \<le> 8 * k" "k \<le> length bs"
  shows "first_bits n (take k bs) = first_bits n bs"
proof -
  let ?d = "length bs - k"
  have "le_num (rev bs) = le_num (rev (drop k bs)) + 256 ^ ?d * le_num (rev (take k bs))"
    using le_num_append[of "rev (drop k bs)" "rev (take k bs)"] by (simp flip: rev_append)
  moreover have "le_num (rev (drop k bs)) < 256 ^ ?d" using le_num_bound[of "rev (drop k bs)"] by simp
  ultimately have "le_num (rev bs) div 256 ^ ?d = le_num (rev (take k bs))" by simp
  moreover have "(2 :: nat) ^ (8 * length bs - n) = 256 ^ ?d * 2 ^ (8 * k - n)"
  proof -
    have "8 * length bs - n = 8 * ?d + (8 * k - n)" using assms by simp
    then show ?thesis by (simp add: power_add power_mult)
  qed
  ultimately show ?thesis using assms(2) by (simp add: first_bits_def div_mult2_eq min_def)
qed

lemma take_emit: "q \<le> Q \<Longrightarrow> take q (emit f B Q N []) = emit f B q (N div B ^ (Q - q)) []"
proof -
  assume q: "q \<le> Q"
  have "N div B ^ (Q - 1 - i) = N div B ^ (Q - q) div B ^ (q - 1 - i)" if "i < q" for i
  proof -
    have "Q - 1 - i = (Q - q) + (q - 1 - i)" using q that by simp
    then show ?thesis by (simp only: power_add div_mult2_eq)
  qed
  then show ?thesis using q by (auto simp: emit_map take_map min_def intro!: map_cong)
qed

lemma decoded_part:
  assumes n: "0 < n" and L: "L = (n + 7) div 8" "length os = L" and q: "q = (n + 4) div 5"
    and e: "e = take q (emit ((!) chars) 32 (quintets L) (padded_num os) [])"
  shows "length e = q" "\<exists>r. a2b_l e q bits = Some (r, divceil (int bits) 8) \<and> L \<le> length r \<and> first_bits n r = first_bits n os"
proof -
  let ?Q = "quintets L" and ?P = "padded_num os"
  let ?M = "(5 * q + 7) div 8" and ?s = "kept (q mod 8)"
  have qQ: "q \<le> ?Q" using n L(1) q by (simp add: quintets_def)
  have b: "n \<le> 5 * q" "8 * L \<le> 5 * ?Q" "5 * q + ?s = 8 * ?M" "n \<le> 8 * L" "L \<le> ?M"
    using n L(1) q quintets_held(1)[of L] kept_bits(1)[of q] by (simp_all, linarith+)
  have e': "e = emit ((!) chars) 32 q (?P div 32 ^ (?Q - q)) []" using take_emit[OF qQ] e by simp
  show le: "length e = q" by (simp add: e' length_emit)
  have ne: "rev e \<noteq> []" using le n q by auto
  have valid: "\<forall>c \<in> set (rev e). revchars ! of_char c < 32"
    using chars_valid set_emit_chars unfolding e' set_rev by blast
  have "?P < 32 ^ q * 32 ^ (?Q - q)" using padded_bound[of os] L(2) qQ by (simp flip: power_add)
  then have P: "?P div 32 ^ (?Q - q) < 32 ^ q" by (rule less_mult_imp_div_less)
  then have num: "char_num (rev e) = ?P div 32 ^ (?Q - q)" by (simp add: e' char_num_emit)
  define N where "N = ?P div 32 ^ (?Q - q) * 2 ^ ?s"
  define r where "r = (emit word_of_nat 256 ?M N [] :: u8 list)"
  have a2b: "a2b_case (q mod 8) 0 (rev e) [] = Some r"
    using a2b_emit[OF _ ne _ valid, of "q mod 8" 0 "[]"] le num kept_bits(2)[of q] by (simp add: r_def N_def)
  have lr: "length r = ?M" by (simp add: r_def length_emit)
  have "N < 32 ^ q * 2 ^ ?s" using P by (simp add: N_def)
  also have "(32 :: nat) ^ q * 2 ^ ?s = 256 ^ ?M"
    using arg_cong[OF b(3), of "\<lambda>n. (2 :: nat) ^ n"] by (simp add: power_add power_mult)
  finally have val: "le_num (rev r) = N" by (simp add: r_def le_num_emit)
  have "first_bits n r = ?P div 32 ^ (?Q - q) * 2 ^ ?s div 2 ^ (8 * ?M - n)" by (simp add: first_bits_def lr val N_def)
  also have "8 * ?M - n = ?s + (5 * q - n)" using b by linarith
  also have "?P div 32 ^ (?Q - q) * 2 ^ ?s div 2 ^ (?s + (5 * q - n)) = ?P div 32 ^ (?Q - q) div 2 ^ (5 * q - n)"
    by (simp add: power_add div_mult2_eq)
  also have "\<dots> = ?P div 2 ^ (5 * (?Q - q) + (5 * q - n))" by (simp add: power_add power_mult div_mult2_eq)
  also have "5 * (?Q - q) + (5 * q - n) = (5 * ?Q - 8 * L) + (8 * L - n)" using b qQ by linarith
  also have "?P div 2 ^ ((5 * ?Q - 8 * L) + (8 * L - n)) = first_bits n os"
    by (simp add: padded_num_def first_bits_def L(2) power_add div_mult2_eq)
  finally have "first_bits n r = first_bits n os" .
  then show "\<exists>r. a2b_l e q bits = Some (r, divceil (int bits) 8) \<and> L \<le> length r \<and> first_bits n r = first_bits n os"
    using a2b le lr b(5) by (simp add: a2b_l_def)
qed

section \<open>Properties\<close>

lemma encode_part:
  assumes "0 < n" "n \<le> 8 * length data" "L = (n + 7) div 8"
  shows "Base32_encode data n = Some (take ((n + 4) div 5) (emit ((!) chars) 32 (quintets L) (padded_num (take L data)) []))"
proof -
  have L: "0 < L" "L \<le> length data" using assms by (auto simp: div_greater_zero_iff)
  then have "take L data \<noteq> []" "length (take L data) = L" by auto
  moreover have "nat (divceil (int n) 5) = (n + 4) div 5" using divceil_pos[of 5 n] by simp
  ultimately show ?thesis
    using b2a_digits[of "take L data" chars] by (simp add: Base32_encode_def b2a_l_def length_alphabets assms(3))
qed

lemma encode_digits:
  assumes "data \<noteq> []"
  shows "Base32_encode data (8 * length data) = Some (emit ((!) chars) 32 (quintets (length data)) (padded_num data) [])"
  using encode_part[of "8 * length data" data "length data"] assms by (simp add: quintets_def length_emit)

text \<open>C22. The encoding of the first \<open>n\<close> bits, for any number of bits that the data has, is one character for every 5
  bits begun; decoding these characters for \<open>n\<close> bits reports the bytes they begin, and the first \<open>n\<close> bits are
  those of the data.  All the bytes of the data come back from the characters alone.  Without data the encoder
  reads in front of it.\<close>

theorem base32_roundtrip:
  assumes "0 < n" "n \<le> 8 * length data"
  shows "(\<exists>e r. Base32_encode data n = Some e \<and> length e = (n + 4) div 5 \<and>
      Base32_decode_bits e n = Some (r, int ((n + 7) div 8)) \<and> (n + 7) div 8 \<le> length r \<and>
      first_bits n (take ((n + 7) div 8) r) = first_bits n data) \<and>
    (\<exists>e r. Base32_encode data (8 * length data) = Some e \<and>
      Base32_decode e = Some (r, int (length data)) \<and> take (length data) r = data) \<and>
    Base32_encode [] 0 = None"
proof (intro conjI)
  define L where "L = (n + 7) div 8"
  have L: "n \<le> 8 * L" "L \<le> length data" using assms by (auto simp: L_def)
  define e where "e = take ((n + 4) div 5) (emit ((!) chars) 32 (quintets L) (padded_num (take L data)) [])"
  have os: "length (take L data) = L" using L by simp
  have d: "nat (divceil (int n) 5) = (n + 4) div 5" "divceil (int n) 8 = int L"
    using divceil_pos[of 5 n] divceil_pos[of 8 n] by (simp_all add: L_def)
  note part = decoded_part[OF assms(1) L_def os refl e_def]
  obtain r where r: "a2b_l e ((n + 4) div 5) n = Some (r, int L)" "L \<le> length r" "first_bits n r = first_bits n (take L data)"
    using part(2)[of n] d(2) by auto
  have "Base32_encode data n = Some e" using encode_part[OF assms L_def] by (simp add: e_def)
  moreover have "Base32_decode_bits e n = Some (r, int L)" using r(1) d(1) by (simp add: Base32_decode_bits_def)
  moreover have "first_bits n (take L r) = first_bits n data"
    using r(2,3) first_bits_take[OF L(1) r(2)] first_bits_take[OF L] by simp
  ultimately show "\<exists>e r. Base32_encode data n = Some e \<and> length e = (n + 4) div 5 \<and>
      Base32_decode_bits e n = Some (r, int ((n + 7) div 8)) \<and> (n + 7) div 8 \<le> length r \<and>
      first_bits n (take ((n + 7) div 8) r) = first_bits n data"
    using part(1) r(2) unfolding L_def[symmetric] by blast
next
  have bits: "divceil (int (quintets n * 5 div 8 * 8)) 8 = int n" for n
  proof -
    have "quintets n * 5 div 8 = n" using quintets_held(1)[of n] by (simp add: held_def mult.commute)
    then show ?thesis using divceil_pos[of 8 "n * 8"] by simp
  qed
  have "data \<noteq> []" using assms by auto
  then show "\<exists>e r. Base32_encode data (8 * length data) = Some e \<and>
      Base32_decode e = Some (r, int (length data)) \<and> take (length data) r = data"
    using decoded[OF \<open>data \<noteq> []\<close>, of "quintets (length data) * 5 div 8 * 8"] bits[of "length data"]
    by (auto simp: encode_digits Base32_decode_def length_emit)
  show "Base32_encode [] 0 = None" by (simp add: Base32_encode_def b2a_l_def)
qed

text \<open>The 20 bits of a SAS, and 15 bits, as in the test of the code.\<close>

theorem base32_roundtrip_witness:
  "(\<exists>e r. Base32_encode [0xf0, 0xbf, 0xc7, 0] 20 = Some e \<and> length e = 4 \<and> Base32_decode_bits e 20 = Some (r, 3) \<and>
      first_bits 20 (take 3 r) = 0xf0bfc) \<and>
    (\<exists>e r. Base32_encode [1, 1, 1, 1, 1] 15 = Some e \<and> Base32_decode_bits e 15 = Some (r, 2) \<and> first_bits 15 (take 2 r) = 0x80)"
proof -
  have "first_bits 20 [0xf0, 0xbf, 0xc7, 0] = 0xf0bfc" "first_bits 15 [1, 1, 1, 1, 1] = 0x80" by (simp_all add: first_bits_def)
  then show ?thesis
    using base32_roundtrip[of 20 "[0xf0, 0xbf, 0xc7, 0]"] base32_roundtrip[of 15 "[1, 1, 1, 1, 1]"] by simp blast
qed

end
