(* ===== verification/Zrtp_Sas.thy ===== *)
theory Zrtp_Sas
  imports Base32 Zrtp_Config
begin

unbundle bit_operations_syntax

text \<open>
  The short authentication string: the word tables of \<open>zrtp/ZrtpTextData.cpp\<close> and the rendering of the SAS hash
  in \<open>ZRtp::computeSRTPKeys\<close>.  Shown: two hashes are rendered alike exactly when the bits that the SAS stands
  for are the same, 20 for letters and emojis, 16 for words.
\<close>

section \<open>The code\<close>

definition sas256WordsOdd :: "string list" where
  "sas256WordsOdd =
   [''adroitness'', ''adviser'', ''aftermath'', ''aggregate'', ''alkali'', ''almighty'', ''amulet'',
    ''amusement'', ''antenna'', ''applicant'', ''Apollo'', ''armistice'', ''article'', ''asteroid'',
    ''Atlantic'', ''atmosphere'', ''autopsy'', ''Babylon'', ''backwater'', ''barbecue'', ''belowground'',
    ''bifocals'', ''bodyguard'', ''bookseller'', ''borderline'', ''bottomless'', ''Bradbury'', ''bravado'',
    ''Brazilian'', ''breakaway'', ''Burlington'', ''businessman'', ''butterfat'', ''Camelot'', ''candidate'',
    ''cannonball'', ''Capricorn'', ''caravan'', ''caretaker'', ''celebrate'', ''cellulose'', ''certify'',
    ''chambermaid'', ''Cherokee'', ''Chicago'', ''clergyman'', ''coherence'', ''combustion'', ''commando'',
    ''company'', ''component'', ''concurrent'', ''confidence'', ''conformist'', ''congregate'', ''consensus'',
    ''consulting'', ''corporate'', ''corrosion'', ''councilman'', ''crossover'', ''crucifix'', ''cumbersome'',
    ''customer'', ''Dakota'', ''decadence'', ''December'', ''decimal'', ''designing'', ''detector'',
    ''detergent'', ''determine'', ''dictator'', ''dinosaur'', ''direction'', ''disable'', ''disbelief'',
    ''disruptive'', ''distortion'', ''document'', ''embezzle'', ''enchanting'', ''enrollment'', ''enterprise'',
    ''equation'', ''equipment'', ''escapade'', ''Eskimo'', ''everyday'', ''examine'', ''existence'', ''exodus'',
    ''fascinate'', ''filament'', ''finicky'', ''forever'', ''fortitude'', ''frequency'', ''gadgetry'',
    ''Galveston'', ''getaway'', ''glossary'', ''gossamer'', ''graduate'', ''gravity'', ''guitarist'',
    ''hamburger'', ''Hamilton'', ''handiwork'', ''hazardous'', ''headwaters'', ''hemisphere'', ''hesitate'',
    ''hideaway'', ''holiness'', ''hurricane'', ''hydraulic'', ''impartial'', ''impetus'', ''inception'',
    ''indigo'', ''inertia'', ''infancy'', ''inferno'', ''informant'', ''insincere'', ''insurgent'',
    ''integrate'', ''intention'', ''inventive'', ''Istanbul'', ''Jamaica'', ''Jupiter'', ''leprosy'',
    ''letterhead'', ''liberty'', ''maritime'', ''matchmaker'', ''maverick'', ''Medusa'', ''megaton'',
    ''microscope'', ''microwave'', ''midsummer'', ''millionaire'', ''miracle'', ''misnomer'', ''molasses'',
    ''molecule'', ''Montana'', ''monument'', ''mosquito'', ''narrative'', ''nebula'', ''newsletter'',
    ''Norwegian'', ''October'', ''Ohio'', ''onlooker'', ''opulent'', ''Orlando'', ''outfielder'', ''Pacific'',
    ''pandemic'', ''Pandora'', ''paperweight'', ''paragon'', ''paragraph'', ''paramount'', ''passenger'',
    ''pedigree'', ''Pegasus'', ''penetrate'', ''perceptive'', ''performance'', ''pharmacy'', ''phonetic'',
    ''photograph'', ''pioneer'', ''pocketful'', ''politeness'', ''positive'', ''potato'', ''processor'',
    ''provincial'', ''proximate'', ''puberty'', ''publisher'', ''pyramid'', ''quantity'', ''racketeer'',
    ''rebellion'', ''recipe'', ''recover'', ''repellent'', ''replica'', ''reproduce'', ''resistor'',
    ''responsive'', ''retraction'', ''retrieval'', ''retrospect'', ''revenue'', ''revival'', ''revolver'',
    ''sandalwood'', ''sardonic'', ''Saturday'', ''savagery'', ''scavenger'', ''sensation'', ''sociable'',
    ''souvenir'', ''specialist'', ''speculate'', ''stethoscope'', ''stupendous'', ''supportive'', ''surrender'',
    ''suspicious'', ''sympathy'', ''tambourine'', ''telephone'', ''therapist'', ''tobacco'', ''tolerance'',
    ''tomorrow'', ''torpedo'', ''tradition'', ''travesty'', ''trombonist'', ''truncated'', ''typewriter'',
    ''ultimate'', ''undaunted'', ''underfoot'', ''unicorn'', ''unify'', ''universe'', ''unravel'', ''upcoming'',
    ''vacancy'', ''vagabond'', ''vertigo'', ''Virginia'', ''visitor'', ''vocalist'', ''voyager'', ''warranty'',
    ''Waterloo'', ''whimsical'', ''Wichita'', ''Wilmington'', ''Wyoming'', ''yesteryear'', ''Yucatan'']"

definition sas256WordsEven :: "string list" where
  "sas256WordsEven =
   [''aardvark'', ''absurd'', ''accrue'', ''acme'', ''adrift'', ''adult'', ''afflict'', ''ahead'', ''aimless'',
    ''Algol'', ''allow'', ''alone'', ''ammo'', ''ancient'', ''apple'', ''artist'', ''assume'', ''Athens'',
    ''atlas'', ''Aztec'', ''baboon'', ''backfield'', ''backward'', ''banjo'', ''beaming'', ''bedlamp'',
    ''beehive'', ''beeswax'', ''befriend'', ''Belfast'', ''berserk'', ''billiard'', ''bison'', ''blackjack'',
    ''blockade'', ''blowtorch'', ''bluebird'', ''bombast'', ''bookshelf'', ''brackish'', ''breadline'',
    ''breakup'', ''brickyard'', ''briefcase'', ''Burbank'', ''button'', ''buzzard'', ''cement'', ''chairlift'',
    ''chatter'', ''checkup'', ''chisel'', ''choking'', ''chopper'', ''Christmas'', ''clamshell'', ''classic'',
    ''classroom'', ''cleanup'', ''clockwork'', ''cobra'', ''commence'', ''concert'', ''cowbell'', ''crackdown'',
    ''cranky'', ''crowfoot'', ''crucial'', ''crumpled'', ''crusade'', ''cubic'', ''dashboard'', ''deadbolt'',
    ''deckhand'', ''dogsled'', ''dragnet'', ''drainage'', ''dreadful'', ''drifter'', ''dropper'', ''drumbeat'',
    ''drunken'', ''Dupont'', ''dwelling'', ''eating'', ''edict'', ''egghead'', ''eightball'', ''endorse'',
    ''endow'', ''enlist'', ''erase'', ''escape'', ''exceed'', ''eyeglass'', ''eyetooth'', ''facial'',
    ''fallout'', ''flagpole'', ''flatfoot'', ''flytrap'', ''fracture'', ''framework'', ''freedom'',
    ''frighten'', ''gazelle'', ''Geiger'', ''glitter'', ''glucose'', ''goggles'', ''goldfish'', ''gremlin'',
    ''guidance'', ''hamlet'', ''highchair'', ''hockey'', ''indoors'', ''indulge'', ''inverse'', ''involve'',
    ''island'', ''jawbone'', ''keyboard'', ''kickoff'', ''kiwi'', ''klaxon'', ''locale'', ''lockup'', ''merit'',
    ''minnow'', ''miser'', ''Mohawk'', ''mural'', ''music'', ''necklace'', ''Neptune'', ''newborn'',
    ''nightbird'', ''Oakland'', ''obtuse'', ''offload'', ''optic'', ''orca'', ''payday'', ''peachy'',
    ''pheasant'', ''physique'', ''playhouse'', ''Pluto'', ''preclude'', ''prefer'', ''preshrunk'', ''printer'',
    ''prowler'', ''pupil'', ''puppy'', ''python'', ''quadrant'', ''quiver'', ''quota'', ''ragtime'',
    ''ratchet'', ''rebirth'', ''reform'', ''regain'', ''reindeer'', ''rematch'', ''repay'', ''retouch'',
    ''revenge'', ''reward'', ''rhythm'', ''ribcage'', ''ringbolt'', ''robust'', ''rocker'', ''ruffled'',
    ''sailboat'', ''sawdust'', ''scallion'', ''scenic'', ''scorecard'', ''Scotland'', ''seabird'', ''select'',
    ''sentence'', ''shadow'', ''shamrock'', ''showgirl'', ''skullcap'', ''skydive'', ''slingshot'',
    ''slowdown'', ''snapline'', ''snapshot'', ''snowcap'', ''snowslide'', ''solo'', ''southward'', ''soybean'',
    ''spaniel'', ''spearhead'', ''spellbind'', ''spheroid'', ''spigot'', ''spindle'', ''spyglass'',
    ''stagehand'', ''stagnate'', ''stairway'', ''standard'', ''stapler'', ''steamship'', ''sterling'',
    ''stockman'', ''stopwatch'', ''stormy'', ''sugar'', ''surmount'', ''suspense'', ''sweatband'', ''swelter'',
    ''tactics'', ''talon'', ''tapeworm'', ''tempest'', ''tiger'', ''tissue'', ''tonic'', ''topmost'',
    ''tracker'', ''transit'', ''trauma'', ''treadmill'', ''Trojan'', ''trouble'', ''tumor'', ''tunnel'',
    ''tycoon'', ''uncut'', ''unearth'', ''unwind'', ''uproot'', ''upset'', ''upshot'', ''vapor'', ''village'',
    ''virus'', ''Vulcan'', ''waffle'', ''wallet'', ''watchword'', ''wayside'', ''willow'', ''woodlark'',
    ''Zulu'']"

text \<open>The SAS as bytes, for the name of the SAS algorithm.\<close>

definition render_sas :: "algo_name \<Rightarrow> u8 list \<Rightarrow> u8 list option" where
  "render_sas sasType sasHash =
    (let sasBytes = [sasHash ! 0, sasHash ! 1, sasHash ! 2 AND 0xf0, 0] in
     if b32 = sasType then map_option ascii (Base32_encode sasBytes 20)
     else if b32e = sasType then map_option u32StringToUtf8 (EmojiBase32_encode sasBytes 20)
     else Some (ascii (sas256WordsEven ! unat (sasBytes ! 0)) @ ascii '':'' @ ascii (sas256WordsOdd ! unat (sasBytes ! 1))))"

section \<open>Digits of a table\<close>

lemma emit_acc: "emit f B n N acc = emit f B n N [] @ acc"
  by (simp add: emit_map)

lemma emit_inj:
  assumes "inj_on f {..<32}" "emit f 32 n N [] = emit f 32 n M []" "N < 32 ^ n" "M < 32 ^ n"
  shows "N = M"
  using assms(2-)
proof (induction n arbitrary: N M)
  case (Suc n)
  have e: "emit f 32 n (N div 32) [] = emit f 32 n (M div 32) []" "f (N mod 32) = f (M mod 32)"
    using Suc.prems(1) by (simp_all add: emit.simps(2) emit_acc[of f 32 n _ "[_]"])
  have "N div 32 = M div 32" using Suc.IH[OF e(1)] Suc.prems(2,3) by (simp add: less_mult_imp_div_less mult.commute)
  moreover have "N mod 32 = M mod 32" using inj_onD[OF assms(1) e(2)] by simp
  ultimately show ?case by (metis div_mult_mod_eq)
qed simp

text \<open>The value of the 20 bits, and of the 16.\<close>

definition sas20 :: "u8 list \<Rightarrow> nat" where
  "sas20 h = 4096 * unat (h ! 0) + 16 * unat (h ! 1) + unat (h ! 2) div 16"

definition sas16 :: "u8 list \<Rightarrow> nat" where
  "sas16 h = 256 * unat (h ! 0) + unat (h ! 1)"

lemma high_nibble: "unat (b AND 0xf0 :: u8) = 16 * (unat b div 16)"
proof -
  have "list_all (\<lambda>i. unat (word_of_int i AND 0xf0 :: u8) = 16 * (nat i div 16)) [0..255]" by code_simp
  then have "\<forall>i \<in> {0..255}. unat (word_of_int i AND 0xf0 :: u8) = 16 * (nat i div 16)" by (simp add: list_all_iff)
  moreover have "uint b \<in> {0..255}" using uint_lt2p[of b] by simp
  ultimately have "unat (word_of_int (uint b) AND 0xf0 :: u8) = 16 * (nat (uint b) div 16)" by (rule bspec)
  then show ?thesis by (simp add: nat_uint_eq)
qed

lemma sas_digits:
  assumes "3 \<le> length h"
  shows "padded_num [h ! 0, h ! 1, h ! 2 AND 0xf0] = 32 * sas20 h" "sas20 h < 32 ^ 4"
proof -
  have q: "5 * quintets 3 - 8 * 3 = 1" by (simp add: quintets_def)
  have "16 * (unat (h ! 2) div 16) = unat (h ! 2 AND 0xf0)" by (simp add: high_nibble)
  then show "padded_num [h ! 0, h ! 1, h ! 2 AND 0xf0] = 32 * sas20 h"
    using q by (simp add: padded_num_def sas20_def high_nibble numeral_3_eq_3)
  show "sas20 h < 32 ^ 4"
    using byte_bound[of "h ! 0"] byte_bound[of "h ! 1"] byte_bound[of "h ! 2"] by (simp add: sas20_def)
qed

text \<open>Letters and emojis: the four digits of the 20 bits.\<close>

lemma sas_table:
  assumes "3 \<le> length h" "32 \<le> length tab"
  shows "map_option (take 4) (b2a_case tab (length [h ! 0, h ! 1, h ! 2 AND 0xf0] mod 5) 0
      (rev [h ! 0, h ! 1, h ! 2 AND 0xf0]) []) = Some (emit ((!) tab) 32 4 (sas20 h) [])"
proof -
  have five: "quintets (length [h ! 0, h ! 1, h ! 2 AND 0xf0]) = Suc 4" by (simp add: quintets_def)
  have "emit ((!) tab) 32 (Suc 4) (32 * sas20 h) [] = emit ((!) tab) 32 4 (sas20 h) [tab ! 0]"
    by (subst emit.simps(2)) simp
  also have "\<dots> = emit ((!) tab) 32 4 (sas20 h) [] @ [tab ! 0]" by (rule emit_acc)
  finally show ?thesis
    using b2a_digits[of "[h ! 0, h ! 1, h ! 2 AND 0xf0]" tab] assms(2) sas_digits(1)[OF assms(1)] five
    by (simp add: length_emit)
qed

lemma take_4_bits: "nat (divceil (int 20) 5) = 4" "nat (divceil 20 5) = 4"
  using divceil_pos[of 5 20] by simp_all

lemma render_letters: "3 \<le> length h \<Longrightarrow> render_sas b32 h = Some (ascii (emit ((!) chars) 32 4 (sas20 h) []))"
  using sas_table[of h chars]
  by (auto simp: render_sas_def Base32_encode_def b2a_l_def length_alphabets take_4_bits split: option.splits)

lemma b32e_not_b32: "b32 \<noteq> b32e"
  by code_simp

lemma render_emojis: "3 \<le> length h \<Longrightarrow> render_sas b32e h = Some (u32StringToUtf8 (emit ((!) emojis) 32 4 (sas20 h) []))"
  using sas_table[of h emojis] b32e_not_b32
  by (auto simp: render_sas_def EmojiBase32_encode_def emoji_b2a_l_def length_alphabets take_4_bits split: option.splits)

text \<open>The UTF-8 forms of the emojis are different, and none is the beginning of another.\<close>

lemma prefix_code:
  assumes "\<And>x y. x \<in> S \<Longrightarrow> y \<in> S \<Longrightarrow> take (length (g x)) (g y) = g x \<Longrightarrow> x = y" "\<And>x. x \<in> S \<Longrightarrow> g x \<noteq> []"
  shows "set xs \<subseteq> S \<Longrightarrow> set ys \<subseteq> S \<Longrightarrow> concat (map g xs) = concat (map g ys) \<Longrightarrow> xs = ys"
proof (induction xs arbitrary: ys)
  case Nil
  then show ?case using assms(2) by (cases ys) auto
next
  case (Cons x xs)
  then obtain y ys' where ys: "ys = y # ys'" using assms(2) by (cases ys) auto
  have e: "g x @ concat (map g xs) = g y @ concat (map g ys')" using Cons.prems(3) ys by simp
  have "take (length (g x)) (g y) = g x \<or> take (length (g y)) (g x) = g y"
    using e by (metis append_eq_append_conv2 append_eq_conv_conj)
  then have "x = y" using assms(1) Cons.prems(1,2) ys by auto
  then show ?case using Cons ys by simp
qed

definition emoji_utf8 :: "u8 list list" where
  "emoji_utf8 =
    [[0xf0, 0x9f, 0x98, 0x81], [0xf0, 0x9f, 0x98, 0xba], [0xf0, 0x9f, 0x91, 0xa5], [0xf0, 0x9f, 0x8c, 0xb2],
     [0xf0, 0x9f, 0x91, 0x9f], [0xe2, 0x9c, 0x8b], [0xf0, 0x9f, 0x91, 0x8d], [0xf0, 0x9f, 0x90, 0xb5],
     [0xf0, 0x9f, 0x90, 0xb4], [0xf0, 0x9f, 0x90, 0x8d], [0xf0, 0x9f, 0x90, 0x9f], [0xf0, 0x9f, 0x8c, 0xb8],
     [0xf0, 0x9f, 0x8c, 0x90], [0xf0, 0x9f, 0x8f, 0xa0], [0xf0, 0x9f, 0x8c, 0x9e], [0xf0, 0x9f, 0x9a, 0x98],
     [0xf0, 0x9f, 0x94, 0xb5], [0xf0, 0x9f, 0x9a, 0xa2], [0xf0, 0x9f, 0x94, 0xba], [0xf0, 0x9f, 0x90, 0xaa],
     [0xf0, 0x9f, 0x94, 0xa5], [0xf0, 0x9f, 0x8e, 0x88], [0xf0, 0x9f, 0x90, 0xa6], [0xf0, 0x9f, 0x94, 0x8d],
     [0xf0, 0x9f, 0x93, 0x97], [0xf0, 0x9f, 0x92, 0xa1], [0xf0, 0x9f, 0x94, 0xb6], [0xf0, 0x9f, 0x94, 0xa8],
     [0xf0, 0x9f, 0x95, 0x9b], [0xf0, 0x9f, 0x8c, 0x9f], [0xe2, 0x9d, 0x8e], [0xf0, 0x9f, 0x9a, 0xa9]]"

lemma emoji_utf8: "map U8_APPEND_UNSAFE emojis = emoji_utf8"
  unfolding emojis_def emoji_utf8_def by code_simp

lemma emoji_code:
  "list_all (\<lambda>x. list_all (\<lambda>y. take (length x) y = x \<longrightarrow> x = y) emoji_utf8) emoji_utf8" "list_all (\<lambda>x. x \<noteq> []) emoji_utf8"
  unfolding emoji_utf8_def by simp_all

lemma distinct_emojis: "distinct emojis" "distinct emoji_utf8"
  by (simp_all add: emojis_def emoji_utf8_def)

lemma emoji_utf8_inj:
  assumes "set xs \<subseteq> set emojis" "set ys \<subseteq> set emojis" "u32StringToUtf8 xs = u32StringToUtf8 ys"
  shows "xs = ys"
proof (rule prefix_code[where S = "set emojis" and g = U8_APPEND_UNSAFE])
  have mem: "U8_APPEND_UNSAFE x \<in> set emoji_utf8" if "x \<in> set emojis" for x
    using that unfolding emoji_utf8[symmetric] by simp
  have inj: "inj_on U8_APPEND_UNSAFE (set emojis)"
    using distinct_emojis(2) unfolding emoji_utf8[symmetric] by (simp add: distinct_map)
  show "x = y" if "x \<in> set emojis" "y \<in> set emojis"
    "take (length (U8_APPEND_UNSAFE x)) (U8_APPEND_UNSAFE y) = U8_APPEND_UNSAFE x" for x y
    using emoji_code(1) mem[OF that(1)] mem[OF that(2)] that(3) inj_onD[OF inj _ that(1,2)] by (auto simp: list_all_iff)
  show "U8_APPEND_UNSAFE x \<noteq> []" if "x \<in> set emojis" for x
    using emoji_code(2) mem[OF that] by (auto simp: list_all_iff)
qed (use assms in \<open>simp_all add: u32StringToUtf8_def\<close>)

lemma ascii_inj: "ascii a = ascii b \<longleftrightarrow> a = b"
proof
  have "unat (of_char c :: u8) = of_char c" for c
  proof -
    have "(of_char c :: u8) = of_nat (of_char c)" by (simp add: of_nat_of_char)
    then show ?thesis by (simp add: unat_of_nat)
  qed
  then have "(of_char c :: u8) = of_char d \<Longrightarrow> c = d" for c d by (metis of_char_eq_iff)
  then have "inj (of_char :: char \<Rightarrow> u8)" by (auto intro: injI)
  then show "ascii a = ascii b \<Longrightarrow> a = b" by (simp add: ascii_def inj_map_eq_map)
qed simp

lemma chars_distinct: "distinct chars"
  by (simp add: chars_def)

lemma length_words: "length sas256WordsOdd = 256" "length sas256WordsEven = 256"
  by (simp_all add: sas256WordsOdd_def sas256WordsEven_def)

lemma odd_distinct: "distinct sas256WordsOdd"
  by (simp add: sas256WordsOdd_def)

lemma even_distinct: "distinct sas256WordsEven"
  by (simp add: sas256WordsEven_def)

lemma even_no_colon: "\<forall>w \<in> set sas256WordsEven. CHR '':'' \<notin> set w"
  by (simp add: sas256WordsEven_def)

lemma split_at:
  assumes "x \<notin> set as" "x \<notin> set bs" "as @ x # cs = bs @ x # ds"
  shows "as = bs \<and> cs = ds"
proof -
  have "takeWhile (\<lambda>y. y \<noteq> x) (as @ x # cs) = as" "takeWhile (\<lambda>y. y \<noteq> x) (bs @ x # ds) = bs"
    using assms(1,2) by (auto simp: takeWhile_append)
  then show ?thesis using assms(3) by auto
qed

lemma render_words:
  assumes "t \<noteq> b32" "t \<noteq> b32e"
  shows "render_sas t h = Some (ascii (sas256WordsEven ! unat (h ! 0) @ CHR '':'' # sas256WordsOdd ! unat (h ! 1)))"
  using assms by (auto simp: render_sas_def ascii_def)

lemma words_inj:
  assumes "i < 256" "i' < 256" "j < 256" "j' < 256"
    and "sas256WordsEven ! i @ CHR '':'' # sas256WordsOdd ! j = sas256WordsEven ! i' @ CHR '':'' # sas256WordsOdd ! j'"
  shows "i = i' \<and> j = j'"
proof -
  have "sas256WordsEven ! i = sas256WordsEven ! i' \<and> sas256WordsOdd ! j = sas256WordsOdd ! j'"
    using assms even_no_colon by (intro split_at[of "CHR '':''"]) (auto simp: length_words)
  then show ?thesis using assms even_distinct odd_distinct by (simp add: nth_eq_iff_index_eq length_words)
qed

section \<open>The property\<close>

text \<open>C19. A SAS is shown for every type.  Two SAS hashes are shown as the same SAS exactly when the bits the SAS
  stands for agree: the leading 20 bits for letters (B32) and emojis (B32E), and the leading 16 bits for every
  other type, as all others fall into the word lists.\<close>

theorem sas_faithful:
  assumes "3 \<le> length h" "3 \<le> length h'"
  shows "render_sas t h \<noteq> None \<and>
    (render_sas t h = render_sas t h' \<longleftrightarrow> (if t = b32 \<or> t = b32e then sas20 h = sas20 h' else sas16 h = sas16 h'))"
proof -
  have idx: "inj_on ((!) tab) {..<32}" if "distinct tab" "length tab = 32" for tab :: "'b list"
    using that by (auto simp: inj_on_def nth_eq_iff_index_eq)
  note bounds = sas_digits(2)[OF assms(1)] sas_digits(2)[OF assms(2)]
  consider "t = b32" | "t = b32e" | "t \<noteq> b32 \<and> t \<noteq> b32e" by blast
  then show ?thesis
  proof cases
    case 1
    then show ?thesis
      using emit_inj[OF idx[OF chars_distinct length_alphabets(1)] _ bounds] assms by (auto simp: render_letters ascii_inj)
  next
    case 2
    have "set (emit ((!) emojis) 32 4 N []) \<subseteq> set emojis" for N by (auto simp: emit_map length_alphabets)
    then show ?thesis
      using 2 emit_inj[OF idx[OF distinct_emojis(1) length_alphabets(2)] _ bounds] emoji_utf8_inj assms
      by (auto simp: render_emojis)
  next
    case 3
    have "sas16 h = sas16 h' \<longleftrightarrow> h ! 0 = h' ! 0 \<and> h ! 1 = h' ! 1"
    proof
      assume e: "sas16 h = sas16 h'"
      show "h ! 0 = h' ! 0 \<and> h ! 1 = h' ! 1"
        using arg_cong[OF e, of "\<lambda>n. n div 256"] arg_cong[OF e, of "\<lambda>n. n mod 256"] byte_bound[of "h ! 1"]
          byte_bound[of "h' ! 1"] by (simp add: sas16_def word_unat_eq_iff)
    qed (simp add: sas16_def)
    then show ?thesis
      using 3 words_inj[of "unat (h ! 0)" "unat (h' ! 0)" "unat (h ! 1)" "unat (h' ! 1)"] byte_bound
      by (auto simp: render_words ascii_inj word_unat_eq_iff simp del: append_same_eq same_append_eq)
  qed
qed

theorem sas_faithful_witness:
  "render_sas b32 [0xf0, 0xbf, 0xc7, 1] = render_sas b32 [0xf0, 0xbf, 0xcf, 2] \<and>
    render_sas b256 [0xf0, 0xbf, 0xc7, 1] \<noteq> render_sas b256 [0xf0, 0xbe, 0xc7, 1]"
proof -
  have "b256 \<noteq> b32" "b256 \<noteq> b32e" by code_simp+
  then show ?thesis
    using sas_faithful[of "[0xf0, 0xbf, 0xc7, 1]" "[0xf0, 0xbf, 0xcf, 2]" b32]
      sas_faithful[of "[0xf0, 0xbf, 0xc7, 1]" "[0xf0, 0xbe, 0xc7, 1]" b256]
    by (simp add: sas20_def sas16_def)
qed

end
