(* ===== verification/Sha2.thy ===== *)
theory Sha2
  imports Sha1
begin

text \<open>
  \<open>libs/zrtp/zrtp/crypto/sha2.c\<close>: SHA-224, SHA-256, SHA-384 and SHA-512, the hashes of the ZRTP
  key agreement, translated function by function (the loop form of the compression, which is
  the one compiled), with FIPS 180-4 as the specification.  The round macro \<open>v_cycle\<close> is
  written once in C and used for both word sizes through the macros \<open>s_0\<close>, \<open>s_1\<close>,
  \<open>g_0\<close>, \<open>g_1\<close> and \<open>k_0\<close>; here those are its parameters.
\<close>

section \<open>The code: the round macro\<close>

text \<open>\<open>vf(n, i)\<close> is \<open>v[(n - i) & 7]\<close>, an index in two's complement.\<close>

definition vf :: "nat \<Rightarrow> nat \<Rightarrow> nat" where
  "vf n i = nat ((int n - int i) mod 8)"

record ('w) sha2_macros =
  s_0 :: "'w \<Rightarrow> 'w"
  s_1 :: "'w \<Rightarrow> 'w"
  g_0 :: "'w \<Rightarrow> 'w"
  g_1 :: "'w \<Rightarrow> 'w"
  k_0 :: "'w list"

text \<open>\<open>hf(i)\<close> adds into the ring \<open>p\<close> and yields the sum.\<close>

definition hf :: "'a::len word sha2_macros \<Rightarrow> nat \<Rightarrow> 'a word list \<Rightarrow> 'a word \<times> 'a word list" where
  "hf M i p =
    (let x = p ! (i mod 16) + (g_1 M (p ! ((i + 14) mod 16)) + p ! ((i + 9) mod 16) + g_0 M (p ! ((i + 1) mod 16)))
     in (x, p[i mod 16 := x]))"

definition v_cycle ::
  "'a::len word sha2_macros \<Rightarrow> nat \<Rightarrow> nat \<Rightarrow> 'a word list \<times> 'a word list \<Rightarrow> 'a word list \<times> 'a word list" where
  "v_cycle M i j s =
    (let (v, p) = s;
         (x, p) = (if j \<noteq> 0 then hf M i p else (p ! i, p));
         v = v[vf 7 i := v ! vf 7 i + (x + k_0 M ! (i + j) + s_1 M (v ! vf 4 i)
               + ch (v ! vf 4 i) (v ! vf 5 i) (v ! vf 6 i))];
         v = v[vf 3 i := v ! vf 3 i + v ! vf 7 i];
         v = v[vf 7 i := v ! vf 7 i + (s_0 M (v ! vf 0 i) + maj (v ! vf 0 i) (v ! vf 1 i) (v ! vf 2 i))]
     in (v, p))"

text \<open>The body of the loop over \<open>j\<close>: \<open>v_cycle(0, j)\<close> to \<open>v_cycle(15, j)\<close>.\<close>

definition v_cycles ::
  "'a::len word sha2_macros \<Rightarrow> nat \<Rightarrow> 'a word list \<times> 'a word list \<Rightarrow> 'a word list \<times> 'a word list" where
  "v_cycles M j s = foldl (\<lambda>s i. v_cycle M i j s) s [0, 1, 2, 3, 4, 5, 6, 7, 8, 9, 10, 11, 12, 13, 14, 15]"

section \<open>The code: SHA-224 and SHA-256\<close>

type_synonym sha256_ctx = "u32 sha_ctx"

text \<open>The tables are written as in C, with the literal suffix \<open>ul\<close> and the macro \<open>li_64(h)\<close>,
  which pastes \<open>0x\<close> and \<open>ull\<close> around its argument.\<close>

definition ul :: "u32 \<Rightarrow> u32" where
  [simp]: "ul h = h"

definition li_64 :: "u64 \<Rightarrow> u64" where
  [simp]: "li_64 h = h"

definition k256 :: "u32 list" where
  "k256 =
  [ul 0x428a2f98, ul 0x71374491, ul 0xb5c0fbcf, ul 0xe9b5dba5,
   ul 0x3956c25b, ul 0x59f111f1, ul 0x923f82a4, ul 0xab1c5ed5,
   ul 0xd807aa98, ul 0x12835b01, ul 0x243185be, ul 0x550c7dc3,
   ul 0x72be5d74, ul 0x80deb1fe, ul 0x9bdc06a7, ul 0xc19bf174,
   ul 0xe49b69c1, ul 0xefbe4786, ul 0x0fc19dc6, ul 0x240ca1cc,
   ul 0x2de92c6f, ul 0x4a7484aa, ul 0x5cb0a9dc, ul 0x76f988da,
   ul 0x983e5152, ul 0xa831c66d, ul 0xb00327c8, ul 0xbf597fc7,
   ul 0xc6e00bf3, ul 0xd5a79147, ul 0x06ca6351, ul 0x14292967,
   ul 0x27b70a85, ul 0x2e1b2138, ul 0x4d2c6dfc, ul 0x53380d13,
   ul 0x650a7354, ul 0x766a0abb, ul 0x81c2c92e, ul 0x92722c85,
   ul 0xa2bfe8a1, ul 0xa81a664b, ul 0xc24b8b70, ul 0xc76c51a3,
   ul 0xd192e819, ul 0xd6990624, ul 0xf40e3585, ul 0x106aa070,
   ul 0x19a4c116, ul 0x1e376c08, ul 0x2748774c, ul 0x34b0bcb5,
   ul 0x391c0cb3, ul 0x4ed8aa4a, ul 0x5b9cca4f, ul 0x682e6ff3,
   ul 0x748f82ee, ul 0x78a5636f, ul 0x84c87814, ul 0x8cc70208,
   ul 0x90befffa, ul 0xa4506ceb, ul 0xbef9a3f7, ul 0xc67178f2]"

definition s_0_256 :: "u32 \<Rightarrow> u32" where
  "s_0_256 x = rotr32 x 2 XOR rotr32 x 13 XOR rotr32 x 22"

definition s_1_256 :: "u32 \<Rightarrow> u32" where
  "s_1_256 x = rotr32 x 6 XOR rotr32 x 11 XOR rotr32 x 25"

definition g_0_256 :: "u32 \<Rightarrow> u32" where
  "g_0_256 x = rotr32 x 7 XOR rotr32 x 18 XOR drop_bit 3 x"

definition g_1_256 :: "u32 \<Rightarrow> u32" where
  "g_1_256 x = rotr32 x 17 XOR rotr32 x 19 XOR drop_bit 10 x"

definition macros_256 :: "u32 sha2_macros" where
  "macros_256 = \<lparr>s_0 = s_0_256, s_1 = s_1_256, g_0 = g_0_256, g_1 = g_1_256, k_0 = k256\<rparr>"

text \<open>\<open>for (j = 0; j < 64; j += 16)\<close>\<close>

definition sha256_compile :: "sha256_ctx \<Rightarrow> sha256_ctx" where
  "sha256_compile ctx =
    (let (v, p) = foldl (\<lambda>s j. v_cycles macros_256 j s) (hash ctx, wbuf ctx) [0, 16, 32, 48];
         h = hash ctx
     in ctx\<lparr>hash := [h ! 0 + v ! 0, h ! 1 + v ! 1, h ! 2 + v ! 2, h ! 3 + v ! 3,
                     h ! 4 + v ! 4, h ! 5 + v ! 5, h ! 6 + v ! 6, h ! 7 + v ! 7],
            wbuf := p\<rparr>)"

function sha256_hash_loop :: "nat \<Rightarrow> u8 list \<Rightarrow> sha256_ctx \<Rightarrow> sha256_ctx" where
  "sha256_hash_loop pos sp ctx =
    (let space = 64 - pos in
     if space \<le> length sp then
       let ctx = ctx\<lparr>wbuf := memcpy_words pos (take space sp) (wbuf ctx)\<rparr>;
           ctx = ctx\<lparr>wbuf := bsw bswap_32 16 (wbuf ctx)\<rparr>
       in sha256_hash_loop 0 (drop space sp) (sha256_compile ctx)
     else ctx\<lparr>wbuf := memcpy_words pos sp (wbuf ctx)\<rparr>)"
  by pat_completeness auto
termination
  by (relation "measures [\<lambda>(pos, sp, ctx). length sp, \<lambda>(pos, sp, ctx). pos]") auto

declare sha256_hash_loop.simps [simp del]

definition sha256_hash :: "u8 list \<Rightarrow> sha256_ctx \<Rightarrow> sha256_ctx" where
  "sha256_hash data ctx =
    (let pos = unat (cnt_lo ctx AND 63);
         ctx = ctx\<lparr>cnt_lo := cnt_lo ctx + word_of_nat (length data)\<rparr>;
         ctx = (if unat (cnt_lo ctx) < length data then ctx\<lparr>cnt_hi := cnt_hi ctx + 1\<rparr> else ctx)
     in sha256_hash_loop pos data ctx)"

definition sha_end1 :: "nat \<Rightarrow> sha256_ctx \<Rightarrow> u8 list \<times> sha256_ctx" where
  "sha_end1 hlen ctx =
    (let i = unat (cnt_lo ctx AND 63);
         ws = bsw bswap_32 ((i + 3) div 4) (wbuf ctx);
         ws = ws[i div 4 := ws ! (i div 4) AND push_bit (8 * (3 - i mod 4)) 0xffffff80];
         ws = ws[i div 4 := ws ! (i div 4) OR push_bit (8 * (3 - i mod 4)) 0x80];
         ctx = ctx\<lparr>wbuf := ws\<rparr>;
         (ctx, i) = (if 64 - 9 < i
                     then (sha256_compile (ctx\<lparr>wbuf := if i < 60 then ws[15 := 0] else ws\<rparr>), 0)
                     else (ctx, i div 4 + 1));
         ws = zero_words i 14 (wbuf ctx);
         ws = ws[14 := push_bit 3 (cnt_hi ctx) OR drop_bit 29 (cnt_lo ctx)];
         ws = ws[15 := push_bit 3 (cnt_lo ctx)];
         ctx = sha256_compile (ctx\<lparr>wbuf := ws\<rparr>)
     in (digest_bytes hlen (hash ctx), ctx))"

definition i224 :: "u32 list" where
  "i224 = [ul 0xc1059ed8, ul 0x367cd507, ul 0x3070dd17, ul 0xf70e5939, ul 0xffc00b31, ul 0x68581511, ul 0x64f98fa7, ul 0xbefa4fa4]"

definition sha224_begin :: "sha256_ctx \<Rightarrow> sha256_ctx" where
  "sha224_begin ctx = ctx\<lparr>cnt_lo := 0, cnt_hi := 0, hash := i224\<rparr>"

definition sha224_end :: "sha256_ctx \<Rightarrow> u8 list \<times> sha256_ctx" where
  "sha224_end ctx = sha_end1 28 ctx"

definition sha224_zrtp :: "sha256_ctx \<Rightarrow> u8 list \<Rightarrow> u8 list" where
  "sha224_zrtp cx data = fst (sha_end1 28 (sha256_hash data (sha224_begin cx)))"

definition i256 :: "u32 list" where
  "i256 = [ul 0x6a09e667, ul 0xbb67ae85, ul 0x3c6ef372, ul 0xa54ff53a, ul 0x510e527f, ul 0x9b05688c, ul 0x1f83d9ab, ul 0x5be0cd19]"

definition sha256_begin :: "sha256_ctx \<Rightarrow> sha256_ctx" where
  "sha256_begin ctx = ctx\<lparr>cnt_lo := 0, cnt_hi := 0, hash := i256\<rparr>"

definition sha256_end :: "sha256_ctx \<Rightarrow> u8 list \<times> sha256_ctx" where
  "sha256_end ctx = sha_end1 32 ctx"

definition sha256_zrtp :: "sha256_ctx \<Rightarrow> u8 list \<Rightarrow> u8 list" where
  "sha256_zrtp cx data = fst (sha_end1 32 (sha256_hash data (sha256_begin cx)))"

section \<open>The code: SHA-384 and SHA-512\<close>

type_synonym sha512_ctx = "u64 sha_ctx"

definition rotr64 :: "u64 \<Rightarrow> nat \<Rightarrow> u64" where
  "rotr64 x n = drop_bit n x OR push_bit (64 - n) x"

definition bswap_64 :: "u64 \<Rightarrow> u64" where
  "bswap_64 x = push_bit 32 (ucast (bswap_32 (ucast x))) OR ucast (bswap_32 (ucast (drop_bit 32 x)))"

definition s_0_512 :: "u64 \<Rightarrow> u64" where
  "s_0_512 x = rotr64 x 28 XOR rotr64 x 34 XOR rotr64 x 39"

definition s_1_512 :: "u64 \<Rightarrow> u64" where
  "s_1_512 x = rotr64 x 14 XOR rotr64 x 18 XOR rotr64 x 41"

definition g_0_512 :: "u64 \<Rightarrow> u64" where
  "g_0_512 x = rotr64 x 1 XOR rotr64 x 8 XOR drop_bit 7 x"

definition g_1_512 :: "u64 \<Rightarrow> u64" where
  "g_1_512 x = rotr64 x 19 XOR rotr64 x 61 XOR drop_bit 6 x"

definition k512 :: "u64 list" where
  "k512 =
  [li_64 0x428a2f98d728ae22, li_64 0x7137449123ef65cd, li_64 0xb5c0fbcfec4d3b2f, li_64 0xe9b5dba58189dbbc,
   li_64 0x3956c25bf348b538, li_64 0x59f111f1b605d019, li_64 0x923f82a4af194f9b, li_64 0xab1c5ed5da6d8118,
   li_64 0xd807aa98a3030242, li_64 0x12835b0145706fbe, li_64 0x243185be4ee4b28c, li_64 0x550c7dc3d5ffb4e2,
   li_64 0x72be5d74f27b896f, li_64 0x80deb1fe3b1696b1, li_64 0x9bdc06a725c71235, li_64 0xc19bf174cf692694,
   li_64 0xe49b69c19ef14ad2, li_64 0xefbe4786384f25e3, li_64 0x0fc19dc68b8cd5b5, li_64 0x240ca1cc77ac9c65,
   li_64 0x2de92c6f592b0275, li_64 0x4a7484aa6ea6e483, li_64 0x5cb0a9dcbd41fbd4, li_64 0x76f988da831153b5,
   li_64 0x983e5152ee66dfab, li_64 0xa831c66d2db43210, li_64 0xb00327c898fb213f, li_64 0xbf597fc7beef0ee4,
   li_64 0xc6e00bf33da88fc2, li_64 0xd5a79147930aa725, li_64 0x06ca6351e003826f, li_64 0x142929670a0e6e70,
   li_64 0x27b70a8546d22ffc, li_64 0x2e1b21385c26c926, li_64 0x4d2c6dfc5ac42aed, li_64 0x53380d139d95b3df,
   li_64 0x650a73548baf63de, li_64 0x766a0abb3c77b2a8, li_64 0x81c2c92e47edaee6, li_64 0x92722c851482353b,
   li_64 0xa2bfe8a14cf10364, li_64 0xa81a664bbc423001, li_64 0xc24b8b70d0f89791, li_64 0xc76c51a30654be30,
   li_64 0xd192e819d6ef5218, li_64 0xd69906245565a910, li_64 0xf40e35855771202a, li_64 0x106aa07032bbd1b8,
   li_64 0x19a4c116b8d2d0c8, li_64 0x1e376c085141ab53, li_64 0x2748774cdf8eeb99, li_64 0x34b0bcb5e19b48a8,
   li_64 0x391c0cb3c5c95a63, li_64 0x4ed8aa4ae3418acb, li_64 0x5b9cca4f7763e373, li_64 0x682e6ff3d6b2b8a3,
   li_64 0x748f82ee5defb2fc, li_64 0x78a5636f43172f60, li_64 0x84c87814a1f0ab72, li_64 0x8cc702081a6439ec,
   li_64 0x90befffa23631e28, li_64 0xa4506cebde82bde9, li_64 0xbef9a3f7b2c67915, li_64 0xc67178f2e372532b,
   li_64 0xca273eceea26619c, li_64 0xd186b8c721c0c207, li_64 0xeada7dd6cde0eb1e, li_64 0xf57d4f7fee6ed178,
   li_64 0x06f067aa72176fba, li_64 0x0a637dc5a2c898a6, li_64 0x113f9804bef90dae, li_64 0x1b710b35131c471b,
   li_64 0x28db77f523047d84, li_64 0x32caab7b40c72493, li_64 0x3c9ebe0a15c9bebc, li_64 0x431d67c49c100d4c,
   li_64 0x4cc5d4becb3e42b6, li_64 0x597f299cfc657e2a, li_64 0x5fcb6fab3ad6faec, li_64 0x6c44198c4a475817]"

definition macros_512 :: "u64 sha2_macros" where
  "macros_512 = \<lparr>s_0 = s_0_512, s_1 = s_1_512, g_0 = g_0_512, g_1 = g_1_512, k_0 = k512\<rparr>"

definition sha512_compile :: "sha512_ctx \<Rightarrow> sha512_ctx" where
  "sha512_compile ctx =
    (let (v, p) = foldl (\<lambda>s j. v_cycles macros_512 j s) (hash ctx, wbuf ctx) [0, 16, 32, 48, 64];
         h = hash ctx
     in ctx\<lparr>hash := [h ! 0 + v ! 0, h ! 1 + v ! 1, h ! 2 + v ! 2, h ! 3 + v ! 3,
                     h ! 4 + v ! 4, h ! 5 + v ! 5, h ! 6 + v ! 6, h ! 7 + v ! 7],
            wbuf := p\<rparr>)"

function sha512_hash_loop :: "nat \<Rightarrow> u8 list \<Rightarrow> sha512_ctx \<Rightarrow> sha512_ctx" where
  "sha512_hash_loop pos sp ctx =
    (let space = 128 - pos in
     if space \<le> length sp then
       let ctx = ctx\<lparr>wbuf := memcpy_words pos (take space sp) (wbuf ctx)\<rparr>;
           ctx = ctx\<lparr>wbuf := bsw bswap_64 16 (wbuf ctx)\<rparr>
       in sha512_hash_loop 0 (drop space sp) (sha512_compile ctx)
     else ctx\<lparr>wbuf := memcpy_words pos sp (wbuf ctx)\<rparr>)"
  by pat_completeness auto
termination
  by (relation "measures [\<lambda>(pos, sp, ctx). length sp, \<lambda>(pos, sp, ctx). pos]") auto

declare sha512_hash_loop.simps [simp del]

definition sha512_hash :: "u8 list \<Rightarrow> sha512_ctx \<Rightarrow> sha512_ctx" where
  "sha512_hash data ctx =
    (let pos = unat (cnt_lo ctx AND 127);
         ctx = ctx\<lparr>cnt_lo := cnt_lo ctx + word_of_nat (length data)\<rparr>;
         ctx = (if unat (cnt_lo ctx) < length data then ctx\<lparr>cnt_hi := cnt_hi ctx + 1\<rparr> else ctx)
     in sha512_hash_loop pos data ctx)"

definition sha_end2 :: "nat \<Rightarrow> sha512_ctx \<Rightarrow> u8 list \<times> sha512_ctx" where
  "sha_end2 hlen ctx =
    (let i = unat (cnt_lo ctx AND 127);
         ws = bsw bswap_64 ((i + 7) div 8) (wbuf ctx);
         ws = ws[i div 8 := ws ! (i div 8) AND push_bit (8 * (7 - i mod 8)) 0xffffffffffffff00];
         ws = ws[i div 8 := ws ! (i div 8) OR push_bit (8 * (7 - i mod 8)) 0x80];
         ctx = ctx\<lparr>wbuf := ws\<rparr>;
         (ctx, i) = (if 128 - 17 < i
                     then (sha512_compile (ctx\<lparr>wbuf := if i < 120 then ws[15 := 0] else ws\<rparr>), 0)
                     else (ctx, i div 8 + 1));
         ws = zero_words i 14 (wbuf ctx);
         ws = ws[14 := push_bit 3 (cnt_hi ctx) OR drop_bit 61 (cnt_lo ctx)];
         ws = ws[15 := push_bit 3 (cnt_lo ctx)];
         ctx = sha512_compile (ctx\<lparr>wbuf := ws\<rparr>)
     in (digest_bytes hlen (hash ctx), ctx))"

definition i384 :: "u64 list" where
  "i384 = [li_64 0xcbbb9d5dc1059ed8,
  li_64 0x629a292a367cd507,
  li_64 0x9159015a3070dd17,
  li_64 0x152fecd8f70e5939,
  li_64 0x67332667ffc00b31,
  li_64 0x8eb44a8768581511,
  li_64 0xdb0c2e0d64f98fa7,
  li_64 0x47b5481dbefa4fa4]"

definition sha384_begin :: "sha512_ctx \<Rightarrow> sha512_ctx" where
  "sha384_begin ctx = ctx\<lparr>cnt_lo := 0, cnt_hi := 0, hash := i384\<rparr>"

definition sha384_end :: "sha512_ctx \<Rightarrow> u8 list \<times> sha512_ctx" where
  "sha384_end ctx = sha_end2 48 ctx"

definition sha384_zrtp :: "sha512_ctx \<Rightarrow> u8 list \<Rightarrow> u8 list" where
  "sha384_zrtp cx data = fst (sha_end2 48 (sha512_hash data (sha384_begin cx)))"

definition i512 :: "u64 list" where
  "i512 = [li_64 0x6a09e667f3bcc908,
  li_64 0xbb67ae8584caa73b,
  li_64 0x3c6ef372fe94f82b,
  li_64 0xa54ff53a5f1d36f1,
  li_64 0x510e527fade682d1,
  li_64 0x9b05688c2b3e6c1f,
  li_64 0x1f83d9abfb41bd6b,
  li_64 0x5be0cd19137e2179]"

definition sha512_begin :: "sha512_ctx \<Rightarrow> sha512_ctx" where
  "sha512_begin ctx = ctx\<lparr>cnt_lo := 0, cnt_hi := 0, hash := i512\<rparr>"

definition sha512_end :: "sha512_ctx \<Rightarrow> u8 list \<times> sha512_ctx" where
  "sha512_end ctx = sha_end2 64 ctx"

definition sha512_zrtp :: "sha512_ctx \<Rightarrow> u8 list \<Rightarrow> u8 list" where
  "sha512_zrtp cx data = fst (sha_end2 64 (sha512_hash data (sha512_begin cx)))"

section \<open>The code: the dispatch over the digest size\<close>

text \<open>
  The context \<open>sha2_ctx\<close> is a union; a call reads only the member that \<open>sha2_len\<close> selects,
  which is the one \<open>sha2_begin\<close> initialised, so the members are two fields here.  The result
  of \<open>sha2_begin\<close> and \<open>sha2_all\<close> is \<open>EXIT_SUCCESS\<close> (0) or \<open>EXIT_FAILURE\<close> (1); \<open>sha2_end\<close>
  gives \<open>None\<close> where the code writes no digest.
\<close>

record sha2_ctx =
  ctx256 :: sha256_ctx
  ctx512 :: sha512_ctx
  sha2_len :: u32

definition sha2_begin :: "nat \<Rightarrow> sha2_ctx \<Rightarrow> int \<times> sha2_ctx" where
  "sha2_begin len ctx =
    (if len = 224 \<or> len = 28 then
       (0, ctx\<lparr>ctx256 := (ctx256 ctx)\<lparr>cnt_lo := 0, cnt_hi := 0, hash := i224\<rparr>, sha2_len := 28\<rparr>)
     else if len = 256 \<or> len = 32 then
       (0, ctx\<lparr>ctx256 := (ctx256 ctx)\<lparr>cnt_lo := 0, cnt_hi := 0, hash := i256\<rparr>, sha2_len := 32\<rparr>)
     else if len = 384 \<or> len = 48 then
       (0, ctx\<lparr>ctx512 := (ctx512 ctx)\<lparr>cnt_lo := 0, cnt_hi := 0, hash := i384\<rparr>, sha2_len := 48\<rparr>)
     else if len = 512 \<or> len = 64 then
       (0, ctx\<lparr>ctx512 := (ctx512 ctx)\<lparr>cnt_lo := 0, cnt_hi := 0, hash := i512\<rparr>, sha2_len := 64\<rparr>)
     else (1, ctx))"

definition sha2_hash :: "u8 list \<Rightarrow> sha2_ctx \<Rightarrow> sha2_ctx" where
  "sha2_hash data ctx =
    (if sha2_len ctx = 28 then ctx\<lparr>ctx256 := sha256_hash data (ctx256 ctx)\<rparr>
     else if sha2_len ctx = 32 then ctx\<lparr>ctx256 := sha256_hash data (ctx256 ctx)\<rparr>
     else if sha2_len ctx = 48 then ctx\<lparr>ctx512 := sha512_hash data (ctx512 ctx)\<rparr>
     else if sha2_len ctx = 64 then ctx\<lparr>ctx512 := sha512_hash data (ctx512 ctx)\<rparr>
     else ctx)"

definition sha2_end :: "sha2_ctx \<Rightarrow> u8 list option \<times> sha2_ctx" where
  "sha2_end ctx =
    (if sha2_len ctx = 28 then (let (h, c) = sha_end1 28 (ctx256 ctx) in (Some h, ctx\<lparr>ctx256 := c\<rparr>))
     else if sha2_len ctx = 32 then (let (h, c) = sha_end1 32 (ctx256 ctx) in (Some h, ctx\<lparr>ctx256 := c\<rparr>))
     else if sha2_len ctx = 48 then (let (h, c) = sha_end2 48 (ctx512 ctx) in (Some h, ctx\<lparr>ctx512 := c\<rparr>))
     else if sha2_len ctx = 64 then (let (h, c) = sha_end2 64 (ctx512 ctx) in (Some h, ctx\<lparr>ctx512 := c\<rparr>))
     else (None, ctx))"

definition sha2_all :: "nat \<Rightarrow> u8 list \<Rightarrow> sha2_ctx \<Rightarrow> int \<times> u8 list option" where
  "sha2_all sz data cx =
    (let (rc, cx) = sha2_begin sz cx in
     if rc = 0 then (0, fst (sha2_end (sha2_hash data cx))) else (1, None))"

section \<open>FIPS 180-4\<close>

text \<open>The schedule, a round on the registers \<open>a\<close> to \<open>h\<close> (a list), and the compression.\<close>

fun sha2_W :: "'a::len word sha2_macros \<Rightarrow> 'a word list \<Rightarrow> nat \<Rightarrow> 'a word" where
  "sha2_W M m t =
    (if t < 16 then m ! t
     else g_1 M (sha2_W M m (t - 2)) + sha2_W M m (t - 7) + g_0 M (sha2_W M m (t - 15)) + sha2_W M m (t - 16))"

declare sha2_W.simps [simp del]

definition sha2_round :: "'a::len word sha2_macros \<Rightarrow> (nat \<Rightarrow> 'a word) \<Rightarrow> 'a word list \<Rightarrow> nat \<Rightarrow> 'a word list" where
  "sha2_round M W r t =
    (let T1 = r ! 7 + s_1 M (r ! 4) + ((r ! 4 AND r ! 5) XOR (NOT (r ! 4) AND r ! 6)) + k_0 M ! t + W t;
         T2 = s_0 M (r ! 0) + ((r ! 0 AND r ! 1) XOR (r ! 0 AND r ! 2) XOR (r ! 1 AND r ! 2))
     in [T1 + T2, r ! 0, r ! 1, r ! 2, r ! 3 + T1, r ! 4, r ! 5, r ! 6])"

definition sha2_compress :: "'a::len word sha2_macros \<Rightarrow> nat \<Rightarrow> 'a word list \<Rightarrow> u8 list \<Rightarrow> 'a word list" where
  "sha2_compress M n H b = map2 (+) H (foldl (sha2_round M (sha2_W M (be_words b))) H [0..<n])"

text \<open>The standard's six logical functions, written with rotations.\<close>

definition fips_256 :: "u32 sha2_macros" where
  "fips_256 = \<lparr>
     s_0 = (\<lambda>x. word_rotr 2 x XOR word_rotr 13 x XOR word_rotr 22 x),
     s_1 = (\<lambda>x. word_rotr 6 x XOR word_rotr 11 x XOR word_rotr 25 x),
     g_0 = (\<lambda>x. word_rotr 7 x XOR word_rotr 18 x XOR drop_bit 3 x),
     g_1 = (\<lambda>x. word_rotr 17 x XOR word_rotr 19 x XOR drop_bit 10 x),
     k_0 = k256\<rparr>"

definition fips_512 :: "u64 sha2_macros" where
  "fips_512 = \<lparr>
     s_0 = (\<lambda>x. word_rotr 28 x XOR word_rotr 34 x XOR word_rotr 39 x),
     s_1 = (\<lambda>x. word_rotr 14 x XOR word_rotr 18 x XOR word_rotr 41 x),
     g_0 = (\<lambda>x. word_rotr 1 x XOR word_rotr 8 x XOR drop_bit 7 x),
     g_1 = (\<lambda>x. word_rotr 19 x XOR word_rotr 61 x XOR drop_bit 6 x),
     k_0 = k512\<rparr>"

definition sha256_spec :: "u32 list \<Rightarrow> nat \<Rightarrow> u8 list \<Rightarrow> u8 list" where
  "sha256_spec IV hlen m = take hlen (be_view (foldl (sha2_compress fips_256 64) IV (chunks 64 (md_pad 4 m))))"

definition sha512_spec :: "u64 list \<Rightarrow> nat \<Rightarrow> u8 list \<Rightarrow> u8 list" where
  "sha512_spec IV hlen m = take hlen (be_view (foldl (sha2_compress fips_512 80) IV (chunks 128 (md_pad 8 m))))"

section \<open>The loop of rotated rounds\<close>

lemma macros_256_fips: "macros_256 = fips_256"
  by (simp add: macros_256_def fips_256_def s_0_256_def s_1_256_def g_0_256_def g_1_256_def
      rotr32_eq fun_eq_iff)

lemma rotr64_eq: "n < 64 \<Longrightarrow> rotr64 x n = word_rotr n x"
  using rotr_shifts [of n x] by (simp add: rotr64_def)

lemma macros_512_fips: "macros_512 = fips_512"
  by (simp add: macros_512_def fips_512_def s_0_512_def s_1_512_def g_0_512_def g_1_512_def
      rotr64_eq fun_eq_iff)

lemma hf_delivers:
  assumes p: "ring_holds (sha2_W M m) t p" and t: "16 \<le> t"
  shows "hf M t p = (sha2_W M m t, p[t mod 16 := sha2_W M m t])"
proof -
  have n: "p ! ((t + 14) mod 16) = sha2_W M m (t - 2)" "p ! ((t + 9) mod 16) = sha2_W M m (t - 7)"
    "p ! ((t + 1) mod 16) = sha2_W M m (t - 15)" "p ! (t mod 16) = sha2_W M m (t - 16)"
    using ring_holds_nth [OF p t, of 14] ring_holds_nth [OF p t, of 9]
      ring_holds_nth [OF p t, of 1] ring_holds_nth [OF p t, of 0] by simp_all
  have "sha2_W M m (t - 16) + (g_1 M (sha2_W M m (t - 2)) + sha2_W M m (t - 7) + g_0 M (sha2_W M m (t - 15))) =
      sha2_W M m t"
    using t by (subst (5) sha2_W.simps) (simp add: algebra_simps)
  then show ?thesis
    by (simp only: hf_def Let_def n)
qed

lemma hf_mod_16:
  assumes "16 dvd j"
  shows "hf M (i + j) p = hf M i p"
proof -
  have "(i + j + c) mod 16 = (i + c) mod 16" for c
  proof -
    obtain k where "j = 16 * k" using assms by (elim dvdE)
    moreover have "i + 16 * k + c = i + c + 16 * k" by simp
    ultimately show ?thesis by (simp only: mod_mult_self2)
  qed
  from this [of 0] this [of 14] this [of 9] this [of 1] show ?thesis
    by (simp only: hf_def add_0_right)
qed

text \<open>
  Each cycle is one round; the registers are not moved but renamed: before round \<open>t\<close> the
  array is the register list rotated by \<open>t\<close>.
\<close>

definition sha2_at :: "'a::len word sha2_macros \<Rightarrow> 'a word list \<Rightarrow> 'a word list \<Rightarrow> nat \<Rightarrow>
    'a word list \<times> 'a word list \<Rightarrow> bool" where
  "sha2_at M m H t s \<longleftrightarrow> length H = 8 \<and>
     fst s = rotate t (foldl (sha2_round M (sha2_W M m)) H [0..<t]) \<and> ring_holds (sha2_W M m) t (snd s)"

lemma length_sha2_rounds: "length H = 8 \<Longrightarrow> length (foldl (sha2_round M W) H ts) = 8"
  by (induction ts arbitrary: H) (simp_all add: sha2_round_def Let_def)

lemma mod_8_cases: "(t :: nat) mod 8 \<in> {0, 1, 2, 3, 4, 5, 6, 7}"
  using mod_less_divisor [of 8 t] by (simp only: insert_iff) linarith

lemma vf_mod_8: "vf n i = vf n (i mod 8)"
  by (simp add: vf_def zmod_int mod_simps)

lemma rotate_8:
  fixes a b c d e f g h :: 'a
  shows "rotate 0 [a, b, c, d, e, f, g, h] = [a, b, c, d, e, f, g, h]"
    "rotate 1 [a, b, c, d, e, f, g, h] = [b, c, d, e, f, g, h, a]"
    "rotate 2 [a, b, c, d, e, f, g, h] = [c, d, e, f, g, h, a, b]"
    "rotate 3 [a, b, c, d, e, f, g, h] = [d, e, f, g, h, a, b, c]"
    "rotate 4 [a, b, c, d, e, f, g, h] = [e, f, g, h, a, b, c, d]"
    "rotate 5 [a, b, c, d, e, f, g, h] = [f, g, h, a, b, c, d, e]"
    "rotate 6 [a, b, c, d, e, f, g, h] = [g, h, a, b, c, d, e, f]"
    "rotate 7 [a, b, c, d, e, f, g, h] = [h, a, b, c, d, e, f, g]"
    "rotate 8 [a, b, c, d, e, f, g, h] = [a, b, c, d, e, f, g, h]"
  by (simp_all add: rotate_drop_take)

text \<open>The assignments of a cycle (\<open>X\<close>, \<open>F\<close> stand for the sums) and their effect on the registers.\<close>

lemma cycle_registers:
  fixes a b c d e f g h :: "'a::len word"
  assumes v: "v = rotate (i mod 8) [a, b, c, d, e, f, g, h]"
    and v1: "v1 = v[vf 7 i := v ! vf 7 i + (x + k + S1 (v ! vf 4 i) + C (v ! vf 4 i) (v ! vf 5 i) (v ! vf 6 i))]"
    and v2: "v2 = v1[vf 3 i := v1 ! vf 3 i + v1 ! vf 7 i]"
    and v3: "v3 = v2[vf 7 i := v2 ! vf 7 i + (S0 (v2 ! vf 0 i) + J (v2 ! vf 0 i) (v2 ! vf 1 i) (v2 ! vf 2 i))]"
    and T1: "T1 = h + (x + k + S1 e + C e f g)" and T2: "T2 = S0 a + J a b c"
  shows "v3 = rotate (Suc (i mod 8)) [T1 + T2, a, b, c, d + T1, e, f, g]"
proof -
  have vf: "vf n i = vf n (i mod 8)" for n by (rule vf_mod_8)
  show ?thesis
    using mod_8_cases [of i]
    unfolding v3 v2 v1 v vf [of 0] vf [of 1] vf [of 2] vf [of 3] vf [of 4] vf [of 5] vf [of 6] vf [of 7]
    by (elim insertE)
      (simp_all only: rotate_8 Suc_numeral One_nat_def [symmetric] Suc_1 Num.add_num_simps,
       simp_all add: vf_def rotate_8 T1 T2 del: rotate_Suc)
qed

lemma v_cycle_round:
  assumes s: "sha2_at M m H t s" and t: "t = i + j" and i: "i < 16" and j: "16 dvd j"
  shows "sha2_at M m H (Suc t) (v_cycle M i j s)"
proof -
  let ?W = "sha2_W M m"
  obtain v p where vp: "s = (v, p)" by (cases s)
  have p: "ring_holds ?W t p" and H: "length H = 8"
    using s by (simp_all add: sha2_at_def vp)
  obtain x p' where x: "(if j \<noteq> 0 then hf M i p else (p ! i, p)) = (x, p')"
    by (cases "if j \<noteq> 0 then hf M i p else (p ! i, p)")
  have xp: "x = ?W t \<and> ring_holds ?W (Suc t) p'"
  proof (cases "j = 0")
    case True
    then show ?thesis using x ring_holds_first [OF p] i by (auto simp: t)
  next
    case False
    with j have "16 \<le> t" by (auto simp: t elim!: dvdE)
    then show ?thesis
      using x False hf_delivers [OF p] ring_holds_step [OF p] hf_mod_16 [OF j, of M i p] by (simp add: t)
  qed
  define R where "R = foldl (sha2_round M ?W) H [0..<t]"
  have R: "length R = 8" using H by (simp add: R_def length_sha2_rounds)
  then obtain a b c d e f g h where R8: "R = [a, b, c, d, e, f, g, h]"
    by (auto simp: length_Suc_conv numeral_eq_Suc)
  have im: "t mod 8 = i mod 8"
  proof -
    have "8 dvd j" by (rule dvd_trans [OF _ j]) simp
    then show ?thesis by (auto simp: t elim!: dvdE)
  qed
  have v: "v = rotate (i mod 8) [a, b, c, d, e, f, g, h]"
    using s rotate_conv_mod [of t R] by (simp add: sha2_at_def vp im R_def [symmetric] R8)
  let ?T1 = "h + (x + k_0 M ! (i + j) + s_1 M e + ch e f g)"
  let ?T2 = "s_0 M a + maj a b c"
  have new: "foldl (sha2_round M ?W) H [0..<Suc t] = [?T1 + ?T2, a, b, c, d + ?T1, e, f, g]"
  proof -
    have "foldl (sha2_round M ?W) H [0..<Suc t] = sha2_round M ?W [a, b, c, d, e, f, g, h] t"
      by (simp add: R_def [symmetric] R8)
    moreover have "sha2_round M ?W [a, b, c, d, e, f, g, h] t = [?T1 + ?T2, a, b, c, d + ?T1, e, f, g]"
      using xp by (simp add: sha2_round_def Let_def ch_eq maj_eq t add_ac)
    ultimately show ?thesis by (simp only:)
  qed
  have "rotate (Suc t) [?T1 + ?T2, a, b, c, d + ?T1, e, f, g] =
      rotate (Suc (i mod 8)) [?T1 + ?T2, a, b, c, d + ?T1, e, f, g]"
    using rotate_conv_mod [of "Suc t" "[?T1 + ?T2, a, b, c, d + ?T1, e, f, g]"]
      rotate_conv_mod [of "Suc (i mod 8)" "[?T1 + ?T2, a, b, c, d + ?T1, e, f, g]"]
    by (simp add: im [symmetric] mod_Suc_eq del: rotate_Suc)
  then have "fst (v_cycle M i j s) = rotate (Suc t) (foldl (sha2_round M ?W) H [0..<Suc t])"
    unfolding new using cycle_registers [OF v refl refl refl refl refl, of x "k_0 M ! (i + j)" "s_1 M" ch "s_0 M" maj]
    by (simp only: v_cycle_def Let_def vp x prod.case fst_conv)
  moreover have "snd (v_cycle M i j s) = p'"
    by (simp only: v_cycle_def Let_def vp x prod.case snd_conv)
  ultimately show ?thesis
    using xp H by (simp only: sha2_at_def)
qed

lemma v_cycles_rounds:
  assumes "sha2_at M m H j s" and "16 dvd j"
  shows "sha2_at M m H (j + 16) (v_cycles M j s)"
proof -
  have "n \<le> 16 \<Longrightarrow> sha2_at M m H (j + n) (foldl (\<lambda>s i. v_cycle M i j s) s [0..<n])" for n
  proof (induction n)
    case (Suc n)
    then have "sha2_at M m H (j + n) (foldl (\<lambda>s i. v_cycle M i j s) s [0..<n])" by simp
    from v_cycle_round [OF this add.commute _ assms(2)] Suc.prems show ?case by simp
  qed (use assms in simp)
  moreover have "[0, 1, 2, 3, 4, 5, 6, 7, 8, 9, 10, 11, 12, 13, 14, 15] = [0..<16]"
    by (rule sym) code_simp
  ultimately show ?thesis
    by (simp only: v_cycles_def order_refl)
qed

lemma rotate_dvd: "length R dvd n \<Longrightarrow> rotate n R = R"
  by (metis dvd_imp_mod_0 rotate0 rotate_conv_mod id_apply)

lemma map2_add_8:
  assumes "length h = 8" and "length v = 8"
  shows "[h ! 0 + v ! 0, h ! 1 + v ! 1, h ! 2 + v ! 2, h ! 3 + v ! 3,
    h ! 4 + v ! 4, h ! 5 + v ! 5, h ! 6 + v ! 6, h ! 7 + v ! 7] = map2 (+) h v"
  using assms by (auto simp: length_Suc_conv numeral_eq_Suc)

lemma sha2_at_start: "length H = 8 \<Longrightarrow> length m = 16 \<Longrightarrow> sha2_at M m H 0 (H, m)"
  by (auto simp: sha2_at_def sha2_W.simps intro!: ring_holds_start)

lemma sha2_at_end:
  assumes s: "sha2_at M m H n (v, p)" and n: "8 dvd n"
    and m: "length m = 16" "8 dvd LENGTH('a)"
  shows "map2 (+) H v = sha2_compress M n H (be_view (m :: 'a::len word list)) \<and> length v = 8 \<and> length p = 16"
proof -
  have "length H = 8" and "v = rotate n (foldl (sha2_round M (sha2_W M m)) H [0..<n])"
    using s by (simp_all add: sha2_at_def)
  then show ?thesis
    using s n m rotate_dvd [of "foldl (sha2_round M (sha2_W M m)) H [0..<n]" n]
    by (simp add: sha2_at_def sha2_compress_def be_words_be_view length_sha2_rounds ring_holds_length)
qed

lemma sha256_compile_correct:
  assumes w: "length (wbuf c) = 16" and h: "length (hash c) = 8"
  shows "hash (sha256_compile c) = sha2_compress fips_256 64 (hash c) (be_view (wbuf c)) \<and>
    length (wbuf (sha256_compile c)) = 16 \<and>
    cnt_lo (sha256_compile c) = cnt_lo c \<and> cnt_hi (sha256_compile c) = cnt_hi c"
proof -
  let ?s = "foldl (\<lambda>s j. v_cycles macros_256 j s) (hash c, wbuf c) [0, 16, 32, 48]"
  have "sha2_at macros_256 (wbuf c) (hash c) 64 ?s"
    using v_cycles_rounds [OF v_cycles_rounds [OF v_cycles_rounds [OF v_cycles_rounds [OF
      sha2_at_start [OF h w, of macros_256]]]]] by simp
  moreover obtain v p where vp: "?s = (v, p)" by (cases ?s)
  ultimately have "map2 (+) (hash c) v = sha2_compress fips_256 64 (hash c) (be_view (wbuf c)) \<and> length v = 8 \<and> length p = 16"
    using sha2_at_end [of macros_256 "wbuf c" "hash c" 64 v p] w by (simp add: macros_256_fips)
  moreover have "sha256_compile c = c\<lparr>hash := [hash c ! 0 + v ! 0, hash c ! 1 + v ! 1, hash c ! 2 + v ! 2,
      hash c ! 3 + v ! 3, hash c ! 4 + v ! 4, hash c ! 5 + v ! 5, hash c ! 6 + v ! 6, hash c ! 7 + v ! 7],
      wbuf := p\<rparr>"
    by (simp only: sha256_compile_def Let_def vp prod.case)
  ultimately show ?thesis
    using h by (simp add: map2_add_8 [unfolded One_nat_def])
qed

lemma sha512_compile_correct:
  assumes w: "length (wbuf c) = 16" and h: "length (hash c) = 8"
  shows "hash (sha512_compile c) = sha2_compress fips_512 80 (hash c) (be_view (wbuf c)) \<and>
    length (wbuf (sha512_compile c)) = 16 \<and>
    cnt_lo (sha512_compile c) = cnt_lo c \<and> cnt_hi (sha512_compile c) = cnt_hi c"
proof -
  let ?s = "foldl (\<lambda>s j. v_cycles macros_512 j s) (hash c, wbuf c) [0, 16, 32, 48, 64]"
  have "sha2_at macros_512 (wbuf c) (hash c) 80 ?s"
    using v_cycles_rounds [OF v_cycles_rounds [OF v_cycles_rounds [OF v_cycles_rounds [OF v_cycles_rounds [OF
      sha2_at_start [OF h w, of macros_512]]]]]] by simp
  moreover obtain v p where vp: "?s = (v, p)" by (cases ?s)
  ultimately have "map2 (+) (hash c) v = sha2_compress fips_512 80 (hash c) (be_view (wbuf c)) \<and> length v = 8 \<and> length p = 16"
    using sha2_at_end [of macros_512 "wbuf c" "hash c" 80 v p] w by (simp add: macros_512_fips)
  moreover have "sha512_compile c = c\<lparr>hash := [hash c ! 0 + v ! 0, hash c ! 1 + v ! 1, hash c ! 2 + v ! 2,
      hash c ! 3 + v ! 3, hash c ! 4 + v ! 4, hash c ! 5 + v ! 5, hash c ! 6 + v ! 6, hash c ! 7 + v ! 7],
      wbuf := p\<rparr>"
    by (simp only: sha512_compile_def Let_def vp prod.case)
  ultimately show ?thesis
    using h by (simp add: map2_add_8 [unfolded One_nat_def])
qed

lemma length_sha2_compress: "length h = 8 \<Longrightarrow> length (sha2_compress M n h b) = 8"
  by (simp add: sha2_compress_def length_sha2_rounds)

section \<open>The streaming code\<close>

lemma le_bytes_bswap_64: "be_bytes (bswap_64 x) = le_bytes x"
proof -
  have big: "\<not> bit b (k + n)" if "32 \<le> k" for b :: u32 and k n
    using that by (auto dest: bit_imp_le_length)
  have be: "be_bytes (push_bit 32 (ucast a) OR ucast b :: u64) = be_bytes a @ be_bytes b" for a b :: u32
    by (simp add: be_bytes_def rev_map upt_rec) (auto intro!: bit_word_eqI simp: bit_simps big)
  have le: "le_bytes (ucast x :: u32) @ le_bytes (ucast (drop_bit 32 x) :: u32) = le_bytes x"
    by (simp add: le_bytes_def upt_rec) (auto intro!: bit_word_eqI simp: bit_simps)
  show ?thesis
    unfolding bswap_64_def be le_bytes_bswap_32 by (rule le)
qed

lemma and_127: "unat (w AND 127 :: u64) = unat w mod 128"
proof -
  have "w AND 127 = take_bit 7 w"
    unfolding take_bit_eq_mask by (simp add: mask_eq_exp_minus_1)
  then have "unat (w AND 127) = take_bit 7 (unat w)"
    by (simp only: unsigned_take_bit_eq)
  then show ?thesis by (simp add: take_bit_eq_mod)
qed

lemma bit_pad_mask_64: "j < 64 \<Longrightarrow> j \<noteq> 7 \<Longrightarrow> bit (0xffffffffffffff00 :: u64) j \<longleftrightarrow> 8 \<le> j"
proof -
  assume j: "j < 64" "j \<noteq> 7"
  have "(0xffffffffffffff00 :: u64) = NOT (mask 8)" by (simp add: mask_eq_exp_minus_1)
  moreover have "bit (NOT (mask 8) :: u64) j \<longleftrightarrow> 8 \<le> j"
    using j by (auto simp: bit_not_iff bit_mask_iff)
  ultimately show ?thesis by (simp only:)
qed

interpretation sha256: md_hash 4 64 8 sha256_compile bswap_32 "0xffffff80" "sha2_compress fips_256 64"
  sha256_hash_loop sha256_hash
proof (unfold_locales, goal_cases)
  case 1 show ?case by simp
next
  case 2 show ?case by simp
next
  case 3 show ?case by (intro exI [of _ "2 ^ 26"]) simp
next
  case (4 w) show ?case by (rule le_bytes_bswap_32)
next
  case (5 j) then show ?case by (simp add: bit_pad_mask_32 del: bit_numeral_word_iff)
next
  case (6 c) then show ?case by (rule sha256_compile_correct)
next
  case (7 h b) then show ?case by (simp add: length_sha2_compress)
next
  case (8 pos sp c) then show ?case by (subst sha256_hash_loop.simps) (simp add: Let_def)
next
  case (9 d c) then show ?case by (simp add: sha256_hash_def Let_def and_63)
qed

interpretation sha512: md_hash 8 128 8 sha512_compile bswap_64 "0xffffffffffffff00" "sha2_compress fips_512 80"
  sha512_hash_loop sha512_hash
proof (unfold_locales, goal_cases)
  case 1 show ?case by simp
next
  case 2 show ?case by simp
next
  case 3 show ?case by (intro exI [of _ "2 ^ 57"]) simp
next
  case (4 w) show ?case by (rule le_bytes_bswap_64)
next
  case (5 j) then show ?case by (simp add: bit_pad_mask_64 del: bit_numeral_word_iff)
next
  case (6 c) then show ?case by (rule sha512_compile_correct)
next
  case (7 h b) then show ?case by (simp add: length_sha2_compress)
next
  case (8 pos sp c) then show ?case by (subst sha512_hash_loop.simps) (simp add: Let_def)
next
  case (9 d c) then show ?case by (simp add: sha512_hash_def Let_def and_127)
qed

lemma sha_end1_eq: "snd (sha_end1 n c) = md_finish sha256_compile bswap_32 0xffffff80 c"
  and sha_end1_digest: "fst (sha_end1 n c) = digest_bytes n (hash (snd (sha_end1 n c)))"
  by (simp_all add: sha_end1_def md_finish_def Let_def and_63 split: prod.splits)

lemma sha_end2_eq: "snd (sha_end2 n c) = md_finish sha512_compile bswap_64 0xffffffffffffff00 c"
  and sha_end2_digest: "fst (sha_end2 n c) = digest_bytes n (hash (snd (sha_end2 n c)))"
  by (simp_all add: sha_end2_def md_finish_def Let_def and_127 split: prod.splits)

section \<open>Properties\<close>

lemma md_absorbed_md_pad: "length IV = 8 \<Longrightarrow> length (foldl (sha2_compress M n) IV bs) = 8"
  by (induction bs arbitrary: IV) (simp_all add: length_sha2_compress)

lemmas sha2_digest = sha_end1_digest sha_end1_eq sha_end2_digest sha_end2_eq
  sha256_spec_def sha512_spec_def digest_bytes_view md_absorbed_md_pad

lemma sha256_stream:
  assumes "length (wbuf c) = 16" and "cnt_lo c = 0" and "cnt_hi c = 0" and "hash c = IV" and "length IV = 8"
    and "\<forall>d \<in> set ds. length d < 2 ^ 32" and "hlen \<le> 32"
  shows "fst (sha_end1 hlen (foldl (\<lambda>c d. sha256_hash d c) c ds)) = sha256_spec IV hlen (concat ds)"
  using sha256.stream_digest [of c IV ds] assms by (simp add: sha2_digest)

lemma sha512_stream:
  assumes "length (wbuf c) = 16" and "cnt_lo c = 0" and "cnt_hi c = 0" and "hash c = IV" and "length IV = 8"
    and "\<forall>d \<in> set ds. length d < 2 ^ 64" and "hlen \<le> 64"
  shows "fst (sha_end2 hlen (foldl (\<lambda>c d. sha512_hash d c) c ds)) = sha512_spec IV hlen (concat ds)"
  using sha512.stream_digest [of c IV ds] assms by (simp add: sha2_digest)

lemma length_IVs: "length i224 = 8" "length i256 = 8" "length i384 = 8" "length i512 = 8"
  by (simp_all add: i224_def i256_def i384_def i512_def)

text \<open>
  C34. SHA-256 and SHA-224 of a message fed in any pieces shorter than 4 GiB are those of FIPS
  180-4, from any uninitialised context.
\<close>

theorem sha256_stream_correct:
  assumes "length (wbuf cx) = 16" and "\<forall>d \<in> set ds. length d < 2 ^ 32"
  shows "fst (sha256_end (foldl (\<lambda>c d. sha256_hash d c) (sha256_begin cx) ds)) =
      sha256_spec i256 32 (concat ds) \<and>
    fst (sha224_end (foldl (\<lambda>c d. sha256_hash d c) (sha224_begin cx) ds)) =
      sha256_spec i224 28 (concat ds)"
  using assms by (simp add: sha256_end_def sha224_end_def sha256_begin_def sha224_begin_def
      sha256_stream length_IVs)

theorem sha256_stream_correct_witness:
  "fst (sha256_end (foldl (\<lambda>c d. sha256_hash d c)
      (sha256_begin \<lparr>cnt_lo = 7, cnt_hi = 9, hash = [], wbuf = replicate 16 0xdeadbeef\<rparr>) [[0x61], [0x62, 0x63]])) =
    sha256_spec i256 32 [0x61, 0x62, 0x63]"
  using sha256_stream_correct [of "\<lparr>cnt_lo = 7, cnt_hi = 9, hash = [], wbuf = replicate 16 0xdeadbeef\<rparr>"
      "[[0x61], [0x62, 0x63]]"] by simp

text \<open>
  C35. SHA-512 and SHA-384 of a message fed in any pieces shorter than 2^64 bytes (so in any
  pieces that exist) are those of FIPS 180-4.
\<close>

theorem sha512_stream_correct:
  assumes "length (wbuf cx) = 16" and "\<forall>d \<in> set ds. length d < 2 ^ 64"
  shows "fst (sha512_end (foldl (\<lambda>c d. sha512_hash d c) (sha512_begin cx) ds)) =
      sha512_spec i512 64 (concat ds) \<and>
    fst (sha384_end (foldl (\<lambda>c d. sha512_hash d c) (sha384_begin cx) ds)) =
      sha512_spec i384 48 (concat ds)"
  using assms by (simp add: sha512_end_def sha384_end_def sha512_begin_def sha384_begin_def
      sha512_stream length_IVs)

theorem sha512_stream_correct_witness:
  "fst (sha384_end (foldl (\<lambda>c d. sha512_hash d c)
      (sha384_begin \<lparr>cnt_lo = 7, cnt_hi = 9, hash = [], wbuf = replicate 16 0xdeadbeef\<rparr>) [[0x61], [0x62, 0x63]])) =
    sha512_spec i384 48 [0x61, 0x62, 0x63]"
  using sha512_stream_correct [of "\<lparr>cnt_lo = 7, cnt_hi = 9, hash = [], wbuf = replicate 16 0xdeadbeef\<rparr>"
      "[[0x61], [0x62, 0x63]]"] by simp

text \<open>
  C36. The one-call form: \<open>sha2_all\<close> accepts a size in bits or in bytes, computes the digest of
  that size, and answers every other size with \<open>EXIT_FAILURE\<close> and no digest.
\<close>

theorem sha2_all_correct:
  assumes "length (wbuf (ctx256 cx)) = 16" and "length (wbuf (ctx512 cx)) = 16" and "length data < 2 ^ 32"
  shows "sha2_all sz data cx =
    (if sz \<in> {224, 28} then (0, Some (sha256_spec i224 28 data))
     else if sz \<in> {256, 32} then (0, Some (sha256_spec i256 32 data))
     else if sz \<in> {384, 48} then (0, Some (sha512_spec i384 48 data))
     else if sz \<in> {512, 64} then (0, Some (sha512_spec i512 64 data))
     else (1, None))"
proof -
  have "fst (sha_end1 n (sha256_hash data ((ctx256 cx)\<lparr>cnt_lo := 0, cnt_hi := 0, hash := IV\<rparr>))) =
      sha256_spec IV n data" if "length IV = 8" "n \<le> 32" for n IV
    using sha256_stream [of "(ctx256 cx)\<lparr>cnt_lo := 0, cnt_hi := 0, hash := IV\<rparr>" IV "[data]" n] assms that by simp
  moreover have "fst (sha_end2 n (sha512_hash data ((ctx512 cx)\<lparr>cnt_lo := 0, cnt_hi := 0, hash := IV\<rparr>))) =
      sha512_spec IV n data" if "length IV = 8" "n \<le> 64" for n IV
    using sha512_stream [of "(ctx512 cx)\<lparr>cnt_lo := 0, cnt_hi := 0, hash := IV\<rparr>" IV "[data]" n] assms that by simp
  ultimately show ?thesis
    by (simp add: sha2_all_def sha2_begin_def sha2_hash_def sha2_end_def case_prod_unfold Let_def length_IVs)
qed

theorem sha2_all_correct_witness:
  "sha2_all 384 [0x61, 0x62, 0x63] \<lparr>ctx256 = \<lparr>cnt_lo = 0, cnt_hi = 0, hash = [], wbuf = replicate 16 7\<rparr>,
      ctx512 = \<lparr>cnt_lo = 1, cnt_hi = 2, hash = [], wbuf = replicate 16 8\<rparr>, sha2_len = 99\<rparr> =
    (0, Some (sha512_spec i384 48 [0x61, 0x62, 0x63]))"
  using sha2_all_correct [of "\<lparr>ctx256 = \<lparr>cnt_lo = 0, cnt_hi = 0, hash = [], wbuf = replicate 16 7\<rparr>,
      ctx512 = \<lparr>cnt_lo = 1, cnt_hi = 2, hash = [], wbuf = replicate 16 8\<rparr>, sha2_len = 99\<rparr>"
      "[0x61, 0x62, 0x63]" 384] by simp

text \<open>
  The standard's constants are the first bits of the fractional parts of roots of the first
  primes: \<open>frac_root e w p k\<close> says that \<open>k\<close> is the first \<open>w\<close> bits for the \<open>e\<close>-th root of \<open>p\<close>.
\<close>

definition primes_below :: "int \<Rightarrow> int list" where
  "primes_below n = filter (\<lambda>p. list_all (\<lambda>d. d * d \<le> p \<longrightarrow> p mod d \<noteq> 0) [2..20]) [2..n - 1]"

definition frac_root :: "nat \<Rightarrow> nat \<Rightarrow> int \<Rightarrow> int \<Rightarrow> bool" where
  "frac_root e w p k \<longleftrightarrow> 0 \<le> k \<and> k < 2 ^ w \<and>
     list_ex (\<lambda>a. (a * 2 ^ w + k) ^ e \<le> p * 2 ^ (w * e) \<and> p * 2 ^ (w * e) < (a * 2 ^ w + k + 1) ^ e) [0..20]"

text \<open>
  The tables of the code are the constants of FIPS 180-4: the round constants come from the
  cube roots of the first 64 and 80 primes, the initial values from the square roots of the
  first eight, of the ninth to sixteenth for SHA-384, and SHA-224 takes the low halves of these.
\<close>

theorem sha2_constants:
  "list_all2 (frac_root 3 32) (primes_below 312) (map uint k256) \<and>
   list_all2 (frac_root 3 64) (primes_below 410) (map uint k512) \<and>
   list_all2 (frac_root 2 32) (take 8 (primes_below 60)) (map uint i256) \<and>
   list_all2 (frac_root 2 64) (take 8 (primes_below 60)) (map uint i512) \<and>
   list_all2 (frac_root 2 64) (drop 8 (primes_below 54)) (map uint i384) \<and>
   i224 = map ucast i384"
proof (intro conjI)
  show "list_all2 (frac_root 3 32) (primes_below 312) (map uint k256)" by code_simp
  show "list_all2 (frac_root 3 64) (primes_below 410) (map uint k512)" by code_simp
  show "list_all2 (frac_root 2 32) (take 8 (primes_below 60)) (map uint i256)" by code_simp
  show "list_all2 (frac_root 2 64) (take 8 (primes_below 60)) (map uint i512)" by code_simp
  show "list_all2 (frac_root 2 64) (drop 8 (primes_below 54)) (map uint i384)" by code_simp
  show "i224 = map ucast i384" by (simp add: i224_def i384_def)
qed

end
