(* ===== verification/Zrtp_Hash.thy ===== *)
theory Zrtp_Hash
  imports Hmac Sha2 Zrtp_Config
begin

text \<open>
  The hash and HMAC functions of ZRTP: \<open>zrtp/crypto/sha256.cpp\<close>, \<open>sha384.cpp\<close>, \<open>hmac256.cpp\<close> and
  \<open>hmac384.cpp\<close> over the SHA-2 code, and the table of functions that \<open>setNegotiatedHash\<close> fills
  (\<open>zrtp/ZRtp.cpp\<close>).  Skein is not modelled: it is a parameter.  Shown: every form computes the hash of
  FIPS 180-4 and the HMAC of RFC 2104 of the concatenated pieces.
\<close>

section \<open>SHA-256 and SHA-384\<close>

text \<open>A local context is uninitialised memory, an argument here.\<close>

definition sha256 :: "sha256_ctx \<Rightarrow> u8 list \<Rightarrow> u8 list" where
  "sha256 junk data = fst (sha256_end (sha256_hash data (sha256_begin junk)))"

definition sha256_list :: "sha256_ctx \<Rightarrow> u8 list list \<Rightarrow> u8 list" where
  "sha256_list junk dataChunks = fst (sha256_end (foldl (\<lambda>c d. sha256_hash d c) (sha256_begin junk) dataChunks))"

definition sha384 :: "sha512_ctx \<Rightarrow> u8 list \<Rightarrow> u8 list" where
  "sha384 junk data = fst (sha384_end (sha512_hash data (sha384_begin junk)))"

definition sha384_list :: "sha512_ctx \<Rightarrow> u8 list list \<Rightarrow> u8 list" where
  "sha384_list junk dataChunks = fst (sha384_end (foldl (\<lambda>c d. sha512_hash d c) (sha384_begin junk) dataChunks))"

text \<open>The functions over a context that the caller keeps; a null context is left alone, or followed
  (\<open>None\<close>: undefined) by the functions that feed it.\<close>

definition initializeSha256Context :: "sha256_ctx option \<Rightarrow> sha256_ctx option" where
  "initializeSha256Context c = map_option sha256_begin c"

definition finalizeSha256Context :: "sha256_ctx option \<Rightarrow> u8 list option \<times> sha256_ctx option" where
  "finalizeSha256Context c =
    (case c of None \<Rightarrow> (None, None) | Some h \<Rightarrow> (let (d, h) = sha256_end h in (Some d, Some h)))"

definition sha256Ctx :: "sha256_ctx option \<Rightarrow> u8 list \<Rightarrow> sha256_ctx option" where
  "sha256Ctx c data = map_option (sha256_hash data) c"

definition sha256Ctx_list :: "sha256_ctx option \<Rightarrow> u8 list list \<Rightarrow> sha256_ctx option" where
  "sha256Ctx_list c dataChunks = map_option (\<lambda>h. foldl (\<lambda>h d. sha256_hash d h) h dataChunks) c"

definition initializeSha384Context :: "sha512_ctx option \<Rightarrow> sha512_ctx option" where
  "initializeSha384Context c = map_option sha384_begin c"

definition finalizeSha384Context :: "sha512_ctx option \<Rightarrow> u8 list option \<times> sha512_ctx option" where
  "finalizeSha384Context c =
    (case c of None \<Rightarrow> (None, None) | Some h \<Rightarrow> (let (d, h) = sha384_end h in (Some d, Some h)))"

definition sha384Ctx :: "sha512_ctx option \<Rightarrow> u8 list \<Rightarrow> sha512_ctx option" where
  "sha384Ctx c data = map_option (sha512_hash data) c"

definition sha384Ctx_list :: "sha512_ctx option \<Rightarrow> u8 list list \<Rightarrow> sha512_ctx option" where
  "sha384Ctx_list c dataChunks = map_option (\<lambda>h. foldl (\<lambda>h d. sha512_hash d h) h dataChunks) c"

section \<open>HMAC-SHA256\<close>

record hmacSha256Context =
  ctx_256 :: sha256_ctx
  innerCtx_256 :: sha256_ctx
  outerCtx_256 :: sha256_ctx

definition zero_sha256 :: sha256_ctx where
  "zero_sha256 = \<lparr>cnt_lo = 0, cnt_hi = 0, hash = replicate 8 0, wbuf = replicate 16 0\<rparr>"

definition hmac256_localKey :: "u8 list \<Rightarrow> u8 list" where
  "hmac256_localKey key =
    (if length key > 64 then fst (sha256_end (sha256_hash key (sha256_begin zero_sha256))) @ replicate (64 - 32) 0
     else key @ replicate (64 - length key) 0)"

text \<open>All callers pass a key; for a null pointer the function does nothing.\<close>

definition hmacSha256Init :: "u8 list option \<Rightarrow> hmacSha256Context \<Rightarrow> hmacSha256Context" where
  "hmacSha256Init key c =
    (case key of
       None \<Rightarrow> c
     | Some k \<Rightarrow>
         (let inner = sha256_hash (map (\<lambda>b. b XOR 0x36) (hmac256_localKey k)) (sha256_begin zero_sha256);
              outer = sha256_hash (map (\<lambda>b. b XOR 0x5c) (hmac256_localKey k)) (sha256_begin zero_sha256)
          in \<lparr>ctx_256 = inner, innerCtx_256 = inner, outerCtx_256 = outer\<rparr>))"

definition hmacSha256Reset :: "hmacSha256Context \<Rightarrow> hmacSha256Context" where
  "hmacSha256Reset c = c\<lparr>ctx_256 := innerCtx_256 c\<rparr>"

definition hmacSha256Update :: "u8 list \<Rightarrow> hmacSha256Context \<Rightarrow> hmacSha256Context" where
  "hmacSha256Update data c = c\<lparr>ctx_256 := sha256_hash data (ctx_256 c)\<rparr>"

definition hmacSha256Final :: "hmacSha256Context \<Rightarrow> u8 list \<times> hmacSha256Context" where
  "hmacSha256Final c =
    (let (tmpDigest, _) = sha256_end (ctx_256 c);
         (mac, w) = sha256_end (sha256_hash tmpDigest (outerCtx_256 c))
     in (mac, c\<lparr>ctx_256 := w\<rparr>))"

definition hmac_sha256 :: "hmacSha256Context \<Rightarrow> u8 list \<Rightarrow> u8 list \<Rightarrow> u8 list \<times> nat" where
  "hmac_sha256 junk key data = (fst (hmacSha256Final (hmacSha256Update data (hmacSha256Init (Some key) junk))), 32)"

definition hmac_sha256_list :: "hmacSha256Context \<Rightarrow> u8 list \<Rightarrow> u8 list list \<Rightarrow> u8 list \<times> nat" where
  "hmac_sha256_list junk key dataChunks =
    (fst (hmacSha256Final (foldl (\<lambda>c d. hmacSha256Update d c) (hmacSha256Init (Some key) junk) dataChunks)), 32)"

definition hmacSha256Ctx :: "u8 list \<Rightarrow> hmacSha256Context \<Rightarrow> (u8 list \<times> nat) \<times> hmacSha256Context" where
  "hmacSha256Ctx data c =
    (let (mac, c) = hmacSha256Final (hmacSha256Update data (hmacSha256Reset c)) in ((mac, 32), c))"

definition hmacSha256Ctx_list :: "u8 list list \<Rightarrow> hmacSha256Context \<Rightarrow> (u8 list \<times> nat) \<times> hmacSha256Context" where
  "hmacSha256Ctx_list data c =
    (let (mac, c) = hmacSha256Final (foldl (\<lambda>c d. hmacSha256Update d c) (hmacSha256Reset c) data) in ((mac, 32), c))"

section \<open>HMAC-SHA384\<close>

record hmacSha384Context =
  ctx_384 :: sha512_ctx
  innerCtx_384 :: sha512_ctx
  outerCtx_384 :: sha512_ctx

definition zero_sha384 :: sha512_ctx where
  "zero_sha384 = \<lparr>cnt_lo = 0, cnt_hi = 0, hash = replicate 8 0, wbuf = replicate 16 0\<rparr>"

definition hmac384_localKey :: "u8 list \<Rightarrow> u8 list" where
  "hmac384_localKey key =
    (if length key > 128 then fst (sha384_end (sha512_hash key (sha384_begin zero_sha384))) @ replicate (128 - 48) 0
     else key @ replicate (128 - length key) 0)"

definition hmacSha384Init :: "u8 list option \<Rightarrow> hmacSha384Context \<Rightarrow> hmacSha384Context" where
  "hmacSha384Init key c =
    (case key of
       None \<Rightarrow> c
     | Some k \<Rightarrow>
         (let inner = sha512_hash (map (\<lambda>b. b XOR 0x36) (hmac384_localKey k)) (sha384_begin zero_sha384);
              outer = sha512_hash (map (\<lambda>b. b XOR 0x5c) (hmac384_localKey k)) (sha384_begin zero_sha384)
          in \<lparr>ctx_384 = inner, innerCtx_384 = inner, outerCtx_384 = outer\<rparr>))"

definition hmacSha384Reset :: "hmacSha384Context \<Rightarrow> hmacSha384Context" where
  "hmacSha384Reset c = c\<lparr>ctx_384 := innerCtx_384 c\<rparr>"

definition hmacSha384Update :: "u8 list \<Rightarrow> hmacSha384Context \<Rightarrow> hmacSha384Context" where
  "hmacSha384Update data c = c\<lparr>ctx_384 := sha512_hash data (ctx_384 c)\<rparr>"

definition hmacSha384Final :: "hmacSha384Context \<Rightarrow> u8 list \<times> hmacSha384Context" where
  "hmacSha384Final c =
    (let (tmpDigest, _) = sha384_end (ctx_384 c);
         (mac, w) = sha384_end (sha512_hash tmpDigest (outerCtx_384 c))
     in (mac, c\<lparr>ctx_384 := w\<rparr>))"

definition hmac_sha384 :: "hmacSha384Context \<Rightarrow> u8 list \<Rightarrow> u8 list \<Rightarrow> u8 list \<times> nat" where
  "hmac_sha384 junk key data = (fst (hmacSha384Final (hmacSha384Update data (hmacSha384Init (Some key) junk))), 48)"

definition hmac_sha384_list :: "hmacSha384Context \<Rightarrow> u8 list \<Rightarrow> u8 list list \<Rightarrow> u8 list \<times> nat" where
  "hmac_sha384_list junk key dataChunks =
    (fst (hmacSha384Final (foldl (\<lambda>c d. hmacSha384Update d c) (hmacSha384Init (Some key) junk) dataChunks)), 48)"

definition hmacSha384Ctx :: "u8 list \<Rightarrow> hmacSha384Context \<Rightarrow> (u8 list \<times> nat) \<times> hmacSha384Context" where
  "hmacSha384Ctx data c =
    (let (mac, c) = hmacSha384Final (hmacSha384Update data (hmacSha384Reset c)) in ((mac, 48), c))"

definition hmacSha384Ctx_list :: "u8 list list \<Rightarrow> hmacSha384Context \<Rightarrow> (u8 list \<times> nat) \<times> hmacSha384Context" where
  "hmacSha384Ctx_list data c =
    (let (mac, c) = hmacSha384Final (foldl (\<lambda>c d. hmacSha384Update d c) (hmacSha384Reset c) data) in ((mac, 48), c))"

section \<open>Correctness\<close>

abbreviation (input) "SHA256 \<equiv> sha256_spec i256 32"
abbreviation (input) "SHA384 \<equiv> sha512_spec i384 48"

lemma length_sha256_spec: "length (SHA256 m) = 32"
  by (simp add: sha256_spec_def length_be_view md_absorbed_md_pad length_IVs)

lemma length_sha384_spec: "length (SHA384 m) = 48"
  by (simp add: sha512_spec_def length_be_view md_absorbed_md_pad length_IVs)

lemma sha256_pieces:
  "length (wbuf c) = 16 \<Longrightarrow> list_all (\<lambda>d. length d < 2 ^ 32) ds \<Longrightarrow>
    fst (sha256_end (foldl (\<lambda>c d. sha256_hash d c) (sha256_begin c) ds)) = SHA256 (concat ds)"
  by (simp add: sha256_end_def sha256_begin_def sha256_stream length_IVs list_all_iff)

lemma sha384_pieces:
  "length (wbuf c) = 16 \<Longrightarrow> list_all (\<lambda>d. length d < 2 ^ 64) ds \<Longrightarrow>
    fst (sha384_end (foldl (\<lambda>c d. sha512_hash d c) (sha384_begin c) ds)) = SHA384 (concat ds)"
  by (simp add: sha384_end_def sha384_begin_def sha512_stream length_IVs list_all_iff)

interpretation sha256_hmac: streaming_hash sha256_begin sha256_hash "\<lambda>c. fst (sha256_end c)"
  "\<lambda>c. length (wbuf c) = 16" "SHA256" "2 ^ 32" 64 32
  by unfold_locales (simp_all add: sha256_pieces length_sha256_spec)

interpretation sha384_hmac: streaming_hash sha384_begin sha512_hash "\<lambda>c. fst (sha384_end c)"
  "\<lambda>c. length (wbuf c) = 16" "SHA384" "2 ^ 64" 128 48
  by unfold_locales (simp_all add: sha384_pieces length_sha384_spec)

lemma zero_sha2_good: "length (wbuf zero_sha256) = 16" "length (wbuf zero_sha384) = 16"
  by (simp_all add: zero_sha256_def zero_sha384_def)

lemma hmac256_key: "length key < 2 ^ 32 \<Longrightarrow> hmac256_localKey key = hmac_block 64 SHA256 key"
  using sha256_hmac.stream1[OF zero_sha2_good(1), of key]
  by (simp add: hmac256_localKey_def hmac_block_def Let_def length_sha256_spec)

lemma hmac384_key: "length key < 2 ^ 64 \<Longrightarrow> hmac384_localKey key = hmac_block 128 SHA384 key"
  using sha384_hmac.stream1[OF zero_sha2_good(2), of key]
  by (simp add: hmac384_localKey_def hmac_block_def Let_def length_sha384_spec)

lemma hmac256_updates:
  "foldl (\<lambda>c d. hmacSha256Update d c) c ds = c\<lparr>ctx_256 := foldl (\<lambda>c d. sha256_hash d c) (ctx_256 c) ds\<rparr>"
  by (induction ds arbitrary: c) (simp_all add: hmacSha256Update_def)

lemma hmac384_updates:
  "foldl (\<lambda>c d. hmacSha384Update d c) c ds = c\<lparr>ctx_384 := foldl (\<lambda>c d. sha512_hash d c) (ctx_384 c) ds\<rparr>"
  by (induction ds arbitrary: c) (simp_all add: hmacSha384Update_def)

lemma hmac_sha256_list:
  "length key < 2 ^ 32 \<Longrightarrow> list_all (\<lambda>d. length d < 2 ^ 32) ds \<Longrightarrow>
    hmac_sha256_list junk key ds = (hmac_spec 64 SHA256 key (concat ds), 32)"
  using sha256_hmac.nested[OF zero_sha2_good(1) zero_sha2_good(1), of ds key]
  by (simp add: hmac_sha256_list_def hmacSha256Final_def hmac256_updates hmacSha256Init_def Let_def split_beta
      hmac256_key)

lemma hmac_sha384_list:
  "length key < 2 ^ 64 \<Longrightarrow> list_all (\<lambda>d. length d < 2 ^ 64) ds \<Longrightarrow>
    hmac_sha384_list junk key ds = (hmac_spec 128 SHA384 key (concat ds), 48)"
  using sha384_hmac.nested[OF zero_sha2_good(2) zero_sha2_good(2), of ds key]
  by (simp add: hmac_sha384_list_def hmacSha384Final_def hmac384_updates hmacSha384Init_def Let_def split_beta
      hmac384_key)

lemma hmac_sha2_one:
  "hmac_sha256 junk key d = hmac_sha256_list junk key [d]"
  "hmac_sha384 junk' key d = hmac_sha384_list junk' key [d]"
  by (simp_all add: hmac_sha256_def hmac_sha256_list_def hmac_sha384_def hmac_sha384_list_def)

text \<open>A context prepared with a key gives the MAC of every message it is used for, as it is reset first.\<close>

lemma hmac_sha2_ctx:
  assumes "innerCtx_256 c = innerCtx_256 (hmacSha256Init (Some key) c0)" "outerCtx_256 c = outerCtx_256 (hmacSha256Init (Some key) c0)"
  shows "fst (hmacSha256Ctx_list ds c) = hmac_sha256_list c0 key ds"
    and "innerCtx_256 (snd (hmacSha256Ctx_list ds c)) = innerCtx_256 c" "outerCtx_256 (snd (hmacSha256Ctx_list ds c)) = outerCtx_256 c"
  using assms by (simp_all add: hmacSha256Ctx_list_def hmac_sha256_list_def hmacSha256Final_def hmac256_updates
      hmacSha256Reset_def hmacSha256Init_def Let_def split_beta)

lemma hmac_sha2_ctx384:
  assumes "innerCtx_384 c = innerCtx_384 (hmacSha384Init (Some key) c0)" "outerCtx_384 c = outerCtx_384 (hmacSha384Init (Some key) c0)"
  shows "fst (hmacSha384Ctx_list ds c) = hmac_sha384_list c0 key ds"
    and "innerCtx_384 (snd (hmacSha384Ctx_list ds c)) = innerCtx_384 c" "outerCtx_384 (snd (hmacSha384Ctx_list ds c)) = outerCtx_384 c"
  using assms by (simp_all add: hmacSha384Ctx_list_def hmac_sha384_list_def hmacSha384Final_def hmac384_updates
      hmacSha384Reset_def hmacSha384Init_def Let_def split_beta)

text \<open>A context used for one message after another, each given in one piece or as a list of pieces.\<close>

primrec hmac256_messages :: "hmac_input list \<Rightarrow> hmacSha256Context \<Rightarrow> (u8 list \<times> nat) list" where
  "hmac256_messages [] c = []"
| "hmac256_messages (m # ms) c =
    (let (mac, c) = (case m of OnePiece d \<Rightarrow> hmacSha256Ctx d c | Pieces ds \<Rightarrow> hmacSha256Ctx_list ds c)
     in mac # hmac256_messages ms c)"

primrec hmac384_messages :: "hmac_input list \<Rightarrow> hmacSha384Context \<Rightarrow> (u8 list \<times> nat) list" where
  "hmac384_messages [] c = []"
| "hmac384_messages (m # ms) c =
    (let (mac, c) = (case m of OnePiece d \<Rightarrow> hmacSha384Ctx d c | Pieces ds \<Rightarrow> hmacSha384Ctx_list ds c)
     in mac # hmac384_messages ms c)"

lemma ctx_one:
  "hmacSha256Ctx d c = hmacSha256Ctx_list [d] c" "hmacSha384Ctx d c' = hmacSha384Ctx_list [d] c'"
  by (simp_all add: hmacSha256Ctx_def hmacSha256Ctx_list_def hmacSha384Ctx_def hmacSha384Ctx_list_def)

lemma hmac256_messages_list:
  "innerCtx_256 c = innerCtx_256 (hmacSha256Init (Some key) c0) \<Longrightarrow> outerCtx_256 c = outerCtx_256 (hmacSha256Init (Some key) c0) \<Longrightarrow>
    hmac256_messages ms c = map (\<lambda>m. hmac_sha256_list c0 key (input_pieces m)) ms"
proof (induction ms arbitrary: c)
  case (Cons m ms)
  have "(case m of OnePiece d \<Rightarrow> hmacSha256Ctx d c | Pieces ds \<Rightarrow> hmacSha256Ctx_list ds c) = hmacSha256Ctx_list (input_pieces m) c"
    by (cases m) (simp_all add: ctx_one)
  then show ?case using Cons hmac_sha2_ctx[OF Cons.prems, of "input_pieces m"] by (simp add: split_beta)
qed simp

lemma hmac384_messages_list:
  "innerCtx_384 c = innerCtx_384 (hmacSha384Init (Some key) c0) \<Longrightarrow> outerCtx_384 c = outerCtx_384 (hmacSha384Init (Some key) c0) \<Longrightarrow>
    hmac384_messages ms c = map (\<lambda>m. hmac_sha384_list c0 key (input_pieces m)) ms"
proof (induction ms arbitrary: c)
  case (Cons m ms)
  have "(case m of OnePiece d \<Rightarrow> hmacSha384Ctx d c | Pieces ds \<Rightarrow> hmacSha384Ctx_list ds c) = hmacSha384Ctx_list (input_pieces m) c"
    by (cases m) (simp_all add: ctx_one)
  then show ?case using Cons hmac_sha2_ctx384[OF Cons.prems, of "input_pieces m"] by (simp add: split_beta)
qed simp

lemma small_pieces: "list_all (\<lambda>d. length d < 2 ^ 32) ds \<Longrightarrow> list_all (\<lambda>d. length d < 2 ^ 64) ds"
  by (auto simp: list_all_iff)

text \<open>C21. SHA-256 and SHA-384 of one piece and of a list of pieces are the hash of FIPS 180-4 of the bytes, whatever
  the memory of the local context held.  Their one-call HMACs, of one piece and of a list, are the HMAC of RFC
  2104; so is what a context prepared with a key gives for each of any number of messages, one after another.\<close>

theorem zrtp_hmac_correct:
  assumes "length (wbuf j) = 16" "length (wbuf j') = 16" "length key < 2 ^ 32" "length d < 2 ^ 32"
    "list_all (\<lambda>d. length d < 2 ^ 32) ds" "\<forall>m \<in> set ms. list_all (\<lambda>d. length d < 2 ^ 32) (input_pieces m)"
  shows "sha256 j d = SHA256 d \<and> sha256_list j ds = SHA256 (concat ds) \<and>
    sha384 j' d = SHA384 d \<and> sha384_list j' ds = SHA384 (concat ds) \<and>
    hmac_sha256 c key d = (hmac_spec 64 SHA256 key d, 32) \<and>
    hmac_sha256_list c key ds = (hmac_spec 64 SHA256 key (concat ds), 32) \<and>
    hmac_sha384 c' key d = (hmac_spec 128 SHA384 key d, 48) \<and>
    hmac_sha384_list c' key ds = (hmac_spec 128 SHA384 key (concat ds), 48) \<and>
    hmac256_messages ms (hmacSha256Init (Some key) c) = map (\<lambda>m. (hmac_spec 64 SHA256 key (concat (input_pieces m)), 32)) ms \<and>
    hmac384_messages ms (hmacSha384Init (Some key) c') = map (\<lambda>m. (hmac_spec 128 SHA384 key (concat (input_pieces m)), 48)) ms"
proof -
  have one: "list_all (\<lambda>d. length d < 2 ^ 32) [d]" using assms(4) by simp
  have k: "length key < 2 ^ 64" using assms(3) by simp
  have "sha256 j d = SHA256 d" "sha384 j' d = SHA384 d"
    using sha256_pieces[OF assms(1) one] sha384_pieces[OF assms(2) small_pieces[OF one]] by (simp_all add: sha256_def sha384_def)
  moreover have "sha256_list j ds = SHA256 (concat ds)" "sha384_list j' ds = SHA384 (concat ds)"
    using sha256_pieces[OF assms(1,5)] sha384_pieces[OF assms(2) small_pieces[OF assms(5)]]
    by (simp_all add: sha256_list_def sha384_list_def)
  moreover have "hmac_sha256 c key d = (hmac_spec 64 SHA256 key d, 32)" "hmac_sha384 c' key d = (hmac_spec 128 SHA384 key d, 48)"
    using hmac_sha256_list[OF assms(3) one] hmac_sha384_list[OF k small_pieces[OF one]] by (simp_all add: hmac_sha2_one)
  moreover have "hmac256_messages ms (hmacSha256Init (Some key) c) = map (\<lambda>m. (hmac_spec 64 SHA256 key (concat (input_pieces m)), 32)) ms"
    using hmac256_messages_list[of "hmacSha256Init (Some key) c" key c ms] hmac_sha256_list[OF assms(3)] assms(6) by simp
  moreover have "hmac384_messages ms (hmacSha384Init (Some key) c') = map (\<lambda>m. (hmac_spec 128 SHA384 key (concat (input_pieces m)), 48)) ms"
    using hmac384_messages_list[of "hmacSha384Init (Some key) c'" key c' ms] hmac_sha384_list[OF k small_pieces] assms(6) by simp
  ultimately show ?thesis
    using hmac_sha256_list[OF assms(3,5)] hmac_sha384_list[OF k small_pieces[OF assms(5)]] by simp
qed

theorem zrtp_hmac_correct_witness:
  "hmac384_messages [OnePiece [0x48], Pieces [[0x48], [0x69]], OnePiece [0x48]]
      (hmacSha384Init (Some (replicate 20 0x0b)) \<lparr>ctx_384 = zero_sha384, innerCtx_384 = zero_sha384, outerCtx_384 = zero_sha384\<rparr>) =
    (let mac = \<lambda>m. (hmac_spec 128 SHA384 (replicate 20 0x0b) m, 48) in [mac [0x48], mac [0x48, 0x69], mac [0x48]])"
  using zrtp_hmac_correct[OF zero_sha2_good(1,2), of "replicate 20 0x0b" "[]" "[]"
      "[OnePiece [0x48], Pieces [[0x48], [0x69]], OnePiece [0x48]]"] by simp

section \<open>The negotiated hash\<close>

text \<open>The memory for the message hash, a union in the code; the Skein context is what was fed to it.\<close>

record hash_union =
  sha256_mem :: sha256_ctx
  sha384_mem :: sha512_ctx
  skein_mem :: "u8 list"

text \<open>The parameter: the Skein hash and MAC, for the two sizes.\<close>

record skein =
  skein256 :: "u8 list \<Rightarrow> u8 list"
  skein384 :: "u8 list \<Rightarrow> u8 list"
  macSkein256 :: "u8 list \<Rightarrow> u8 list \<Rightarrow> u8 list"
  macSkein384 :: "u8 list \<Rightarrow> u8 list \<Rightarrow> u8 list"

text \<open>The function pointers.  What local contexts of the functions hold at first makes no difference
  (\<open>zrtp_hmac_correct\<close>) and is 0 here; the length of a MAC is the second result of the HMAC functions.\<close>

record hash_suite =
  hashLength :: nat
  hashListFunction :: "u8 list list \<Rightarrow> u8 list"
  hmacFunction :: "u8 list \<Rightarrow> u8 list \<Rightarrow> u8 list"
  hmacListFunction :: "u8 list \<Rightarrow> u8 list list \<Rightarrow> u8 list"
  createHashCtx :: "hash_union \<Rightarrow> hash_union"
  hashCtxFunction :: "u8 list \<Rightarrow> hash_union \<Rightarrow> hash_union"
  closeHashCtx :: "hash_union \<Rightarrow> u8 list"

abbreviation (input) "zero_hmac256 \<equiv> \<lparr>ctx_256 = zero_sha256, innerCtx_256 = zero_sha256, outerCtx_256 = zero_sha256\<rparr>"
abbreviation (input) "zero_hmac384 \<equiv> \<lparr>ctx_384 = zero_sha384, innerCtx_384 = zero_sha384, outerCtx_384 = zero_sha384\<rparr>"

definition sha256_suite :: hash_suite where
  "sha256_suite =
    \<lparr>hashLength = 32, hashListFunction = sha256_list zero_sha256,
     hmacFunction = (\<lambda>k d. fst (hmac_sha256 zero_hmac256 k d)),
     hmacListFunction = (\<lambda>k ds. fst (hmac_sha256_list zero_hmac256 k ds)),
     createHashCtx = (\<lambda>u. u\<lparr>sha256_mem := the (initializeSha256Context (Some (sha256_mem u)))\<rparr>),
     hashCtxFunction = (\<lambda>d u. u\<lparr>sha256_mem := the (sha256Ctx (Some (sha256_mem u)) d)\<rparr>),
     closeHashCtx = (\<lambda>u. the (fst (finalizeSha256Context (Some (sha256_mem u)))))\<rparr>"

definition sha384_suite :: hash_suite where
  "sha384_suite =
    \<lparr>hashLength = 48, hashListFunction = sha384_list zero_sha384,
     hmacFunction = (\<lambda>k d. fst (hmac_sha384 zero_hmac384 k d)),
     hmacListFunction = (\<lambda>k ds. fst (hmac_sha384_list zero_hmac384 k ds)),
     createHashCtx = (\<lambda>u. u\<lparr>sha384_mem := the (initializeSha384Context (Some (sha384_mem u)))\<rparr>),
     hashCtxFunction = (\<lambda>d u. u\<lparr>sha384_mem := the (sha384Ctx (Some (sha384_mem u)) d)\<rparr>),
     closeHashCtx = (\<lambda>u. the (fst (finalizeSha384Context (Some (sha384_mem u)))))\<rparr>"

definition skein_suite :: "nat \<Rightarrow> (u8 list \<Rightarrow> u8 list) \<Rightarrow> (u8 list \<Rightarrow> u8 list \<Rightarrow> u8 list) \<Rightarrow> hash_suite" where
  "skein_suite n h mac =
    \<lparr>hashLength = n, hashListFunction = (\<lambda>ds. h (concat ds)), hmacFunction = mac,
     hmacListFunction = (\<lambda>k ds. mac k (concat ds)), createHashCtx = (\<lambda>u. u\<lparr>skein_mem := []\<rparr>),
     hashCtxFunction = (\<lambda>d u. u\<lparr>skein_mem := skein_mem u @ d\<rparr>), closeHashCtx = (\<lambda>u. h (skein_mem u))\<rparr>"

text \<open>An algorithm that the enumeration does not have leaves the pointers as they are.\<close>

definition setNegotiatedHash :: "skein \<Rightarrow> AlgorithmEnum \<Rightarrow> hash_suite \<Rightarrow> hash_suite" where
  "setNegotiatedHash K algo old =
    (let ord = getOrdinal algo zrtpHashes in
     if ord = 0 then sha256_suite
     else if ord = 1 then sha384_suite
     else if ord = 2 then skein_suite 32 (skein256 K) (macSkein256 K)
     else if ord = 3 then skein_suite 48 (skein384 K) (macSkein384 K)
     else old)"

text \<open>What the users of the pointers rely on.\<close>

locale negotiated_hash =
  fixes S :: hash_suite and good :: "hash_union \<Rightarrow> bool" and holds :: "u8 list \<Rightarrow> hash_union \<Rightarrow> bool"
    and H :: "u8 list \<Rightarrow> u8 list" and MAC :: "u8 list \<Rightarrow> u8 list \<Rightarrow> u8 list"
  assumes create: "good u \<Longrightarrow> holds [] (createHashCtx S u)"
    and feed: "holds m u \<Longrightarrow> length d < 2 ^ 31 \<Longrightarrow> holds (m @ d) (hashCtxFunction S d u)"
    and close: "holds m u \<Longrightarrow> closeHashCtx S u = H m"
    and holds_good: "holds m u \<Longrightarrow> good u"
    and hash_list: "list_all (\<lambda>d. length d < 2 ^ 31) ds \<Longrightarrow> hashListFunction S ds = H (concat ds)"
    and hmac: "length k < 2 ^ 31 \<Longrightarrow> length d < 2 ^ 31 \<Longrightarrow> hmacFunction S k d = MAC k d"
    and hmac_list: "length k < 2 ^ 31 \<Longrightarrow> list_all (\<lambda>d. length d < 2 ^ 31) ds \<Longrightarrow> hmacListFunction S k ds = MAC k (concat ds)"
    and H_length: "length (H m) = hashLength S"
    and MAC_length: "length (MAC k m) = hashLength S"
    and length_bound: "hashLength S = 32 \<or> hashLength S = 48"
begin

lemma feed_all:
  "holds m u \<Longrightarrow> list_all (\<lambda>d. length d < 2 ^ 31) ds \<Longrightarrow> holds (m @ concat ds) (foldl (\<lambda>u d. hashCtxFunction S d u) u ds)"
proof (induction ds arbitrary: m u)
  case (Cons d ds)
  then show ?case using Cons.IH[OF feed[OF Cons.prems(1), of d]] by simp
qed simp

text \<open>Two runs over the same pieces, each on its own memory, end with the same digest.\<close>

lemma same_digest:
  assumes "good u" "good u'" "list_all (\<lambda>d. length d < 2 ^ 31) ds"
  shows "closeHashCtx S (foldl (\<lambda>u d. hashCtxFunction S d u) (createHashCtx S u) ds) = H (concat ds)"
    and "closeHashCtx S (foldl (\<lambda>u d. hashCtxFunction S d u) (createHashCtx S u') ds) = H (concat ds)"
  using close feed_all[OF create[OF assms(1)] assms(3)] feed_all[OF create[OF assms(2)] assms(3)] by simp_all

end

text \<open>The contexts of the hash functions keep the size of their buffers.\<close>

definition good_union :: "hash_union \<Rightarrow> bool" where
  "good_union u \<longleftrightarrow> length (wbuf (sha256_mem u)) = 16 \<and> length (wbuf (sha384_mem u)) = 16"

definition holds256 :: "u8 list \<Rightarrow> hash_union \<Rightarrow> bool" where
  "holds256 m u \<longleftrightarrow> md_absorbed 64 (sha2_compress fips_256 64) i256 m (sha256_mem u) \<and> length (wbuf (sha384_mem u)) = 16"

definition holds384 :: "u8 list \<Rightarrow> hash_union \<Rightarrow> bool" where
  "holds384 m u \<longleftrightarrow> md_absorbed 128 (sha2_compress fips_512 80) i384 m (sha384_mem u) \<and> length (wbuf (sha256_mem u)) = 16"

definition holds_skein :: "u8 list \<Rightarrow> hash_union \<Rightarrow> bool" where
  "holds_skein m u \<longleftrightarrow> skein_mem u = m \<and> good_union u"

lemma end256: "md_absorbed 64 (sha2_compress fips_256 64) i256 m c \<Longrightarrow> fst (sha256_end c) = SHA256 m"
  using sha256.finish_digest[of i256 m c] by (simp add: sha256_end_def sha2_digest length_IVs)

lemma end384: "md_absorbed 128 (sha2_compress fips_512 80) i384 m c \<Longrightarrow> fst (sha384_end c) = SHA384 m"
  using sha512.finish_digest[of i384 m c] by (simp add: sha384_end_def sha2_digest length_IVs)

lemmas suite_defs = sha256_suite_def sha384_suite_def skein_suite_def initializeSha256Context_def
  initializeSha384Context_def sha256Ctx_def sha384Ctx_def finalizeSha256Context_def finalizeSha384Context_def

lemma list_all_smaller: "list_all (\<lambda>d. length d < (a :: nat)) ds \<Longrightarrow> a \<le> b \<Longrightarrow> list_all (\<lambda>d. length d < b) ds"
  by (auto simp: list_all_iff)

lemma length_hmac_spec: "(\<And>m. length (H m) = n) \<Longrightarrow> length (hmac_spec B H k m) = n"
  by (simp add: hmac_spec_def Let_def)

lemma hmac_sha2_pieces:
  assumes "length k < 2 ^ 31" "list_all (\<lambda>d. length d < 2 ^ 31) ds"
  shows "fst (hmac_sha256_list c k ds) = hmac_spec 64 SHA256 k (concat ds)"
    and "fst (hmac_sha384_list c' k ds) = hmac_spec 128 SHA384 k (concat ds)"
  using hmac_sha256_list[of k ds] hmac_sha384_list[of k ds] assms list_all_smaller[OF assms(2), of "2 ^ 32"]
    list_all_smaller[OF assms(2), of "2 ^ 64"] by simp_all

interpretation suite256: negotiated_hash sha256_suite good_union holds256 SHA256 "hmac_spec 64 SHA256"
proof unfold_locales
  show "holds256 (m @ d) (hashCtxFunction sha256_suite d u)" if "holds256 m u" "length d < 2 ^ 31" for m d u
    using that sha256.update_absorbs[of i256 m "sha256_mem u" d] by (simp add: suite_defs holds256_def length_IVs)
  show "holds256 [] (createHashCtx sha256_suite u)" if "good_union u" for u
    using that by (simp add: suite_defs holds256_def good_union_def sha256_begin_def sha256.absorbed_begin)
  show "closeHashCtx sha256_suite u = SHA256 m" if "holds256 m u" for m u
    using that end256 by (auto simp: suite_defs holds256_def split_beta)
qed (auto simp: suite_defs holds256_def good_union_def md_absorbed_def sha256_list_def sha256_pieces zero_sha2_good
    list_all_smaller hmac_sha2_one hmac_sha2_pieces length_sha256_spec length_hmac_spec)

interpretation suite384: negotiated_hash sha384_suite good_union holds384 SHA384 "hmac_spec 128 SHA384"
proof unfold_locales
  show "holds384 (m @ d) (hashCtxFunction sha384_suite d u)" if "holds384 m u" "length d < 2 ^ 31" for m d u
    using that sha512.update_absorbs[of i384 m "sha384_mem u" d] by (simp add: suite_defs holds384_def length_IVs)
  show "holds384 [] (createHashCtx sha384_suite u)" if "good_union u" for u
    using that by (simp add: suite_defs holds384_def good_union_def sha384_begin_def sha512.absorbed_begin)
  show "closeHashCtx sha384_suite u = SHA384 m" if "holds384 m u" for m u
    using that end384 by (auto simp: suite_defs holds384_def split_beta)
qed (auto simp: suite_defs holds384_def good_union_def md_absorbed_def sha384_list_def sha384_pieces zero_sha2_good
    list_all_smaller hmac_sha2_one hmac_sha2_pieces length_sha384_spec length_hmac_spec)

text \<open>Skein keeps the laws when its digests and MACs have the size asked for.\<close>

definition skein_ok :: "skein \<Rightarrow> bool" where
  "skein_ok K \<longleftrightarrow> (\<forall>m. length (skein256 K m) = 32 \<and> length (skein384 K m) = 48) \<and>
    (\<forall>k m. length (macSkein256 K k m) = 32 \<and> length (macSkein384 K k m) = 48)"

lemma suite_skein:
  assumes "\<And>m. length (h m) = n" "\<And>k m. length (mac k m) = n" "n = 32 \<or> n = 48"
  shows "negotiated_hash (skein_suite n h mac) good_union holds_skein h mac"
  using assms by unfold_locales (auto simp: suite_defs holds_skein_def good_union_def)

lemma ordinals: "map (\<lambda>a. getOrdinal a zrtpHashes) (algos zrtpHashes) = [0, 1, 2, 3]"
  by code_simp

text \<open>Every known algorithm gives functions that keep the laws.\<close>

lemma negotiated:
  assumes "skein_ok K" "a \<in> set (algos zrtpHashes)"
  obtains S holds H MAC where "\<And>old. setNegotiatedHash K a old = S" "negotiated_hash S good_union holds H MAC"
proof -
  have "getOrdinal a zrtpHashes \<in> set (map (\<lambda>a. getOrdinal a zrtpHashes) (algos zrtpHashes))" using assms(2) by simp
  then have "getOrdinal a zrtpHashes \<in> {0, 1, 2, 3}" unfolding ordinals by simp
  then consider "getOrdinal a zrtpHashes = 0" | "getOrdinal a zrtpHashes = 1" | "getOrdinal a zrtpHashes = 2" |
    "getOrdinal a zrtpHashes = 3" by blast
  then show thesis
  proof cases
    case 1 then show thesis by (intro that[OF _ suite256.negotiated_hash_axioms]) (simp add: setNegotiatedHash_def)
  next
    case 2 then show thesis by (intro that[OF _ suite384.negotiated_hash_axioms]) (simp add: setNegotiatedHash_def)
  next
    case 3
    have "negotiated_hash (skein_suite 32 (skein256 K) (macSkein256 K)) good_union holds_skein (skein256 K) (macSkein256 K)"
      using assms(1) by (intro suite_skein) (simp_all add: skein_ok_def)
    with 3 show thesis by (intro that) (simp_all add: setNegotiatedHash_def)
  next
    case 4
    have "negotiated_hash (skein_suite 48 (skein384 K) (macSkein384 K)) good_union holds_skein (skein384 K) (macSkein384 K)"
      using assms(1) by (intro suite_skein) (simp_all add: skein_ok_def)
    with 4 show thesis by (intro that) (simp_all add: setNegotiatedHash_def)
  qed
qed

end
