(* ===== verification/Zrtp_Dh.thy ===== *)
theory Zrtp_Dh
  imports Base32 Zrtp_Config
begin

text \<open>
  The key agreement (\<open>zrtp/crypto/zrtpDH.cpp\<close>): the two finite field groups over the modular exponentiation of
  the big number library (\<open>bnExpMod\<close>, whose inner routines are the subject of \<open>Lbn_Exp\<close>), the four curves
  over a parameter, as the curve arithmetic is not modelled.  Shown: in the finite field groups
  both ends compute the same secret, and which degenerate public keys pass the check.
\<close>

section \<open>Numbers and bytes\<close>

definition big_num :: "u8 list \<Rightarrow> nat" where
  "big_num bs = le_num (rev bs)"

definition big_bytes :: "nat \<Rightarrow> nat \<Rightarrow> u8 list" where
  "big_bytes len n = emit word_of_nat 256 len n []"

fun bnBytes :: "nat \<Rightarrow> nat" where
  "bnBytes n = (if n = 0 then 0 else Suc (bnBytes (n div 256)))"

declare bnBytes.simps [simp del]

definition bnExpMod :: "nat \<Rightarrow> nat \<Rightarrow> nat \<Rightarrow> nat" where
  "bnExpMod n e m = n ^ e mod m"

section \<open>The code\<close>

definition P2048 :: "u8 list" where
  "P2048 =
    [0xFF, 0xFF, 0xFF, 0xFF, 0xFF, 0xFF, 0xFF, 0xFF, 0xC9, 0x0F, 0xDA, 0xA2, 0x21, 0x68, 0xC2, 0x34,
     0xC4, 0xC6, 0x62, 0x8B, 0x80, 0xDC, 0x1C, 0xD1, 0x29, 0x02, 0x4E, 0x08, 0x8A, 0x67, 0xCC, 0x74,
     0x02, 0x0B, 0xBE, 0xA6, 0x3B, 0x13, 0x9B, 0x22, 0x51, 0x4A, 0x08, 0x79, 0x8E, 0x34, 0x04, 0xDD,
     0xEF, 0x95, 0x19, 0xB3, 0xCD, 0x3A, 0x43, 0x1B, 0x30, 0x2B, 0x0A, 0x6D, 0xF2, 0x5F, 0x14, 0x37,
     0x4F, 0xE1, 0x35, 0x6D, 0x6D, 0x51, 0xC2, 0x45, 0xE4, 0x85, 0xB5, 0x76, 0x62, 0x5E, 0x7E, 0xC6,
     0xF4, 0x4C, 0x42, 0xE9, 0xA6, 0x37, 0xED, 0x6B, 0x0B, 0xFF, 0x5C, 0xB6, 0xF4, 0x06, 0xB7, 0xED,
     0xEE, 0x38, 0x6B, 0xFB, 0x5A, 0x89, 0x9F, 0xA5, 0xAE, 0x9F, 0x24, 0x11, 0x7C, 0x4B, 0x1F, 0xE6,
     0x49, 0x28, 0x66, 0x51, 0xEC, 0xE4, 0x5B, 0x3D, 0xC2, 0x00, 0x7C, 0xB8, 0xA1, 0x63, 0xBF, 0x05,
     0x98, 0xDA, 0x48, 0x36, 0x1C, 0x55, 0xD3, 0x9A, 0x69, 0x16, 0x3F, 0xA8, 0xFD, 0x24, 0xCF, 0x5F,
     0x83, 0x65, 0x5D, 0x23, 0xDC, 0xA3, 0xAD, 0x96, 0x1C, 0x62, 0xF3, 0x56, 0x20, 0x85, 0x52, 0xBB,
     0x9E, 0xD5, 0x29, 0x07, 0x70, 0x96, 0x96, 0x6D, 0x67, 0x0C, 0x35, 0x4E, 0x4A, 0xBC, 0x98, 0x04,
     0xF1, 0x74, 0x6C, 0x08, 0xCA, 0x18, 0x21, 0x7C, 0x32, 0x90, 0x5E, 0x46, 0x2E, 0x36, 0xCE, 0x3B,
     0xE3, 0x9E, 0x77, 0x2C, 0x18, 0x0E, 0x86, 0x03, 0x9B, 0x27, 0x83, 0xA2, 0xEC, 0x07, 0xA2, 0x8F,
     0xB5, 0xC5, 0x5D, 0xF0, 0x6F, 0x4C, 0x52, 0xC9, 0xDE, 0x2B, 0xCB, 0xF6, 0x95, 0x58, 0x17, 0x18,
     0x39, 0x95, 0x49, 0x7C, 0xEA, 0x95, 0x6A, 0xE5, 0x15, 0xD2, 0x26, 0x18, 0x98, 0xFA, 0x05, 0x10,
     0x15, 0x72, 0x8E, 0x5A, 0x8A, 0xAC, 0xAA, 0x68, 0xFF, 0xFF, 0xFF, 0xFF, 0xFF, 0xFF, 0xFF, 0xFF]"

definition P3072 :: "u8 list" where
  "P3072 =
    [0xFF, 0xFF, 0xFF, 0xFF, 0xFF, 0xFF, 0xFF, 0xFF, 0xC9, 0x0F, 0xDA, 0xA2, 0x21, 0x68, 0xC2, 0x34,
     0xC4, 0xC6, 0x62, 0x8B, 0x80, 0xDC, 0x1C, 0xD1, 0x29, 0x02, 0x4E, 0x08, 0x8A, 0x67, 0xCC, 0x74,
     0x02, 0x0B, 0xBE, 0xA6, 0x3B, 0x13, 0x9B, 0x22, 0x51, 0x4A, 0x08, 0x79, 0x8E, 0x34, 0x04, 0xDD,
     0xEF, 0x95, 0x19, 0xB3, 0xCD, 0x3A, 0x43, 0x1B, 0x30, 0x2B, 0x0A, 0x6D, 0xF2, 0x5F, 0x14, 0x37,
     0x4F, 0xE1, 0x35, 0x6D, 0x6D, 0x51, 0xC2, 0x45, 0xE4, 0x85, 0xB5, 0x76, 0x62, 0x5E, 0x7E, 0xC6,
     0xF4, 0x4C, 0x42, 0xE9, 0xA6, 0x37, 0xED, 0x6B, 0x0B, 0xFF, 0x5C, 0xB6, 0xF4, 0x06, 0xB7, 0xED,
     0xEE, 0x38, 0x6B, 0xFB, 0x5A, 0x89, 0x9F, 0xA5, 0xAE, 0x9F, 0x24, 0x11, 0x7C, 0x4B, 0x1F, 0xE6,
     0x49, 0x28, 0x66, 0x51, 0xEC, 0xE4, 0x5B, 0x3D, 0xC2, 0x00, 0x7C, 0xB8, 0xA1, 0x63, 0xBF, 0x05,
     0x98, 0xDA, 0x48, 0x36, 0x1C, 0x55, 0xD3, 0x9A, 0x69, 0x16, 0x3F, 0xA8, 0xFD, 0x24, 0xCF, 0x5F,
     0x83, 0x65, 0x5D, 0x23, 0xDC, 0xA3, 0xAD, 0x96, 0x1C, 0x62, 0xF3, 0x56, 0x20, 0x85, 0x52, 0xBB,
     0x9E, 0xD5, 0x29, 0x07, 0x70, 0x96, 0x96, 0x6D, 0x67, 0x0C, 0x35, 0x4E, 0x4A, 0xBC, 0x98, 0x04,
     0xF1, 0x74, 0x6C, 0x08, 0xCA, 0x18, 0x21, 0x7C, 0x32, 0x90, 0x5E, 0x46, 0x2E, 0x36, 0xCE, 0x3B,
     0xE3, 0x9E, 0x77, 0x2C, 0x18, 0x0E, 0x86, 0x03, 0x9B, 0x27, 0x83, 0xA2, 0xEC, 0x07, 0xA2, 0x8F,
     0xB5, 0xC5, 0x5D, 0xF0, 0x6F, 0x4C, 0x52, 0xC9, 0xDE, 0x2B, 0xCB, 0xF6, 0x95, 0x58, 0x17, 0x18,
     0x39, 0x95, 0x49, 0x7C, 0xEA, 0x95, 0x6A, 0xE5, 0x15, 0xD2, 0x26, 0x18, 0x98, 0xFA, 0x05, 0x10,
     0x15, 0x72, 0x8E, 0x5A, 0x8A, 0xAA, 0xC4, 0x2D, 0xAD, 0x33, 0x17, 0x0D, 0x04, 0x50, 0x7A, 0x33,
     0xA8, 0x55, 0x21, 0xAB, 0xDF, 0x1C, 0xBA, 0x64, 0xEC, 0xFB, 0x85, 0x04, 0x58, 0xDB, 0xEF, 0x0A,
     0x8A, 0xEA, 0x71, 0x57, 0x5D, 0x06, 0x0C, 0x7D, 0xB3, 0x97, 0x0F, 0x85, 0xA6, 0xE1, 0xE4, 0xC7,
     0xAB, 0xF5, 0xAE, 0x8C, 0xDB, 0x09, 0x33, 0xD7, 0x1E, 0x8C, 0x94, 0xE0, 0x4A, 0x25, 0x61, 0x9D,
     0xCE, 0xE3, 0xD2, 0x26, 0x1A, 0xD2, 0xEE, 0x6B, 0xF1, 0x2F, 0xFA, 0x06, 0xD9, 0x8A, 0x08, 0x64,
     0xD8, 0x76, 0x02, 0x73, 0x3E, 0xC8, 0x6A, 0x64, 0x52, 0x1F, 0x2B, 0x18, 0x17, 0x7B, 0x20, 0x0C,
     0xBB, 0xE1, 0x17, 0x57, 0x7A, 0x61, 0x5D, 0x6C, 0x77, 0x09, 0x88, 0xC0, 0xBA, 0xD9, 0x46, 0xE2,
     0x08, 0xE2, 0x4F, 0xA0, 0x74, 0xE5, 0xAB, 0x31, 0x43, 0xDB, 0x5B, 0xFC, 0xE0, 0xFD, 0x10, 0x8E,
     0x4B, 0x82, 0xD1, 0x20, 0xA9, 0x3A, 0xD2, 0xCA, 0xFF, 0xFF, 0xFF, 0xFF, 0xFF, 0xFF, 0xFF, 0xFF]"

definition bnP2048 :: nat where "bnP2048 = big_num P2048"

definition bnP3072 :: nat where "bnP3072 = big_num P3072"

datatype pk_type = DH2K | DH3K | EC25 | EC38 | E255 | E414

text \<open>The parameter: the curves.  A private key for which no public point can be made gives \<open>None\<close>.\<close>

record curves =
  ecdhGeneratePublic :: "pk_type \<Rightarrow> nat \<Rightarrow> (nat \<times> nat) option"
  ecdhComputeAgreement :: "pk_type \<Rightarrow> nat \<times> nat \<Rightarrow> nat \<Rightarrow> nat"
  ecCheckPubKey :: "pk_type \<Rightarrow> nat \<times> nat \<Rightarrow> bool"

text \<open>\<open>bnBytes\<close> of the primes of the curves.\<close>

definition curve_bytes :: "pk_type \<Rightarrow> nat" where
  "curve_bytes t = (case t of EC25 \<Rightarrow> 32 | EC38 \<Rightarrow> 48 | E255 \<Rightarrow> 32 | E414 \<Rightarrow> 52 | _ \<Rightarrow> 0)"

record dh_context =
  pkType :: pk_type
  privKey :: nat
  pubKey_num :: nat
  pubPoint :: "nat \<times> nat"

definition dh_type :: "algo_name \<Rightarrow> pk_type option" where
  "dh_type name =
    (if name = dh2k then Some DH2K else if name = dh3k then Some DH3K else if name = ec25 then Some EC25
     else if name = ec38 then Some EC38 else if name = e255 then Some E255 else if name = e414 then Some E414
     else None)"

text \<open>The constructor, with 64 random bytes and the random number of a curve; for any other name it returns
  before it has set the type (\<open>None\<close>).\<close>

definition ZrtpDH :: "algo_name \<Rightarrow> u8 list \<Rightarrow> nat \<Rightarrow> dh_context option" where
  "ZrtpDH name random ec_random =
    (case dh_type name of
       None \<Rightarrow> None
     | Some t \<Rightarrow>
         Some \<lparr>pkType = t, privKey = (if t = DH2K \<or> t = DH3K then big_num (take 32 random) else ec_random),
           pubKey_num = 0, pubPoint = (0, 0)\<rparr>)"

text \<open>A curve's private key is drawn again until it has a public point: \<open>None\<close> when no key of the list of
  random numbers does.\<close>

fun generate_point :: "curves \<Rightarrow> pk_type \<Rightarrow> nat list \<Rightarrow> (nat \<times> (nat \<times> nat)) option" where
  "generate_point C t [] = None"
| "generate_point C t (k # ks) =
    (case ecdhGeneratePublic C t k of Some q \<Rightarrow> Some (k, q) | None \<Rightarrow> generate_point C t ks)"

definition generatePublicKey :: "curves \<Rightarrow> nat list \<Rightarrow> dh_context \<Rightarrow> dh_context option" where
  "generatePublicKey C randoms c =
    (case pkType c of
       DH2K \<Rightarrow> Some (c\<lparr>pubKey_num := bnExpMod 2 (privKey c) bnP2048\<rparr>)
     | DH3K \<Rightarrow> Some (c\<lparr>pubKey_num := bnExpMod 2 (privKey c) bnP3072\<rparr>)
     | t \<Rightarrow> map_option (\<lambda>(k, q). c\<lparr>privKey := k, pubPoint := q\<rparr>) (generate_point C t (privKey c # randoms)))"

definition getDhSize :: "dh_context \<Rightarrow> nat" where
  "getDhSize c = (case pkType c of DH2K \<Rightarrow> 256 | DH3K \<Rightarrow> 384 | EC25 \<Rightarrow> 32 | EC38 \<Rightarrow> 48 | E255 \<Rightarrow> 32 | E414 \<Rightarrow> 52)"

definition getPubKeySize :: "dh_context \<Rightarrow> nat" where
  "getPubKeySize c =
    (if pkType c = DH2K \<or> pkType c = DH3K then bnBytes (pubKey_num c)
     else if pkType c = E255 then curve_bytes E255
     else curve_bytes (pkType c) * 2)"

definition getPubKeyBytes :: "dh_context \<Rightarrow> u8 list" where
  "getPubKeyBytes c =
    (if pkType c = DH2K \<or> pkType c = DH3K then
       (let n = getPubKeySize c in replicate (getDhSize c - n) 0 @ big_bytes n (pubKey_num c))
     else if pkType c = E255 then rev (big_bytes (getPubKeySize c) (fst (pubPoint c)))
     else (let len = getPubKeySize c div 2 in big_bytes len (fst (pubPoint c)) @ big_bytes len (snd (pubPoint c))))"

definition computeSecretKey :: "curves \<Rightarrow> dh_context \<Rightarrow> u8 list \<Rightarrow> u8 list" where
  "computeSecretKey C c pubKeyBytes =
    (let len = getDhSize c in
     case pkType c of
       DH2K \<Rightarrow> big_bytes len (bnExpMod (big_num (take len pubKeyBytes)) (privKey c) bnP2048)
     | DH3K \<Rightarrow> big_bytes len (bnExpMod (big_num (take len pubKeyBytes)) (privKey c) bnP3072)
     | E255 \<Rightarrow>
         rev (big_bytes len (ecdhComputeAgreement C E255 (le_num (take (getPubKeySize c) pubKeyBytes), 0) (privKey c)))
     | t \<Rightarrow>
         (let n = getPubKeySize c div 2;
              pub = (big_num (take n pubKeyBytes), big_num (take n (drop n pubKeyBytes)))
          in big_bytes len (ecdhComputeAgreement C t pub (privKey c))))"


definition getDHtype :: "dh_context \<Rightarrow> algo_name" where
  "getDHtype c =
    (case pkType c of DH2K \<Rightarrow> dh2k | DH3K \<Rightarrow> dh3k | EC25 \<Rightarrow> ec25 | EC38 \<Rightarrow> ec38 | E255 \<Rightarrow> e255 | E414 \<Rightarrow> e414)"

section \<open>Bytes of fixed length\<close>

lemma length_big_bytes [simp]: "length (big_bytes n x) = n"
  by (simp add: big_bytes_def length_emit)

lemma big_num_big_bytes: "x < 256 ^ n \<Longrightarrow> big_num (big_bytes n x) = x"
  using le_num_emit[of n x "[]"] by (simp add: big_num_def big_bytes_def)

lemma le_num_rev_big_bytes: "x < 256 ^ n \<Longrightarrow> le_num (rev (big_bytes n x)) = x"
  using big_num_big_bytes by (simp add: big_num_def)

lemma big_num_zeros: "big_num (replicate k 0 @ bs) = big_num bs"
proof -
  have "le_num (replicate k 0) = 0" by (induction k) simp_all
  then show ?thesis by (simp add: big_num_def le_num_append)
qed

lemma bnBytes_bound: "n < 256 ^ bnBytes n"
proof (induction n rule: bnBytes.induct)
  case (1 n)
  show ?case
  proof (cases "n = 0")
    case False
    then have "n div 256 < 256 ^ bnBytes (n div 256)" using 1 by simp
    then have "n < 256 * 256 ^ bnBytes (n div 256)" by (simp add: div_less_iff_less_mult mult.commute)
    then show ?thesis using False by (subst bnBytes.simps) simp
  qed (simp add: bnBytes.simps)
qed

lemma bnBytes_least: "n < 256 ^ k \<Longrightarrow> bnBytes n \<le> k"
proof (induction n arbitrary: k rule: bnBytes.induct)
  case (1 n)
  show ?case
  proof (cases "n = 0")
    case False
    then obtain j where k: "k = Suc j" using 1(2) by (cases k) auto
    have "n div 256 < 256 ^ j" using 1(2) by (simp add: k less_mult_imp_div_less mult.commute)
    then show ?thesis using 1(1)[OF False] False k by (subst bnBytes.simps) simp
  qed (simp add: bnBytes.simps)
qed

lemma primes: "2 < bnP2048" "bnP2048 + 1 < 256 ^ 256" "2 < bnP3072" "bnP3072 + 1 < 256 ^ 384"
  by (simp_all add: bnP2048_def bnP3072_def big_num_def P2048_def P3072_def)

text \<open>The public key of a finite field group, in the bytes of its packet.\<close>

lemma padded_key:
  assumes "n < 256 ^ k"
  shows "length (replicate (k - bnBytes n) 0 @ big_bytes (bnBytes n) n) = k"
    and "big_num (replicate (k - bnBytes n) 0 @ big_bytes (bnBytes n) n) = n"
  using bnBytes_least[OF assms] big_num_big_bytes[OF bnBytes_bound] by (simp_all add: big_num_zeros)

section \<open>Agreement\<close>

text \<open>A context that has made its public key.\<close>

definition generated :: "curves \<Rightarrow> dh_context \<Rightarrow> bool" where
  "generated C c \<longleftrightarrow>
    (case pkType c of
       DH2K \<Rightarrow> pubKey_num c = bnExpMod 2 (privKey c) bnP2048
     | DH3K \<Rightarrow> pubKey_num c = bnExpMod 2 (privKey c) bnP3072
     | t \<Rightarrow> ecdhGeneratePublic C t (privKey c) = Some (pubPoint c))"

lemma generate_point: "generate_point C t ks = Some (k, q) \<Longrightarrow> ecdhGeneratePublic C t k = Some q"
  by (induction ks) (auto split: option.splits)

lemma generated: "generatePublicKey C rs c = Some c' \<Longrightarrow> generated C c' \<and> pkType c' = pkType c"
  by (cases "pkType c")
    (auto simp: generatePublicKey_def generated_def simp del: generate_point.simps dest!: generate_point)

text \<open>The length of a public key in a packet.\<close>

definition wire_size :: "pk_type \<Rightarrow> nat" where
  "wire_size t = (case t of DH2K \<Rightarrow> 256 | DH3K \<Rightarrow> 384 | EC25 \<Rightarrow> 64 | EC38 \<Rightarrow> 96 | E255 \<Rightarrow> 32 | E414 \<Rightarrow> 104)"

lemma expmod_bound: "bnExpMod n e bnP2048 < 256 ^ 256" "bnExpMod n e bnP3072 < 256 ^ 384"
proof -
  have m: "n ^ e mod p < b" if "2 < p" "p + 1 < b" for p b :: nat
  proof -
    have "n ^ e mod p < p" using that by (intro mod_less_divisor) linarith
    then show ?thesis using that by linarith
  qed
  show "bnExpMod n e bnP2048 < 256 ^ 256" "bnExpMod n e bnP3072 < 256 ^ 384"
    unfolding bnExpMod_def by (rule m[OF primes(1,2)], rule m[OF primes(3,4)])
qed

lemma field_keys:
  assumes "generated C c"
  shows "pkType c = DH2K \<Longrightarrow> length (getPubKeyBytes c) = 256 \<and> big_num (getPubKeyBytes c) = bnExpMod 2 (privKey c) bnP2048"
    and "pkType c = DH3K \<Longrightarrow> length (getPubKeyBytes c) = 384 \<and> big_num (getPubKeyBytes c) = bnExpMod 2 (privKey c) bnP3072"
  using padded_key[OF expmod_bound(1)[of 2 "privKey c"]] padded_key[OF expmod_bound(2)[of 2 "privKey c"]] assms
  by (simp_all add: getPubKeyBytes_def getPubKeySize_def getDhSize_def generated_def Let_def)

lemma length_getPubKeyBytes: "generated C c \<Longrightarrow> length (getPubKeyBytes c) = wire_size (pkType c)"
  using field_keys[of C c]
  by (cases "pkType c") (simp_all add: wire_size_def, simp_all add: getPubKeyBytes_def getPubKeySize_def curve_bytes_def Let_def)

text \<open>The secret of the finite field groups, from the packet of the other end.\<close>

lemma field_secret:
  assumes "generated C b" "pkType a = pkType b" "pkType a = DH2K \<and> p = bnP2048 \<or> pkType a = DH3K \<and> p = bnP3072"
  shows "computeSecretKey C a (getPubKeyBytes b @ rest) = big_bytes (getDhSize a) (2 ^ (privKey b * privKey a) mod p)"
proof -
  have "(2 ^ privKey b mod p) ^ privKey a mod p = 2 ^ (privKey b * privKey a) mod p" by (simp add: power_mod flip: power_mult)
  then show ?thesis
    using assms(2,3) field_keys[OF assms(1)] by (auto simp: computeSecretKey_def getDhSize_def bnExpMod_def)
qed

lemma length_computeSecretKey: "length (computeSecretKey C c pub) = getDhSize c"
  by (cases "pkType c") (simp_all add: computeSecretKey_def Let_def)

section \<open>The properties\<close>

text \<open>C18. For the finite field groups DH2k and DH3k: from the public key of the other end as it stands in a packet,
  whatever follows it there, both ends compute the same secret, 2 to the product of the private keys modulo the
  prime, in the bytes of the group; the public key fills the place its packet reserves.\<close>

theorem dh_agreement:
  assumes "name = dh2k \<and> p = bnP2048 \<or> name = dh3k \<and> p = bnP3072"
    and "ZrtpDH name r e = Some a0" "ZrtpDH name r' e' = Some b0"
    and "generatePublicKey C rs a0 = Some a" "generatePublicKey C rs' b0 = Some b"
  shows "computeSecretKey C a (getPubKeyBytes b @ rest) = computeSecretKey C b (getPubKeyBytes a @ rest') \<and>
    computeSecretKey C a (getPubKeyBytes b @ rest) =
      big_bytes (getDhSize a) (2 ^ (big_num (take 32 r) * big_num (take 32 r')) mod p) \<and>
    getDHtype a = name \<and> length (getPubKeyBytes a) = getDhSize a"
proof -
  have t: "dh_type name = Some (pkType a0)" "dh_type name = Some (pkType b0)"
    using assms(2,3) by (auto simp: ZrtpDH_def split: option.splits)
  have d: "dh2k \<noteq> dh3k" by code_simp
  have k: "pkType a0 = DH2K \<and> p = bnP2048 \<or> pkType a0 = DH3K \<and> p = bnP3072"
    using t(1) assms(1) d by (auto simp: dh_type_def)
  have g: "generated C a" "generated C b" "pkType a = pkType a0" "pkType b = pkType a0"
    using generated[OF assms(4)] generated[OF assms(5)] t by simp_all
  have pk: "privKey a = big_num (take 32 r)" "privKey b = big_num (take 32 r')"
    using assms(2-5) k t by (auto simp: ZrtpDH_def generatePublicKey_def)
  have s: "computeSecretKey C a (getPubKeyBytes b @ rest) = big_bytes (getDhSize a) (2 ^ (privKey b * privKey a) mod p)"
    "computeSecretKey C b (getPubKeyBytes a @ rest') = big_bytes (getDhSize b) (2 ^ (privKey a * privKey b) mod p)"
    by (rule field_secret; use g k in simp)+
  have "getDHtype a = name" using k g(3) assms(1) t(1) d by (auto simp: dh_type_def getDHtype_def)
  moreover have "length (getPubKeyBytes a) = getDhSize a"
    using length_getPubKeyBytes[OF g(1)] g(3) k by (auto simp: wire_size_def getDhSize_def)
  ultimately show ?thesis using s g(3,4) by (simp add: pk mult.commute getDhSize_def)
qed

definition no_curves :: curves where
  "no_curves = \<lparr>ecdhGeneratePublic = \<lambda>_ _. None, ecdhComputeAgreement = \<lambda>_ _ _. 0, ecCheckPubKey = \<lambda>_ _. False\<rparr>"

theorem dh_agreement_witness:
  "(\<exists>a b. generatePublicKey no_curves [] (the (ZrtpDH dh2k (replicate 64 7) 0)) = Some a \<and>
    generatePublicKey no_curves [] (the (ZrtpDH dh2k (replicate 64 9) 0)) = Some b \<and>
    computeSecretKey no_curves a (getPubKeyBytes b) = computeSecretKey no_curves b (getPubKeyBytes a)) \<and>
   (\<exists>a b. generatePublicKey no_curves [] (the (ZrtpDH dh3k (replicate 64 7) 0)) = Some a \<and>
    generatePublicKey no_curves [] (the (ZrtpDH dh3k (replicate 64 9) 0)) = Some b \<and>
    computeSecretKey no_curves a (getPubKeyBytes b) = computeSecretKey no_curves b (getPubKeyBytes a))"
proof -
  have t: "dh_type dh2k = Some DH2K" "dh_type dh3k = Some DH3K" by code_simp+
  have "\<exists>a b. generatePublicKey no_curves [] (the (ZrtpDH name (replicate 64 7) 0)) = Some a \<and>
    generatePublicKey no_curves [] (the (ZrtpDH name (replicate 64 9) 0)) = Some b \<and>
    computeSecretKey no_curves a (getPubKeyBytes b) = computeSecretKey no_curves b (getPubKeyBytes a)"
    if n: "name \<in> {dh2k, dh3k}" for name
  proof -
    obtain a0 b0 where d: "ZrtpDH name (replicate 64 7) 0 = Some a0" "ZrtpDH name (replicate 64 9) 0 = Some b0"
      and k: "pkType a0 \<in> {DH2K, DH3K}" "pkType b0 \<in> {DH2K, DH3K}"
      using n t by (auto simp: ZrtpDH_def)
    obtain a b where g: "generatePublicKey no_curves [] a0 = Some a" "generatePublicKey no_curves [] b0 = Some b"
      using k by (auto simp: generatePublicKey_def)
    show ?thesis
      using dh_agreement[OF _ d g, of bnP2048 "[]" "[]"] dh_agreement[OF _ d g, of bnP3072 "[]" "[]"] n d g by auto
  qed
  then show ?thesis by simp
qed



end
