(* ===== verification/Spec2Isabelle.thy ===== *)
theory Spec2Isabelle
  imports Sha1 Base64 Lbn_Correct Zrtp_Correct Srtp_Ctrl Zrtp_Select_Correct Zrtp_Sas Zrtp_Hash Zrtp_Dh
begin

text \<open>
  Silent Phone for iOS: the cryptographic and coding core of its ZRTP library (\<open>src/libs/zrtp\<close>).

  \<^bold>\<open>The program.\<close> A call is secured in three layers.  The ZRTP protocol engine (\<open>zrtp/ZrtpStateClass.cpp\<close>) is a
  state machine over received packets and timers; it asks the session (class \<open>ZRtp\<close>, \<open>zrtp/ZRtp.cpp\<close>) to check
  each packet and to prepare the next one, and tells it when SRTP is to be switched on or off.  The session
  offers and selects algorithms (\<open>ZrtpConfigure.cpp\<close>, \<open>ZrtpPacketHello.cpp\<close>), agrees on a secret
  (\<open>crypto/zrtpDH.cpp\<close>) over the big number library (\<open>bnlib/lbn32.c\<close>), derives keys with the hash functions
  (\<open>crypto/sha2.c\<close>, \<open>sha256.cpp\<close>, \<open>hmac256.cpp\<close> and others) and renders a short authentication string
  (\<open>Base32.cpp\<close>, \<open>EmojiBase32.cpp\<close>).  With the keys, the SRTP contexts (\<open>srtp/CryptoContext.cpp\<close>,
  \<open>CryptoContextCtrl.cpp\<close>, \<open>SrtpHandler.cpp\<close>) encrypt, authenticate and check the media packets.

  \<^bold>\<open>Conventions.\<close> A byte is \<open>u8\<close>, a machine integer of 32 or 64 bits a word that wraps; arrays and packets
  are lists of bytes, structs and classes are records, enumerations datatypes.  A failure of the code is an
  answer of the function (\<open>option\<close> or a datatype); where the code would read or write outside its memory, follow
  a null pointer or not return, the function has no result (\<open>None\<close>), and the properties say when this is so.
  Uninitialised memory, random bytes and the time are arguments.  Named algorithms are four characters, as in the
  packets.  Names are those of the code; a name that Isabelle has already carries a suffix.

  \<^bold>\<open>Foundations.\<close> \<open>Prelude\<close>: bytes to words and back, \<open>poke\<close> (writing bytes into a buffer), cutting a list
  into blocks, the shared simplification rules.

  \<^bold>\<open>Hash functions.\<close> \<open>Md_Buffer\<close>: the block buffer that SHA-1 and SHA-2 share, as a locale, with the one proof
  that feeding a message in any pieces digests the padded message.  \<open>Sha1\<close> (\<open>srtp/crypto/sha1.c\<close>), \<open>Sha2\<close>
  (\<open>zrtp/crypto/sha2.c\<close>): the compression functions against those of FIPS 180-4, and the interpretations of the
  locale.  \<open>Hmac\<close> (\<open>srtp/crypto/hmac.cpp\<close>): the construction of RFC 2104 over any streaming hash, as a locale, and
  HMAC-SHA1.  \<open>Zrtp_Hash\<close>: the functions of \<open>crypto/sha256.cpp\<close>, \<open>sha384.cpp\<close>, \<open>hmac256.cpp\<close>, \<open>hmac384.cpp\<close>, and
  the table of function pointers of \<open>setNegotiatedHash\<close> with the locale of laws that its users rely on.

  \<^bold>\<open>Coders.\<close> \<open>Base64\<close> (\<open>zrtpB64Encode.c\<close>, \<open>zrtpB64Decode.c\<close>), both with their state between calls.  \<open>Base32\<close>:
  the coder and decoder as loops entered in the middle; the characters are the digits of the bytes as a number.
  \<open>Zrtp_Sas\<close>: the word lists and the rendering of the short authentication string.

  \<^bold>\<open>Big numbers.\<close> \<open>Lbn_Word\<close> to \<open>Lbn_Precomp\<close> follow \<open>bnlib/lbn32.c\<close>: a number is a range of 32-bit words in
  a memory, every routine changes this memory through a pointer and a length, carries and borrows are kept.
  \<open>Lbn_Add\<close>, \<open>Lbn_Mul\<close>, \<open>Lbn_Div\<close>, \<open>Lbn_Mont\<close>, \<open>Lbn_Gcd\<close>, \<open>Lbn_Exp\<close>, \<open>Lbn_Double\<close>, \<open>Lbn_Two\<close>,
  \<open>Lbn_Precomp\<close>, \<open>Lbn_Bytes\<close> are addition to conversion; each routine is shown to compute the operation on the
  numbers that the ranges stand for.  \<open>Lbn_Correct\<close> has their properties.  Loops whose end is not structural
  have a measure, or a fuel computed from the lengths with a lemma that it is enough.

  \<^bold>\<open>SRTP.\<close> \<open>Srtp_Cipher\<close>: counter mode and F8 mode over any block function (\<open>srtp/crypto/SrtpSymCrypto.cpp\<close>).
  \<open>Srtp_Context\<close>: key derivation, replay window, index guess, encryption and tag of a context.  \<open>Srtp_Replay\<close>: the
  window as the set of indices it stands for.  \<open>Srtp_Handler\<close>: packets in their buffer.  \<open>Srtp_Correct\<close>: delivery
  and replay protection of RTP packets; \<open>Srtp_Ctrl\<close>: the same for RTCP.

  \<^bold>\<open>The ZRTP engine.\<close> \<open>Zrtp_Engine\<close>: the state with its timers and the log of the calls into the parent, one
  function per handler, \<open>processEvent\<close> and the entry points.  The answers of the session are a parameter
  (\<open>zrtp_parent\<close>), which may depend on all calls so far.  \<open>Zrtp_Safety\<close>: a locale of machines with guarded
  operations, interpreted on the engine with its invariant.  \<open>Zrtp_Protocol\<close>: the abstract protocol as a
  step relation, its simulation by the engine, and when a stored Commit is lost.  \<open>Zrtp_Live\<close> and \<open>Zrtp_Exchange\<close>:
  repetition ends; two engines that are handed each other's messages become secure.  \<open>Zrtp_Correct\<close>: the properties.

  \<^bold>\<open>The ZRTP session.\<close> \<open>Zrtp_Config\<close> and \<open>Zrtp_Select\<close>: the configuration, the Hello packet and the selection of
  algorithms; \<open>Zrtp_Select_Correct\<close>: both ends of a negotiation select the same public key algorithm, and what is
  selected is valid.  \<open>Zrtp_Dh\<close>: the key agreement.

  \<^bold>\<open>Parameters.\<close> Not modelled, and arguments of the definitions that use them: the block ciphers AES and Twofish,
  the Skein hash, and the arithmetic of the elliptic curves (\<open>bnlib/ec\<close>).  What a property needs of them is a
  named hypothesis, such as lengths; nothing is shown of the agreement on a curve.

  \<^bold>\<open>Bounds.\<close> A piece handed to a hash function is shorter than \<open>2^32\<close> bytes (\<open>2^31\<close> where the length is a signed
  number).  The numbers of the big number library fit the ranges that their callers reserve.  A history of the
  engine sends SAS relay packets in the secure state only, as the client does; the code does not check it.

  \<^bold>\<open>Not modelled.\<close> Input and output, the databases of the ZID cache, threads, random number generation, the
  clients that connect the engine with the phone, the phone engine, the messaging library, and the imported
  cryptographic libraries.  Of the session, the preparation of the packets and the derivation of the keys.
\<close>

end
